(* ===== verification/Prelude.thy ===== *)
theory Prelude
  imports Main "HOL-Library.Word" "HOL-Library.Monad_Syntax"
begin

text \<open>
  Shared vocabulary of the development.

  Memory regions of the C code are byte lists; a byte is an \<open>8 word\<close>. This theory holds
  the little-endian encoding of the fixed-width integers of the C structs, the copy of a run
  of bytes into a region (\<open>blit\<close>, what \<open>memcpy\<close> does inside a region), the
  reading of a run of bytes (\<open>slice\<close>), and the checked accesses \<open>peek\<close> and
  \<open>poke\<close>, which are \<open>None\<close> when the C access would leave the region
  (undefined behaviour in the program, a visible failure here). The lemmas about them are
  collected in \<open>mem_simps\<close> and carry the proofs about page layouts.
\<close>

named_theorems mem_simps

type_synonym byte = "8 word"

section \<open>Little-endian integers\<close>

primrec le_val :: "byte list \<Rightarrow> nat" where
  "le_val [] = 0"
| "le_val (b # bs) = unat b + 256 * le_val bs"

primrec le_bytes :: "nat \<Rightarrow> nat \<Rightarrow> byte list" where
  "le_bytes 0 v = []"
| "le_bytes (Suc n) v = word_of_nat v # le_bytes n (v div 256)"

lemma length_le_bytes [simp]: "length (le_bytes n v) = n"
  by (induction n arbitrary: v) auto

lemma unat_byte_of_nat [simp]: "unat (word_of_nat v :: byte) = v mod 256"
  by (simp add: unat_of_nat)

lemma unat_byte_less [simp]: "unat (b :: byte) < 256"
  by (rule order.strict_trans2 [OF unsigned_less]) simp

lemma le_val_le_bytes: "le_val (le_bytes n v) = v mod 256 ^ n"
proof (induction n arbitrary: v)
  case 0
  then show ?case by simp
next
  case (Suc n)
  have "v mod (256 * 256 ^ n) = 256 * (v div 256 mod 256 ^ n) + v mod 256"
    by (rule mod_mult2_eq)
  with Suc show ?case by simp
qed

lemma le_val_less: "le_val bs < 256 ^ length bs"
proof (induction bs)
  case Nil
  then show ?case by simp
next
  case (Cons b bs)
  have "unat b < 256" by simp
  moreover have "le_val bs + 1 \<le> 256 ^ length bs" using Cons by simp
  then have "256 * le_val bs + 256 \<le> 256 * 256 ^ length bs" by linarith
  ultimately have "unat b + 256 * le_val bs < 256 * 256 ^ length bs" by linarith
  then show ?case by simp
qed

lemma le_val_append: "le_val (xs @ ys) = le_val xs + 256 ^ length xs * le_val ys"
  by (induction xs) (simp_all add: algebra_simps)

lemma le_bytes_le_val: "le_bytes (length bs) (le_val bs) = bs"
proof (induction bs)
  case Nil
  then show ?case by simp
next
  case (Cons b bs)
  have "(unat b + 256 * le_val bs) div 256 = le_val bs" by simp
  moreover have "unat (word_of_nat (unat b + 256 * le_val bs) :: byte) = unat b"
    by (simp only: unat_byte_of_nat) simp
  then have "(word_of_nat (unat b + 256 * le_val bs) :: byte) = b"
    by (simp only: word_unat_eq_iff)
  ultimately show ?case using Cons by simp
qed

lemma le_bytes_mod: "le_bytes n (v mod 256 ^ n) = le_bytes n v"
  using le_bytes_le_val [of "le_bytes n v"] by (simp add: le_val_le_bytes)

lemma le_val_replicate_0 [simp]: "le_val (replicate n 0) = 0"
  by (induction n) auto

section \<open>Runs of bytes in a region\<close>

definition slice :: "'a list \<Rightarrow> nat \<Rightarrow> nat \<Rightarrow> 'a list" where
  "slice p off n = take n (drop off p)"

definition blit :: "'a list \<Rightarrow> nat \<Rightarrow> 'a list \<Rightarrow> 'a list" where
  "blit p off bs = take off p @ bs @ drop (off + length bs) p"

lemma length_slice [simp]: "length (slice p off n) = min n (length p - off)"
  by (simp add: slice_def min.commute)

lemma length_blit [simp]: "off + length bs \<le> length p \<Longrightarrow> length (blit p off bs) = length p"
  by (simp add: blit_def)

lemma nth_slice: "i < n \<Longrightarrow> off + i < length p \<Longrightarrow> slice p off n ! i = p ! (off + i)"
  by (simp add: slice_def)

lemma nth_blit:
  assumes "off + length bs \<le> length p" "i < length p"
  shows "blit p off bs ! i
    = (if off \<le> i \<and> i < off + length bs then bs ! (i - off) else p ! i)"
proof -
  consider "i < off" | "off \<le> i" "i < off + length bs" | "off + length bs \<le> i" by linarith
  then show ?thesis
  proof cases
    case 1
    then show ?thesis using assms by (simp add: blit_def nth_append)
  next
    case 2
    then have "i - off < length bs" by linarith
    then show ?thesis using 2 assms by (simp add: blit_def nth_append)
  next
    case 3
    then have "\<not> i - off < length bs" "\<not> i < off" by linarith+
    then show ?thesis using 3 assms by (simp add: blit_def nth_append)
  qed
qed

lemma slice_blit_same [mem_simps]:
  "off + length bs \<le> length p \<Longrightarrow> n = length bs \<Longrightarrow> slice (blit p off bs) off n = bs"
  by (simp add: slice_def blit_def)

lemma slice_blit_disjoint [mem_simps]:
  assumes "off + length bs \<le> length p" "o2 + n \<le> off \<or> off + length bs \<le> o2"
  shows "slice (blit p off bs) o2 n = slice p o2 n"
proof (rule nth_equalityI)
  show "length (slice (blit p off bs) o2 n) = length (slice p o2 n)" using assms by simp
next
  fix i assume "i < length (slice (blit p off bs) o2 n)"
  then have i: "i < n" "o2 + i < length p" using assms by auto
  have "\<not> (off \<le> o2 + i \<and> o2 + i < off + length bs)" using assms i by linarith
  then show "slice (blit p off bs) o2 n ! i = slice p o2 n ! i"
    using assms i by (simp only: nth_slice length_blit nth_blit if_False)
qed

lemma slice_full [simp]: "n = length p \<Longrightarrow> slice p 0 n = p"
  by (simp add: slice_def)

lemma slice_slice: "o2 + n \<le> m \<Longrightarrow> slice (slice p off m) o2 n = slice p (off + o2) n"
  by (simp add: slice_def take_drop add.commute min_def)

lemma slice_replicate [simp]: "off + n \<le> m \<Longrightarrow> slice (replicate m x) off n = replicate n x"
  by (simp add: slice_def)

lemma blit_slice_same: "off + n \<le> length p \<Longrightarrow> blit p off (slice p off n) = p"
  by (simp add: slice_def blit_def) (metis add.commute append_take_drop_id drop_drop)

lemma blit_Nil [simp]: "off \<le> length p \<Longrightarrow> blit p off [] = p"
  by (simp add: blit_def)

lemma slice_0 [simp]: "slice p off 0 = []"
  by (simp add: slice_def)

lemma slice_length_slice [simp]: "slice p off (min (length p - off) n) = slice p off n"
  "slice p off (min n (length p - off)) = slice p off n"
  by (simp_all add: slice_def min_def)

lemma slice_append1: "off + n \<le> length p \<Longrightarrow> slice (p @ q) off n = slice p off n"
  by (simp add: slice_def)

lemma slice_append2: "length p \<le> off \<Longrightarrow> slice (p @ q) off n = slice q (off - length p) n"
  by (simp add: slice_def)

lemma blit_blit_next:
  "off + length bs + length cs \<le> length p \<Longrightarrow>
   blit (blit p off bs) (off + length bs) cs = blit p off (bs @ cs)"
  by (simp add: blit_def ac_simps)

lemma blit_0_full: "length bs = length p \<Longrightarrow> blit p 0 bs = bs"
  by (simp add: blit_def)

section \<open>Integer fields of a region\<close>

definition get_le :: "nat \<Rightarrow> nat \<Rightarrow> byte list \<Rightarrow> nat" where
  "get_le w off p = le_val (slice p off w)"

definition put_le :: "nat \<Rightarrow> nat \<Rightarrow> nat \<Rightarrow> byte list \<Rightarrow> byte list" where
  "put_le w off v p = blit p off (le_bytes w v)"

lemma length_put_le [simp]: "off + w \<le> length p \<Longrightarrow> length (put_le w off v p) = length p"
  by (simp add: put_le_def)

lemma get_put_le_same [mem_simps]:
  "off + w \<le> length p \<Longrightarrow> get_le w off (put_le w off v p) = v mod 256 ^ w"
  by (simp add: get_le_def put_le_def slice_blit_same le_val_le_bytes)

lemma get_put_le_disjoint [mem_simps]:
  "off + w \<le> length p \<Longrightarrow> o2 + w2 \<le> off \<or> off + w \<le> o2 \<Longrightarrow>
   get_le w2 o2 (put_le w off v p) = get_le w2 o2 p"
  by (simp add: get_le_def put_le_def slice_blit_disjoint)

lemma get_le_blit_disjoint [mem_simps]:
  "off + length bs \<le> length p \<Longrightarrow> o2 + w2 \<le> off \<or> off + length bs \<le> o2 \<Longrightarrow>
   get_le w2 o2 (blit p off bs) = get_le w2 o2 p"
  by (simp add: get_le_def slice_blit_disjoint)

lemma slice_put_le_disjoint [mem_simps]:
  "off + w \<le> length p \<Longrightarrow> o2 + n \<le> off \<or> off + w \<le> o2 \<Longrightarrow>
   slice (put_le w off v p) o2 n = slice p o2 n"
  by (simp add: put_le_def slice_blit_disjoint)

lemma get_le_less: "off + w \<le> length p \<Longrightarrow> get_le w off p < 256 ^ w"
  using le_val_less [of "slice p off w"] by (simp add: get_le_def)

lemma get_le_replicate_0 [simp]: "off + w \<le> m \<Longrightarrow> get_le w off (replicate m 0) = 0"
  by (simp add: get_le_def)

section \<open>Checked accesses\<close>

definition peek :: "'a list \<Rightarrow> nat \<Rightarrow> nat \<Rightarrow> 'a list option" where
  "peek p off n = (if off + n \<le> length p then Some (slice p off n) else None)"

definition poke :: "'a list \<Rightarrow> nat \<Rightarrow> 'a list \<Rightarrow> 'a list option" where
  "poke p off bs = (if off + length bs \<le> length p then Some (blit p off bs) else None)"

lemma peek_Some [simp]: "off + n \<le> length p \<Longrightarrow> peek p off n = Some (slice p off n)"
  by (simp add: peek_def)

lemma poke_Some [simp]: "off + length bs \<le> length p \<Longrightarrow> poke p off bs = Some (blit p off bs)"
  by (simp add: poke_def)

lemma poke_eq_Some: "poke p off bs = Some q \<longleftrightarrow> off + length bs \<le> length p \<and> q = blit p off bs"
  by (auto simp: poke_def)

lemma poke_length: "poke p off bs = Some q \<Longrightarrow> length q = length p"
  by (auto simp: poke_eq_Some)

section \<open>The first position that satisfies a test\<close>

text \<open>Many loops of the code look for the first index with a property; this is their result.\<close>

primrec first_index :: "('a \<Rightarrow> bool) \<Rightarrow> 'a list \<Rightarrow> nat" where
  "first_index P [] = 0"
| "first_index P (x # xs) = (if P x then 0 else Suc (first_index P xs))"

lemma first_index_le: "first_index P xs \<le> length xs"
  by (induction xs) auto

lemma first_index_hit: "first_index P xs < length xs \<Longrightarrow> P (xs ! first_index P xs)"
  by (induction xs) (auto split: if_splits)

lemma first_index_before: "i < first_index P xs \<Longrightarrow> \<not> P (xs ! i)"
proof (induction xs arbitrary: i)
  case Nil
  then show ?case by simp
next
  case (Cons x xs)
  then show ?case by (cases i) (auto split: if_splits)
qed

lemma first_index_less_iff: "first_index P xs < length xs \<longleftrightarrow> (\<exists>x \<in> set xs. P x)"
  by (induction xs) auto

lemma first_index_eqI:
  assumes "k < length xs" "P (xs ! k)" "\<And>i. i < k \<Longrightarrow> \<not> P (xs ! i)"
  shows "first_index P xs = k"
proof (rule linorder_cases [of "first_index P xs" k])
  assume "first_index P xs < k"
  with assms(1,3) have "\<not> P (xs ! first_index P xs)" "first_index P xs < length xs" by auto
  then show ?thesis using first_index_hit by blast
next
  assume "k < first_index P xs"
  then show ?thesis using assms(2) first_index_before by blast
qed

section \<open>Related lists\<close>

lemma list_all2_left: "list_all2 R xs ys \<Longrightarrow> x \<in> set xs \<Longrightarrow> \<exists>y \<in> set ys. R x y"
  by (induction rule: list_all2_induct) auto

lemma list_all2_right: "list_all2 R xs ys \<Longrightarrow> y \<in> set ys \<Longrightarrow> \<exists>x \<in> set xs. R x y"
  by (induction rule: list_all2_induct) auto

end
