(* ===== verification/OsFile.thy ===== *)
theory OsFile
  imports Prelude
begin

text \<open>
  The file system calls of the storage layer. The kernel is not part of the repository, so it
  is a parameter: a record \<open>'s os\<close> of the system calls that \<open>src/arch/\<close> wraps, over a
  kernel state \<open>'s\<close>. The locale \<open>posix\<close> states what the storage code relies on: the
  documented behaviour of \<open>pread\<close>, \<open>pwrite\<close>, \<open>ftruncate\<close>, \<open>fstat\<close> and
  \<open>fdatasync\<close> on regular files, with every call free to fail and every transfer free to
  be short. \<open>view f s\<close> is the current content of the file behind descriptor \<open>f\<close>,
  \<open>durable f s\<close> what a power failure would leave.

  \<open>mem_os\<close> is a concrete kernel for it: files in memory, with a script of outcomes that
  decides which call fails and which transfer is short. It shows that the laws can be met and
  runs the examples.
\<close>

record 's os =
  os_pread :: "int \<Rightarrow> nat \<Rightarrow> nat \<Rightarrow> 's \<Rightarrow> int \<times> byte list \<times> 's"
  os_pwrite :: "int \<Rightarrow> byte list \<Rightarrow> nat \<Rightarrow> 's \<Rightarrow> int \<times> 's"
  os_ftruncate :: "int \<Rightarrow> nat \<Rightarrow> 's \<Rightarrow> int \<times> 's"
  os_fdatasync :: "int \<Rightarrow> 's \<Rightarrow> int \<times> 's"
  os_fstat_size :: "int \<Rightarrow> 's \<Rightarrow> int \<times> nat \<times> 's"
  os_open :: "byte list \<Rightarrow> nat \<Rightarrow> 's \<Rightarrow> int \<times> 's"
  os_close :: "int \<Rightarrow> 's \<Rightarrow> int \<times> 's"

abbreviation (input) "O_RDONLY \<equiv> (0x0000 :: nat)"
abbreviation (input) "O_RDWR \<equiv> (0x0002 :: nat)"
abbreviation (input) "O_CREAT \<equiv> (0x0040 :: nat)"
abbreviation (input) "O_EXCL \<equiv> (0x0080 :: nat)"

section \<open>File contents\<close>

definition resize :: "byte list \<Rightarrow> nat \<Rightarrow> byte list" where
  "resize c n = take n c @ replicate (n - length c) 0"

definition write_at :: "byte list \<Rightarrow> nat \<Rightarrow> byte list \<Rightarrow> byte list" where
  "write_at c off bs = (if bs = [] then c else blit (resize c (max (length c) (off + length bs))) off bs)"

lemma length_resize [simp]: "length (resize c n) = n"
  by (simp add: resize_def)

lemma resize_id [simp]: "resize c (length c) = c"
  by (simp add: resize_def)

lemma slice_resize [mem_simps]: "off + n \<le> length c \<Longrightarrow> off + n \<le> m \<Longrightarrow> slice (resize c m) off n = slice c off n"
  by (auto simp: resize_def slice_def drop_take min_def)

lemma write_at_inside: "off + length bs \<le> length c \<Longrightarrow> write_at c off bs = blit c off bs"
  by (cases "bs = []") (simp_all add: write_at_def max_absorb1)

lemma write_at_end: "off = length c \<Longrightarrow> write_at c off bs = c @ bs"
  by (simp add: write_at_def resize_def blit_def)

lemma length_write_at: "bs \<noteq> [] \<Longrightarrow> length (write_at c off bs) = max (length c) (off + length bs)"
  by (simp add: write_at_def)

lemma slice_write_at_other [mem_simps]:
  assumes "o2 + n \<le> off \<or> off + length bs \<le> o2" "o2 + n \<le> length c"
  shows "slice (write_at c off bs) o2 n = slice c o2 n"
  using assms by (auto simp: write_at_def slice_blit_disjoint slice_resize)

section \<open>The laws of the system calls\<close>

locale posix =
  fixes os :: "'s os" and view :: "int \<Rightarrow> 's \<Rightarrow> byte list" and durable :: "int \<Rightarrow> 's \<Rightarrow> byte list"
  assumes pread_law: "os_pread os f n off s = (r, bs, s') \<Longrightarrow>
      view g s' = view g s \<and> length bs \<le> n \<and>
      (r = -1 \<or> r = int (length bs) \<and> bs = slice (view f s) off (length bs))"
    and pwrite_law: "os_pwrite os f bs off s = (r, s') \<Longrightarrow>
      (\<exists>k \<le> length bs. view f s' = write_at (view f s) off (take k bs) \<and> (r = -1 \<or> r = int k)) \<and>
      (g \<noteq> f \<longrightarrow> view g s' = view g s)"
    and ftruncate_law: "os_ftruncate os f n s = (r, s') \<Longrightarrow>
      (r = -1 \<and> view f s' = view f s \<or> r = 0 \<and> view f s' = resize (view f s) n) \<and>
      (g \<noteq> f \<longrightarrow> view g s' = view g s)"
    and fdatasync_law: "os_fdatasync os f s = (r, s') \<Longrightarrow>
      view g s' = view g s \<and> (r = -1 \<or> r = 0 \<and> durable f s' = view f s)"
    and fstat_law: "os_fstat_size os f s = (r, n, s') \<Longrightarrow>
      view g s' = view g s \<and> (r = -1 \<or> r = 0 \<and> n = length (view f s))"
    and open_law: "os_open os path flags s = (r, s') \<Longrightarrow>
      (r = -1 \<or> 0 \<le> r) \<and>
      (0 \<le> r \<and> flags = O_RDWR + O_CREAT + O_EXCL \<longrightarrow> view r s' = []) \<and>
      (g \<noteq> r \<longrightarrow> view g s' = view g s)"
    and close_law: "os_close os f s = (r, s') \<Longrightarrow> view g s' = view g s"
begin

lemma pread_full:
  assumes "os_pread os f n off s = (int n, bs, s')"
  shows "bs = slice (view f s) off n" "length bs = n" "view g s' = view g s"
  using pread_law [OF assms] pread_law [OF assms, of g] by auto

lemma pread_view: "os_pread os f n off s = (r, bs, s') \<Longrightarrow> view g s' = view g s"
  using pread_law by blast

lemma pwrite_full:
  assumes "os_pwrite os f bs off s = (int (length bs), s')"
  shows "view f s' = write_at (view f s) off bs" "g \<noteq> f \<Longrightarrow> view g s' = view g s"
  using pwrite_law [OF assms, of f] pwrite_law [OF assms, of g] by auto

text \<open>Whatever the outcome, a write touches no byte outside the range it names.\<close>

lemma pwrite_frame:
  assumes "os_pwrite os f bs off s = (r, s')" "o2 + n \<le> off \<or> off + length bs \<le> o2"
    and "o2 + n \<le> length (view f s)"
  shows "slice (view f s') o2 n = slice (view f s) o2 n"
proof -
  obtain k where "k \<le> length bs" "view f s' = write_at (view f s) off (take k bs)"
    using pwrite_law [OF assms(1), of f] by auto
  then show ?thesis using assms by (auto intro: slice_write_at_other)
qed

lemma pwrite_length:
  assumes "os_pwrite os f bs off s = (r, s')" "off + length bs \<le> length (view f s)"
  shows "length (view f s') = length (view f s)"
proof -
  obtain k where "k \<le> length bs" "view f s' = write_at (view f s) off (take k bs)"
    using pwrite_law [OF assms(1), of f] by auto
  then show ?thesis using assms by (simp add: write_at_inside)
qed

lemma fdatasync_view: "os_fdatasync os f s = (r, s') \<Longrightarrow> view g s' = view g s"
  using fdatasync_law by blast

end

text \<open>
  A kernel in which, from the states that satisfy \<open>up\<close> on, no call fails and no transfer is
  short: what the theorems assume that promise a result.
\<close>

locale reliable_posix = posix os view durable
  for os :: "'s os" and view durable +
  fixes up :: "'s \<Rightarrow> bool"
  assumes pread_up: "up s \<Longrightarrow> off + n \<le> length (view f s) \<Longrightarrow>
      \<exists>bs s'. os_pread os f n off s = (int n, bs, s') \<and> up s'"
    and pwrite_up: "up s \<Longrightarrow> \<exists>s'. os_pwrite os f bs off s = (int (length bs), s') \<and> up s'"
    and ftruncate_up: "up s \<Longrightarrow> \<exists>s'. os_ftruncate os f n s = (0, s') \<and> up s'"
    and fdatasync_up: "up s \<Longrightarrow> \<exists>s'. os_fdatasync os f s = (0, s') \<and> up s'"
    and close_up: "up s \<Longrightarrow> \<exists>s'. os_close os f s = (0, s') \<and> up s'"
    and fstat_up: "up s \<Longrightarrow> \<exists>s'. os_fstat_size os f s = (0, length (view f s), s') \<and> up s'"

section \<open>A kernel with files in memory\<close>

text \<open>
  Each call consumes one outcome of the script: it is done, or fails, or transfers at most the
  given number of bytes. When the script has ended every call is done.
\<close>

datatype outcome = Done | Fail | Short nat

text \<open>
  A file keeps one descriptor, the one it got when it was created; opening it again returns it.
\<close>

record mem_state =
  mem_names :: "(byte list \<times> nat) list"
  mem_view :: "int \<Rightarrow> byte list"
  mem_stable :: "int \<Rightarrow> byte list"
  script :: "outcome list"

definition next_outcome :: "mem_state \<Rightarrow> outcome \<times> mem_state" where
  "next_outcome s = (case script s of [] \<Rightarrow> (Done, s) | x # xs \<Rightarrow> (x, s\<lparr>script := xs\<rparr>))"

definition transfer :: "outcome \<Rightarrow> nat \<Rightarrow> nat" where
  "transfer x n = (case x of Done \<Rightarrow> n | Fail \<Rightarrow> 0 | Short k \<Rightarrow> min k n)"

definition mem_pread :: "int \<Rightarrow> nat \<Rightarrow> nat \<Rightarrow> mem_state \<Rightarrow> int \<times> byte list \<times> mem_state" where
  "mem_pread f n off s =
     (let (x, s) = next_outcome s; bs = slice (mem_view s f) off (transfer x n)
      in (if x = Fail then -1 else int (length bs), bs, s))"

definition mem_pwrite :: "int \<Rightarrow> byte list \<Rightarrow> nat \<Rightarrow> mem_state \<Rightarrow> int \<times> mem_state" where
  "mem_pwrite f bs off s =
     (let (x, s) = next_outcome s; k = transfer x (length bs)
      in (if x = Fail then -1 else int k,
          s\<lparr>mem_view := (mem_view s)(f := write_at (mem_view s f) off (take k bs))\<rparr>))"

definition mem_ftruncate :: "int \<Rightarrow> nat \<Rightarrow> mem_state \<Rightarrow> int \<times> mem_state" where
  "mem_ftruncate f n s =
     (let (x, s) = next_outcome s
      in if x = Fail then (-1, s) else (0, s\<lparr>mem_view := (mem_view s)(f := resize (mem_view s f) n)\<rparr>))"

definition mem_fdatasync :: "int \<Rightarrow> mem_state \<Rightarrow> int \<times> mem_state" where
  "mem_fdatasync f s =
     (let (x, s) = next_outcome s
      in if x = Fail then (-1, s) else (0, s\<lparr>mem_stable := (mem_stable s)(f := mem_view s f)\<rparr>))"

definition mem_fstat :: "int \<Rightarrow> mem_state \<Rightarrow> int \<times> nat \<times> mem_state" where
  "mem_fstat f s =
     (let (x, s) = next_outcome s in if x = Fail then (-1, 0, s) else (0, length (mem_view s f), s))"

definition mem_open :: "byte list \<Rightarrow> nat \<Rightarrow> mem_state \<Rightarrow> int \<times> mem_state" where
  "mem_open path flags s =
     (let (x, s) = next_outcome s; n = 3 + length (mem_names s)
      in if x = Fail then (-1, s)
         else case map_of (mem_names s) path of
                Some f \<Rightarrow> if flags = O_RDWR + O_CREAT + O_EXCL then (-1, s) else (int f, s)
              | None \<Rightarrow> if flags < O_CREAT then (-1, s)
                        else (int n, s\<lparr>mem_names := (path, n) # mem_names s,
                                   mem_view := (mem_view s)(int n := [])\<rparr>))"

definition mem_close :: "int \<Rightarrow> mem_state \<Rightarrow> int \<times> mem_state" where
  "mem_close f s = (let (x, s) = next_outcome s in (if x = Fail then -1 else 0, s))"

definition mem_os :: "mem_state os" where
  "mem_os = \<lparr>os_pread = mem_pread, os_pwrite = mem_pwrite, os_ftruncate = mem_ftruncate,
             os_fdatasync = mem_fdatasync, os_fstat_size = mem_fstat,
             os_open = mem_open, os_close = mem_close\<rparr>"

definition mem_init :: "outcome list \<Rightarrow> mem_state" where
  "mem_init xs = \<lparr>mem_names = [], mem_view = (\<lambda>_. []), mem_stable = (\<lambda>_. []), script = xs\<rparr>"

lemma next_outcome_view:
  "next_outcome s = (x, s') \<Longrightarrow> mem_view s' = mem_view s \<and> mem_stable s' = mem_stable s"
  by (auto simp: next_outcome_def split: list.splits)

lemma next_outcome_Nil: "script s = [] \<Longrightarrow> next_outcome s = (Done, s)"
  by (simp add: next_outcome_def)

lemma transfer_le: "transfer x n \<le> n"
  by (simp add: transfer_def split: outcome.split)

lemma posix_mem: "posix mem_os (\<lambda>f s. mem_view s f) (\<lambda>f s. mem_stable s f)"
proof
  fix f g :: int and n off s r bs s'
  assume "os_pread mem_os f n off s = (r, bs, s')"
  then show "mem_view s' g = mem_view s g \<and> length bs \<le> n \<and>
      (r = -1 \<or> r = int (length bs) \<and> bs = slice (mem_view s f) off (length bs))"
    using transfer_le [of _ n]
    by (auto simp: mem_os_def mem_pread_def Let_def min.coboundedI1 min.coboundedI2
        dest!: next_outcome_view split: prod.splits if_splits)
next
  fix f g :: int and bs off s r s'
  assume "os_pwrite mem_os f bs off s = (r, s')"
  then show "(\<exists>k \<le> length bs. mem_view s' f = write_at (mem_view s f) off (take k bs) \<and>
      (r = -1 \<or> r = int k)) \<and> (g \<noteq> f \<longrightarrow> mem_view s' g = mem_view s g)"
    using transfer_le
    by (auto simp: mem_os_def mem_pwrite_def Let_def dest!: next_outcome_view split: prod.splits if_splits)
       blast
next
  fix path flags g r and s s' :: mem_state
  assume "os_open mem_os path flags s = (r, s')"
  moreover obtain x s1 where s1: "next_outcome s = (x, s1)" by fastforce
  moreover note next_outcome_view [OF s1]
  ultimately show "(r = -1 \<or> 0 \<le> r) \<and>
      (0 \<le> r \<and> flags = O_RDWR + O_CREAT + O_EXCL \<longrightarrow> mem_view s' r = []) \<and>
      (g \<noteq> r \<longrightarrow> mem_view s' g = mem_view s g)"
    by (auto simp: mem_os_def mem_open_def Let_def split: option.splits if_splits)
qed (auto simp: mem_os_def mem_ftruncate_def mem_fdatasync_def mem_fstat_def mem_close_def
    dest!: next_outcome_view split: prod.splits if_splits)

interpretation mem: reliable_posix mem_os "\<lambda>f s. mem_view s f" "\<lambda>f s. mem_stable s f" "\<lambda>s. script s = []"
  by (intro reliable_posix.intro posix_mem reliable_posix_axioms.intro)
     (auto simp: mem_os_def mem_pread_def mem_pwrite_def mem_ftruncate_def mem_fdatasync_def mem_close_def
       mem_fstat_def next_outcome_Nil transfer_def Let_def)

end
