(* ===== verification/DiskManager.thy ===== *)
theory DiskManager
  imports OsFile
begin

text \<open>
  The disk manager: \<open>src/nostr/db/disk/\<close> (\<open>disk_manager.c\<close>, \<open>disk_io.c\<close>, \<open>disk_alloc.c\<close>)
  and the file helpers of \<open>src/nostr/db/db_file.c\<close>. A database file is a header page and
  \<open>total_pages - 1\<close> data pages of 4096 bytes; the free pages are chained through their
  first four bytes, and the head of the chain is cached in the \<open>DiskManager\<close> struct.

  Operations take the kernel \<open>os\<close> and its state as arguments and return their C result, the
  struct and the kernel state. Page buffers are byte lists of 4096 bytes.
\<close>

section \<open>Data\<close>

text \<open>\<open>NostrDBError\<close> of \<open>db_types.h\<close>.\<close>

datatype nostr_db_error =
    NOSTR_DB_OK
  | NOSTR_DB_ERROR_FILE_OPEN
  | NOSTR_DB_ERROR_FILE_CREATE
  | NOSTR_DB_ERROR_MMAP_FAILED
  | NOSTR_DB_ERROR_INVALID_MAGIC
  | NOSTR_DB_ERROR_VERSION_MISMATCH
  | NOSTR_DB_ERROR_FULL
  | NOSTR_DB_ERROR_NOT_FOUND
  | NOSTR_DB_ERROR_DUPLICATE
  | NOSTR_DB_ERROR_INVALID_EVENT
  | NOSTR_DB_ERROR_INDEX_CORRUPT
  | NOSTR_DB_ERROR_NULL_PARAM
  | NOSTR_DB_ERROR_FSTAT_FAILED
  | NOSTR_DB_ERROR_FTRUNCATE_FAILED
  | NOSTR_DB_ERROR_DELETED

type_synonym page = "byte list"

abbreviation (input) "PAGE_ID_NULL \<equiv> (0 :: nat)"
abbreviation (input) "DB_PAGE_SIZE \<equiv> (4096 :: nat)"
abbreviation (input) "DB_EXTEND_PAGES \<equiv> (128 :: nat)"
abbreviation (input) "DB_MAX_PAGES \<equiv> (2 ^ 24 :: nat)"

record disk_manager =
  dm_fd :: int
  total_pages :: nat
  free_list_head :: nat
  free_page_count :: nat
  path :: "byte list"

text \<open>\<open>memset(dm, 0)\<close> and \<open>dm->fd = -1\<close>.\<close>

definition dm_zero :: disk_manager where
  "dm_zero = \<lparr>dm_fd = -1, total_pages = 0, free_list_head = 0, free_page_count = 0,
              path = replicate 256 0\<rparr>"

definition page_offset :: "nat \<Rightarrow> nat" where
  "page_offset page_id = page_id * DB_PAGE_SIZE"

abbreviation page_data_zero :: page where
  "page_data_zero \<equiv> replicate 4096 0"

section \<open>File helpers: db\_file.c\<close>

definition nostr_db_file_create :: "'s os \<Rightarrow> byte list \<Rightarrow> nat \<Rightarrow> 's \<Rightarrow> int \<times> 's" where
  "nostr_db_file_create os p initial_size s =
     (let (f, s) = os_open os p (O_RDWR + O_CREAT + O_EXCL) s
      in if f < 0 then (-1, s)
         else if initial_size > 0 then
           (let (r, s) = os_ftruncate os f initial_size s
            in if r < 0 then (let (_, s) = os_close os f s in (-1, s)) else (f, s))
         else (f, s))"

definition nostr_db_file_extend :: "'s os \<Rightarrow> int \<Rightarrow> nat \<Rightarrow> 's \<Rightarrow> int \<times> 's" where
  "nostr_db_file_extend os f new_size s = (if f < 0 then (-1, s) else os_ftruncate os f new_size s)"

section \<open>Page input and output: disk\_io.c\<close>

definition disk_read_page ::
    "'s os \<Rightarrow> disk_manager \<Rightarrow> nat \<Rightarrow> 's \<Rightarrow> nostr_db_error \<times> page \<times> 's" where
  "disk_read_page os dm page_id s =
     (if dm_fd dm < 0 then (NOSTR_DB_ERROR_FILE_OPEN, [], s)
      else if \<not> (page_id > 0 \<and> page_id < total_pages dm) then (NOSTR_DB_ERROR_NOT_FOUND, [], s)
      else
        (let (n, out, s) = os_pread os (dm_fd dm) DB_PAGE_SIZE (page_offset page_id) s
         in if n \<noteq> 4096 then (NOSTR_DB_ERROR_FILE_OPEN, out, s) else (NOSTR_DB_OK, out, s)))"

definition disk_write_page ::
    "'s os \<Rightarrow> disk_manager \<Rightarrow> nat \<Rightarrow> page \<Rightarrow> 's \<Rightarrow> nostr_db_error \<times> 's" where
  "disk_write_page os dm page_id data s =
     (if dm_fd dm < 0 then (NOSTR_DB_ERROR_FILE_OPEN, s)
      else if \<not> (page_id > 0 \<and> page_id < total_pages dm) then (NOSTR_DB_ERROR_NOT_FOUND, s)
      else
        (let (n, s) = os_pwrite os (dm_fd dm) data (page_offset page_id) s
         in if n \<noteq> 4096 then (NOSTR_DB_ERROR_FILE_CREATE, s) else (NOSTR_DB_OK, s)))"

definition disk_sync :: "'s os \<Rightarrow> disk_manager \<Rightarrow> 's \<Rightarrow> nostr_db_error \<times> 's" where
  "disk_sync os dm s =
     (if dm_fd dm < 0 then (NOSTR_DB_ERROR_FILE_OPEN, s)
      else (let (r, s) = os_fdatasync os (dm_fd dm) s
            in if r < 0 then (NOSTR_DB_ERROR_FILE_CREATE, s) else (NOSTR_DB_OK, s)))"

section \<open>The header page\<close>

text \<open>The bytes of ``NOSTRDB2''.\<close>

definition DB_FILE_MAGIC :: "byte list" where
  "DB_FILE_MAGIC = [0x4E, 0x4F, 0x53, 0x54, 0x52, 0x44, 0x42, 0x32]"

text \<open>
  The fields of \<open>FileHeader\<close>: magic at 0, version at 8, page size at 12, total pages at 16,
  free list head at 20, free page count at 24.
\<close>

definition header_page :: "nat \<Rightarrow> nat \<Rightarrow> nat \<Rightarrow> page" where
  "header_page n_pages head n_free =
     put_le 4 24 n_free (put_le 4 20 head (put_le 4 16 n_pages (put_le 4 12 DB_PAGE_SIZE
       (put_le 4 8 2 (blit page_data_zero 0 DB_FILE_MAGIC)))))"

definition disk_flush_header :: "'s os \<Rightarrow> disk_manager \<Rightarrow> 's \<Rightarrow> nostr_db_error \<times> 's" where
  "disk_flush_header os dm s =
     (if dm_fd dm < 0 then (NOSTR_DB_ERROR_FILE_OPEN, s)
      else
        (let (n, s) = os_pwrite os (dm_fd dm)
                        (header_page (total_pages dm) (free_list_head dm) (free_page_count dm)) 0 s
         in if n \<noteq> 4096 then (NOSTR_DB_ERROR_FILE_CREATE, s) else (NOSTR_DB_OK, s)))"

definition validate_header :: "page \<Rightarrow> bool" where
  "validate_header p \<longleftrightarrow>
     slice p 0 8 = DB_FILE_MAGIC \<and> get_le 4 8 p = 2 \<and> get_le 4 12 p = DB_PAGE_SIZE"

definition load_header :: "'s os \<Rightarrow> disk_manager \<Rightarrow> 's \<Rightarrow> nostr_db_error \<times> disk_manager \<times> 's" where
  "load_header os dm s =
     (let (n, p, s) = os_pread os (dm_fd dm) DB_PAGE_SIZE 0 s
      in if n \<noteq> 4096 then (NOSTR_DB_ERROR_FILE_OPEN, dm, s)
         else if \<not> validate_header p then (NOSTR_DB_ERROR_INVALID_MAGIC, dm, s)
         else (NOSTR_DB_OK,
               dm\<lparr>total_pages := get_le 4 16 p, free_list_head := get_le 4 20 p,
                  free_page_count := get_le 4 24 p\<rparr>, s))"

section \<open>Open, create, close: disk\_manager.c\<close>

text \<open>\<open>path\<close> is the string without its terminator.\<close>

definition copy_path :: "disk_manager \<Rightarrow> byte list \<Rightarrow> disk_manager option" where
  "copy_path dm p = (if length p \<ge> 256 then None else Some (dm\<lparr>path := blit (path dm) 0 (p @ [0])\<rparr>))"

definition disk_manager_open ::
    "'s os \<Rightarrow> byte list \<Rightarrow> 's \<Rightarrow> nostr_db_error \<times> disk_manager \<times> 's" where
  "disk_manager_open os p s =
     (case copy_path dm_zero p of
        None \<Rightarrow> (NOSTR_DB_ERROR_NULL_PARAM, dm_zero, s)
      | Some dm \<Rightarrow>
          (let (f, s) = os_open os p O_RDWR s
           in if f < 0 then (NOSTR_DB_ERROR_FILE_OPEN, dm, s)
              else
                (let (err, dm, s) = load_header os (dm\<lparr>dm_fd := f\<rparr>) s
                 in if err \<noteq> NOSTR_DB_OK
                    then (let (_, s) = os_close os f s in (err, dm\<lparr>dm_fd := -1\<rparr>, s))
                    else (NOSTR_DB_OK, dm, s))))"

text \<open>
  The loops that chain free pages: page \<open>i\<close> points to \<open>i + 1\<close> while that is below
  \<open>bound\<close>, the last one to \<open>final\<close>.
\<close>

definition free_page_data :: "nat \<Rightarrow> page" where
  "free_page_data next_free = put_le 4 0 next_free page_data_zero"

primrec write_free_chain ::
    "'s os \<Rightarrow> int \<Rightarrow> nat \<Rightarrow> nat \<Rightarrow> nat list \<Rightarrow> 's \<Rightarrow> bool \<times> 's" where
  "write_free_chain os f bound final [] s = (True, s)"
| "write_free_chain os f bound final (i # is) s =
     (let next_free = (if i + 1 < bound then i + 1 else final);
          (n, s) = os_pwrite os f (free_page_data next_free) (page_offset i) s
      in if n \<noteq> 4096 then (False, s) else write_free_chain os f bound final is s)"

definition disk_manager_create ::
    "'s os \<Rightarrow> byte list \<Rightarrow> nat \<Rightarrow> 's \<Rightarrow> nostr_db_error \<times> disk_manager \<times> 's" where
  "disk_manager_create os p initial_pages s =
     (if \<not> initial_pages \<ge> 2 then (NOSTR_DB_ERROR_NULL_PARAM, dm_zero, s)
      else
        case copy_path dm_zero p of
          None \<Rightarrow> (NOSTR_DB_ERROR_NULL_PARAM, dm_zero, s)
        | Some dm \<Rightarrow>
            (let (f, s) = nostr_db_file_create os p (initial_pages * DB_PAGE_SIZE) s
             in if f < 0 then (NOSTR_DB_ERROR_FILE_CREATE, dm, s)
                else
                  (let (n, s) = os_pwrite os f (header_page initial_pages 1 (initial_pages - 1)) 0 s
                   in if n \<noteq> 4096
                      then (let (_, s) = os_close os f s in (NOSTR_DB_ERROR_FILE_CREATE, dm, s))
                      else
                        (let (ok, s) = write_free_chain os f initial_pages PAGE_ID_NULL
                                         [1..<initial_pages] s
                         in if \<not> ok
                            then (let (_, s) = os_close os f s in (NOSTR_DB_ERROR_FILE_CREATE, dm, s))
                            else
                              (let (_, s) = os_fdatasync os f s
                               in (NOSTR_DB_OK,
                                   dm\<lparr>dm_fd := f, total_pages := initial_pages, free_list_head := 1,
                                      free_page_count := initial_pages - 1\<rparr>, s))))))"

definition disk_manager_close :: "'s os \<Rightarrow> disk_manager \<Rightarrow> 's \<Rightarrow> disk_manager \<times> 's" where
  "disk_manager_close os dm s =
     (if dm_fd dm < 0 then (dm, s)
      else
        (let (_, s) = disk_flush_header os dm s;
             (_, s) = os_fdatasync os (dm_fd dm) s;
             (_, s) = os_close os (dm_fd dm) s
         in (dm\<lparr>dm_fd := -1\<rparr>, s)))"

section \<open>Allocation: disk\_alloc.c\<close>

text \<open>\<open>uint32_t\<close> sums and the decrement of the count are reduced modulo \<open>2 ^ 32\<close>.\<close>

definition disk_extend ::
    "'s os \<Rightarrow> disk_manager \<Rightarrow> nat \<Rightarrow> 's \<Rightarrow> nostr_db_error \<times> disk_manager \<times> 's" where
  "disk_extend os dm additional_pages s =
     (if dm_fd dm < 0 then (NOSTR_DB_ERROR_FILE_OPEN, dm, s)
      else if \<not> additional_pages > 0 then (NOSTR_DB_ERROR_NULL_PARAM, dm, s)
      else
        (let old_total = total_pages dm;
             new_total = (old_total + additional_pages) mod 2 ^ 32
         in if new_total > DB_MAX_PAGES then (NOSTR_DB_ERROR_FULL, dm, s)
            else
              (let (r, s) = nostr_db_file_extend os (dm_fd dm) (new_total * DB_PAGE_SIZE) s
               in if r < 0 then (NOSTR_DB_ERROR_FTRUNCATE_FAILED, dm, s)
                  else
                    (let (ok, s) = write_free_chain os (dm_fd dm) new_total (free_list_head dm)
                                     [old_total..<new_total] s
                     in if \<not> ok then (NOSTR_DB_ERROR_FILE_CREATE, dm, s)
                        else
                          (NOSTR_DB_OK,
                           dm\<lparr>free_list_head := old_total,
                              free_page_count := (free_page_count dm + additional_pages) mod 2 ^ 32,
                              total_pages := new_total\<rparr>, s)))))"

definition disk_alloc_page :: "'s os \<Rightarrow> disk_manager \<Rightarrow> 's \<Rightarrow> nat \<times> disk_manager \<times> 's" where
  "disk_alloc_page os dm s =
     (if dm_fd dm < 0 then (PAGE_ID_NULL, dm, s)
      else
        (let (err, dm, s) = (if free_list_head dm = PAGE_ID_NULL
                             then disk_extend os dm DB_EXTEND_PAGES s
                             else (NOSTR_DB_OK, dm, s))
         in if err \<noteq> NOSTR_DB_OK then (PAGE_ID_NULL, dm, s)
            else
              (let allocated = free_list_head dm;
                   (n, p, s) = os_pread os (dm_fd dm) DB_PAGE_SIZE (page_offset allocated) s
               in if n \<noteq> 4096 then (PAGE_ID_NULL, dm, s)
                  else
                    (let dm = dm\<lparr>free_list_head := get_le 4 0 p,
                                 free_page_count := (free_page_count dm + (2 ^ 32 - 1)) mod 2 ^ 32\<rparr>;
                         (n, s) = os_pwrite os (dm_fd dm) page_data_zero (page_offset allocated) s
                     in if n \<noteq> 4096
                        then (PAGE_ID_NULL,
                              dm\<lparr>free_list_head := allocated,
                                 free_page_count := (free_page_count dm + 1) mod 2 ^ 32\<rparr>, s)
                        else (allocated, dm, s)))))"

definition disk_free_page ::
    "'s os \<Rightarrow> disk_manager \<Rightarrow> nat \<Rightarrow> 's \<Rightarrow> nostr_db_error \<times> disk_manager \<times> 's" where
  "disk_free_page os dm page_id s =
     (if dm_fd dm < 0 then (NOSTR_DB_ERROR_FILE_OPEN, dm, s)
      else if \<not> (page_id > 0 \<and> page_id < total_pages dm) then (NOSTR_DB_ERROR_NOT_FOUND, dm, s)
      else
        (let (n, s) = os_pwrite os (dm_fd dm) (free_page_data (free_list_head dm))
                        (page_offset page_id) s
         in if n \<noteq> 4096 then (NOSTR_DB_ERROR_FILE_CREATE, dm, s)
            else (NOSTR_DB_OK,
                  dm\<lparr>free_list_head := page_id,
                     free_page_count := (free_page_count dm + 1) mod 2 ^ 32\<rparr>, s)))"

section \<open>Pages of the file and the free list\<close>

definition page_at :: "byte list \<Rightarrow> nat \<Rightarrow> page" where
  "page_at c p = slice c (page_offset p) DB_PAGE_SIZE"

definition next_free :: "byte list \<Rightarrow> nat \<Rightarrow> nat" where
  "next_free c p = get_le 4 0 (page_at c p)"

primrec free_chain :: "byte list \<Rightarrow> nat \<Rightarrow> nat list \<Rightarrow> bool" where
  "free_chain c h [] \<longleftrightarrow> h = PAGE_ID_NULL"
| "free_chain c h (p # ps) \<longleftrightarrow> h = p \<and> p \<noteq> PAGE_ID_NULL \<and> free_chain c (next_free c p) ps"

definition dm_inv :: "disk_manager \<Rightarrow> byte list \<Rightarrow> nat list \<Rightarrow> bool" where
  "dm_inv dm c ps \<longleftrightarrow>
     0 \<le> dm_fd dm \<and> 1 \<le> total_pages dm \<and> total_pages dm \<le> DB_MAX_PAGES \<and>
     length c = total_pages dm * DB_PAGE_SIZE \<and>
     free_chain c (free_list_head dm) ps \<and> distinct ps \<and> set ps \<subseteq> {1..<total_pages dm} \<and>
     free_page_count dm = length ps"

lemma page_offset_mono: "p < n \<Longrightarrow> page_offset p + 4096 \<le> n * 4096"
  by (simp add: page_offset_def)

lemma page_offset_disjoint:
  "p \<noteq> q \<Longrightarrow> page_offset p + 4096 \<le> page_offset q \<or> page_offset q + 4096 \<le> page_offset p"
  unfolding page_offset_def by linarith

lemma length_page_at: "p < n \<Longrightarrow> n * 4096 \<le> length c \<Longrightarrow> length (page_at c p) = 4096"
  using page_offset_mono [of p n] by (simp add: page_at_def)

lemma page_at_blit:
  assumes "p < n" "n * 4096 \<le> length c" "length data = 4096"
  shows "page_at (blit c (page_offset p) data) q = (if q = p then data else page_at c q)"
  using page_offset_mono [OF assms(1)] page_offset_disjoint [of p q] assms
  by (auto simp: page_at_def mem_simps)

lemma free_chain_cong:
  "(\<And>p. p \<in> set ps \<Longrightarrow> next_free c' p = next_free c p) \<Longrightarrow> free_chain c' h ps = free_chain c h ps"
  by (induction ps arbitrary: h) auto

lemma free_chain_0 [simp]: "free_chain c 0 ps \<longleftrightarrow> ps = []"
  by (cases ps) auto

lemma free_chain_unique: "free_chain c h ps \<Longrightarrow> free_chain c h qs \<Longrightarrow> ps = qs"
proof (induction ps arbitrary: h qs)
  case Nil
  then show ?case by simp
next
  case (Cons p ps)
  then show ?case by (cases qs) auto
qed

lemma dm_inv_count: "dm_inv dm c ps \<Longrightarrow> length ps < 2 ^ 24"
proof -
  assume inv: "dm_inv dm c ps"
  then have "card (set ps) \<le> card {1..<total_pages dm}" by (intro card_mono) (auto simp: dm_inv_def)
  then have "length ps \<le> total_pages dm - 1" using inv by (simp add: dm_inv_def distinct_card)
  moreover have "1 \<le> total_pages dm" "total_pages dm \<le> 2 ^ 24" using inv by (simp_all add: dm_inv_def)
  ultimately show ?thesis by linarith
qed

lemma length_free_page_data [simp]: "length (free_page_data n) = 4096"
  by (simp add: free_page_data_def)

lemma get_free_page_data: "n < 2 ^ 32 \<Longrightarrow> get_le 4 0 (free_page_data n) = n"
  by (simp add: free_page_data_def get_put_le_same)

lemma length_header_page [simp]: "length (header_page a b n) = 4096"
  by (simp add: header_page_def DB_FILE_MAGIC_def)

lemma header_page_fields:
  assumes "a < 2 ^ 32" "b < 2 ^ 32" "n < 2 ^ 32"
  shows "validate_header (header_page a b n)" "get_le 4 16 (header_page a b n) = a"
    "get_le 4 20 (header_page a b n) = b" "get_le 4 24 (header_page a b n) = n"
  using assms by (simp_all add: validate_header_def header_page_def DB_FILE_MAGIC_def mem_simps)

context posix
begin

lemma pwrite_page:
  assumes "os_pwrite os f data (page_offset p) s = (4096, s')" "length data = 4096"
    and "p < n" "n * 4096 \<le> length (view f s)"
  shows "view f s' = blit (view f s) (page_offset p) data"
  using pwrite_full(1) [of f data "page_offset p" s s'] assms page_offset_mono [OF assms(3)]
  by (simp add: write_at_inside)

lemma disk_read_page_ok:
  assumes "disk_read_page os dm p s = (NOSTR_DB_OK, out, s')"
  shows "out = page_at (view (dm_fd dm) s) p" "length out = 4096" "view g s' = view g s"
    "0 < p" "p < total_pages dm"
  using assms pread_full [of "dm_fd dm" 4096 "page_offset p" s out s']
  by (auto simp: disk_read_page_def page_at_def Let_def split: if_splits prod.splits)

lemma disk_read_page_view:
  assumes "disk_read_page os dm p s = (err, out, s')"
  shows "view g s' = view g s"
  using assms by (auto simp: disk_read_page_def Let_def split: if_splits prod.splits dest: pread_view)

lemma disk_write_page_ok:
  assumes "disk_write_page os dm p data s = (NOSTR_DB_OK, s')" "length data = 4096"
    and "total_pages dm * 4096 \<le> length (view (dm_fd dm) s)"
  shows "view (dm_fd dm) s' = blit (view (dm_fd dm) s) (page_offset p) data"
    "0 < p" "p < total_pages dm"
proof -
  show p: "0 < p" "p < total_pages dm"
    using assms by (auto simp: disk_write_page_def Let_def split: if_splits prod.splits)
  show "view (dm_fd dm) s' = blit (view (dm_fd dm) s) (page_offset p) data"
    using assms p by (intro pwrite_page)
      (auto simp: disk_write_page_def Let_def split: if_splits prod.splits)
qed

lemma disk_write_page_frame:
  assumes "disk_write_page os dm p data s = (err, s')" "length data = 4096"
    and "total_pages dm * 4096 \<le> length (view (dm_fd dm) s)"
  shows "length (view (dm_fd dm) s') = length (view (dm_fd dm) s)"
    "q \<noteq> p \<Longrightarrow> q < total_pages dm \<Longrightarrow> page_at (view (dm_fd dm) s') q = page_at (view (dm_fd dm) s) q"
proof -
  have *: "view (dm_fd dm) s' = view (dm_fd dm) s \<or>
      (p < total_pages dm \<and> (\<exists>r. os_pwrite os (dm_fd dm) data (page_offset p) s = (r, s')))"
    using assms(1) by (auto simp: disk_write_page_def Let_def split: if_splits prod.splits)
  then show "length (view (dm_fd dm) s') = length (view (dm_fd dm) s)"
    using assms(2,3) page_offset_mono [of p "total_pages dm"] by (fastforce dest: pwrite_length)
  assume q: "q \<noteq> p" "q < total_pages dm"
  show "page_at (view (dm_fd dm) s') q = page_at (view (dm_fd dm) s) q"
    using * assms(2,3) page_offset_mono [OF q(2)] page_offset_disjoint [OF q(1)]
    by (fastforce simp: page_at_def dest: pwrite_frame [of "dm_fd dm" data "page_offset p" s _ s' "page_offset q" 4096])
qed

lemma disk_free_page_inv:
  assumes "disk_free_page os dm p s = (NOSTR_DB_OK, dm', s')" "dm_inv dm (view (dm_fd dm) s) ps"
    and "p \<notin> set ps"
  shows "dm_inv dm' (view (dm_fd dm) s') (p # ps)" "dm_fd dm' = dm_fd dm" "total_pages dm' = total_pages dm"
    "q \<noteq> p \<Longrightarrow> page_at (view (dm_fd dm) s') q = page_at (view (dm_fd dm) s) q"
proof -
  let ?f = "dm_fd dm" and ?c = "view (dm_fd dm) s" and ?h = "free_list_head dm"
  have p: "0 < p" "p < total_pages dm"
    and w: "os_pwrite os ?f (free_page_data ?h) (page_offset p) s = (4096, s')"
    and dm': "dm' = dm\<lparr>free_list_head := p, free_page_count := (free_page_count dm + 1) mod 2 ^ 32\<rparr>"
    using assms(1) by (auto simp: disk_free_page_def Let_def split: if_splits prod.splits)
  note inv = assms(2) [unfolded dm_inv_def]
  have c': "view ?f s' = blit ?c (page_offset p) (free_page_data ?h)"
    using w p inv by (intro pwrite_page) auto
  have pg: "page_at (view ?f s') q = (if q = p then free_page_data ?h else page_at ?c q)" for q
    using page_at_blit [OF p(2), of ?c "free_page_data ?h" q] inv by (simp add: c')
  have count: "length ps < 2 ^ 24" using assms(2) by (rule dm_inv_count)
  have h: "?h < 2 ^ 32" using inv by (cases ps) auto
  have chain: "free_chain (view ?f s') ?h ps = free_chain ?c ?h ps"
    using assms(3) by (intro free_chain_cong) (auto simp: next_free_def pg)
  have "length (view ?f s') = length ?c"
    using inv page_offset_mono [OF p(2)] by (simp add: pwrite_length [OF w])
  then show "dm_inv dm' (view ?f s') (p # ps)"
    using inv p assms(3) chain h count
    by (auto simp: dm_inv_def dm' next_free_def pg get_free_page_data)
  show "dm_fd dm' = dm_fd dm" "total_pages dm' = total_pages dm" by (simp_all add: dm')
  show "q \<noteq> p \<Longrightarrow> page_at (view ?f s') q = page_at ?c q" by (simp add: pg)
qed

lemma write_free_chain_ok:
  assumes "write_free_chain os f bound final xs s = (True, s')" "distinct xs" "\<forall>i \<in> set xs. i < n"
    and "n * 4096 \<le> length (view f s)"
  shows "length (view f s') = length (view f s) \<and>
    (\<forall>q. page_at (view f s') q = (if q \<in> set xs
       then free_page_data (if q + 1 < bound then q + 1 else final) else page_at (view f s) q)) \<and>
    (\<forall>g. g \<noteq> f \<longrightarrow> view g s' = view g s)"
  using assms
proof (induction xs arbitrary: s)
  case (Cons i xs)
  obtain s1 where w: "os_pwrite os f (free_page_data (if i + 1 < bound then i + 1 else final))
      (page_offset i) s = (4096, s1)" "write_free_chain os f bound final xs s1 = (True, s')"
    using Cons.prems(1) by (auto simp: Let_def split: prod.splits if_splits)
  have i: "i < n" using Cons.prems by simp
  have v: "view f s1 = blit (view f s) (page_offset i) (free_page_data (if i + 1 < bound then i + 1 else final))"
    using w(1) i Cons.prems(4) by (intro pwrite_page) auto
  have len: "length (view f s1) = length (view f s)"
    using Cons.prems(4) page_offset_mono [OF i] by (simp add: v)
  have "page_at (view f s1) q = (if q = i then free_page_data (if i + 1 < bound then i + 1 else final)
      else page_at (view f s) q)" for q
    unfolding v using i Cons.prems(4) by (intro page_at_blit) auto
  moreover have "g \<noteq> f \<Longrightarrow> view g s1 = view g s" for g using pwrite_law [OF w(1), of g] by auto
  moreover have "length (view f s') = length (view f s1) \<and>
    (\<forall>q. page_at (view f s') q = (if q \<in> set xs
       then free_page_data (if q + 1 < bound then q + 1 else final) else page_at (view f s1) q)) \<and>
    (\<forall>g. g \<noteq> f \<longrightarrow> view g s' = view g s1)"
    using Cons.prems len by (intro Cons.IH [OF w(2)]) auto
  ultimately show ?case using Cons.prems len by auto
qed simp

lemma free_chain_upt:
  assumes "\<And>i. a \<le> i \<Longrightarrow> i < n \<Longrightarrow> next_free c i = (if i + 1 < n then i + 1 else h)"
    and "free_chain c h ps" "0 < a" "a < n"
  shows "free_chain c a ([a..<n] @ ps)"
  using assms
proof (induction "n - a" arbitrary: a)
  case (Suc k)
  then show ?case
    by (cases "Suc a < n") (auto simp: upt_conv_Cons)
qed simp

lemma disk_extend_inv:
  assumes "disk_extend os dm m s = (NOSTR_DB_OK, dm', s')" "dm_inv dm (view (dm_fd dm) s) ps"
    and "m \<le> 2 ^ 24"
  shows "dm_inv dm' (view (dm_fd dm) s') ([total_pages dm..<total_pages dm + m] @ ps)"
    "total_pages dm' = total_pages dm + m" "0 < m" "dm_fd dm' = dm_fd dm"
    "q < total_pages dm \<Longrightarrow> page_at (view (dm_fd dm) s') q = page_at (view (dm_fd dm) s) q"
proof -
  let ?f = "dm_fd dm" and ?n = "total_pages dm" and ?c = "view (dm_fd dm) s" and ?h = "free_list_head dm"
  note inv = assms(2) [unfolded dm_inv_def]
  have wrap: "(?n + m) mod 2 ^ 32 = ?n + m" using inv assms(3) by (intro mod_less) simp
  obtain s1 where m: "0 < m" "?n + m \<le> DB_MAX_PAGES"
    and t: "os_ftruncate os ?f ((?n + m) * 4096) s = (0, s1)"
    and w: "write_free_chain os ?f (?n + m) ?h [?n..<?n + m] s1 = (True, s')"
    and dm': "dm' = dm\<lparr>free_list_head := ?n, free_page_count := (free_page_count dm + m) mod 2 ^ 32,
      total_pages := ?n + m\<rparr>"
    using assms(1) unfolding disk_extend_def Let_def wrap nostr_db_file_extend_def
    by (auto split: if_splits prod.splits dest: ftruncate_law)
  have c1: "view ?f s1 = resize ?c ((?n + m) * 4096)" using ftruncate_law [OF t] by auto
  have len: "length (view ?f s1) = (?n + m) * 4096" by (simp add: c1)
  have chain: "length (view ?f s') = length (view ?f s1)"
    "page_at (view ?f s') q = (if q \<in> {?n..<?n + m}
       then free_page_data (if q + 1 < ?n + m then q + 1 else ?h) else page_at (view ?f s1) q)" for q
    using write_free_chain_ok [OF w, of "?n + m"] by (simp_all add: len)
  have old: "page_at (view ?f s') q = page_at ?c q" if "q < ?n" for q
    using chain(2) [of q] that inv page_offset_mono [OF that]
    by (simp add: len) (simp add: c1 page_at_def slice_resize)
  have h: "?h < 2 ^ 32" using inv by (cases ps) auto
  have fresh: "next_free (view ?f s') i = (if i + 1 < ?n + m then i + 1 else ?h)"
    if "?n \<le> i" "i < ?n + m" for i
    using chain(2) [of i] that h m(2) by (simp add: len next_free_def get_free_page_data)
  have "free_chain (view ?f s') ?h ps"
    using inv by (subst free_chain_cong [of ps _ ?c]) (auto simp: next_free_def old)
  then have "free_chain (view ?f s') ?n ([?n..<?n + m] @ ps)"
    using inv m by (intro free_chain_upt) (simp_all add: fresh)
  moreover have "length ps < 2 ^ 24" using assms(2) by (rule dm_inv_count)
  ultimately show "dm_inv dm' (view ?f s') ([?n..<?n + m] @ ps)"
    using inv m chain(1) len by (auto simp: dm_inv_def dm')
  show "total_pages dm' = ?n + m" "0 < m" "dm_fd dm' = ?f" using m by (simp_all add: dm')
  show "q < ?n \<Longrightarrow> page_at (view ?f s') q = page_at ?c q" by (rule old)
qed

lemma disk_pop_inv:
  assumes "dm_inv dm (view (dm_fd dm) s) (p # ps)" "free_list_head dm \<noteq> PAGE_ID_NULL"
    and "disk_alloc_page os dm s = (a, dm', s')" "a \<noteq> PAGE_ID_NULL"
  shows "a = p" "dm_inv dm' (view (dm_fd dm) s') ps" "page_at (view (dm_fd dm) s') p = page_data_zero"
    "q \<noteq> p \<Longrightarrow> page_at (view (dm_fd dm) s') q = page_at (view (dm_fd dm) s) q"
    "total_pages dm' = total_pages dm" "dm_fd dm' = dm_fd dm"
proof -
  let ?f = "dm_fd dm" and ?c = "view (dm_fd dm) s"
  note inv = assms(1) [unfolded dm_inv_def]
  have head: "free_list_head dm = p" using inv by simp
  obtain bs s1 where r: "os_pread os ?f 4096 (page_offset p) s = (4096, bs, s1)"
    and w: "os_pwrite os ?f page_data_zero (page_offset p) s1 = (4096, s')"
    and dm': "a = p" "dm' = dm\<lparr>free_list_head := get_le 4 0 bs,
      free_page_count := (free_page_count dm + (2 ^ 32 - 1)) mod 2 ^ 32\<rparr>"
    using assms(2-4) by (auto simp: disk_alloc_page_def Let_def head split: if_splits prod.splits)
  have c1: "view ?f s1 = ?c" "bs = page_at ?c p"
    using pread_full [of ?f 4096 "page_offset p" s bs s1] r by (auto simp: page_at_def)
  have p: "p < total_pages dm" using inv by auto
  have c': "view ?f s' = blit ?c (page_offset p) page_data_zero"
    using w p inv c1 pwrite_page [of ?f page_data_zero p s1 s' "total_pages dm"] by simp
  have pg: "page_at (view ?f s') q = (if q = p then page_data_zero else page_at ?c q)" for q
    unfolding c' using p inv by (intro page_at_blit) auto
  have "length ps < 2 ^ 24" using dm_inv_count [OF assms(1)] by simp
  then have count: "length ps mod 2 ^ 32 = length ps" "(free_page_count dm + (2 ^ 32 - 1)) mod 2 ^ 32 = length ps"
    using inv by simp_all
  have "free_chain (view ?f s') (next_free ?c p) ps"
    using inv by (subst free_chain_cong [of ps _ ?c]) (auto simp: next_free_def pg)
  moreover have "length (view ?f s') = length ?c"
    using inv page_offset_mono [OF p] by (simp add: c')
  ultimately show "dm_inv dm' (view ?f s') ps"
    using inv count by (auto simp: dm_inv_def dm' c1 next_free_def)
  show "a = p" "total_pages dm' = total_pages dm" "dm_fd dm' = ?f" by (simp_all add: dm')
  show "page_at (view ?f s') p = page_data_zero" "q \<noteq> p \<Longrightarrow> page_at (view ?f s') q = page_at ?c q"
    by (simp_all add: pg)
qed

end

definition allocated :: "disk_manager \<Rightarrow> nat list \<Rightarrow> nat set" where
  "allocated dm ps = {1..<total_pages dm} - set ps"

context posix
begin

lemma disk_alloc_extend:
  assumes "free_list_head dm = PAGE_ID_NULL" "disk_alloc_page os dm s = (a, dm', s')" "a \<noteq> PAGE_ID_NULL"
  obtains dm1 s1 where "disk_extend os dm DB_EXTEND_PAGES s = (NOSTR_DB_OK, dm1, s1)"
    "free_list_head dm1 \<noteq> PAGE_ID_NULL \<Longrightarrow> disk_alloc_page os dm1 s1 = (a, dm', s')" "dm_fd dm1 = dm_fd dm"
proof -
  obtain err dm1 s1 where e: "disk_extend os dm DB_EXTEND_PAGES s = (err, dm1, s1)" by (metis prod_cases3)
  have "dm_fd dm1 = dm_fd dm"
    using e by (auto simp: disk_extend_def Let_def split: if_splits prod.splits)
  moreover have "err = NOSTR_DB_OK" "0 \<le> dm_fd dm"
    using assms e by (auto simp: disk_alloc_page_def split: if_splits)
  ultimately show thesis
    using that [of dm1 s1] assms e by (simp add: disk_alloc_page_def)
qed

lemma disk_alloc_inv:
  assumes inv: "dm_inv dm (view (dm_fd dm) s) ps"
    and alloc: "disk_alloc_page os dm s = (a, dm', s')" "a \<noteq> PAGE_ID_NULL"
  shows "\<exists>ps'. dm_inv dm' (view (dm_fd dm) s') ps' \<and> dm_fd dm' = dm_fd dm \<and>
    a \<notin> allocated dm ps \<and> allocated dm' ps' = insert a (allocated dm ps) \<and>
    page_at (view (dm_fd dm) s') a = page_data_zero \<and>
    (\<forall>q \<in> allocated dm ps. page_at (view (dm_fd dm) s') q = page_at (view (dm_fd dm) s) q)"
proof (cases ps)
  case (Cons p qs)
  then have "free_list_head dm \<noteq> PAGE_ID_NULL" using inv by (auto simp: dm_inv_def)
  note pop = disk_pop_inv [OF inv [unfolded Cons] this alloc]
  then show ?thesis
    using inv Cons by (intro exI [of _ qs]) (auto simp: allocated_def dm_inv_def)
next
  case Nil
  then have h: "free_list_head dm = PAGE_ID_NULL" using inv by (simp add: dm_inv_def)
  let ?n = "total_pages dm"
  obtain dm1 s1 where e: "disk_extend os dm DB_EXTEND_PAGES s = (NOSTR_DB_OK, dm1, s1)"
    and al: "free_list_head dm1 \<noteq> PAGE_ID_NULL \<Longrightarrow> disk_alloc_page os dm1 s1 = (a, dm', s')"
    and fd: "dm_fd dm1 = dm_fd dm"
    using disk_alloc_extend [OF h alloc] by metis
  have m: "DB_EXTEND_PAGES \<le> 2 ^ 24" by simp
  note ext = disk_extend_inv [OF e inv m]
  have "[?n..<?n + 128] = ?n # [Suc ?n..<?n + 128]" by (simp add: upt_conv_Cons)
  then have inv1: "dm_inv dm1 (view (dm_fd dm1) s1) (?n # [Suc ?n..<?n + 128])"
    using ext(1) Nil fd by simp
  then have h1: "free_list_head dm1 \<noteq> PAGE_ID_NULL" using inv by (auto simp: dm_inv_def)
  note pop = disk_pop_inv [OF inv1 h1 al [OF h1] alloc(2)]
  have old: "page_at (view (dm_fd dm) s') q = page_at (view (dm_fd dm) s) q" if "q < ?n" for q
    using that ext(5) [of q] pop(4) [of q] fd by simp
  then show ?thesis
    using pop ext(2) inv Nil fd
    by (intro exI [of _ "[Suc ?n..<?n + 128]"]) (auto simp: allocated_def dm_inv_def)
qed

lemma disk_flush_header_ok:
  assumes "disk_flush_header os dm s = (NOSTR_DB_OK, s')" "dm_inv dm (view (dm_fd dm) s) ps"
  shows "page_at (view (dm_fd dm) s') 0 = header_page (total_pages dm) (free_list_head dm) (free_page_count dm)"
    "dm_inv dm (view (dm_fd dm) s') ps"
    "0 < q \<Longrightarrow> page_at (view (dm_fd dm) s') q = page_at (view (dm_fd dm) s) q"
proof -
  let ?h = "header_page (total_pages dm) (free_list_head dm) (free_page_count dm)"
  note inv = assms(2) [unfolded dm_inv_def]
  have w: "os_pwrite os (dm_fd dm) ?h (page_offset 0) s = (4096, s')"
    using assms(1) by (auto simp: disk_flush_header_def page_offset_def split: if_splits prod.splits)
  have c': "view (dm_fd dm) s' = blit (view (dm_fd dm) s) (page_offset 0) ?h"
    using inv by (intro pwrite_page [OF w, of "total_pages dm"]) auto
  have pg: "page_at (view (dm_fd dm) s') q = (if q = 0 then ?h else page_at (view (dm_fd dm) s) q)" for q
    using inv page_at_blit [of 0 "total_pages dm" "view (dm_fd dm) s" ?h q]
    by (simp add: c')
  show "page_at (view (dm_fd dm) s') 0 = ?h"
    "0 < q \<Longrightarrow> page_at (view (dm_fd dm) s') q = page_at (view (dm_fd dm) s) q" by (simp_all add: pg)
  have "free_chain (view (dm_fd dm) s') (free_list_head dm) ps"
    using inv by (subst free_chain_cong [of ps _ "view (dm_fd dm) s"]) (auto simp: next_free_def pg)
  moreover have "length (view (dm_fd dm) s') = length (view (dm_fd dm) s)"
    using inv page_offset_mono [of 0 "total_pages dm"] by (simp add: c')
  ultimately show "dm_inv dm (view (dm_fd dm) s') ps" using inv by (simp add: dm_inv_def)
qed

lemma load_header_ok:
  assumes "load_header os dm s = (NOSTR_DB_OK, dm', s')"
    and "page_at (view (dm_fd dm) s) 0 = header_page n h k" "n < 2 ^ 32" "h < 2 ^ 32" "k < 2 ^ 32"
  shows "dm' = dm\<lparr>total_pages := n, free_list_head := h, free_page_count := k\<rparr>" "view g s' = view g s"
  using assms(1) pread_full [of "dm_fd dm" 4096 0 s _ s'] assms(2-) header_page_fields [OF assms(3-5)]
  by (auto simp: load_header_def Let_def page_at_def page_offset_def split: if_splits prod.splits)

lemma reopen_inv:
  assumes "dm_inv dm (view (dm_fd dm) s) ps" "disk_flush_header os dm s = (NOSTR_DB_OK, s1)"
    and "view (dm_fd dm0) s2 = view (dm_fd dm) s1" "0 \<le> dm_fd dm0"
    and "load_header os dm0 s2 = (NOSTR_DB_OK, dm', s3)"
  shows "dm_inv dm' (view (dm_fd dm') s3) ps" "total_pages dm' = total_pages dm"
    "free_list_head dm' = free_list_head dm" "free_page_count dm' = free_page_count dm"
    "0 < q \<Longrightarrow> page_at (view (dm_fd dm') s3) q = page_at (view (dm_fd dm) s) q"
proof -
  note fl = disk_flush_header_ok [OF assms(2,1)]
  have "free_list_head dm < 2 ^ 32" using assms(1) by (cases ps) (auto simp: dm_inv_def)
  moreover have "free_page_count dm < 2 ^ 32" using dm_inv_count [OF assms(1)] assms(1) by (simp add: dm_inv_def)
  moreover have "total_pages dm < 2 ^ 32" using assms(1) by (simp add: dm_inv_def)
  ultimately have dm': "dm' = dm0\<lparr>total_pages := total_pages dm, free_list_head := free_list_head dm,
      free_page_count := free_page_count dm\<rparr>" and v: "view g s3 = view g s2" for g
    using load_header_ok [OF assms(5)] fl(1) assms(3) by simp_all
  show "dm_inv dm' (view (dm_fd dm') s3) ps"
    using fl(2) assms(3,4) by (simp add: dm_inv_def dm' v)
  show "total_pages dm' = total_pages dm"
    "free_list_head dm' = free_list_head dm" "free_page_count dm' = free_page_count dm"
    by (simp_all add: dm')
  show "0 < q \<Longrightarrow> page_at (view (dm_fd dm') s3) q = page_at (view (dm_fd dm) s) q"
    using fl(3) assms(3) by (simp add: dm' v)
qed

lemma disk_manager_create_ok:
  assumes "disk_manager_create os p n s = (NOSTR_DB_OK, dm, s')" "n \<le> DB_MAX_PAGES"
  shows "dm_inv dm (view (dm_fd dm) s') [1..<n]"
    "page_at (view (dm_fd dm) s') 0 = header_page n 1 (n - 1)"
proof -
  have n: "2 \<le> n" using assms(1) by (simp add: disk_manager_create_def split: if_splits)
  then obtain f s1 s2 s3 s4 r r0 where o: "os_open os p (O_RDWR + O_CREAT + O_EXCL) s = (f, s1)" "0 \<le> f"
    and t0: "os_ftruncate os f (n * 4096) s1 = (r0, s2)" "\<not> r0 < 0"
    and w: "os_pwrite os f (header_page n 1 (n - 1)) 0 s2 = (4096, s3)"
    and ch: "write_free_chain os f n PAGE_ID_NULL [1..<n] s3 = (True, s4)"
    and y: "os_fdatasync os f s4 = (r, s')"
    and dm: "dm_fd dm = f" "total_pages dm = n" "free_list_head dm = 1" "free_page_count dm = n - 1"
    using assms(1)
    by (auto simp: disk_manager_create_def nostr_db_file_create_def Let_def
        split: if_splits prod.splits option.splits)
  have t: "os_ftruncate os f (n * 4096) s1 = (0, s2)" using t0 ftruncate_law [OF t0(1)] by auto
  have c2: "view f s2 = resize [] (n * 4096)"
    using open_law [OF o(1), of f] o(2) ftruncate_law [OF t] by simp
  have w0: "os_pwrite os f (header_page n 1 (n - 1)) (page_offset 0) s2 = (4096, s3)"
    using w by (simp add: page_offset_def)
  have c3: "view f s3 = blit (view f s2) (page_offset 0) (header_page n 1 (n - 1))"
    using n by (intro pwrite_page [OF w0, of n]) (simp_all add: c2)
  have len3: "length (view f s3) = n * 4096"
    using n by (simp add: c3) (simp add: c2 page_offset_def)
  have ch': "length (view f s4) = n * 4096"
    "page_at (view f s4) q = (if q \<in> {1..<n} then free_page_data (if q + 1 < n then q + 1 else 0)
      else page_at (view f s3) q)" for q
    using write_free_chain_ok [OF ch, of n] len3 by simp_all
  have v: "view f s' = view f s4" using fdatasync_view [OF y] by simp
  have "free_chain (view f s4) 1 ([1..<n] @ [])"
    using n assms(2) by (intro free_chain_upt [where h = 0]) (simp_all add: next_free_def ch' get_free_page_data)
  then show "dm_inv dm (view (dm_fd dm) s') [1..<n]"
    using n assms(2) o(2) ch'(1) by (auto simp: dm_inv_def dm v)
  show "page_at (view (dm_fd dm) s') 0 = header_page n 1 (n - 1)"
    using n page_at_blit [of 0 n "view f s2" "header_page n 1 (n - 1)" 0]
    by (simp add: dm v ch' c3) (simp add: c2)
qed

end

context reliable_posix
begin

lemma write_free_chain_up:
  "up s \<Longrightarrow> \<exists>s'. write_free_chain os f bound final xs s = (True, s') \<and> up s'"
proof (induction xs arbitrary: s)
  case Nil
  then show ?case by simp
next
  case (Cons i xs)
  obtain s1 where "os_pwrite os f (free_page_data (if i + 1 < bound then i + 1 else final))
      (page_offset i) s = (4096, s1)" "up s1"
    using pwrite_up [OF Cons.prems, of f "free_page_data (if i + 1 < bound then i + 1 else final)" "page_offset i"]
    by auto
  then show ?case using Cons.IH [of s1] by (simp add: Let_def)
qed

lemma disk_read_up:
  assumes "up s" "0 \<le> dm_fd dm" "0 < p" "p < total_pages dm" "total_pages dm * 4096 \<le> length (view (dm_fd dm) s)"
  shows "\<exists>s'. disk_read_page os dm p s = (NOSTR_DB_OK, page_at (view (dm_fd dm) s) p, s') \<and> up s'"
proof -
  obtain bs s' where r: "os_pread os (dm_fd dm) 4096 (page_offset p) s = (4096, bs, s')" "up s'"
    using pread_up [OF assms(1), of "page_offset p" 4096 "dm_fd dm"] page_offset_mono [OF assms(4)] assms(5)
    by auto
  have "bs = page_at (view (dm_fd dm) s) p"
    using pread_full [of "dm_fd dm" 4096 "page_offset p" s bs s'] r(1) by (simp add: page_at_def)
  then show ?thesis using assms r by (simp add: disk_read_page_def)
qed

lemma disk_write_up:
  assumes "up s" "0 \<le> dm_fd dm" "0 < p" "p < total_pages dm" "length data = 4096"
  shows "\<exists>s'. disk_write_page os dm p data s = (NOSTR_DB_OK, s') \<and> up s'"
  using pwrite_up [OF assms(1), of "dm_fd dm" data "page_offset p"] assms by (auto simp: disk_write_page_def)

lemma disk_extend_up:
  assumes "up s" "dm_inv dm (view (dm_fd dm) s) ps" "0 < m" "total_pages dm + m \<le> DB_MAX_PAGES"
  shows "\<exists>dm' s'. disk_extend os dm m s = (NOSTR_DB_OK, dm', s') \<and> up s'"
proof -
  obtain s1 where "os_ftruncate os (dm_fd dm) ((total_pages dm + m) * 4096) s = (0, s1)" "up s1"
    using ftruncate_up [OF assms(1)] by blast
  moreover obtain s2 where "write_free_chain os (dm_fd dm) (total_pages dm + m) (free_list_head dm)
      [total_pages dm..<total_pages dm + m] s1 = (True, s2)" "up s2"
    using write_free_chain_up [OF \<open>up s1\<close>] by blast
  moreover have "(total_pages dm + m) mod 2 ^ 32 = total_pages dm + m"
    using assms(4) by (intro mod_less) simp
  ultimately show ?thesis
    using assms by (simp add: disk_extend_def nostr_db_file_extend_def dm_inv_def Let_def)
qed

lemma disk_pop_up:
  assumes "up s" "dm_inv dm (view (dm_fd dm) s) (p # ps)"
  shows "\<exists>dm' s'. disk_alloc_page os dm s = (p, dm', s') \<and> p \<noteq> PAGE_ID_NULL \<and> up s'"
proof -
  have p: "0 < p" "p < total_pages dm" "free_list_head dm = p" "0 \<le> dm_fd dm"
    using assms(2) by (auto simp: dm_inv_def)
  obtain bs s1 where "os_pread os (dm_fd dm) 4096 (page_offset p) s = (4096, bs, s1)" "up s1"
    using pread_up [OF assms(1), of "page_offset p" 4096 "dm_fd dm"] page_offset_mono [OF p(2)] assms(2)
    by (auto simp: dm_inv_def)
  moreover obtain s2 where "os_pwrite os (dm_fd dm) page_data_zero (page_offset p) s1 = (4096, s2)" "up s2"
    using pwrite_up [OF \<open>up s1\<close>, of "dm_fd dm" page_data_zero "page_offset p"] by auto
  ultimately show ?thesis using p by (simp add: disk_alloc_page_def Let_def)
qed

lemma disk_alloc_up:
  assumes "up s" "dm_inv dm (view (dm_fd dm) s) ps"
    and "ps \<noteq> [] \<or> total_pages dm + DB_EXTEND_PAGES \<le> DB_MAX_PAGES"
  shows "\<exists>a dm' s'. disk_alloc_page os dm s = (a, dm', s') \<and> a \<noteq> PAGE_ID_NULL \<and> up s'"
proof (cases ps)
  case (Cons p qs)
  then show ?thesis using disk_pop_up assms(1,2) by blast
next
  case Nil
  let ?n = "total_pages dm"
  have h: "free_list_head dm = 0" "0 \<le> dm_fd dm" "1 \<le> ?n" using assms(2) Nil by (auto simp: dm_inv_def)
  obtain dm1 s1 where e: "disk_extend os dm DB_EXTEND_PAGES s = (NOSTR_DB_OK, dm1, s1)" "up s1"
    using disk_extend_up [OF assms(1,2), of DB_EXTEND_PAGES] assms(3) Nil by auto
  have m: "DB_EXTEND_PAGES \<le> 2 ^ 24" by simp
  note ext = disk_extend_inv [OF e(1) assms(2) m]
  have "[?n..<?n + 128] = ?n # [Suc ?n..<?n + 128]" by (simp add: upt_conv_Cons)
  then have inv1: "dm_inv dm1 (view (dm_fd dm1) s1) (?n # [Suc ?n..<?n + 128])" using ext(1,4) Nil by simp
  then have h1: "free_list_head dm1 \<noteq> 0" using h(3) by (auto simp: dm_inv_def)
  obtain dm' s' where "disk_alloc_page os dm1 s1 = (?n, dm', s')" "up s'"
    using disk_pop_up [OF e(2) inv1] by blast
  then have "disk_alloc_page os dm s = (?n, dm', s')"
    using e(1) h h1 ext(4) by (simp add: disk_alloc_page_def)
  then show ?thesis using h(3) \<open>up s'\<close> by fastforce
qed

lemma disk_manager_create_up:
  assumes "2 \<le> n" "length p < 256" "os_open os p (O_RDWR + O_CREAT + O_EXCL) s = (f, s1)" "0 \<le> f" "up s1"
  shows "\<exists>dm s'. disk_manager_create os p n s = (NOSTR_DB_OK, dm, s') \<and> up s'"
proof -
  obtain s2 where "os_ftruncate os f (n * 4096) s1 = (0, s2)" "up s2"
    using ftruncate_up [OF assms(5)] by blast
  moreover obtain s3 where "os_pwrite os f (header_page n 1 (n - 1)) 0 s2 = (4096, s3)" "up s3"
    using pwrite_up [OF \<open>up s2\<close>, of f "header_page n 1 (n - 1)" 0] by auto
  moreover obtain s4 where "write_free_chain os f n PAGE_ID_NULL [1..<n] s3 = (True, s4)" "up s4"
    using write_free_chain_up [OF \<open>up s3\<close>] by blast
  moreover obtain s5 where "os_fdatasync os f s4 = (0, s5)" "up s5"
    using fdatasync_up [OF \<open>up s4\<close>] by blast
  ultimately show ?thesis
    using assms by (simp add: disk_manager_create_def copy_path_def nostr_db_file_create_def Let_def)
qed

end

text \<open>A database of \<open>n\<close> pages in the memory kernel, the input of the examples.\<close>

lemma mem_create:
  assumes "2 \<le> n" "n \<le> 2 ^ 24"
  obtains dm s where "disk_manager_create mem_os [97] n (mem_init []) = (NOSTR_DB_OK, dm, s)"
    "script s = []" "dm_inv dm (mem_view s (dm_fd dm)) [1..<n]" "total_pages dm = n"
proof -
  have "\<exists>s1. os_open mem_os [97] (O_RDWR + O_CREAT + O_EXCL) (mem_init []) = (3, s1) \<and> script s1 = []"
    by (simp add: mem_os_def mem_open_def mem_init_def next_outcome_def)
  then obtain dm s where c: "disk_manager_create mem_os [97] n (mem_init []) = (NOSTR_DB_OK, dm, s)" "script s = []"
    using mem.disk_manager_create_up [of n "[97]" "mem_init []" 3] assms by auto
  moreover have "total_pages dm = n"
    using c(1) by (auto simp: disk_manager_create_def Let_def split: if_splits option.splits prod.splits)
  ultimately show thesis using that mem.disk_manager_create_ok(1) [OF c(1)] assms by simp
qed

lemma mem_db3:
  obtains dm and s :: mem_state
  where "script s = []" "dm_inv dm (mem_view s (dm_fd dm)) [1, 2]" "total_pages dm = 3"
proof -
  have u: "[1..<3] = [1, 2 :: nat]" by (simp add: upt_rec)
  have "\<exists>dm (s :: mem_state). script s = [] \<and> dm_inv dm (mem_view s (dm_fd dm)) [1..<3] \<and> total_pages dm = 3"
    by (rule mem_create [of 3]) (simp_all only: ex_simps, simp_all, blast)
  then show thesis unfolding u using that by blast
qed

section \<open>Properties\<close>

text \<open>
  A page that \<open>disk_write_page\<close> wrote reads back as written, and a write, whether it
  succeeds or fails, changes no other page of the file.
\<close>

theorem disk_write_read:
  assumes "posix os view durable" "total_pages dm * 4096 \<le> length (view (dm_fd dm) s)" "length data = 4096"
    and "disk_write_page os dm p data s = (err, s')" "disk_read_page os dm q s' = (NOSTR_DB_OK, out, s'')"
  shows "(q = p \<and> err = NOSTR_DB_OK \<longrightarrow> out = data) \<and> (q \<noteq> p \<longrightarrow> out = page_at (view (dm_fd dm) s) q)"
proof (intro conjI impI)
  note rd = posix.disk_read_page_ok [OF assms(1,5)]
  { assume "q = p \<and> err = NOSTR_DB_OK"
    then have "view (dm_fd dm) s' = blit (view (dm_fd dm) s) (page_offset p) data" "p < total_pages dm"
      using posix.disk_write_page_ok [OF assms(1), of dm p data s s'] assms(2-4) by simp_all
    then show "out = data"
      using rd(1) page_at_blit [of p "total_pages dm" "view (dm_fd dm) s" data p] assms(2,3) \<open>q = p \<and> _\<close> by simp }
  { assume "q \<noteq> p"
    then show "out = page_at (view (dm_fd dm) s) q"
      using rd(1,5) posix.disk_write_page_frame(2) [OF assms(1,4,3,2)] by simp }
qed

theorem disk_write_read_witness:
  "\<exists>dm s s' s''. disk_write_page mem_os dm 1 (replicate 4096 7) s = (NOSTR_DB_OK, s') \<and>
     disk_read_page mem_os dm 1 s' = (NOSTR_DB_OK, replicate 4096 7, s'')"
proof -
  obtain dm and s :: mem_state where c: "script s = []" "dm_inv dm (mem_view s (dm_fd dm)) [1, 2]" "total_pages dm = 3"
    by (rule mem_db3)
  have inv: "0 \<le> dm_fd dm" "3 * 4096 \<le> length (mem_view s (dm_fd dm))" using c by (simp_all add: dm_inv_def)
  obtain s' where w: "disk_write_page mem_os dm 1 (replicate 4096 7) s = (NOSTR_DB_OK, s')" "script s' = []"
    using mem.disk_write_up [of s dm 1 "replicate 4096 7"] c inv by auto
  have "length (mem_view s' (dm_fd dm)) = length (mem_view s (dm_fd dm))"
    using mem.disk_write_page_frame(1) [OF w(1)] c inv by simp
  then obtain out s'' where r: "disk_read_page mem_os dm 1 s' = (NOSTR_DB_OK, out, s'')"
    using mem.disk_read_up [of s' dm 1] w(2) c inv by auto
  then show ?thesis
    using disk_write_read [OF posix_mem _ _ w(1) r] w(1) c inv by auto
qed

text \<open>
  C11: \<open>disk_alloc_page\<close> keeps the free list a duplicate-free chain inside the file that agrees
  with the cached count; the page it returns was not allocated before, comes back zeroed, and
  joins the allocated pages, none of which changes content.
\<close>

theorem disk_alloc_fresh:
  assumes "posix os view durable" "dm_inv dm (view (dm_fd dm) s) ps"
    and "disk_alloc_page os dm s = (a, dm', s')" "a \<noteq> PAGE_ID_NULL"
  shows "\<exists>ps'. dm_inv dm' (view (dm_fd dm) s') ps' \<and> a \<notin> allocated dm ps \<and>
    allocated dm' ps' = insert a (allocated dm ps) \<and>
    page_at (view (dm_fd dm) s') a = page_data_zero \<and>
    (\<forall>q \<in> allocated dm ps. page_at (view (dm_fd dm) s') q = page_at (view (dm_fd dm) s) q)"
  using posix.disk_alloc_inv [OF assms] by blast

theorem disk_alloc_fresh_witness:
  "\<exists>dm s a dm' s'. disk_alloc_page mem_os dm s = (a, dm', s') \<and> a \<noteq> PAGE_ID_NULL \<and>
     page_at (mem_view s' (dm_fd dm)) a = page_data_zero"
proof -
  obtain dm and s :: mem_state where c: "script s = []" "dm_inv dm (mem_view s (dm_fd dm)) [1, 2]"
    by (metis mem_db3)
  obtain a dm' s' where "disk_alloc_page mem_os dm s = (a, dm', s')" "a \<noteq> PAGE_ID_NULL"
    using mem.disk_alloc_up [OF c] by auto
  then show ?thesis using disk_alloc_fresh [OF posix_mem c(2)] by blast
qed

text \<open>
  C12: \<open>disk_free_page\<close> of an allocated page puts it in front of the free list: exactly that
  page leaves the allocated ones, the free-list invariant is kept, no other page changes.
\<close>

theorem disk_free_returns_page:
  assumes "posix os view durable" "dm_inv dm (view (dm_fd dm) s) ps" "p \<in> allocated dm ps"
    and "disk_free_page os dm p s = (NOSTR_DB_OK, dm', s')"
  shows "dm_inv dm' (view (dm_fd dm) s') (p # ps) \<and> allocated dm' (p # ps) = allocated dm ps - {p} \<and>
    (\<forall>q. q \<noteq> p \<longrightarrow> page_at (view (dm_fd dm) s') q = page_at (view (dm_fd dm) s) q)"
proof -
  have "p \<notin> set ps" using assms(3) by (simp add: allocated_def)
  note inv = posix.disk_free_page_inv [OF assms(1,4,2) this]
  then show ?thesis by (auto simp: allocated_def)
qed

theorem disk_free_returns_page_witness:
  "\<exists>dm s p dm' s'. disk_free_page mem_os dm p s = (NOSTR_DB_OK, dm', s') \<and> free_list_head dm' = p"
proof -
  obtain dm and s :: mem_state where c: "script s = []" "dm_inv dm (mem_view s (dm_fd dm)) [1, 2]"
    by (metis mem_db3)
  obtain a dm' s' where al: "disk_alloc_page mem_os dm s = (a, dm', s')" "a \<noteq> PAGE_ID_NULL" "script s' = []"
    using mem.disk_alloc_up [OF c] by auto
  obtain ps where inv: "dm_inv dm' (mem_view s' (dm_fd dm')) ps" "a \<in> allocated dm' ps"
    using mem.disk_alloc_inv [OF c(2) al(1,2)] by auto
  obtain s'' where w: "os_pwrite mem_os (dm_fd dm') (free_page_data (free_list_head dm')) (page_offset a) s' = (4096, s'')"
    using mem.pwrite_up [OF al(3), of "dm_fd dm'" "free_page_data (free_list_head dm')" "page_offset a"] by auto
  then obtain dm'' where fr: "disk_free_page mem_os dm' a s' = (NOSTR_DB_OK, dm'', s'')"
    using inv by (simp add: disk_free_page_def dm_inv_def allocated_def)
  then show ?thesis
    using disk_free_returns_page [OF posix_mem inv fr] by (auto simp: dm_inv_def)
qed

text \<open>
  C14: On a kernel that fails no call, allocation returns a page as long as the free list has
  one or the file may still grow by an extension batch below \<open>DB_MAX_PAGES\<close>.
\<close>

theorem disk_alloc_succeeds:
  assumes "reliable_posix os view durable up" "up s" "dm_inv dm (view (dm_fd dm) s) ps"
    and "ps \<noteq> [] \<or> total_pages dm + DB_EXTEND_PAGES \<le> DB_MAX_PAGES"
  shows "\<exists>a dm' s'. disk_alloc_page os dm s = (a, dm', s') \<and> a \<noteq> PAGE_ID_NULL"
  using reliable_posix.disk_alloc_up [OF assms] by blast

theorem disk_alloc_succeeds_witness:
  "\<exists>dm s a dm' s'. total_pages dm = 3 \<and> disk_alloc_page mem_os dm s = (a, dm', s') \<and> a \<noteq> PAGE_ID_NULL"
proof -
  obtain dm and s :: mem_state where c: "script s = []" "dm_inv dm (mem_view s (dm_fd dm)) [1, 2]" "total_pages dm = 3"
    by (rule mem_db3)
  show ?thesis
    using disk_alloc_succeeds [OF mem.reliable_posix_axioms c(1,2)] c(3) by force
qed



end
