(* ===== verification/BufferHash.thy ===== *)
theory BufferHash
  imports Prelude
begin

text \<open>
  The hash table of the buffer pool (\<open>hash_page_id\<close>, \<open>hash_lookup\<close>, \<open>hash_insert\<close>,
  \<open>hash_remove\<close> of \<open>src/nostr/db/buffer/buffer_pool.c\<close>): open addressing with linear
  probing and backward-shift deletion. The table maps page ids to frames, but it only holds
  frame numbers; the key of a frame is read from the array \<open>page_ids\<close>.

  A cell is a frame number or \<open>BUFFER_FRAME_INVALID\<close>. The loops the code bounds by
  returning to their start run for \<open>hash_size\<close> rounds here; the ones it writes as
  \<open>for (;;)\<close> get the same fuel and are \<open>None\<close> if they have not left the loop by
  then, which happens exactly if the C loop never ends: a round does not depend on the number of
  rounds before it, and a table without an empty cell keeps having none.
\<close>

abbreviation (input) "BUFFER_FRAME_INVALID \<equiv> (0xFFFFFFFF :: nat)"

section \<open>The operations\<close>

definition hash_page_id :: "nat \<Rightarrow> nat \<Rightarrow> nat" where
  "hash_page_id page_id hash_size = (page_id * 2654435761) mod 2 ^ 32 mod hash_size"

primrec hash_lookup_loop :: "nat list \<Rightarrow> nat list \<Rightarrow> nat \<Rightarrow> nat \<Rightarrow> nat \<Rightarrow> nat \<Rightarrow> nat" where
  "hash_lookup_loop table page_ids hash_size page_id 0 idx = BUFFER_FRAME_INVALID"
| "hash_lookup_loop table page_ids hash_size page_id (Suc fuel) idx =
     (let frame = table ! idx
      in if frame = BUFFER_FRAME_INVALID then BUFFER_FRAME_INVALID
         else if page_ids ! frame = page_id then frame
         else hash_lookup_loop table page_ids hash_size page_id fuel ((idx + 1) mod hash_size))"

definition hash_lookup :: "nat list \<Rightarrow> nat list \<Rightarrow> nat \<Rightarrow> nat \<Rightarrow> nat" where
  "hash_lookup table page_ids hash_size page_id =
     hash_lookup_loop table page_ids hash_size page_id hash_size (hash_page_id page_id hash_size)"

primrec hash_insert_loop ::
    "nat list \<Rightarrow> nat list \<Rightarrow> nat \<Rightarrow> nat \<Rightarrow> nat \<Rightarrow> nat \<Rightarrow> nat \<Rightarrow> nat list option" where
  "hash_insert_loop table page_ids hash_size page_id frame_index 0 idx = None"
| "hash_insert_loop table page_ids hash_size page_id frame_index (Suc fuel) idx =
     (let frame = table ! idx
      in if frame = BUFFER_FRAME_INVALID then Some (table[idx := frame_index])
         else if page_ids ! frame = page_id then Some (table[idx := frame_index])
         else hash_insert_loop table page_ids hash_size page_id frame_index fuel ((idx + 1) mod hash_size))"

definition hash_insert :: "nat list \<Rightarrow> nat list \<Rightarrow> nat \<Rightarrow> nat \<Rightarrow> nat \<Rightarrow> nat list option" where
  "hash_insert table page_ids hash_size page_id frame_index =
     hash_insert_loop table page_ids hash_size page_id frame_index hash_size
       (hash_page_id page_id hash_size)"

text \<open>The first loop of \<open>hash_remove\<close>: the index of the entry, if there is one.\<close>

primrec hash_find_loop :: "nat list \<Rightarrow> nat list \<Rightarrow> nat \<Rightarrow> nat \<Rightarrow> nat \<Rightarrow> nat \<Rightarrow> nat option" where
  "hash_find_loop table page_ids hash_size page_id 0 idx = None"
| "hash_find_loop table page_ids hash_size page_id (Suc fuel) idx =
     (let frame = table ! idx
      in if frame = BUFFER_FRAME_INVALID then None
         else if page_ids ! frame = page_id then Some idx
         else hash_find_loop table page_ids hash_size page_id fuel ((idx + 1) mod hash_size))"

text \<open>The second loop: slide the entries behind the gap back.\<close>

primrec hash_shift_loop :: "nat list \<Rightarrow> nat list \<Rightarrow> nat \<Rightarrow> nat \<Rightarrow> nat \<Rightarrow> nat \<Rightarrow> nat list option" where
  "hash_shift_loop page_ids table hash_size 0 gap j = None"
| "hash_shift_loop page_ids table hash_size (Suc fuel) gap j =
     (let j = (j + 1) mod hash_size; frame = table ! j
      in if frame = BUFFER_FRAME_INVALID then Some (table[gap := BUFFER_FRAME_INVALID])
         else
           (let k = hash_page_id (page_ids ! frame) hash_size;
                should_move = (if j \<ge> gap then k \<le> gap \<or> k > j else k \<le> gap \<and> k > j)
            in if should_move
               then hash_shift_loop page_ids (table[gap := table ! j]) hash_size fuel j j
               else hash_shift_loop page_ids table hash_size fuel gap j))"

definition hash_remove :: "nat list \<Rightarrow> nat list \<Rightarrow> nat \<Rightarrow> nat \<Rightarrow> nat list option" where
  "hash_remove table page_ids hash_size page_id =
     (case hash_find_loop table page_ids hash_size page_id hash_size (hash_page_id page_id hash_size) of
        None \<Rightarrow> Some table
      | Some idx \<Rightarrow> hash_shift_loop page_ids table hash_size hash_size idx idx)"

section \<open>Distances on the ring of cells\<close>

definition ring_dist :: "nat \<Rightarrow> nat \<Rightarrow> nat \<Rightarrow> nat" where
  "ring_dist n a b = (if a \<le> b then b - a else b + n - a)"

lemma ring_dist_less: "a < n \<Longrightarrow> b < n \<Longrightarrow> ring_dist n a b < n"
  unfolding ring_dist_def by (auto split: if_splits)

lemma ring_dist_self [simp]: "ring_dist n a a = 0"
  by (simp add: ring_dist_def)

lemma ring_dist_0: "a < n \<Longrightarrow> b < n \<Longrightarrow> ring_dist n a b = 0 \<longleftrightarrow> a = b"
  by (auto simp: ring_dist_def)

lemma ring_dist_inj: "a < n \<Longrightarrow> b < n \<Longrightarrow> c < n \<Longrightarrow> ring_dist n a b = ring_dist n a c \<longleftrightarrow> b = c"
  by (auto simp: ring_dist_def split: if_splits)

lemma ring_dist_next:
  "a < n \<Longrightarrow> b < n \<Longrightarrow> ring_dist n a b + 1 < n \<Longrightarrow> ring_dist n a ((b + 1) mod n) = ring_dist n a b + 1"
  by (cases "b + 1 = n") (auto simp: ring_dist_def split: if_splits)

lemma ring_dist_next_start:
  "a < n \<Longrightarrow> b < n \<Longrightarrow> a \<noteq> b \<Longrightarrow> ring_dist n ((a + 1) mod n) b = ring_dist n a b - 1"
  by (cases "a + 1 = n") (auto simp: ring_dist_def split: if_splits)

lemma ring_dist_split:
  "a < n \<Longrightarrow> b < n \<Longrightarrow> c < n \<Longrightarrow> ring_dist n a b \<le> ring_dist n a c \<Longrightarrow>
   ring_dist n a c = ring_dist n a b + ring_dist n b c"
  by (auto simp: ring_dist_def split: if_splits)

lemma ring_dist_add:
  "a < n \<Longrightarrow> b < n \<Longrightarrow> c < n \<Longrightarrow> ring_dist n a b + ring_dist n b c < n \<Longrightarrow>
   ring_dist n a c = ring_dist n a b + ring_dist n b c"
  by (auto simp: ring_dist_def split: if_splits)

text \<open>The test of the code for ``the gap is on the probe path of the entry at \<open>j\<close>''.\<close>

lemma should_move_iff:
  "k < n \<Longrightarrow> gap < n \<Longrightarrow> j < n \<Longrightarrow> gap \<noteq> j \<Longrightarrow>
   (if j \<ge> gap then k \<le> gap \<or> k > j else k \<le> gap \<and> k > j) \<longleftrightarrow> ring_dist n k gap < ring_dist n k j"
  by (auto simp: ring_dist_def split: if_splits)

section \<open>Linear probing\<close>

text \<open>
  \<open>probe_ok n h T\<close>: no frame is in two cells, and no probe path, from the home cell \<open>h f\<close> of
  a frame to the cell that holds it, crosses an empty cell.
\<close>

definition probe_ok :: "nat \<Rightarrow> ('f \<Rightarrow> nat) \<Rightarrow> (nat \<Rightarrow> 'f option) \<Rightarrow> bool" where
  "probe_ok n h T \<longleftrightarrow>
     (\<forall>i < n. \<forall>j < n. \<forall>f. T i = Some f \<longrightarrow> T j = Some f \<longrightarrow> i = j) \<and>
     (\<forall>i < n. \<forall>f. T i = Some f \<longrightarrow> (\<forall>q < n. ring_dist n (h f) q < ring_dist n (h f) i \<longrightarrow> T q \<noteq> None))"

text \<open>
  The invariant of the deletion loop: as \<open>probe_ok\<close>, but a path may cross the gap if it ends
  behind the scan position \<open>j\<close>.
\<close>

definition gap_ok :: "nat \<Rightarrow> ('f \<Rightarrow> nat) \<Rightarrow> (nat \<Rightarrow> 'f option) \<Rightarrow> nat \<Rightarrow> nat \<Rightarrow> bool" where
  "gap_ok n h U gap j \<longleftrightarrow> U gap = None \<and>
     (\<forall>i < n. \<forall>j < n. \<forall>f. U i = Some f \<longrightarrow> U j = Some f \<longrightarrow> i = j) \<and>
     (\<forall>i < n. \<forall>f. U i = Some f \<longrightarrow> (\<forall>q < n. ring_dist n (h f) q < ring_dist n (h f) i \<longrightarrow>
        U q \<noteq> None \<or> q = gap \<and> ring_dist n gap j < ring_dist n gap i))"

lemma gap_ok_inj:
  "gap_ok n h U gap j \<Longrightarrow> \<forall>i < n. \<forall>j < n. \<forall>f. U i = Some f \<longrightarrow> U j = Some f \<longrightarrow> i = j"
  unfolding gap_ok_def by (elim conjE)

lemma gap_ok_path:
  "gap_ok n h U gap j \<Longrightarrow> i < n \<Longrightarrow> U i = Some f \<Longrightarrow> q < n \<Longrightarrow> ring_dist n (h f) q < ring_dist n (h f) i \<Longrightarrow>
   U q \<noteq> None \<or> q = gap \<and> ring_dist n gap j < ring_dist n gap i"
  unfolding gap_ok_def by simp

lemma gap_okI:
  assumes "U gap = None" "\<And>i k f. i < n \<Longrightarrow> k < n \<Longrightarrow> U i = Some f \<Longrightarrow> U k = Some f \<Longrightarrow> i = k"
    and "\<And>i f q. i < n \<Longrightarrow> U i = Some f \<Longrightarrow> q < n \<Longrightarrow> ring_dist n (h f) q < ring_dist n (h f) i \<Longrightarrow>
      U q \<noteq> None \<or> q = gap \<and> ring_dist n gap j < ring_dist n gap i"
  shows "gap_ok n h U gap j"
  using assms unfolding gap_ok_def by simp

locale probing =
  fixes h :: "nat \<Rightarrow> 'f \<Rightarrow> nat"
  assumes home_less: "0 < n \<Longrightarrow> h n f < n"
begin

lemma probe_insert:
  assumes "probe_ok n (h n) T" "i < n" "T i = None" "\<forall>j < n. T j \<noteq> Some f"
    and "\<forall>q < n. ring_dist n (h n f) q < ring_dist n (h n f) i \<longrightarrow> T q \<noteq> None"
  shows "probe_ok n (h n) (T(i := Some f))"
  using assms by (auto simp: probe_ok_def)

lemma gap_start:
  assumes "probe_ok n (h n) T" "idx < n"
  shows "gap_ok n (h n) (T(idx := None)) idx idx"
proof -
  have "0 < ring_dist n idx i" if "i < n" "i \<noteq> idx" for i
    using ring_dist_0 [OF assms(2) that(1)] that by simp
  then show ?thesis using assms(1) by (auto simp: gap_ok_def probe_ok_def)
qed

lemma gap_done:
  assumes "gap_ok n (h n) U gap j" "gap < n" "j < n" "ring_dist n gap j + 1 < n"
    and "U ((j + 1) mod n) = None" "(j + 1) mod n \<noteq> gap"
  shows "probe_ok n (h n) U"
proof -
  let ?j = "(j + 1) mod n"
  have j: "?j < n" "ring_dist n gap ?j = ring_dist n gap j + 1"
    using assms ring_dist_next [of gap n j] by auto
  have "U q \<noteq> None" if i: "i < n" "U i = Some f" and q: "q < n" "ring_dist n (h n f) q < ring_dist n (h n f) i"
    for i f q
  proof (rule ccontr)
    assume "\<not> U q \<noteq> None"
    then have g: "q = gap" "ring_dist n gap j < ring_dist n gap i"
      using gap_ok_path [OF assms(1) i q] by auto
    have h: "h n f < n" using i by (intro home_less) simp
    have "i \<noteq> ?j" using i assms(5) by auto
    then have lt: "ring_dist n gap ?j < ring_dist n gap i"
      using g(2) j ring_dist_inj [OF assms(2) i(1) j(1)] by linarith
    have sum: "ring_dist n (h n f) i = ring_dist n (h n f) gap + ring_dist n gap i"
      using q g h i assms(2) by (intro ring_dist_split) auto
    have "ring_dist n (h n f) ?j = ring_dist n (h n f) gap + ring_dist n gap ?j"
      using sum lt ring_dist_less [OF h i(1)] h assms(2) j(1) by (intro ring_dist_add) auto
    then have "ring_dist n (h n f) ?j < ring_dist n (h n f) i" using sum lt by simp
    then have "U ?j \<noteq> None \<or> ?j = gap" using gap_ok_path [OF assms(1) i j(1)] by blast
    then show False using assms(5,6) by simp
  qed
  then show ?thesis
    using gap_ok_inj [OF assms(1)] unfolding probe_ok_def by metis
qed

lemma gap_keep:
  assumes "gap_ok n (h n) U gap j" "gap < n" "j < n" "ring_dist n gap j + 1 < n"
    and "U ((j + 1) mod n) = Some f"
    and "\<not> ring_dist n (h n f) gap < ring_dist n (h n f) ((j + 1) mod n)"
  shows "gap_ok n (h n) U gap ((j + 1) mod n)"
proof -
  let ?j = "(j + 1) mod n"
  have j: "?j < n" "ring_dist n gap ?j = ring_dist n gap j + 1"
    using assms ring_dist_next [of gap n j] by auto
  have "U q \<noteq> None \<or> q = gap \<and> ring_dist n gap ?j < ring_dist n gap i"
    if i: "i < n" "U i = Some f'" and q: "q < n" "ring_dist n (h n f') q < ring_dist n (h n f') i" for i f' q
  proof (cases "i = ?j")
    case True
    then have "f' = f" using i assms(5) by simp
    with True q assms(6) have "q \<noteq> gap" by auto
    then show ?thesis using gap_ok_path [OF assms(1) i q] by blast
  next
    case False
    then have "ring_dist n gap i \<noteq> ring_dist n gap ?j"
      using ring_dist_inj [OF assms(2) i(1) j(1)] by simp
    then show ?thesis using gap_ok_path [OF assms(1) i q] j(2) by linarith
  qed
  then show ?thesis
    using gap_ok_inj [OF assms(1)] assms(1) unfolding gap_ok_def by metis
qed

lemma gap_move:
  assumes "gap_ok n (h n) U gap j" "gap < n" "j < n" "ring_dist n gap j + 1 < n"
    and "U ((j + 1) mod n) = Some f" "(j + 1) mod n \<noteq> gap"
    and "ring_dist n (h n f) gap < ring_dist n (h n f) ((j + 1) mod n)"
  shows "gap_ok n (h n) (U(gap := Some f, (j + 1) mod n := None)) ((j + 1) mod n) ((j + 1) mod n)"
proof -
  let ?j = "(j + 1) mod n"
  let ?V = "U(gap := Some f, ?j := None)"
  have j: "?j < n" using assms by auto
  have inj: "\<And>i k f. i < n \<Longrightarrow> k < n \<Longrightarrow> U i = Some f \<Longrightarrow> U k = Some f \<Longrightarrow> i = k"
    using gap_ok_inj [OF assms(1)] by blast
  have path: "\<And>i f q. i < n \<Longrightarrow> U i = Some f \<Longrightarrow> q < n \<Longrightarrow> ring_dist n (h n f) q < ring_dist n (h n f) i \<Longrightarrow>
      U q \<noteq> None \<or> q = gap"
    using gap_ok_path [OF assms(1)] by blast
  have A: "i = k" if "i < n" "k < n" "?V i = Some f'" "?V k = Some f'" for i k f'
    using that assms(2,5,6) j inj [of i k f'] inj [of i ?j f'] inj [of k ?j f'] by (auto split: if_splits)
  have B: "?V q \<noteq> None \<or> q = ?j \<and> ring_dist n ?j ?j < ring_dist n ?j i"
    if i: "i < n" "?V i = Some f'" and q: "q < n" "ring_dist n (h n f') q < ring_dist n (h n f') i" for i f' q
  proof (cases "i = gap")
    case True
    then have f': "f' = f" using i assms(6) by simp
    with True q assms(7) have lt: "ring_dist n (h n f) q < ring_dist n (h n f) ?j" by simp
    then have "q \<noteq> ?j" "q \<noteq> gap" using True f' q by auto
    then show ?thesis using path [OF j assms(5) q(1) lt] by simp
  next
    case False
    then have i': "i \<noteq> ?j" "U i = Some f'" using i by (auto split: if_splits)
    show ?thesis
    proof (cases "q = ?j")
      case True
      then show ?thesis using ring_dist_0 [OF j i(1)] i' by auto
    next
      case False
      then show ?thesis using path [OF i(1) i'(2) q] by auto
    qed
  qed
  show ?thesis by (rule gap_okI) (simp, erule (3) A, erule (3) B)
qed

end

lemma probe_ok_inj:
  "probe_ok n h T \<Longrightarrow> i < n \<Longrightarrow> k < n \<Longrightarrow> T i = Some f \<Longrightarrow> T k = Some f \<Longrightarrow> i = k"
  unfolding probe_ok_def by simp

lemma probe_ok_path:
  "probe_ok n h T \<Longrightarrow> i < n \<Longrightarrow> T i = Some f \<Longrightarrow> q < n \<Longrightarrow> ring_dist n (h f) q < ring_dist n (h f) i \<Longrightarrow>
   T q \<noteq> None"
  unfolding probe_ok_def by simp

lemma probe_okI:
  assumes "\<And>i k f. i < n \<Longrightarrow> k < n \<Longrightarrow> T i = Some f \<Longrightarrow> T k = Some f \<Longrightarrow> i = k"
    and "\<And>i f q. i < n \<Longrightarrow> T i = Some f \<Longrightarrow> q < n \<Longrightarrow> ring_dist n (h f) q < ring_dist n (h f) i \<Longrightarrow> T q \<noteq> None"
  shows "probe_ok n h T"
  using assms unfolding probe_ok_def by simp

lemma probe_ok_home_cong:
  assumes "\<And>i f. i < n \<Longrightarrow> T i = Some f \<Longrightarrow> h' f = h f"
  shows "probe_ok n h' T \<longleftrightarrow> probe_ok n h T"
proof
  assume ok: "probe_ok n h' T"
  show "probe_ok n h T"
    using probe_ok_inj [OF ok] probe_ok_path [OF ok] assms by (intro probe_okI) fastforce+
next
  assume ok: "probe_ok n h T"
  show "probe_ok n h' T"
    using probe_ok_inj [OF ok] probe_ok_path [OF ok] assms by (intro probe_okI) fastforce+
qed

section \<open>The table as a set of frames\<close>

definition cell :: "nat list \<Rightarrow> nat \<Rightarrow> nat option" where
  "cell table i = (if table ! i = BUFFER_FRAME_INVALID then None else Some (table ! i))"

definition frames_in :: "nat list \<Rightarrow> nat \<Rightarrow> nat set" where
  "frames_in table n = {f. \<exists>i < n. cell table i = Some f}"

definition home_of :: "nat list \<Rightarrow> nat \<Rightarrow> nat \<Rightarrow> nat" where
  "home_of page_ids n f = hash_page_id (page_ids ! f) n"

definition table_ok :: "nat list \<Rightarrow> nat list \<Rightarrow> nat \<Rightarrow> bool" where
  "table_ok table page_ids n \<longleftrightarrow> length table = n \<and> 0 < n \<and>
     probe_ok n (home_of page_ids n) (cell table) \<and> inj_on ((!) page_ids) (frames_in table n)"

definition has_empty :: "nat list \<Rightarrow> nat \<Rightarrow> bool" where
  "has_empty table n \<longleftrightarrow> (\<exists>i < n. cell table i = None)"

interpretation pool_hash: probing "home_of page_ids"
  by unfold_locales (simp add: home_of_def hash_page_id_def)

lemma cell_update:
  "i < length table \<Longrightarrow> cell (table[i := f]) = (cell table)(i := (if f = BUFFER_FRAME_INVALID then None else Some f))"
proof (rule ext)
  fix k
  assume "i < length table"
  then show "cell (table[i := f]) k = ((cell table)(i := (if f = BUFFER_FRAME_INVALID then None else Some f))) k"
    by (cases "k = i") (simp_all add: cell_def)
qed

lemma cell_not_invalid: "cell table i = Some f \<Longrightarrow> f \<noteq> BUFFER_FRAME_INVALID \<and> table ! i = f"
  by (simp add: cell_def split: if_splits)

text \<open>The three search loops visit the same cells: the first one that is empty or has the key.\<close>

primrec scan :: "(nat \<Rightarrow> bool) \<Rightarrow> nat \<Rightarrow> nat \<Rightarrow> nat \<Rightarrow> nat option" where
  "scan stop n 0 idx = None"
| "scan stop n (Suc fuel) idx = (if stop idx then Some idx else scan stop n fuel ((idx + 1) mod n))"

definition stops :: "nat list \<Rightarrow> nat list \<Rightarrow> nat \<Rightarrow> nat \<Rightarrow> bool" where
  "stops table page_ids page_id i \<longleftrightarrow>
     table ! i = BUFFER_FRAME_INVALID \<or> page_ids ! (table ! i) = page_id"

lemma hash_lookup_loop_scan:
  "hash_lookup_loop table page_ids n page_id fuel idx =
     (case scan (stops table page_ids page_id) n fuel idx of None \<Rightarrow> BUFFER_FRAME_INVALID | Some i \<Rightarrow> table ! i)"
  by (induction fuel arbitrary: idx) (simp_all add: Let_def stops_def)

lemma hash_insert_loop_scan:
  "hash_insert_loop table page_ids n page_id f fuel idx =
     map_option (\<lambda>i. table[i := f]) (scan (stops table page_ids page_id) n fuel idx)"
  by (induction fuel arbitrary: idx) (simp_all add: Let_def stops_def)

lemma hash_find_loop_scan:
  "hash_find_loop table page_ids n page_id fuel idx =
     (case scan (stops table page_ids page_id) n fuel idx of None \<Rightarrow> None
      | Some i \<Rightarrow> if table ! i = BUFFER_FRAME_INVALID then None else Some i)"
  by (induction fuel arbitrary: idx) (simp_all add: Let_def stops_def)

lemma scan_Some:
  assumes "scan stop n fuel idx = Some i" "idx < n"
  shows "i < n \<and> stop i \<and> (\<forall>q < n. ring_dist n idx q < ring_dist n idx i \<longrightarrow> \<not> stop q)"
  using assms
proof (induction fuel arbitrary: idx)
  case (Suc fuel)
  show ?case
  proof (cases "stop idx")
    case True
    then show ?thesis using Suc.prems by auto
  next
    case False
    have n: "(idx + 1) mod n < n" using Suc.prems by auto
    have IH: "i < n" "stop i" "\<And>q. q < n \<Longrightarrow> ring_dist n ((idx + 1) mod n) q < ring_dist n ((idx + 1) mod n) i \<Longrightarrow> \<not> stop q"
      using Suc.IH [of "(idx + 1) mod n"] Suc.prems False n by auto
    have "\<not> stop q" if q: "q < n" "ring_dist n idx q < ring_dist n idx i" for q
    proof (cases "q = idx")
      case True
      then show ?thesis using False by simp
    next
      case neq: False
      have "i \<noteq> idx" using IH(2) False by auto
      then have "ring_dist n ((idx + 1) mod n) q < ring_dist n ((idx + 1) mod n) i"
        using ring_dist_next_start [of idx n q] ring_dist_next_start [of idx n i] neq q IH(1) Suc.prems(2)
          ring_dist_0 [of idx n q] by simp
      then show ?thesis using IH(3) q by blast
    qed
    then show ?thesis using IH by blast
  qed
qed simp

lemma scan_None:
  assumes "scan stop n fuel idx = None" "idx < n" "q < n" "ring_dist n idx q < fuel"
  shows "\<not> stop q"
  using assms
proof (induction fuel arbitrary: idx)
  case (Suc fuel)
  show ?case
  proof (cases "q = idx")
    case True
    then show ?thesis using Suc.prems by (simp split: if_splits)
  next
    case False
    have "0 < ring_dist n idx q" using False ring_dist_0 [of idx n q] Suc.prems by simp
    then have "ring_dist n ((idx + 1) mod n) q < fuel"
      using ring_dist_next_start [of idx n q] False Suc.prems by simp
    moreover have "(idx + 1) mod n < n" using Suc.prems by auto
    ultimately show ?thesis using Suc.IH [of "(idx + 1) mod n"] Suc.prems by (simp split: if_splits)
  qed
qed simp

lemma stops_cell:
  "stops table page_ids page_id i \<longleftrightarrow>
     cell table i = None \<or> (\<exists>f. cell table i = Some f \<and> page_ids ! f = page_id)"
  by (simp add: stops_def cell_def)

lemma scan_hit:
  assumes ok: "table_ok table page_ids n" and f: "f \<in> frames_in table n" "page_ids ! f = page_id"
  shows "\<exists>i < n. scan (stops table page_ids page_id) n n (hash_page_id page_id n) = Some i \<and> cell table i = Some f"
proof -
  let ?h = "hash_page_id page_id n"
  have h: "?h < n" using ok by (simp add: table_ok_def hash_page_id_def)
  obtain i0 where i0: "i0 < n" "cell table i0 = Some f" using f(1) by (auto simp: frames_in_def)
  then have s0: "stops table page_ids page_id i0" using f(2) by (auto simp: stops_cell)
  obtain i where i: "scan (stops table page_ids page_id) n n ?h = Some i"
    using scan_None [of "stops table page_ids page_id" n n ?h i0] h i0(1) s0 ring_dist_less [OF h i0(1)] by auto
  note sp = scan_Some [OF i h]
  have le: "ring_dist n ?h i \<le> ring_dist n ?h i0" using sp i0(1) s0 by (meson not_le_imp_less)
  have "cell table i \<noteq> None"
  proof (cases "i = i0")
    case False
    then have "ring_dist n ?h i < ring_dist n ?h i0" using le ring_dist_inj [OF h _ i0(1), of i] sp by force
    then show ?thesis using ok i0 sp f(2) by (auto simp: table_ok_def probe_ok_def home_of_def)
  qed (use i0 in simp)
  then obtain f' where f': "cell table i = Some f'" "page_ids ! f' = page_id" using sp by (auto simp: stops_cell)
  then have "f' \<in> frames_in table n" using sp by (auto simp: frames_in_def)
  then have "f' = f" using ok f f'(2) by (auto simp: table_ok_def dest: inj_onD)
  then show ?thesis using i f' sp by blast
qed

lemma scan_miss:
  assumes ok: "table_ok table page_ids n" and miss: "\<forall>f \<in> frames_in table n. page_ids ! f \<noteq> page_id"
    and i: "scan (stops table page_ids page_id) n n (hash_page_id page_id n) = Some i"
  shows "i < n" "cell table i = None"
    "\<forall>q < n. ring_dist n (hash_page_id page_id n) q < ring_dist n (hash_page_id page_id n) i \<longrightarrow> cell table q \<noteq> None"
proof -
  have "hash_page_id page_id n < n" using ok by (simp add: table_ok_def hash_page_id_def)
  note sp = scan_Some [OF i this]
  show "i < n" using sp by blast
  show "cell table i = None" using sp miss by (auto simp: stops_cell frames_in_def)
  show "\<forall>q < n. ring_dist n (hash_page_id page_id n) q < ring_dist n (hash_page_id page_id n) i \<longrightarrow> cell table q \<noteq> None"
    using sp by (auto simp: stops_cell)
qed

theorem hash_lookup_hit:
  assumes "table_ok table page_ids n" "f \<in> frames_in table n" "page_ids ! f = page_id"
  shows "hash_lookup table page_ids n page_id = f"
  using scan_hit [OF assms] by (auto simp: hash_lookup_def hash_lookup_loop_scan dest: cell_not_invalid)

theorem hash_lookup_miss:
  assumes "table_ok table page_ids n" "\<forall>f \<in> frames_in table n. page_ids ! f \<noteq> page_id"
  shows "hash_lookup table page_ids n page_id = BUFFER_FRAME_INVALID"
  using scan_miss(2) [OF assms]
  by (auto simp: hash_lookup_def hash_lookup_loop_scan cell_def split: option.splits if_splits)

lemma frames_in_update_empty:
  assumes "i < n" "length table = n" "cell table i = None" "f \<noteq> BUFFER_FRAME_INVALID"
  shows "frames_in (table[i := f]) n = insert f (frames_in table n)"
  using assms by (auto simp: frames_in_def cell_update) (metis option.distinct(1))

theorem hash_insert_ok:
  assumes ok: "table_ok table page_ids n" and e: "has_empty table n"
    and f: "f \<notin> frames_in table n" "f \<noteq> BUFFER_FRAME_INVALID" "page_ids ! f = page_id"
    and miss: "\<forall>f \<in> frames_in table n. page_ids ! f \<noteq> page_id"
  shows "\<exists>table'. hash_insert table page_ids n page_id f = Some table' \<and> table_ok table' page_ids n \<and>
    frames_in table' n = insert f (frames_in table n)"
proof -
  let ?h = "hash_page_id page_id n"
  have h: "?h < n" using ok by (simp add: table_ok_def hash_page_id_def)
  obtain e where e: "e < n" "cell table e = None" using e by (auto simp: has_empty_def)
  obtain i where i: "scan (stops table page_ids page_id) n n ?h = Some i"
    using scan_None [of "stops table page_ids page_id" n n ?h e] h e ring_dist_less [OF h e(1)]
    by (auto simp: stops_cell)
  note sp = scan_miss [OF ok miss i]
  have len: "length table = n" using ok by (simp add: table_ok_def)
  have "probe_ok n (home_of page_ids n) ((cell table)(i := Some f))"
    using ok sp f by (intro pool_hash.probe_insert) (auto simp: table_ok_def home_of_def frames_in_def)
  then have "probe_ok n (home_of page_ids n) (cell (table[i := f]))"
    using sp(1) f(2) len by (simp add: cell_update)
  moreover have "inj_on ((!) page_ids) (insert f (frames_in table n))"
    using ok f miss by (auto simp: table_ok_def)
  ultimately show ?thesis
    using ok sp(1,2) f(2) len frames_in_update_empty [OF sp(1) len sp(2) f(2)]
    by (simp add: hash_insert_def hash_insert_loop_scan i table_ok_def)
qed

lemma frames_in_move:
  assumes "gap < n" "j < n" "gap \<noteq> j" "length table = n"
  shows "{f. \<exists>i < n. i \<noteq> j \<and> cell (table[gap := table ! j]) i = Some f} =
    {f. \<exists>i < n. i \<noteq> gap \<and> cell table i = Some f}"
proof -
  have "cell (table[gap := table ! j]) = (cell table)(gap := cell table j)"
    using assms by (auto simp: cell_update) (auto simp: cell_def)
  then show ?thesis using assms by auto
qed

lemma hash_shift_loop_ok:
  assumes "gap_ok n (home_of page_ids n) ((cell table)(gap := None)) gap j"
    and "gap < n" "j < n" "length table = n"
    and "e < n" "e \<noteq> gap" "cell table e = None" "ring_dist n gap j < ring_dist n gap e"
    and "ring_dist n j e \<le> fuel"
  shows "\<exists>table'. hash_shift_loop page_ids table n fuel gap j = Some table' \<and> length table' = n \<and>
    probe_ok n (home_of page_ids n) (cell table') \<and>
    frames_in table' n = {f. \<exists>i < n. i \<noteq> gap \<and> cell table i = Some f}"
  using assms
proof (induction fuel arbitrary: table gap j)
  case 0
  then have "j = e" using ring_dist_0 [of j n e] by simp
  then show ?case using 0 by simp
next
  case (Suc fuel)
  let ?j = "(j + 1) mod n" and ?U = "(cell table)(gap := None)"
  have je: "j \<noteq> e" using Suc.prems(8) by auto
  have step: "ring_dist n gap j + 1 < n" using Suc.prems(8) ring_dist_less [OF Suc.prems(2,5)] by linarith
  have j: "?j < n" "ring_dist n gap ?j = ring_dist n gap j + 1"
    using Suc.prems(2,3) ring_dist_next [OF Suc.prems(2,3) step] by auto
  have ne: "?j \<noteq> gap" using j(2) by auto
  have fuel: "ring_dist n ?j e \<le> fuel"
    using ring_dist_next_start [OF Suc.prems(3,5) je] Suc.prems(9) by simp
  show ?case
  proof (cases "cell table ?j")
    case None
    then have "probe_ok n (home_of page_ids n) ?U"
      by (intro pool_hash.gap_done [OF Suc.prems(1-3) step]) (use ne None in simp_all)
    moreover have "cell (table[gap := BUFFER_FRAME_INVALID]) = ?U" using Suc.prems by (simp add: cell_update)
    moreover have "frames_in (table[gap := BUFFER_FRAME_INVALID]) n = {f. \<exists>i < n. i \<noteq> gap \<and> cell table i = Some f}"
      using Suc.prems by (auto simp: frames_in_def cell_update)
    moreover have "table ! ?j = BUFFER_FRAME_INVALID" using None by (simp add: cell_def split: if_splits)
    ultimately show ?thesis using Suc.prems(4) by simp
  next
    case (Some f)
    note f = cell_not_invalid [OF Some]
    have U: "?U ?j = Some f" using Some ne by simp
    have jne: "?j \<noteq> e" using Some Suc.prems(7) by auto
    have lt: "ring_dist n gap ?j < ring_dist n gap e"
      using j(2) Suc.prems(8) ring_dist_inj [OF Suc.prems(2) j(1) Suc.prems(5)] jne by linarith
    have k: "home_of page_ids n f < n" using Suc.prems(2) by (intro pool_hash.home_less) simp
    have code: "hash_shift_loop page_ids table n (Suc fuel) gap j =
      (if ring_dist n (home_of page_ids n f) gap < ring_dist n (home_of page_ids n f) ?j
       then hash_shift_loop page_ids (table[gap := table ! ?j]) n fuel ?j ?j
       else hash_shift_loop page_ids table n fuel gap ?j)"
      unfolding should_move_iff [OF k Suc.prems(2) j(1) ne [symmetric], symmetric]
      by (simp only: hash_shift_loop.simps Let_def f [THEN conjunct1] f [THEN conjunct2] if_False home_of_def)
    show ?thesis
    proof (cases "ring_dist n (home_of page_ids n f) gap < ring_dist n (home_of page_ids n f) ?j")
      case True
      let ?t = "table[gap := table ! ?j]"
      have ct: "cell ?t = (cell table)(gap := Some f)" using Suc.prems(2,4) f by (simp add: cell_update)
      have "gap_ok n (home_of page_ids n) (?U(gap := Some f, ?j := None)) ?j ?j"
        using True by (intro pool_hash.gap_move [OF Suc.prems(1-3) step U ne])
      then have A: "gap_ok n (home_of page_ids n) ((cell ?t)(?j := None)) ?j ?j" by (simp only: ct fun_upd_upd)
      have B: "cell ?t e = None" unfolding ct using Suc.prems(6,7) by simp
      have C: "ring_dist n ?j ?j < ring_dist n ?j e" using ring_dist_0 [OF j(1) Suc.prems(5)] jne by simp
      have D: "length ?t = n" using Suc.prems(4) by simp
      have "\<exists>table'. hash_shift_loop page_ids ?t n fuel ?j ?j = Some table' \<and> length table' = n \<and>
        probe_ok n (home_of page_ids n) (cell table') \<and>
        frames_in table' n = {f. \<exists>i < n. i \<noteq> ?j \<and> cell ?t i = Some f}"
        by (rule Suc.IH [OF A j(1) j(1) D Suc.prems(5) jne [symmetric] B C fuel])
      moreover have "hash_shift_loop page_ids table n (Suc fuel) gap j = hash_shift_loop page_ids ?t n fuel ?j ?j"
        unfolding code using True by (simp only: if_True)
      ultimately show ?thesis using frames_in_move [OF Suc.prems(2) j(1) ne [symmetric] Suc.prems(4)] by simp
    next
      case False
      have "gap_ok n (home_of page_ids n) ?U gap ?j"
        using False by (intro pool_hash.gap_keep [OF Suc.prems(1-3) step U])
      then have "\<exists>table'. hash_shift_loop page_ids table n fuel gap ?j = Some table' \<and> length table' = n \<and>
        probe_ok n (home_of page_ids n) (cell table') \<and>
        frames_in table' n = {f. \<exists>i < n. i \<noteq> gap \<and> cell table i = Some f}"
        by (rule Suc.IH [OF _ Suc.prems(2) j(1) Suc.prems(4-7) lt fuel])
      moreover have "hash_shift_loop page_ids table n (Suc fuel) gap j = hash_shift_loop page_ids table n fuel gap ?j"
        unfolding code using False by (simp only: if_False)
      ultimately show ?thesis by simp
    qed
  qed
qed

theorem hash_remove_ok:
  assumes ok: "table_ok table page_ids n" and e: "has_empty table n"
    and f: "f \<in> frames_in table n" "page_ids ! f = page_id"
  shows "\<exists>table'. hash_remove table page_ids n page_id = Some table' \<and> table_ok table' page_ids n \<and>
    frames_in table' n = frames_in table n - {f}"
proof -
  obtain i where i: "i < n" "scan (stops table page_ids page_id) n n (hash_page_id page_id n) = Some i"
    "cell table i = Some f" using scan_hit [OF ok f] by blast
  obtain e where e: "e < n" "cell table e = None" using e by (auto simp: has_empty_def)
  have ei: "e \<noteq> i" using e i by auto
  have P: "probe_ok n (home_of page_ids n) (cell table)" "length table = n" using ok by (simp_all add: table_ok_def)
  obtain table' where t: "hash_shift_loop page_ids table n n i i = Some table'" "length table' = n"
      "probe_ok n (home_of page_ids n) (cell table')"
      "frames_in table' n = {f. \<exists>k < n. k \<noteq> i \<and> cell table k = Some f}"
  proof -
    have "0 < ring_dist n i e" using ring_dist_0 [OF i(1) e(1)] ei by simp
    then have lt: "ring_dist n i i < ring_dist n i e" by simp
    have "ring_dist n i e \<le> n" using ring_dist_less [OF i(1) e(1)] by simp
    note sh = hash_shift_loop_ok [OF pool_hash.gap_start [OF P(1) i(1)] i(1,1) P(2) e(1) ei e(2) lt this]
    show thesis using sh by (elim exE conjE) (rule that)
  qed
  have "{f. \<exists>k < n. k \<noteq> i \<and> cell table k = Some f} = frames_in table n - {f}"
  proof (intro set_eqI iffI)
    fix x
    assume "x \<in> {f. \<exists>k < n. k \<noteq> i \<and> cell table k = Some f}"
    then obtain k where k: "k < n" "k \<noteq> i" "cell table k = Some x" by blast
    then have "x \<noteq> f" using probe_ok_inj [OF P(1) k(1) i(1) k(3)] i(3) by metis
    then show "x \<in> frames_in table n - {f}" using k unfolding frames_in_def by blast
  next
    fix x
    assume x: "x \<in> frames_in table n - {f}"
    then obtain k where k: "k < n" "cell table k = Some x" unfolding frames_in_def by blast
    then have "k \<noteq> i" using x i(3) by auto
    then show "x \<in> {f. \<exists>k < n. k \<noteq> i \<and> cell table k = Some f}" using k by blast
  qed
  moreover have "hash_remove table page_ids n page_id = Some table'"
    using cell_not_invalid [OF i(3)]
    by (simp only: hash_remove_def hash_find_loop_scan i(2) option.case if_False t(1))
  moreover have "inj_on ((!) page_ids) (frames_in table n - {f})"
    using ok by (simp add: table_ok_def inj_on_diff)
  ultimately show ?thesis
    using t ok by (simp add: table_ok_def)
qed

lemma table_ok_cong:
  assumes "\<And>f. f \<in> frames_in table n \<Longrightarrow> page_ids' ! f = page_ids ! f"
  shows "table_ok table page_ids' n \<longleftrightarrow> table_ok table page_ids n"
proof -
  have "probe_ok n (home_of page_ids' n) (cell table) \<longleftrightarrow> probe_ok n (home_of page_ids n) (cell table)"
    by (rule probe_ok_home_cong) (use assms in \<open>auto simp: home_of_def frames_in_def intro: arg_cong2 [of _ _ n n]\<close>)
  moreover have "inj_on ((!) page_ids') (frames_in table n) \<longleftrightarrow> inj_on ((!) page_ids) (frames_in table n)"
    using assms by (rule inj_on_cong)
  ultimately show ?thesis by (simp add: table_ok_def)
qed

lemma has_empty_card:
  assumes "table_ok table pids n" "frames_in table n \<subseteq> {..<m}" "m < n"
  shows "has_empty table n"
proof (rule ccontr)
  assume full: "\<not> has_empty table n"
  have ok: "probe_ok n (home_of pids n) (cell table)" using assms(1) by (simp add: table_ok_def)
  have f: "\<exists>f. cell table i = Some f" if "i < n" for i using full that by (auto simp: has_empty_def)
  have "inj_on (\<lambda>i. the (cell table i)) {..<n}"
  proof (rule inj_onI)
    fix i k
    assume ik: "i \<in> {..<n}" "k \<in> {..<n}" "the (cell table i) = the (cell table k)"
    then have lt: "i < n" "k < n" by simp_all
    obtain a b where ab: "cell table i = Some a" "cell table k = Some b" using f lt by blast
    then have "a = b" using ik(3) by simp
    then show "i = k" using probe_ok_inj [OF ok lt ab(1)] ab(2) by simp
  qed
  moreover have "(\<lambda>i. the (cell table i)) ` {..<n} \<subseteq> frames_in table n"
  proof (intro image_subsetI)
    fix i
    assume "i \<in> {..<n}"
    then have i: "i < n" by simp
    with f obtain g where "cell table i = Some g" by blast
    with i show "the (cell table i) \<in> frames_in table n" unfolding frames_in_def by auto
  qed
  ultimately have "card {..<n} \<le> card {..<m}"
    using assms(2) by (intro card_inj_on_le) auto
  then show False using assms(3) by simp
qed

section \<open>Properties\<close>

text \<open>
  C15: Backward-shift deletion loses no entry: after \<open>hash_remove\<close> of a cached page, that page is
  not found any more and the lookup of every other page id gives what it gave before.
\<close>

theorem hash_remove_lookup:
  assumes "table_ok table page_ids n" "has_empty table n" "f \<in> frames_in table n" "page_ids ! f = p"
  shows "\<exists>table'. hash_remove table page_ids n p = Some table' \<and>
    hash_lookup table' page_ids n p = BUFFER_FRAME_INVALID \<and>
    (\<forall>q. q \<noteq> p \<longrightarrow> hash_lookup table' page_ids n q = hash_lookup table page_ids n q)"
proof -
  obtain table' where t: "hash_remove table page_ids n p = Some table'" "table_ok table' page_ids n"
    "frames_in table' n = frames_in table n - {f}" using hash_remove_ok [OF assms] by blast
  have inj: "inj_on ((!) page_ids) (frames_in table n)" using assms(1) by (simp add: table_ok_def)
  have "hash_lookup table' page_ids n p = BUFFER_FRAME_INVALID"
    using t(3) assms(3,4) inj by (intro hash_lookup_miss [OF t(2)]) (auto dest: inj_onD)
  moreover have "hash_lookup table' page_ids n q = hash_lookup table page_ids n q" if "q \<noteq> p" for q
  proof (cases "\<exists>g \<in> frames_in table n. page_ids ! g = q")
    case True
    then obtain g where g: "g \<in> frames_in table n" "page_ids ! g = q" by blast
    moreover have "g \<in> frames_in table' n" using g that assms(4) t(3) by auto
    ultimately show ?thesis using hash_lookup_hit [OF t(2)] hash_lookup_hit [OF assms(1)] by simp
  next
    case False
    then show ?thesis
      using hash_lookup_miss [OF t(2), of q] hash_lookup_miss [OF assms(1), of q] t(3) by auto
  qed
  ultimately show ?thesis using t(1) by blast
qed


lemma frames_in_replicate: "frames_in (replicate n BUFFER_FRAME_INVALID) n = {}"
  by (auto simp: frames_in_def cell_def)

lemma table_ok_replicate: "0 < n \<Longrightarrow> table_ok (replicate n BUFFER_FRAME_INVALID) pids n"
  by (simp add: table_ok_def frames_in_replicate) (simp add: probe_ok_def cell_def)

theorem hash_remove_lookup_witness:
  "\<exists>table table'. hash_page_id 1 5 = hash_page_id 2 5 \<and> hash_remove table [1, 2] 5 1 = Some table' \<and>
     hash_lookup table' [1, 2] 5 1 = BUFFER_FRAME_INVALID \<and> hash_lookup table' [1, 2] 5 2 = 1"
proof -
  have ok0: "table_ok (replicate 5 BUFFER_FRAME_INVALID) [1, 2] 5" by (simp add: table_ok_replicate)
  have e0: "has_empty (replicate 5 BUFFER_FRAME_INVALID) 5"
    by (auto simp: has_empty_def cell_def intro: exI [of _ 0])
  obtain t where t: "table_ok t [1, 2] 5" "frames_in t 5 = {0}"
    using hash_insert_ok [OF ok0 e0, of 0 1] by (auto simp: frames_in_replicate)
  have e: "has_empty t 5" using t by (intro has_empty_card [of t "[1, 2]" 5 1]) auto
  obtain u where u: "table_ok u [1, 2] 5" "frames_in u 5 = {0, 1}"
    using hash_insert_ok [OF t(1) e, of 1 2] t(2) by auto
  have e2: "has_empty u 5" using u by (intro has_empty_card [of u "[1, 2]" 5 2]) auto
  have look: "hash_lookup u [1, 2] 5 2 = 1" using hash_lookup_hit [OF u(1), of 1 2] u(2) by simp
  have home: "hash_page_id 1 5 = hash_page_id 2 5" by (simp add: hash_page_id_def)
  have "0 \<in> frames_in u 5" "[1, 2] ! 0 = (1 :: nat)" using u(2) by simp_all
  from hash_remove_lookup [OF u(1) e2 this] obtain v where
    v: "hash_remove u [1, 2] 5 1 = Some v" "hash_lookup v [1, 2] 5 1 = BUFFER_FRAME_INVALID"
      "\<forall>q. q \<noteq> 1 \<longrightarrow> hash_lookup v [1, 2] 5 q = hash_lookup u [1, 2] 5 q" by blast
  from v(3) have "hash_lookup v [1, 2] 5 2 = 1" using look by simp
  then show ?thesis using v(1,2) home by blast
qed

end
