(* ===== verification/BufferPool.thy ===== *)
theory BufferPool
  imports DiskManager BufferHash
begin

text \<open>
  The buffer pool: \<open>src/nostr/db/buffer/buffer_pool.c\<close>. The struct of arrays is a record of
  lists; the disk manager it points to is a field. A pointer to a cached page is the number of
  its frame. Functions that search or change the hash table are \<open>None\<close> where the C loop would
  never end (see \<open>BufferHash\<close>).
\<close>

section \<open>Data\<close>

record buffer_pool =
  page_ids :: "nat list"
  pin_counts :: "nat list"
  dirty_flags :: "nat list"
  ref_bits :: "nat list"
  pages :: "page list"
  lsns :: "nat list"
  pool_size :: nat
  clock_hand :: nat
  hash_table :: "nat list"
  hash_size :: nat
  disk :: disk_manager

section \<open>Sizing the hash table\<close>

text \<open>
  The trial divisions and the search of \<open>next_prime\<close>, in 32-bit arithmetic. Both loops are
  \<open>None\<close> if they do not end.
\<close>

partial_function (option) prime_loop :: "nat \<Rightarrow> nat \<Rightarrow> bool option" where
  "prime_loop n d =
     (if d * d mod 2 ^ 32 \<le> n
      then (if n mod d = 0 then Some False else prime_loop n ((d + 2) mod 2 ^ 32))
      else Some True)"

partial_function (option) next_prime_loop :: "nat \<Rightarrow> nat option" where
  "next_prime_loop n =
     (case prime_loop n 3 of
        None \<Rightarrow> None
      | Some is_prime \<Rightarrow> if is_prime then Some n else next_prime_loop ((n + 2) mod 2 ^ 32))"

declare prime_loop.simps [code] next_prime_loop.simps [code]

definition next_prime :: "nat \<Rightarrow> nat option" where
  "next_prime n = (if n \<le> 2 then Some 2 else next_prime_loop (if even n then n + 1 else n))"

section \<open>Eviction and write-back\<close>

definition pool_lookup :: "buffer_pool \<Rightarrow> nat \<Rightarrow> nat" where
  "pool_lookup pool page_id = hash_lookup (hash_table pool) (page_ids pool) (hash_size pool) page_id"

primrec clock_loop :: "nat list \<Rightarrow> nat \<Rightarrow> nat \<Rightarrow> nat \<Rightarrow> nat list \<Rightarrow> nat \<times> nat \<times> nat list" where
  "clock_loop pins n 0 hand refs = (BUFFER_FRAME_INVALID, hand, refs)"
| "clock_loop pins n (Suc fuel) hand refs =
     (let frame = hand; hand = (hand + 1) mod n
      in if pins ! frame > 0 then clock_loop pins n fuel hand refs
         else if refs ! frame \<noteq> 0 then clock_loop pins n fuel hand (refs[frame := 0])
         else (frame, hand, refs))"

definition clock_evict :: "buffer_pool \<Rightarrow> nat \<times> buffer_pool" where
  "clock_evict pool =
     (let (frame, hand, refs) = clock_loop (pin_counts pool) (pool_size pool)
            (pool_size pool * 2 mod 2 ^ 32) (clock_hand pool) (ref_bits pool)
      in (frame, pool\<lparr>clock_hand := hand, ref_bits := refs\<rparr>))"

definition flush_frame :: "'s os \<Rightarrow> buffer_pool \<Rightarrow> nat \<Rightarrow> 's \<Rightarrow> nostr_db_error \<times> buffer_pool \<times> 's" where
  "flush_frame os pool frame s =
     (if dirty_flags pool ! frame = 0 then (NOSTR_DB_OK, pool, s)
      else if page_ids pool ! frame = PAGE_ID_NULL then (NOSTR_DB_OK, pool, s)
      else
        (let (err, s) = disk_write_page os (disk pool) (page_ids pool ! frame) (pages pool ! frame) s
         in if err \<noteq> NOSTR_DB_OK then (err, pool, s)
            else (NOSTR_DB_OK, pool\<lparr>dirty_flags := (dirty_flags pool)[frame := 0]\<rparr>, s)))"

text \<open>
  The part that \<open>buffer_pool_pin\<close> and \<open>buffer_pool_alloc_page\<close> share: an empty frame, or
  else a victim, written back and taken out of the hash table. The inner result is \<open>None\<close>
  where the code gives up (all frames pinned, or the write fails).
\<close>

definition take_frame ::
    "'s os \<Rightarrow> buffer_pool \<Rightarrow> 's \<Rightarrow> (nat option \<times> buffer_pool \<times> 's) option" where
  "take_frame os pool s =
     (let i = first_index (\<lambda>p. p = PAGE_ID_NULL) (page_ids pool)
      in if i < pool_size pool then Some (Some i, pool, s)
         else
           (let (victim, pool) = clock_evict pool
            in if victim = BUFFER_FRAME_INVALID then Some (None, pool, s)
               else
                 (let (err, pool, s) = flush_frame os pool victim s
                  in if err \<noteq> NOSTR_DB_OK then Some (None, pool, s)
                     else
                       (case hash_remove (hash_table pool) (page_ids pool) (hash_size pool)
                               (page_ids pool ! victim) of
                          None \<Rightarrow> None
                        | Some table \<Rightarrow> Some (Some victim, pool\<lparr>hash_table := table\<rparr>, s)))))"

text \<open>The frame metadata of a page that was just brought in, and its hash entry.\<close>

definition install_frame :: "buffer_pool \<Rightarrow> nat \<Rightarrow> nat \<Rightarrow> nat \<Rightarrow> buffer_pool option" where
  "install_frame pool frame page_id dirty =
     (let pool = pool\<lparr>page_ids := (page_ids pool)[frame := page_id],
                      pin_counts := (pin_counts pool)[frame := 1],
                      dirty_flags := (dirty_flags pool)[frame := dirty],
                      ref_bits := (ref_bits pool)[frame := 1],
                      lsns := (lsns pool)[frame := 0]\<rparr>
      in map_option (\<lambda>table. pool\<lparr>hash_table := table\<rparr>)
           (hash_insert (hash_table pool) (page_ids pool) (hash_size pool) page_id frame))"

section \<open>The operations\<close>

definition buffer_pool_pin ::
    "'s os \<Rightarrow> buffer_pool \<Rightarrow> nat \<Rightarrow> 's \<Rightarrow> (nat option \<times> buffer_pool \<times> 's) option" where
  "buffer_pool_pin os pool page_id s =
     (if page_id = PAGE_ID_NULL then Some (None, pool, s)
      else
        (let frame = pool_lookup pool page_id
         in if frame \<noteq> BUFFER_FRAME_INVALID
            then Some (Some frame,
                       pool\<lparr>pin_counts := (pin_counts pool)[frame := (pin_counts pool ! frame + 1) mod 256],
                            ref_bits := (ref_bits pool)[frame := 1]\<rparr>, s)
            else
              (case take_frame os pool s of
                 None \<Rightarrow> None
               | Some (None, pool, s) \<Rightarrow> Some (None, pool, s)
               | Some (Some victim, pool, s) \<Rightarrow>
                   (let (err, out, s) = disk_read_page os (disk pool) page_id s;
                        pool = pool\<lparr>pages := (pages pool)[victim := blit (pages pool ! victim) 0 out]\<rparr>
                    in if err \<noteq> NOSTR_DB_OK then Some (None, pool, s)
                       else map_option (\<lambda>pool. (Some victim, pool, s)) (install_frame pool victim page_id 0)))))"

definition buffer_pool_alloc_page ::
    "'s os \<Rightarrow> buffer_pool \<Rightarrow> 's \<Rightarrow> (nat \<times> nat option \<times> buffer_pool \<times> 's) option" where
  "buffer_pool_alloc_page os pool s =
     (let (new_pid, dm, s) = disk_alloc_page os (disk pool) s; pool = pool\<lparr>disk := dm\<rparr>
      in if new_pid = PAGE_ID_NULL then Some (PAGE_ID_NULL, None, pool, s)
         else
           (case take_frame os pool s of
              None \<Rightarrow> None
            | Some (None, pool, s) \<Rightarrow>
                (let (_, dm, s) = disk_free_page os (disk pool) new_pid s
                 in Some (PAGE_ID_NULL, None, pool\<lparr>disk := dm\<rparr>, s))
            | Some (Some frame, pool, s) \<Rightarrow>
                (let pool = pool\<lparr>pages := (pages pool)[frame := page_data_zero]\<rparr>
                 in map_option (\<lambda>pool. (new_pid, Some frame, pool, s)) (install_frame pool frame new_pid 1))))"

definition buffer_pool_unpin :: "buffer_pool \<Rightarrow> nat \<Rightarrow> buffer_pool" where
  "buffer_pool_unpin pool page_id =
     (if page_id = PAGE_ID_NULL then pool
      else
        (let frame = pool_lookup pool page_id
         in if frame = BUFFER_FRAME_INVALID then pool
            else if pin_counts pool ! frame > 0
            then pool\<lparr>pin_counts := (pin_counts pool)[frame := pin_counts pool ! frame - 1]\<rparr>
            else pool))"

definition buffer_pool_mark_dirty :: "buffer_pool \<Rightarrow> nat \<Rightarrow> nat \<Rightarrow> buffer_pool" where
  "buffer_pool_mark_dirty pool page_id l =
     (if page_id = PAGE_ID_NULL then pool
      else
        (let frame = pool_lookup pool page_id
         in if frame = BUFFER_FRAME_INVALID then pool
            else pool\<lparr>dirty_flags := (dirty_flags pool)[frame := 1],
                      lsns := (if l > lsns pool ! frame then (lsns pool)[frame := l] else lsns pool)\<rparr>))"

definition buffer_pool_flush ::
    "'s os \<Rightarrow> buffer_pool \<Rightarrow> nat \<Rightarrow> 's \<Rightarrow> nostr_db_error \<times> buffer_pool \<times> 's" where
  "buffer_pool_flush os pool page_id s =
     (if page_id = PAGE_ID_NULL then (NOSTR_DB_ERROR_NULL_PARAM, pool, s)
      else
        (let frame = pool_lookup pool page_id
         in if frame = BUFFER_FRAME_INVALID then (NOSTR_DB_ERROR_NOT_FOUND, pool, s)
            else flush_frame os pool frame s))"

text \<open>The loops over all frames; \<open>flush_frame\<close> repeats the tests they make.\<close>

primrec flush_loop :: "'s os \<Rightarrow> buffer_pool \<Rightarrow> nat list \<Rightarrow> 's \<Rightarrow> nostr_db_error \<times> buffer_pool \<times> 's" where
  "flush_loop os pool [] s = (NOSTR_DB_OK, pool, s)"
| "flush_loop os pool (i # xs) s =
     (if dirty_flags pool ! i \<noteq> 0 \<and> page_ids pool ! i \<noteq> PAGE_ID_NULL
      then (let (err, pool, s) = flush_frame os pool i s
            in if err \<noteq> NOSTR_DB_OK then (err, pool, s) else flush_loop os pool xs s)
      else flush_loop os pool xs s)"

definition buffer_pool_flush_all ::
    "'s os \<Rightarrow> buffer_pool \<Rightarrow> 's \<Rightarrow> nostr_db_error \<times> buffer_pool \<times> 's" where
  "buffer_pool_flush_all os pool s =
     (let (err, pool, s) = flush_loop os pool [0..<pool_size pool] s
      in if err \<noteq> NOSTR_DB_OK then (err, pool, s)
         else (let (err, s) = disk_sync os (disk pool) s in (err, pool, s)))"

primrec shutdown_loop :: "'s os \<Rightarrow> buffer_pool \<Rightarrow> nat list \<Rightarrow> 's \<Rightarrow> buffer_pool \<times> 's" where
  "shutdown_loop os pool [] s = (pool, s)"
| "shutdown_loop os pool (i # xs) s =
     (if dirty_flags pool ! i \<noteq> 0 \<and> page_ids pool ! i \<noteq> PAGE_ID_NULL
      then (let (_, pool, s) = flush_frame os pool i s in shutdown_loop os pool xs s)
      else shutdown_loop os pool xs s)"

definition pool_zero :: buffer_pool where
  "pool_zero = \<lparr>page_ids = [], pin_counts = [], dirty_flags = [], ref_bits = [], pages = [], lsns = [],
     pool_size = 0, clock_hand = 0, hash_table = [], hash_size = 0, disk = dm_zero\<rparr>"

definition buffer_pool_shutdown :: "'s os \<Rightarrow> buffer_pool \<Rightarrow> 's \<Rightarrow> buffer_pool \<times> 's" where
  "buffer_pool_shutdown os pool s =
     (let (pool, s) = shutdown_loop os pool [0..<pool_size pool] s;
          (_, s) = disk_sync os (disk pool) s
      in (pool_zero, s))"

text \<open>
  \<open>mmap_ok i\<close> says whether the \<open>i\<close>-th \<open>mmap\<close> succeeds. If one fails,
  \<open>buffer_pool_shutdown\<close> runs on the zero-filled arrays there are; it reaches its
  \<open>disk_sync\<close> if ids, dirty flags and pages, the first, third and fifth, are mapped.
\<close>

definition buffer_pool_init ::
    "'s os \<Rightarrow> disk_manager \<Rightarrow> nat \<Rightarrow> (nat \<Rightarrow> bool) \<Rightarrow> 's \<Rightarrow> (nostr_db_error \<times> buffer_pool \<times> 's) option" where
  "buffer_pool_init os dm n_frames mmap_ok s =
     (if \<not> n_frames > 0 then Some (NOSTR_DB_ERROR_NULL_PARAM, pool_zero, s)
      else do {
        n \<leftarrow> next_prime (n_frames * 2 mod 2 ^ 32);
        if \<forall>i \<in> {0..<7}. mmap_ok i then
          Some (NOSTR_DB_OK,
            \<lparr>page_ids = replicate n_frames PAGE_ID_NULL, pin_counts = replicate n_frames 0,
             dirty_flags = replicate n_frames 0, ref_bits = replicate n_frames 0,
             pages = replicate n_frames page_data_zero, lsns = replicate n_frames 0, pool_size = n_frames,
             clock_hand = 0, hash_table = replicate n BUFFER_FRAME_INVALID, hash_size = n, disk = dm\<rparr>, s)
        else if \<forall>i \<in> {0..<5}. mmap_ok i then
          (let (_, s) = disk_sync os dm s in Some (NOSTR_DB_ERROR_MMAP_FAILED, pool_zero, s))
        else Some (NOSTR_DB_ERROR_MMAP_FAILED, pool_zero, s)
      })"

section \<open>The pool invariant and the logical content of a page\<close>

definition used_frames :: "buffer_pool \<Rightarrow> nat set" where
  "used_frames pool = {f. f < pool_size pool \<and> page_ids pool ! f \<noteq> PAGE_ID_NULL}"

definition pool_shape :: "buffer_pool \<Rightarrow> bool" where
  "pool_shape pool \<longleftrightarrow>
     0 < pool_size pool \<and> pool_size pool * 2 < 2 ^ 32 \<and> pool_size pool < hash_size pool \<and>
     length (page_ids pool) = pool_size pool \<and> length (pin_counts pool) = pool_size pool \<and>
     length (dirty_flags pool) = pool_size pool \<and> length (ref_bits pool) = pool_size pool \<and>
     length (pages pool) = pool_size pool \<and> length (lsns pool) = pool_size pool \<and>
     clock_hand pool < pool_size pool \<and> (\<forall>p \<in> set (pages pool). length p = 4096)"

text \<open>
  \<open>pool_inv pool c X ps\<close>: the database file has content \<open>c\<close> and free list \<open>ps\<close>; the hash
  table holds exactly the used frames outside \<open>X\<close>; they cache allocated pages, each at most
  once; and a clean one agrees with the file. \<open>X\<close> is empty between operations; it is the
  victim while a frame changes hands.
\<close>

definition pool_inv :: "buffer_pool \<Rightarrow> byte list \<Rightarrow> nat set \<Rightarrow> nat list \<Rightarrow> bool" where
  "pool_inv pool c X ps \<longleftrightarrow>
     pool_shape pool \<and> dm_inv (disk pool) c ps \<and>
     table_ok (hash_table pool) (page_ids pool) (hash_size pool) \<and>
     frames_in (hash_table pool) (hash_size pool) = used_frames pool - X \<and>
     (\<forall>f \<in> used_frames pool - X. page_ids pool ! f \<in> allocated (disk pool) ps \<and>
        (dirty_flags pool ! f = 0 \<longrightarrow> pages pool ! f = page_at c (page_ids pool ! f)))"

definition page_content :: "buffer_pool \<Rightarrow> byte list \<Rightarrow> nat \<Rightarrow> page" where
  "page_content pool c p =
     (if pool_lookup pool p = BUFFER_FRAME_INVALID then page_at c p else pages pool ! pool_lookup pool p)"

lemma pool_has_empty: "pool_inv pool c X ps \<Longrightarrow> has_empty (hash_table pool) (hash_size pool)"
  by (rule has_empty_card [of _ "page_ids pool" _ "pool_size pool"])
     (auto simp: pool_inv_def used_frames_def pool_shape_def)

lemma pool_frame_valid: "pool_inv pool c X ps \<Longrightarrow> f < pool_size pool \<Longrightarrow> f \<noteq> BUFFER_FRAME_INVALID"
  by (auto simp: pool_inv_def pool_shape_def)

lemma pool_lookup_used:
  assumes "pool_inv pool c X ps" "f \<in> used_frames pool - X" "page_ids pool ! f = p"
  shows "pool_lookup pool p = f"
  using assms by (auto simp: pool_inv_def pool_lookup_def intro: hash_lookup_hit)

lemma pool_lookup_unused:
  assumes "pool_inv pool c X ps" "\<forall>f \<in> used_frames pool - X. page_ids pool ! f \<noteq> p"
  shows "pool_lookup pool p = BUFFER_FRAME_INVALID"
  using assms by (auto simp: pool_inv_def pool_lookup_def intro: hash_lookup_miss)

lemma pool_lookup_Some:
  assumes "pool_inv pool c X ps" "pool_lookup pool p \<noteq> BUFFER_FRAME_INVALID"
  shows "pool_lookup pool p \<in> used_frames pool - X" "page_ids pool ! pool_lookup pool p = p"
proof -
  obtain f where "f \<in> used_frames pool - X" "page_ids pool ! f = p"
    using pool_lookup_unused [OF assms(1)] assms(2) by blast
  then show "pool_lookup pool p \<in> used_frames pool - X" "page_ids pool ! pool_lookup pool p = p"
    using pool_lookup_used [OF assms(1)] by auto
qed

lemma page_content_used:
  assumes "pool_inv pool c X ps" "f \<in> used_frames pool - X"
  shows "page_content pool c (page_ids pool ! f) = pages pool ! f"
  using pool_lookup_used [OF assms refl] pool_frame_valid [OF assms(1), of f] assms(2)
  by (simp add: page_content_def used_frames_def)

lemma page_content_unused:
  assumes "pool_inv pool c X ps" "\<forall>f \<in> used_frames pool - X. page_ids pool ! f \<noteq> p"
  shows "page_content pool c p = page_at c p"
  using pool_lookup_unused [OF assms] by (simp add: page_content_def)

lemma dm_inv_cong:
  assumes "length c' = length c" "\<And>q. q \<in> set ps \<Longrightarrow> page_at c' q = page_at c q"
  shows "dm_inv dm c' ps \<longleftrightarrow> dm_inv dm c ps"
proof -
  have "free_chain c' h ps = free_chain c h ps" for h
    using assms(2) by (intro free_chain_cong) (simp add: next_free_def)
  then show ?thesis using assms(1) by (simp add: dm_inv_def)
qed

lemma used_distinct:
  assumes "pool_inv pool c X ps" "f \<in> used_frames pool - X" "g \<in> used_frames pool - X"
    and "page_ids pool ! f = page_ids pool ! g"
  shows "f = g"
  using pool_lookup_used [OF assms(1,2) assms(4)] pool_lookup_used [OF assms(1,3) refl] by simp

section \<open>The clock\<close>

lemma clock_loop_result:
  assumes "clock_loop pins n fuel hand refs = (f, hand', refs')" "hand < n"
  shows "hand' < n \<and> length refs' = length refs \<and>
    (f = BUFFER_FRAME_INVALID \<or> f < n \<and> pins ! f = 0)"
  using assms
proof (induction fuel arbitrary: hand refs)
  case (Suc fuel)
  have "(hand + 1) mod n < n" using Suc.prems(2) by auto
  then show ?case
    using Suc.prems Suc.IH [of "(hand + 1) mod n" refs] Suc.IH [of "(hand + 1) mod n" "refs[hand := 0]"]
    by (auto simp: Let_def split: if_splits)
qed simp

text \<open>
  Two rotations suffice: an unpinned frame whose reference bit is clear is reached within its
  distance from the hand, one whose bit is set one rotation later.
\<close>

lemma clock_loop_finds:
  assumes "hand < n" "f < n" "length refs = n" "pins ! f = 0" "n < BUFFER_FRAME_INVALID"
    and "refs ! f = 0 \<and> ring_dist n hand f < fuel \<or> ring_dist n hand f + n < fuel"
  shows "fst (clock_loop pins n fuel hand refs) \<noteq> BUFFER_FRAME_INVALID"
  using assms
proof (induction fuel arbitrary: hand refs)
  case (Suc fuel)
  let ?hand = "(hand + 1) mod n"
  have h: "?hand < n" using Suc.prems(1) by auto
  have inv: "hand \<noteq> BUFFER_FRAME_INVALID" using Suc.prems(1,5) by simp
  show ?case
  proof (cases "hand = f")
    case True
    have "n - 1 < fuel" if "refs ! f \<noteq> 0" using Suc.prems(1,6) that True by auto
    moreover have "ring_dist n ?hand f \<le> n - 1" using ring_dist_less [OF h Suc.prems(2)] by simp
    ultimately have "fst (clock_loop pins n fuel ?hand (refs[hand := 0])) \<noteq> BUFFER_FRAME_INVALID" if "refs ! f \<noteq> 0"
      using that Suc.prems True h by (intro Suc.IH) auto
    then show ?thesis using True Suc.prems(4) inv by (simp add: Let_def)
  next
    case False
    have d: "ring_dist n ?hand f = ring_dist n hand f - 1" "0 < ring_dist n hand f"
      using ring_dist_next_start [OF Suc.prems(1,2) False] ring_dist_0 [OF Suc.prems(1,2)] False by simp_all
    have "fst (clock_loop pins n fuel ?hand r) \<noteq> BUFFER_FRAME_INVALID"
      if "length r = n" "r ! f = refs ! f" for r
      using Suc.prems h d that by (intro Suc.IH) auto
    then show ?thesis using Suc.prems False inv by (simp add: Let_def)
  qed
qed auto

lemma clock_evict_result:
  assumes "clock_evict pool = (f, pool')" "pool_shape pool"
  shows "pool' = pool\<lparr>clock_hand := clock_hand pool', ref_bits := ref_bits pool'\<rparr>" "pool_shape pool'"
    "f = BUFFER_FRAME_INVALID \<or> f < pool_size pool \<and> pin_counts pool ! f = 0"
  using assms clock_loop_result [of "pin_counts pool" "pool_size pool" "pool_size pool * 2 mod 2 ^ 32"
      "clock_hand pool" "ref_bits pool"]
  by (auto simp: clock_evict_def pool_shape_def split: prod.splits)

lemma clock_evict_finds:
  assumes "pool_shape pool" "f < pool_size pool" "pin_counts pool ! f = 0"
  shows "fst (clock_evict pool) \<noteq> BUFFER_FRAME_INVALID"
proof -
  have n: "pool_size pool * 2 mod 2 ^ 32 = pool_size pool * 2" "pool_size pool < BUFFER_FRAME_INVALID"
    using assms(1) by (simp_all add: pool_shape_def)
  have "ring_dist (pool_size pool) (clock_hand pool) f < pool_size pool"
    using assms by (intro ring_dist_less) (auto simp: pool_shape_def)
  then have "fst (clock_loop (pin_counts pool) (pool_size pool) (pool_size pool * 2) (clock_hand pool) (ref_bits pool))
      \<noteq> BUFFER_FRAME_INVALID"
    using assms n(2) by (intro clock_loop_finds [of _ _ f]) (auto simp: pool_shape_def)
  then show ?thesis unfolding clock_evict_def n(1) by (simp add: case_prod_beta)
qed

context posix
begin

lemma flush_frame_inv:
  assumes inv: "pool_inv pool (view (dm_fd (disk pool)) s) X ps" and f: "f \<in> used_frames pool - X"
    and fl: "flush_frame os pool f s = (err, pool', s')"
  shows "pool_inv pool' (view (dm_fd (disk pool)) s') X ps"
    and "pool' = pool\<lparr>dirty_flags := dirty_flags pool'\<rparr>"
    and "err = NOSTR_DB_OK \<Longrightarrow> dirty_flags pool' ! f = 0"
    and "\<And>g. g \<noteq> f \<Longrightarrow> dirty_flags pool' ! g = dirty_flags pool ! g"
    and "\<And>p. p \<in> allocated (disk pool) ps \<Longrightarrow>
      page_content pool' (view (dm_fd (disk pool)) s') p = page_content pool (view (dm_fd (disk pool)) s) p"
proof -
  let ?c = "view (dm_fd (disk pool)) s" and ?c' = "view (dm_fd (disk pool)) s'"
  let ?p = "page_ids pool ! f"
  have shape: "pool_shape pool" and dm: "dm_inv (disk pool) ?c ps" and al: "?p \<in> allocated (disk pool) ps"
    using inv f by (auto simp: pool_inv_def)
  have fl': "f < pool_size pool" "?p \<noteq> PAGE_ID_NULL" using f by (auto simp: used_frames_def)
  have len: "length (pages pool ! f) = 4096" using shape fl'(1) by (simp add: pool_shape_def)
  have tot: "total_pages (disk pool) * 4096 \<le> length ?c" using dm by (simp add: dm_inv_def)
  obtain e t where w: "disk_write_page os (disk pool) ?p (pages pool ! f) s = (e, t)" by fastforce
  have "dirty_flags pool ! f = 0 \<and> err = NOSTR_DB_OK \<and> pool' = pool \<and> s' = s \<or>
      dirty_flags pool ! f \<noteq> 0 \<and> e = NOSTR_DB_OK \<and> err = NOSTR_DB_OK \<and> s' = t \<and>
        pool' = pool\<lparr>dirty_flags := (dirty_flags pool)[f := 0]\<rparr> \<or>
      dirty_flags pool ! f \<noteq> 0 \<and> e \<noteq> NOSTR_DB_OK \<and> err = e \<and> s' = t \<and> pool' = pool"
    using fl fl'(2) w by (simp add: flush_frame_def Let_def split: if_splits)
  with w consider (clean) "dirty_flags pool ! f = 0" "err = NOSTR_DB_OK" "pool' = pool" "s' = s"
    | (written) "err = NOSTR_DB_OK" "disk_write_page os (disk pool) ?p (pages pool ! f) s = (NOSTR_DB_OK, s')"
        "pool' = pool\<lparr>dirty_flags := (dirty_flags pool)[f := 0]\<rparr>"
    | (failed) "err \<noteq> NOSTR_DB_OK" "disk_write_page os (disk pool) ?p (pages pool ! f) s = (err, s')" "pool' = pool"
        "dirty_flags pool ! f \<noteq> 0"
    by (elim disjE conjE) simp_all
  note cases = this
  have frame: "length ?c' = length ?c" "\<And>q. q \<noteq> ?p \<Longrightarrow> q < total_pages (disk pool) \<Longrightarrow> page_at ?c' q = page_at ?c q"
    using cases disk_write_page_frame [OF _ len tot] by (cases; auto)+
  have dm': "dm_inv (disk pool) ?c' ps"
  proof -
    have "q \<noteq> ?p \<and> q < total_pages (disk pool)" if "q \<in> set ps" for q
      using that al dm by (auto simp: allocated_def dm_inv_def)
    then show ?thesis using dm frame by (subst dm_inv_cong [of _ ?c]) auto
  qed
  have upd: "pool' = pool\<lparr>dirty_flags := dirty_flags pool'\<rparr>" "length (dirty_flags pool') = length (dirty_flags pool)"
    using cases by (cases; simp)+
  then have same: "page_ids pool' = page_ids pool" "pages pool' = pages pool" "hash_table pool' = hash_table pool"
      "hash_size pool' = hash_size pool" "pool_size pool' = pool_size pool" "disk pool' = disk pool"
      "pin_counts pool' = pin_counts pool" "ref_bits pool' = ref_bits pool" "lsns pool' = lsns pool"
      "clock_hand pool' = clock_hand pool"
    by (metis buffer_pool.ext_inject buffer_pool.surjective buffer_pool.update_convs(3))+
  have used: "used_frames pool' = used_frames pool" by (simp add: used_frames_def same)
  have dirty: "dirty_flags pool' ! g = dirty_flags pool ! g" if "g \<noteq> f" for g
    using cases that by cases simp_all
  have cleared: "err = NOSTR_DB_OK \<Longrightarrow> dirty_flags pool' ! f = 0"
    using cases fl'(1) shape by cases (simp_all add: pool_shape_def)
  have own: "page_at ?c' ?p = pages pool ! f" if "dirty_flags pool' ! f = 0"
    using cases
  proof cases
    case clean
    then show ?thesis using inv f by (auto simp: pool_inv_def)
  next
    case written
    note w = disk_write_page_ok [OF written(2) len tot]
    then show ?thesis using page_at_blit [OF w(3) tot len, of ?p] by simp
  next
    case failed
    then show ?thesis using that by simp
  qed
  have others: "page_at ?c' (page_ids pool ! g) = page_at ?c (page_ids pool ! g)"
    if "g \<in> used_frames pool - X" "g \<noteq> f" for g
    using that used_distinct [OF inv f that(1)] inv frame(2) by (force simp: pool_inv_def allocated_def)
  have "dirty_flags pool' ! g = 0 \<longrightarrow> pages pool ! g = page_at ?c' (page_ids pool ! g)"
    if "g \<in> used_frames pool - X" for g
  proof (cases "g = f")
    case True
    then show ?thesis using own by auto
  next
    case False
    then show ?thesis using others [OF that False] dirty [OF False] inv that by (auto simp: pool_inv_def)
  qed
  then show inv': "pool_inv pool' ?c' X ps"
    using inv dm' upd(2) unfolding pool_inv_def same used pool_shape_def by auto
  show "pool' = pool\<lparr>dirty_flags := dirty_flags pool'\<rparr>" by (rule upd(1))
  show "err = NOSTR_DB_OK \<Longrightarrow> dirty_flags pool' ! f = 0" by (rule cleared)
  show "\<And>g. g \<noteq> f \<Longrightarrow> dirty_flags pool' ! g = dirty_flags pool ! g" by (rule dirty)
  fix p
  assume p: "p \<in> allocated (disk pool) ps"
  show "page_content pool' ?c' p = page_content pool ?c p"
  proof (cases "\<exists>g \<in> used_frames pool - X. page_ids pool ! g = p")
    case True
    then obtain g where g: "g \<in> used_frames pool - X" "page_ids pool ! g = p" by blast
    then show ?thesis
      using page_content_used [OF inv g(1)] page_content_used [OF inv', of g] by (simp add: used same)
  next
    case False
    then have np: "\<forall>g \<in> used_frames pool - X. page_ids pool ! g \<noteq> p" by blast
    then have "p \<noteq> ?p" using f by blast
    then have "page_at ?c' p = page_at ?c p" using frame(2) p by (simp add: allocated_def)
    then show ?thesis
      using page_content_unused [OF inv np] page_content_unused [OF inv', of p] np by (simp add: used same)
  qed
qed

end

section \<open>Taking and installing a frame\<close>

lemma pool_inv_clock:
  assumes "pool_inv pool c X ps" "pool' = pool\<lparr>clock_hand := h, ref_bits := r\<rparr>"
    and "h < pool_size pool" "length r = pool_size pool"
  shows "pool_inv pool' c X ps" "page_content pool' c p = page_content pool c p"
    "used_frames pool' = used_frames pool"
  using assms by (auto simp: pool_inv_def pool_shape_def used_frames_def page_content_def pool_lookup_def)

lemma clock_evict_upd:
  assumes "clock_evict pool = (f, pool')" "pool_shape pool"
  obtains h r where "pool' = pool\<lparr>clock_hand := h, ref_bits := r\<rparr>" "h < pool_size pool" "length r = pool_size pool"
  using assms clock_loop_result [of "pin_counts pool" "pool_size pool" "pool_size pool * 2 mod 2 ^ 32"
      "clock_hand pool" "ref_bits pool"]
  by (auto simp: clock_evict_def pool_shape_def split: prod.splits)

lemma evict_inv:
  assumes inv: "pool_inv pool c {} ps" and f: "f \<in> used_frames pool" "dirty_flags pool ! f = 0"
  shows "\<exists>table. hash_remove (hash_table pool) (page_ids pool) (hash_size pool) (page_ids pool ! f) = Some table \<and>
    pool_inv (pool\<lparr>hash_table := table\<rparr>) c {f} ps \<and>
    (\<forall>p. page_content (pool\<lparr>hash_table := table\<rparr>) c p = page_content pool c p)"
proof -
  have ok: "table_ok (hash_table pool) (page_ids pool) (hash_size pool)"
    and fr: "frames_in (hash_table pool) (hash_size pool) = used_frames pool"
    using inv by (simp_all add: pool_inv_def)
  obtain table where t: "hash_remove (hash_table pool) (page_ids pool) (hash_size pool) (page_ids pool ! f) = Some table"
      "table_ok table (page_ids pool) (hash_size pool)" "frames_in table (hash_size pool) = used_frames pool - {f}"
    using hash_remove_ok [OF ok pool_has_empty [OF inv], of f] f(1) fr by auto
  let ?pool = "pool\<lparr>hash_table := table\<rparr>"
  have used: "used_frames ?pool = used_frames pool" by (simp add: used_frames_def)
  have inv': "pool_inv ?pool c {f} ps"
    using inv t by (auto simp: pool_inv_def pool_shape_def used)
  have "page_content ?pool c p = page_content pool c p" for p
  proof -
    consider "p = page_ids pool ! f" | g where "g \<in> used_frames pool - {f}" "page_ids pool ! g = p"
      | "\<forall>g \<in> used_frames pool. page_ids pool ! g \<noteq> p" by blast
    then show ?thesis
    proof cases
      case 1
      then have "\<forall>g \<in> used_frames pool - {f}. page_ids pool ! g \<noteq> p"
        using used_distinct [OF inv] f(1) by auto
      then have "page_content ?pool c p = page_at c p"
        using page_content_unused [OF inv', of p] by (simp add: used)
      moreover have "page_content pool c p = pages pool ! f"
        using page_content_used [OF inv, of f] f(1) 1 by simp
      ultimately show ?thesis using inv f 1 by (simp add: pool_inv_def)
    next
      case 2
      then show ?thesis
        using page_content_used [OF inv', of g] page_content_used [OF inv, of g] by (simp add: used)
    next
      case 3
      then show ?thesis
        using page_content_unused [OF inv', of p] page_content_unused [OF inv, of p] by (simp add: used)
    qed
  qed
  then show ?thesis using t(1) inv' by blast
qed

lemma install_frame_inv:
  assumes inv: "pool_inv pool c {f} ps" and f: "f < pool_size pool" and p: "p \<in> allocated (disk pool) ps"
    and new: "\<forall>g \<in> used_frames pool - {f}. page_ids pool ! g \<noteq> p"
    and clean: "dirty = 0 \<longrightarrow> pages pool ! f = page_at c p"
  shows "\<exists>pool'. install_frame pool f p dirty = Some pool' \<and> pool_inv pool' c {} ps \<and>
    pool_lookup pool' p = f \<and> pages pool' = pages pool \<and> disk pool' = disk pool \<and>
    pin_counts pool' = (pin_counts pool)[f := 1] \<and> page_ids pool' = (page_ids pool)[f := p] \<and>
    dirty_flags pool' = (dirty_flags pool)[f := dirty] \<and> pool_size pool' = pool_size pool \<and>
    page_content pool' c p = pages pool ! f \<and>
    (\<forall>q. q \<noteq> p \<longrightarrow> page_content pool' c q = page_content pool c q)"
proof -
  let ?ids = "(page_ids pool)[f := p]"
  let ?table = "hash_table pool" and ?n = "hash_size pool"
  have shape: "pool_shape pool" using inv by (simp add: pool_inv_def)
  have len: "length (page_ids pool) = pool_size pool" using shape by (simp add: pool_shape_def)
  have p0: "p \<noteq> PAGE_ID_NULL" using p by (simp add: allocated_def)
  have fr: "frames_in ?table ?n = used_frames pool - {f}" and ok: "table_ok ?table (page_ids pool) ?n"
    using inv by (simp_all add: pool_inv_def)
  have ok': "table_ok ?table ?ids ?n"
    using ok fr by (subst table_ok_cong [of _ _ _ "page_ids pool"]) auto
  have "f \<noteq> BUFFER_FRAME_INVALID" using pool_frame_valid [OF inv f] .
  then obtain table where t: "hash_insert ?table ?ids ?n p f = Some table" "table_ok table ?ids ?n"
      "frames_in table ?n = insert f (used_frames pool - {f})"
    using hash_insert_ok [OF ok' pool_has_empty [OF inv], of f p] fr f len new by auto
  define pool' where "pool' = pool\<lparr>page_ids := ?ids, pin_counts := (pin_counts pool)[f := 1],
    dirty_flags := (dirty_flags pool)[f := dirty], ref_bits := (ref_bits pool)[f := 1],
    lsns := (lsns pool)[f := 0], hash_table := table\<rparr>"
  have inst: "install_frame pool f p dirty = Some pool'"
    by (simp add: install_frame_def Let_def t(1) pool'_def)
  have used: "used_frames pool' = insert f (used_frames pool)"
    using f p0 len by (auto simp: used_frames_def pool'_def nth_list_update)
  have "page_ids pool' ! g \<in> allocated (disk pool') ps \<and>
      (dirty_flags pool' ! g = 0 \<longrightarrow> pages pool' ! g = page_at c (page_ids pool' ! g))"
    if "g \<in> used_frames pool'" for g
  proof (cases "g = f")
    case True
    then show ?thesis using p clean f shape by (simp add: pool'_def pool_shape_def)
  next
    case False
    then have "g \<in> used_frames pool - {f}" using that used by simp
    then show ?thesis using inv False by (simp add: pool'_def pool_inv_def)
  qed
  then have inv': "pool_inv pool' c {} ps"
    using inv t(2,3) used by (simp add: pool_inv_def pool_shape_def pool'_def insert_Diff_if)
  have lk: "pool_lookup pool' p = f"
    using pool_lookup_used [OF inv', of f p] used f len by (simp add: pool'_def)
  have own: "page_content pool' c p = pages pool ! f"
    using lk pool_frame_valid [OF inv f] by (simp add: page_content_def pool'_def)
  have "page_content pool' c q = page_content pool c q" if q: "q \<noteq> p" for q
  proof (cases "\<exists>g \<in> used_frames pool - {f}. page_ids pool ! g = q")
    case True
    then obtain g where g: "g \<in> used_frames pool - {f}" "page_ids pool ! g = q" by blast
    then show ?thesis
      using page_content_used [OF inv g(1)] page_content_used [OF inv', of g] used by (simp add: pool'_def)
  next
    case False
    then have "\<forall>g \<in> used_frames pool' - {}. page_ids pool' ! g \<noteq> q"
      using q f len used by (auto simp: pool'_def nth_list_update)
    then show ?thesis
      using page_content_unused [OF inv', of q] page_content_unused [OF inv, of q] False by auto
  qed
  then show ?thesis using inst inv' lk own by (simp add: pool'_def)
qed

context posix
begin

lemma take_frame_inv:
  assumes inv: "pool_inv pool (view (dm_fd (disk pool)) s) {} ps"
  obtains r pool' s' where "take_frame os pool s = Some (r, pool', s')"
    "page_ids pool' = page_ids pool" "pages pool' = pages pool" "pin_counts pool' = pin_counts pool"
    "disk pool' = disk pool" "pool_size pool' = pool_size pool"
    "pool_inv pool' (view (dm_fd (disk pool)) s') (set_option r) ps"
    "\<forall>f. r = Some f \<longrightarrow> f < pool_size pool \<and> (page_ids pool ! f = PAGE_ID_NULL \<or> pin_counts pool ! f = 0)"
    "\<forall>p \<in> allocated (disk pool) ps.
      page_content pool' (view (dm_fd (disk pool)) s') p = page_content pool (view (dm_fd (disk pool)) s) p"
proof -
  let ?fd = "dm_fd (disk pool)" and ?i = "first_index (\<lambda>p. p = PAGE_ID_NULL) (page_ids pool)"
  have shape: "pool_shape pool" using inv by (simp add: pool_inv_def)
  have len: "length (page_ids pool) = pool_size pool" using shape by (simp add: pool_shape_def)
  show thesis
  proof (cases "?i < pool_size pool")
    case True
    then have "page_ids pool ! ?i = PAGE_ID_NULL" using first_index_hit [of "\<lambda>p. p = PAGE_ID_NULL" "page_ids pool"] len by simp
    moreover from this have "used_frames pool - {?i} = used_frames pool" by (auto simp: used_frames_def)
    then have "pool_inv pool (view ?fd s) {?i} ps" using inv by (simp add: pool_inv_def)
    ultimately show thesis using True by (intro that [of "Some ?i" pool s]) (simp_all add: take_frame_def Let_def)
  next
    case False
    then have all: "page_ids pool ! f \<noteq> PAGE_ID_NULL" if "f < pool_size pool" for f
      using first_index_before [of f "\<lambda>p. p = PAGE_ID_NULL" "page_ids pool"] that len by simp
    obtain v pool1 where ev: "clock_evict pool = (v, pool1)" by fastforce
    note cl = clock_evict_result(3) [OF ev shape]
    obtain h r where p1: "pool1 = pool\<lparr>clock_hand := h, ref_bits := r\<rparr>" "h < pool_size pool" "length r = pool_size pool"
      using clock_evict_upd [OF ev shape] .
    note inv1 = pool_inv_clock [OF inv p1]
    show thesis
    proof (cases "v = BUFFER_FRAME_INVALID")
      case True
      then show thesis
        using \<open>\<not> ?i < pool_size pool\<close> inv1 ev
        by (intro that [of None pool1 s]) (simp_all add: take_frame_def Let_def p1)
    next
      case False
      then have v: "v < pool_size pool" "pin_counts pool ! v = 0" "v \<in> used_frames pool"
        using cl all by (auto simp: used_frames_def)
      obtain err pool2 s2 where fl: "flush_frame os pool1 v s = (err, pool2, s2)" by (metis prod_cases3)
      have d1: "disk pool1 = disk pool" by (simp add: p1)
      note fi = flush_frame_inv [where pool = pool1 and X = "{}", unfolded d1, OF inv1(1) _ fl]
      have v1: "v \<in> used_frames pool1 - {}" using v(3) inv1(3) by simp
      obtain d where p2: "pool2 = pool1\<lparr>dirty_flags := d\<rparr>" using fi(2) [OF v1] by blast
      show thesis
      proof (cases "err = NOSTR_DB_OK")
        case False
        then show thesis
          using \<open>\<not> ?i < pool_size pool\<close> \<open>v \<noteq> _\<close> ev fl fi(1,5) [OF v1] inv1(2)
          by (intro that [of None pool2 s2]) (simp_all add: take_frame_def Let_def p2 p1)
      next
        case True
        have v2: "v \<in> used_frames pool2" using v(3) by (simp add: p2 p1 used_frames_def)
        obtain table where t: "hash_remove (hash_table pool2) (page_ids pool2) (hash_size pool2) (page_ids pool2 ! v) = Some table"
          "pool_inv (pool2\<lparr>hash_table := table\<rparr>) (view ?fd s2) {v} ps"
          "\<And>p. page_content (pool2\<lparr>hash_table := table\<rparr>) (view ?fd s2) p = page_content pool2 (view ?fd s2) p"
          using evict_inv [OF fi(1) [OF v1] v2 fi(3) [OF v1 True]] by blast
        have tk: "take_frame os pool s = Some (Some v, pool2\<lparr>hash_table := table\<rparr>, s2)"
          using \<open>\<not> ?i < pool_size pool\<close> \<open>v \<noteq> _\<close> ev fl True t(1)
          by (simp add: take_frame_def Let_def)
        show thesis
          using t fi(5) [OF v1] inv1(2) v
          by (intro that [OF tk]) (simp_all add: p2 p1)
      qed
    qed
  qed
qed

end

section \<open>The operations preserve the invariant and the logical contents\<close>

lemma pool_inv_pages:
  assumes inv: "pool_inv pool c {v} ps" and d: "length d = 4096"
  shows "pool_inv (pool\<lparr>pages := (pages pool)[v := d]\<rparr>) c {v} ps"
    "page_content (pool\<lparr>pages := (pages pool)[v := d]\<rparr>) c p = page_content pool c p"
    "used_frames (pool\<lparr>pages := (pages pool)[v := d]\<rparr>) = used_frames pool"
proof -
  let ?pool = "pool\<lparr>pages := (pages pool)[v := d]\<rparr>"
  show used: "used_frames ?pool = used_frames pool" by (simp add: used_frames_def)
  have "pool_shape ?pool"
    using inv d by (auto simp: pool_inv_def pool_shape_def dest!: set_update_subset_insert [THEN subsetD])
  then show "pool_inv ?pool c {v} ps" using inv by (simp add: pool_inv_def used)
  have "pool_lookup pool p \<noteq> v" if "pool_lookup pool p \<noteq> BUFFER_FRAME_INVALID"
    using pool_lookup_Some(1) [OF inv that] by simp
  moreover have "pool_lookup ?pool p = pool_lookup pool p" by (simp add: pool_lookup_def)
  ultimately show "page_content ?pool c p = page_content pool c p" by (auto simp: page_content_def)
qed

lemma pool_inv_disk:
  assumes inv: "pool_inv pool c X ps" and dm: "dm_inv dm c' ps'"
    and al: "allocated (disk pool) ps \<subseteq> allocated dm ps'"
    and same: "\<And>q. q \<in> allocated (disk pool) ps \<Longrightarrow> page_at c' q = page_at c q"
  shows "pool_inv (pool\<lparr>disk := dm\<rparr>) c' X ps'"
    "q \<in> allocated (disk pool) ps \<Longrightarrow> page_content (pool\<lparr>disk := dm\<rparr>) c' q = page_content pool c q"
    "used_frames (pool\<lparr>disk := dm\<rparr>) = used_frames pool"
proof -
  show used: "used_frames (pool\<lparr>disk := dm\<rparr>) = used_frames pool" by (simp add: used_frames_def)
  show "pool_inv (pool\<lparr>disk := dm\<rparr>) c' X ps'"
    using inv dm al same by (fastforce simp: pool_inv_def pool_shape_def used)
  show "q \<in> allocated (disk pool) ps \<Longrightarrow> page_content (pool\<lparr>disk := dm\<rparr>) c' q = page_content pool c q"
    using same by (simp add: page_content_def pool_lookup_def)
qed

context posix
begin

lemma buffer_pool_pin_ok:
  assumes inv: "pool_inv pool (view (dm_fd (disk pool)) s) {} ps" and p: "p \<in> allocated (disk pool) ps"
    and pin: "buffer_pool_pin os pool p s = Some (Some f, pool', s')"
  shows "pool_inv pool' (view (dm_fd (disk pool)) s') {} ps" "disk pool' = disk pool"
    "pool_lookup pool' p = f" "pages pool' ! f = page_content pool (view (dm_fd (disk pool)) s) p"
    "f < pool_size pool"
    "\<And>q. q \<in> allocated (disk pool) ps \<Longrightarrow>
      page_content pool' (view (dm_fd (disk pool)) s') q = page_content pool (view (dm_fd (disk pool)) s) q"
    "\<And>g. g < pool_size pool \<Longrightarrow> pin_counts pool ! g > 0 \<Longrightarrow> page_ids pool ! g \<noteq> PAGE_ID_NULL \<Longrightarrow>
      page_ids pool' ! g = page_ids pool ! g \<and> pages pool' ! g = pages pool ! g"
    "pool_size pool' = pool_size pool"
proof -
  let ?fd = "dm_fd (disk pool)"
  have p0: "p \<noteq> PAGE_ID_NULL" using p by (simp add: allocated_def)
  have "pool_inv pool' (view ?fd s') {} ps \<and> disk pool' = disk pool \<and> pool_lookup pool' p = f \<and>
    pages pool' ! f = page_content pool (view ?fd s) p \<and> f < pool_size pool \<and>
    (\<forall>q \<in> allocated (disk pool) ps. page_content pool' (view ?fd s') q = page_content pool (view ?fd s) q) \<and>
    (\<forall>g < pool_size pool. pin_counts pool ! g > 0 \<longrightarrow> page_ids pool ! g \<noteq> PAGE_ID_NULL \<longrightarrow>
      page_ids pool' ! g = page_ids pool ! g \<and> pages pool' ! g = pages pool ! g) \<and>
    pool_size pool' = pool_size pool"
  proof (cases "pool_lookup pool p = BUFFER_FRAME_INVALID")
    case False
    then have r: "f = pool_lookup pool p" "s' = s"
      "pool' = pool\<lparr>pin_counts := (pin_counts pool)[f := (pin_counts pool ! f + 1) mod 256],
         ref_bits := (ref_bits pool)[f := 1]\<rparr>"
      using pin p0 by (auto simp: buffer_pool_pin_def Let_def)
    have lk: "\<And>q. pool_lookup pool' q = pool_lookup pool q" by (simp add: r pool_lookup_def)
    have "used_frames pool' = used_frames pool" by (simp add: r used_frames_def)
    then have "pool_inv pool' (view ?fd s) {} ps"
      using inv by (simp add: pool_inv_def pool_shape_def r)
    moreover have "f \<in> used_frames pool" using pool_lookup_Some(1) [OF inv False] r(1) by simp
    ultimately show ?thesis
      using False lk by (simp add: page_content_def r used_frames_def)
  next
    case True
    obtain r1 pool1 s1 where tk: "take_frame os pool s = Some (r1, pool1, s1)"
      "page_ids pool1 = page_ids pool" "pages pool1 = pages pool" "pin_counts pool1 = pin_counts pool"
      "disk pool1 = disk pool" "pool_size pool1 = pool_size pool"
      "pool_inv pool1 (view ?fd s1) (set_option r1) ps"
      "\<forall>f. r1 = Some f \<longrightarrow> f < pool_size pool \<and> (page_ids pool ! f = PAGE_ID_NULL \<or> pin_counts pool ! f = 0)"
      "\<forall>p \<in> allocated (disk pool) ps. page_content pool1 (view ?fd s1) p = page_content pool (view ?fd s) p"
      by (rule take_frame_inv [OF inv])
    obtain out s2 where r1: "r1 = Some f" and rd: "disk_read_page os (disk pool) p s1 = (NOSTR_DB_OK, out, s2)"
      and inst: "install_frame (pool1\<lparr>pages := (pages pool1)[f := blit (pages pool1 ! f) 0 out]\<rparr>) f p 0 = Some pool'"
      and s': "s' = s2"
      using pin p0 True tk(1,5)
      by (cases r1; cases "disk_read_page os (disk pool) p s1")
         (auto simp: buffer_pool_pin_def Let_def split: if_splits)
    note rdo = disk_read_page_ok [OF rd]
    have f: "f < pool_size pool" "page_ids pool ! f = PAGE_ID_NULL \<or> pin_counts pool ! f = 0" using tk(8) r1 by auto
    have "length (pages pool1 ! f) = 4096"
      using tk(7) f(1) by (simp add: pool_inv_def pool_shape_def tk)
    then have bl: "blit (pages pool1 ! f) 0 out = out" using rdo(2) by (simp add: blit_0_full)
    let ?pool = "pool1\<lparr>pages := (pages pool1)[f := out]\<rparr>"
    have inv1: "pool_inv pool1 (view ?fd s1) {f} ps" using tk(7) r1 by simp
    note pg = pool_inv_pages [OF inv1 rdo(2)]
    have v: "view ?fd s2 = view ?fd s1" by (rule rdo(3))
    have used1: "used_frames pool1 = used_frames pool" by (simp add: used_frames_def tk)
    have miss: "\<forall>g \<in> used_frames pool. page_ids pool ! g \<noteq> p"
      using pool_lookup_used [OF inv, of _ p] True pool_frame_valid [OF inv] by (auto simp: used_frames_def)
    have own: "out = page_content pool (view ?fd s) p"
      using tk(9) p page_content_unused [OF inv1, of p] miss rdo(1) by (simp add: used1 tk)
    have sz: "f < pool_size ?pool" "p \<in> allocated (disk ?pool) ps" using f(1) p by (simp_all add: tk)
    have fresh: "\<forall>g \<in> used_frames ?pool - {f}. page_ids ?pool ! g \<noteq> p" using miss by (auto simp: used_frames_def tk)
    have pf: "pages ?pool ! f = out" using tk(7) f(1) by (simp add: pool_inv_def pool_shape_def tk)
    then have cl: "(0 :: nat) = 0 \<longrightarrow> pages ?pool ! f = page_at (view ?fd s1) p" using rdo(1) by simp
    note ins = install_frame_inv [OF pg(1) sz fresh cl]
    have "install_frame ?pool f p 0 = Some pool'" using inst bl by simp
    moreover have pf': "(pages pool)[f := out] ! f = out" using pf by (simp add: tk)
    ultimately have I: "pool_inv pool' (view ?fd s1) {} ps" "pool_lookup pool' p = f" "pages pool' = (pages pool)[f := out]"
      "disk pool' = disk pool" "page_ids pool' = (page_ids pool)[f := p]"
      "page_content pool' (view ?fd s1) p = out"
      "\<forall>q. q \<noteq> p \<longrightarrow> page_content pool' (view ?fd s1) q = page_content ?pool (view ?fd s1) q"
      "pool_size pool' = pool_size pool"
      using ins by (simp_all add: pf' tk)
    have "page_content pool' (view ?fd s1) q = page_content pool (view ?fd s) q" if "q \<in> allocated (disk pool) ps" for q
      using that I(6,7) own pg(2) tk(9) by (cases "q = p") simp_all
    moreover have "page_ids pool' ! g = page_ids pool ! g \<and> pages pool' ! g = pages pool ! g"
      if "g < pool_size pool" "pin_counts pool ! g > 0" "page_ids pool ! g \<noteq> PAGE_ID_NULL" for g
    proof -
      have "f \<noteq> g" using f(2) that by auto
      then show ?thesis by (simp add: I)
    qed
    moreover have "pages pool' ! f = out" using I(3) pf' by simp
    ultimately show ?thesis using I f(1) own by (simp add: s' v)
  qed
  then show "pool_inv pool' (view ?fd s') {} ps" "disk pool' = disk pool"
    "pool_lookup pool' p = f" "pages pool' ! f = page_content pool (view ?fd s) p" "f < pool_size pool"
    "\<And>q. q \<in> allocated (disk pool) ps \<Longrightarrow> page_content pool' (view ?fd s') q = page_content pool (view ?fd s) q"
    "\<And>g. g < pool_size pool \<Longrightarrow> pin_counts pool ! g > 0 \<Longrightarrow> page_ids pool ! g \<noteq> PAGE_ID_NULL \<Longrightarrow>
      page_ids pool' ! g = page_ids pool ! g \<and> pages pool' ! g = pages pool ! g"
    "pool_size pool' = pool_size pool"
    by blast+
qed

end

context posix
begin

lemma buffer_pool_alloc_ok:
  assumes inv: "pool_inv pool (view (dm_fd (disk pool)) s) {} ps"
    and al: "buffer_pool_alloc_page os pool s = Some (a, out, pool', s')" "a \<noteq> PAGE_ID_NULL"
  shows "\<exists>ps'. pool_inv pool' (view (dm_fd (disk pool)) s') {} ps' \<and> dm_fd (disk pool') = dm_fd (disk pool) \<and>
    a \<notin> allocated (disk pool) ps \<and> allocated (disk pool') ps' = insert a (allocated (disk pool) ps) \<and>
    out = Some (pool_lookup pool' a) \<and> pool_lookup pool' a < pool_size pool' \<and>
    page_content pool' (view (dm_fd (disk pool)) s') a = page_data_zero \<and>
    (\<forall>q \<in> allocated (disk pool) ps.
      page_content pool' (view (dm_fd (disk pool)) s') q = page_content pool (view (dm_fd (disk pool)) s) q)"
proof -
  let ?fd = "dm_fd (disk pool)"
  obtain n dm s1 where da: "disk_alloc_page os (disk pool) s = (n, dm, s1)" by (metis prod_cases3)
  let ?pool = "pool\<lparr>disk := dm\<rparr>"
  have na: "n = a"
  proof (rule ccontr)
    assume "n \<noteq> a"
    then show False
      using al da by (cases "take_frame os ?pool s1")
        (auto simp: buffer_pool_alloc_page_def Let_def split: if_splits option.splits prod.splits)
  qed
  obtain ps' where D: "dm_inv dm (view ?fd s1) ps'" "dm_fd dm = ?fd" "a \<notin> allocated (disk pool) ps"
      "allocated dm ps' = insert a (allocated (disk pool) ps)"
      "\<forall>q \<in> allocated (disk pool) ps. page_at (view ?fd s1) q = page_at (view ?fd s) q"
    using disk_alloc_inv [of "disk pool" s ps a dm s1] inv da na al(2) by (auto simp: pool_inv_def)
  have sub: "allocated (disk pool) ps \<subseteq> allocated dm ps'" using D(4) by blast
  have same: "\<And>q. q \<in> allocated (disk pool) ps \<Longrightarrow> page_at (view ?fd s1) q = page_at (view ?fd s) q" using D(5) by blast
  note P = pool_inv_disk [OF inv D(1) sub same]
  have fd: "dm_fd (disk ?pool) = ?fd" by (simp add: D(2))
  have inv0: "pool_inv ?pool (view (dm_fd (disk ?pool)) s1) {} ps'" using P(1) by (simp add: D(2))
  obtain r2 pool2 s2 where tk: "take_frame os ?pool s1 = Some (r2, pool2, s2)"
    "page_ids pool2 = page_ids ?pool" "pages pool2 = pages ?pool" "pin_counts pool2 = pin_counts ?pool"
    "disk pool2 = disk ?pool" "pool_size pool2 = pool_size ?pool"
    "pool_inv pool2 (view (dm_fd (disk ?pool)) s2) (set_option r2) ps'"
    "\<forall>f. r2 = Some f \<longrightarrow> f < pool_size ?pool \<and> (page_ids ?pool ! f = PAGE_ID_NULL \<or> pin_counts ?pool ! f = 0)"
    "\<forall>p \<in> allocated (disk ?pool) ps'.
      page_content pool2 (view (dm_fd (disk ?pool)) s2) p = page_content ?pool (view (dm_fd (disk ?pool)) s1) p"
    by (rule take_frame_inv [OF inv0])
  obtain f where r2: "r2 = Some f" "out = Some f" "s' = s2"
    and inst: "install_frame (pool2\<lparr>pages := (pages pool2)[f := page_data_zero]\<rparr>) f a 1 = Some pool'"
    using al da tk(1) na by (cases r2) (auto simp: buffer_pool_alloc_page_def Let_def split: prod.splits)
  have f: "f < pool_size pool" using tk(8) r2 by simp
  have inv2: "pool_inv pool2 (view ?fd s2) {f} ps'" using tk(7) r2 by (simp add: D(2))
  let ?pool2 = "pool2\<lparr>pages := (pages pool2)[f := page_data_zero]\<rparr>"
  have lenz: "length page_data_zero = 4096" by simp
  note pg = pool_inv_pages [OF inv2 lenz]
  have sz: "f < pool_size ?pool2" "a \<in> allocated (disk ?pool2) ps'" using f D(4) by (simp_all add: tk)
  have fresh: "\<forall>g \<in> used_frames ?pool2 - {f}. page_ids ?pool2 ! g \<noteq> a"
    using inv D(3) by (auto simp: pool_inv_def used_frames_def tk)
  have cl: "(1 :: nat) = 0 \<longrightarrow> pages ?pool2 ! f = page_at (view ?fd s2) a" by simp
  have pf: "pages ?pool2 ! f = page_data_zero" using inv2 sz(1) by (simp add: pool_inv_def pool_shape_def)
  have I: "pool_inv pool' (view ?fd s2) {} ps'" "pool_lookup pool' a = f" "disk pool' = dm"
      "page_content pool' (view ?fd s2) a = page_data_zero"
      "\<forall>q. q \<noteq> a \<longrightarrow> page_content pool' (view ?fd s2) q = page_content ?pool2 (view ?fd s2) q"
      "pool_lookup pool' a < pool_size pool'"
    using install_frame_inv [OF pg(1) sz fresh cl] inst pf f by (simp_all add: tk)
  have "page_content pool' (view ?fd s2) q = page_content pool (view ?fd s) q"
    if q: "q \<in> allocated (disk pool) ps" for q
  proof -
    have "q \<noteq> a" "q \<in> allocated dm ps'" using q D(3) sub by auto
    then have "page_content pool' (view ?fd s2) q = page_content ?pool (view ?fd s1) q"
      using I(5) pg(2) tk(9) by (simp add: D(2))
    then show ?thesis using P(2) q by simp
  qed
  then show ?thesis using I D r2 by auto
qed

lemma buffer_pool_pin_total:
  assumes inv: "pool_inv pool (view (dm_fd (disk pool)) s) {} ps" and p: "p \<in> allocated (disk pool) ps"
  shows "buffer_pool_pin os pool p s \<noteq> None"
proof (cases "pool_lookup pool p = BUFFER_FRAME_INVALID")
  case True
  obtain r1 pool1 s1 where tk: "take_frame os pool s = Some (r1, pool1, s1)"
    "page_ids pool1 = page_ids pool" "disk pool1 = disk pool" "pool_size pool1 = pool_size pool"
    "pool_inv pool1 (view (dm_fd (disk pool)) s1) (set_option r1) ps"
    "\<forall>f. r1 = Some f \<longrightarrow> f < pool_size pool \<and> (page_ids pool ! f = PAGE_ID_NULL \<or> pin_counts pool ! f = 0)"
    by (rule take_frame_inv [OF inv])
  obtain err out s2 where rd: "disk_read_page os (disk pool) p s1 = (err, out, s2)" by (metis prod_cases3)
  have "install_frame (pool1\<lparr>pages := (pages pool1)[f := blit (pages pool1 ! f) 0 out]\<rparr>) f p 0 \<noteq> None"
    if f: "r1 = Some f" and ok: "err = NOSTR_DB_OK" for f
  proof -
    have fs: "f < pool_size pool" using tk(6) f by simp
    have rd': "disk_read_page os (disk pool) p s1 = (NOSTR_DB_OK, out, s2)" using rd ok by simp
    note rdo = disk_read_page_ok [OF rd']
    have inv1: "pool_inv pool1 (view (dm_fd (disk pool)) s1) {f} ps" using tk(5) f by simp
    have l: "length (pages pool1 ! f) = 4096" "f < length (pages pool1)"
      using inv1 fs by (simp_all add: pool_inv_def pool_shape_def tk)
    then have bl: "blit (pages pool1 ! f) 0 out = out" using rdo(2) by (simp add: blit_0_full)
    let ?pool = "pool1\<lparr>pages := (pages pool1)[f := out]\<rparr>"
    have miss: "\<forall>g \<in> used_frames ?pool - {f}. page_ids ?pool ! g \<noteq> p"
      using pool_lookup_used [OF inv, of _ p] True pool_frame_valid [OF inv] by (auto simp: used_frames_def tk)
    have "f < pool_size ?pool" "p \<in> allocated (disk ?pool) ps" using fs p by (simp_all add: tk)
    then show ?thesis
      using install_frame_inv [OF pool_inv_pages(1) [OF inv1 rdo(2)] _ _ miss, of 0] rdo(1) l bl by auto
  qed
  then show ?thesis using tk(1,3) rd True by (cases r1) (auto simp: buffer_pool_pin_def Let_def)
qed (simp add: buffer_pool_pin_def Let_def)

lemma buffer_pool_alloc_total:
  assumes inv: "pool_inv pool (view (dm_fd (disk pool)) s) {} ps"
  shows "buffer_pool_alloc_page os pool s \<noteq> None"
proof -
  let ?fd = "dm_fd (disk pool)"
  obtain a dm s1 where da: "disk_alloc_page os (disk pool) s = (a, dm, s1)" by (metis prod_cases3)
  show ?thesis
  proof (cases "a = PAGE_ID_NULL")
    case False
    let ?pool = "pool\<lparr>disk := dm\<rparr>"
    obtain ps' where D: "dm_inv dm (view ?fd s1) ps'" "dm_fd dm = ?fd" "a \<notin> allocated (disk pool) ps"
        "allocated dm ps' = insert a (allocated (disk pool) ps)"
        "\<forall>q \<in> allocated (disk pool) ps. page_at (view ?fd s1) q = page_at (view ?fd s) q"
      using disk_alloc_inv [of "disk pool" s ps a dm s1] inv da False by (auto simp: pool_inv_def)
    have "pool_inv ?pool (view ?fd s1) {} ps'" by (intro pool_inv_disk(1) [OF inv D(1)]) (use D(4,5) in auto)
    then have inv0: "pool_inv ?pool (view (dm_fd (disk ?pool)) s1) {} ps'" by (simp add: D(2))
    obtain r2 pool2 s2 where tk: "take_frame os ?pool s1 = Some (r2, pool2, s2)"
      "page_ids pool2 = page_ids ?pool" "disk pool2 = disk ?pool" "pool_size pool2 = pool_size ?pool"
      "pool_inv pool2 (view (dm_fd (disk ?pool)) s2) (set_option r2) ps'"
      "\<forall>f. r2 = Some f \<longrightarrow> f < pool_size ?pool \<and> (page_ids ?pool ! f = PAGE_ID_NULL \<or> pin_counts ?pool ! f = 0)"
      by (rule take_frame_inv [OF inv0])
    have lenz: "length page_data_zero = 4096" by simp
    have "install_frame (pool2\<lparr>pages := (pages pool2)[f := page_data_zero]\<rparr>) f a 1 \<noteq> None" if f: "r2 = Some f" for f
    proof -
      have inv2: "pool_inv pool2 (view ?fd s2) {f} ps'" using tk(5) f by (simp add: D(2))
      let ?pool2 = "pool2\<lparr>pages := (pages pool2)[f := page_data_zero]\<rparr>"
      have sz: "f < pool_size ?pool2" "a \<in> allocated (disk ?pool2) ps'" using f tk(6) D(4) by (simp_all add: tk)
      have fresh: "\<forall>g \<in> used_frames ?pool2 - {f}. page_ids ?pool2 ! g \<noteq> a"
        using inv D(3) by (auto simp: pool_inv_def used_frames_def tk)
      show ?thesis using install_frame_inv [OF pool_inv_pages(1) [OF inv2 lenz] sz fresh, of 1] by auto
    qed
    then show ?thesis using da False tk(1) by (cases r2) (auto simp: buffer_pool_alloc_page_def Let_def split: prod.splits)
  qed (simp add: buffer_pool_alloc_page_def da Let_def)
qed

text \<open>A client that writes to the frame of a page and marks it dirty.\<close>

lemma page_write_ok:
  assumes inv: "pool_inv pool c {} ps" and f: "pool_lookup pool p = f" "f \<noteq> BUFFER_FRAME_INVALID" "p \<noteq> PAGE_ID_NULL"
    and d: "length data = 4096"
    and pool': "pool' = buffer_pool_mark_dirty (pool\<lparr>pages := (pages pool)[f := data]\<rparr>) p l"
  shows "pool_inv pool' c {} ps" "disk pool' = disk pool" "page_content pool' c p = data"
    "q \<noteq> p \<Longrightarrow> page_content pool' c q = page_content pool c q"
proof -
  have shape: "pool_shape pool" using inv by (simp add: pool_inv_def)
  note lk = pool_lookup_Some [OF inv, of p] 
  have fu: "f \<in> used_frames pool" "page_ids pool ! f = p" using lk f by auto
  have fs: "f < pool_size pool" using fu by (simp add: used_frames_def)
  have same: "\<And>q. pool_lookup (pool\<lparr>pages := (pages pool)[f := data]\<rparr>) q = pool_lookup pool q"
    by (simp add: pool_lookup_def)
  define ls where "ls = (if l > lsns pool ! f then (lsns pool)[f := l] else lsns pool)"
  have p': "pool' = pool\<lparr>pages := (pages pool)[f := data], dirty_flags := (dirty_flags pool)[f := 1], lsns := ls\<rparr>"
    using f by (simp add: pool' buffer_pool_mark_dirty_def same ls_def)
  have ls: "length ls = length (lsns pool)" by (simp add: ls_def)
  have lk': "pool_lookup pool' q = pool_lookup pool q" for q by (simp add: p' pool_lookup_def)
  have used: "used_frames pool' = used_frames pool" by (simp add: p' used_frames_def)
  have "pool_shape pool'"
    using shape d ls by (auto simp: p' pool_shape_def dest!: set_update_subset_insert [THEN subsetD])
  moreover have "dirty_flags pool' ! g = 0 \<longrightarrow> pages pool' ! g = page_at c (page_ids pool' ! g)"
    if "g \<in> used_frames pool" for g
    using that inv fs shape by (cases "g = f") (auto simp: p' pool_inv_def pool_shape_def)
  ultimately show "pool_inv pool' c {} ps"
    using inv by (simp add: pool_inv_def used) (simp add: p')
  show "disk pool' = disk pool" by (simp add: p')
  show "page_content pool' c p = data"
    using f fs shape by (simp add: page_content_def lk') (simp add: p' pool_shape_def)
  show "page_content pool' c q = page_content pool c q" if "q \<noteq> p"
  proof -
    have "pool_lookup pool q \<noteq> f" using pool_lookup_Some(2) [OF inv, of q] f(2) fu(2) that by auto
    then show ?thesis by (simp add: page_content_def lk') (simp add: p')
  qed
qed

lemma unpin_same:
  assumes "pool_inv pool c X ps"
  shows "pool_inv (buffer_pool_unpin pool p) c X ps" "disk (buffer_pool_unpin pool p) = disk pool"
    "page_content (buffer_pool_unpin pool p) c q = page_content pool c q"
  using assms by (auto simp: buffer_pool_unpin_def Let_def pool_inv_def pool_shape_def used_frames_def
      page_content_def pool_lookup_def)

lemma flush_ok:
  assumes inv: "pool_inv pool (view (dm_fd (disk pool)) s) {} ps"
    and fl: "buffer_pool_flush os pool p s = (err, pool', s')"
  shows "pool_inv pool' (view (dm_fd (disk pool)) s') {} ps \<and> disk pool' = disk pool \<and>
    (\<forall>q \<in> allocated (disk pool) ps. page_content pool' (view (dm_fd (disk pool)) s') q =
      page_content pool (view (dm_fd (disk pool)) s) q)"
proof (cases "p = PAGE_ID_NULL \<or> pool_lookup pool p = BUFFER_FRAME_INVALID")
  case True
  then show ?thesis using inv fl by (auto simp: buffer_pool_flush_def Let_def split: if_splits)
next
  case False
  then have f: "pool_lookup pool p \<in> used_frames pool - {}" and "flush_frame os pool (pool_lookup pool p) s = (err, pool', s')"
    using pool_lookup_Some(1) [OF inv] fl by (auto simp: buffer_pool_flush_def Let_def)
  note fi = flush_frame_inv [OF inv this]
  obtain d where "pool' = pool\<lparr>dirty_flags := d\<rparr>" using fi(2) by blast
  then show ?thesis using fi(1,5) by simp
qed

lemma flush_loop_ok:
  assumes "pool_inv pool (view (dm_fd (disk pool)) s) {} ps" "flush_loop os pool xs s = (err, pool', s')"
    and "set xs \<subseteq> {..<pool_size pool}"
  shows "pool_inv pool' (view (dm_fd (disk pool)) s') {} ps \<and> disk pool' = disk pool \<and>
    page_ids pool' = page_ids pool \<and> pool_size pool' = pool_size pool \<and>
    (\<forall>q \<in> allocated (disk pool) ps. page_content pool' (view (dm_fd (disk pool)) s') q =
      page_content pool (view (dm_fd (disk pool)) s) q) \<and>
    (\<forall>f. dirty_flags pool ! f = 0 \<longrightarrow> dirty_flags pool' ! f = 0) \<and>
    (err = NOSTR_DB_OK \<longrightarrow> (\<forall>f \<in> set xs. f \<in> used_frames pool \<longrightarrow> dirty_flags pool' ! f = 0))"
  using assms
proof (induction xs arbitrary: pool s)
  case Nil
  then show ?case by simp
next
  case (Cons i xs)
  show ?case
  proof (cases "dirty_flags pool ! i \<noteq> 0 \<and> page_ids pool ! i \<noteq> PAGE_ID_NULL")
    case False
    then have "flush_loop os pool xs s = (err, pool', s')"
      using Cons.prems(2) by (simp only: flush_loop.simps False if_False)
    then show ?thesis using Cons.IH [OF Cons.prems(1)] Cons.prems(3) False by (auto simp: used_frames_def)
  next
    case True
    then have i: "i \<in> used_frames pool - {}" using Cons.prems(3) by (simp add: used_frames_def)
    obtain e pool1 s1 where fl: "flush_frame os pool i s = (e, pool1, s1)" by (metis prod_cases3)
    note fi = flush_frame_inv [OF Cons.prems(1) i fl]
    obtain d where p1: "pool1 = pool\<lparr>dirty_flags := d\<rparr>" using fi(2) by blast
    have used: "used_frames pool1 = used_frames pool" by (simp add: p1 used_frames_def)
    have mono: "\<forall>f. dirty_flags pool ! f = 0 \<longrightarrow> dirty_flags pool1 ! f = 0" using fi(4) True by metis
    show ?thesis
    proof (cases "e = NOSTR_DB_OK")
      case False
      then have "err = e" "pool' = pool1" "s' = s1" using Cons.prems(2) True fl by simp_all
      then show ?thesis using fi(1,5) False mono by (simp add: p1)
    next
      case ok: True
      have rest: "flush_loop os pool1 xs s1 = (err, pool', s')" using Cons.prems(2) True fl ok by simp
      have "pool_inv pool1 (view (dm_fd (disk pool1)) s1) {} ps" using fi(1) by (simp add: p1)
      note IH = Cons.IH [OF this rest]
      have "set xs \<subseteq> {..<pool_size pool1}" using Cons.prems(3) by (simp add: p1)
      note IH = IH [OF this]
      have eq: "disk pool1 = disk pool" "page_ids pool1 = page_ids pool" "pool_size pool1 = pool_size pool"
        by (simp_all add: p1)
      have "dirty_flags pool' ! i = 0" using IH fi(3) [OF ok] by blast
      then show ?thesis using IH fi(5) mono unfolding eq used by simp
    qed
  qed
qed

lemma flush_all_ok:
  assumes inv: "pool_inv pool (view (dm_fd (disk pool)) s) {} ps"
    and fl: "buffer_pool_flush_all os pool s = (err, pool', s')"
  shows "pool_inv pool' (view (dm_fd (disk pool)) s') {} ps \<and> disk pool' = disk pool \<and>
    (\<forall>q \<in> allocated (disk pool) ps. page_content pool' (view (dm_fd (disk pool)) s') q =
      page_content pool (view (dm_fd (disk pool)) s) q) \<and>
    (err = NOSTR_DB_OK \<longrightarrow> durable (dm_fd (disk pool)) s' = view (dm_fd (disk pool)) s' \<and>
      (\<forall>q \<in> allocated (disk pool) ps. page_at (durable (dm_fd (disk pool)) s') q =
        page_content pool (view (dm_fd (disk pool)) s) q))"
proof -
  let ?fd = "dm_fd (disk pool)"
  obtain e pool1 s1 where l: "flush_loop os pool [0..<pool_size pool] s = (e, pool1, s1)" by (metis prod_cases3)
  have sub: "set [0..<pool_size pool] \<subseteq> {..<pool_size pool}" by auto
  note L = flush_loop_ok [OF inv l sub]
  show ?thesis
  proof (cases "e = NOSTR_DB_OK")
    case False
    then show ?thesis using fl l L by (auto simp: buffer_pool_flush_all_def)
  next
    case True
    obtain e2 s2 where y: "disk_sync os (disk pool1) s1 = (e2, s2)" by fastforce
    have r: "err = e2" "pool' = pool1" "s' = s2" using fl l True y by (simp_all add: buffer_pool_flush_all_def)
    have v: "view g s2 = view g s1" for g
      using y by (auto simp: disk_sync_def split: if_splits prod.splits dest: fdatasync_view)
    have dur: "durable ?fd s2 = view ?fd s2" if "e2 = NOSTR_DB_OK"
      using y that L by (auto simp: disk_sync_def v split: if_splits prod.splits dest: fdatasync_law)
    have clean: "dirty_flags pool1 ! f = 0" if "f \<in> used_frames pool1" for f
      using that L True by (simp add: used_frames_def)
    have inv1: "pool_inv pool1 (view ?fd s1) {} ps" using L by blast
    have "page_content pool1 (view ?fd s1) q = page_at (view ?fd s1) q" for q
    proof (cases "pool_lookup pool1 q = BUFFER_FRAME_INVALID")
      case False
      note lk = pool_lookup_Some [OF inv1 False]
      have "pages pool1 ! pool_lookup pool1 q = page_at (view ?fd s1) (page_ids pool1 ! pool_lookup pool1 q)"
        using inv1 lk(1) clean unfolding pool_inv_def by blast
      then show ?thesis using False lk(2) by (simp add: page_content_def)
    qed (simp add: page_content_def)
    then show ?thesis using L dur by (simp add: r v)
  qed
qed

end

section \<open>Runs of the pool against a map of pages\<close>

text \<open>
  What a client of the pool does, and what it means for an abstract database that is just a map
  from page ids to pages: caching, eviction and write-back must not show.
\<close>

datatype pool_op = Pin nat | Unpin nat | Write nat page nat | Alloc nat | Flush nat | Flush_all

inductive pool_step :: "'s os \<Rightarrow> buffer_pool \<times> 's \<Rightarrow> pool_op \<Rightarrow> buffer_pool \<times> 's \<Rightarrow> bool" for os where
  step_pin: "buffer_pool_pin os pool p s = Some (Some f, pool', s') \<Longrightarrow>
    pool_step os (pool, s) (Pin p) (pool', s')"
| step_unpin: "pool_step os (pool, s) (Unpin p) (buffer_pool_unpin pool p, s)"
| step_write: "pool_lookup pool p = f \<Longrightarrow> f \<noteq> BUFFER_FRAME_INVALID \<Longrightarrow>
    pool_step os (pool, s) (Write p data l)
      (buffer_pool_mark_dirty (pool\<lparr>pages := (pages pool)[f := data]\<rparr>) p l, s)"
| step_alloc: "buffer_pool_alloc_page os pool s = Some (a, out, pool', s') \<Longrightarrow> a \<noteq> PAGE_ID_NULL \<Longrightarrow>
    pool_step os (pool, s) (Alloc a) (pool', s')"
| step_flush: "buffer_pool_flush os pool p s = (err, pool', s') \<Longrightarrow>
    pool_step os (pool, s) (Flush p) (pool', s')"
| step_flush_all: "buffer_pool_flush_all os pool s = (err, pool', s') \<Longrightarrow>
    pool_step os (pool, s) Flush_all (pool', s')"

inductive pool_run :: "'s os \<Rightarrow> buffer_pool \<times> 's \<Rightarrow> pool_op list \<Rightarrow> buffer_pool \<times> 's \<Rightarrow> bool" for os where
  run_Nil: "pool_run os x [] x"
| run_Cons: "pool_step os x op y \<Longrightarrow> pool_run os y ops z \<Longrightarrow> pool_run os x (op # ops) z"

inductive_cases pool_run_ConsE: "pool_run os x (op # ops) z"
inductive_cases pool_run_NilE: "pool_run os x [] z"

fun page_map_op :: "pool_op \<Rightarrow> (nat \<rightharpoonup> page) \<Rightarrow> (nat \<rightharpoonup> page)" where
  "page_map_op (Write p data l) m = m(p \<mapsto> data)"
| "page_map_op (Alloc a) m = m(a \<mapsto> page_data_zero)"
| "page_map_op _ m = m"

text \<open>What the client has to respect: it pins and writes allocated pages, and writes whole pages.\<close>

fun op_allowed :: "pool_op \<Rightarrow> (nat \<rightharpoonup> page) \<Rightarrow> bool" where
  "op_allowed (Pin p) m \<longleftrightarrow> p \<in> dom m"
| "op_allowed (Write p data l) m \<longleftrightarrow> p \<in> dom m \<and> length data = 4096"
| "op_allowed _ m \<longleftrightarrow> True"

primrec ops_allowed :: "pool_op list \<Rightarrow> (nat \<rightharpoonup> page) \<Rightarrow> bool" where
  "ops_allowed [] m \<longleftrightarrow> True"
| "ops_allowed (op # ops) m \<longleftrightarrow> op_allowed op m \<and> ops_allowed ops (page_map_op op m)"

definition represents :: "buffer_pool \<Rightarrow> byte list \<Rightarrow> nat list \<Rightarrow> (nat \<rightharpoonup> page) \<Rightarrow> bool" where
  "represents pool c ps m \<longleftrightarrow> pool_inv pool c {} ps \<and> dom m = allocated (disk pool) ps \<and>
     (\<forall>p \<in> dom m. m p = Some (page_content pool c p))"

lemma represents_same:
  assumes "represents pool c ps m" "pool_inv pool' c' {} ps" "disk pool' = disk pool"
    and "\<And>q. q \<in> allocated (disk pool) ps \<Longrightarrow> page_content pool' c' q = page_content pool c q"
  shows "represents pool' c' ps m"
  using assms by (simp add: represents_def)

context posix
begin

lemma pool_step_refines:
  assumes "pool_step os (pool, s) op (pool', s')" "represents pool (view (dm_fd (disk pool)) s) ps m" "op_allowed op m"
  shows "\<exists>ps'. represents pool' (view (dm_fd (disk pool')) s') ps' (page_map_op op m)"
proof -
  let ?fd = "dm_fd (disk pool)"
  have inv: "pool_inv pool (view ?fd s) {} ps" and dom: "dom m = allocated (disk pool) ps"
    and m: "\<And>p. p \<in> dom m \<Longrightarrow> m p = Some (page_content pool (view ?fd s) p)"
    using assms(2) by (auto simp: represents_def)
  show ?thesis using assms(1)
  proof cases
    case (step_pin p f)
    then have "p \<in> allocated (disk pool) ps" using assms(3) dom by simp
    note ok = buffer_pool_pin_ok [OF inv this step_pin(2)]
    have "represents pool' (view ?fd s') ps m" using represents_same [OF assms(2) ok(1,2,6)] by simp
    then show ?thesis using step_pin(1) ok(2) by auto
  next
    case (step_unpin p)
    have "represents (buffer_pool_unpin pool p) (view ?fd s) ps m"
      by (rule represents_same [OF assms(2)]) (simp_all add: unpin_same [OF inv])
    then show ?thesis using step_unpin unpin_same(2) [OF inv] by auto
  next
    case (step_write p f data l)
    have p: "p \<noteq> PAGE_ID_NULL" "length data = 4096" "p \<in> dom m"
      using assms(3) step_write(1) dom by (auto simp: allocated_def)
    note ok = page_write_ok [OF inv step_write(4,5) p(1,2) step_write(2)]
    have "dom (m(p \<mapsto> data)) = allocated (disk pool') ps" using dom p(3) ok(2) by auto
    moreover have "(m(p \<mapsto> data)) q = Some (page_content pool' (view ?fd s) q)" if "q \<in> dom (m(p \<mapsto> data))" for q
      using that ok(3,4) m p(3) by (cases "q = p") auto
    ultimately have "represents pool' (view ?fd s) ps (m(p \<mapsto> data))"
      using ok(1) unfolding represents_def by blast
    then show ?thesis using step_write(1,3) ok(2) by auto
  next
    case (step_alloc a out)
    obtain ps' where ok: "pool_inv pool' (view ?fd s') {} ps'" "dm_fd (disk pool') = ?fd"
      "a \<notin> allocated (disk pool) ps" "allocated (disk pool') ps' = insert a (allocated (disk pool) ps)"
      "page_content pool' (view ?fd s') a = page_data_zero"
      "\<forall>q \<in> allocated (disk pool) ps. page_content pool' (view ?fd s') q = page_content pool (view ?fd s) q"
      using buffer_pool_alloc_ok [OF inv step_alloc(2,3)] by blast
    have "(m(a \<mapsto> page_data_zero)) q = Some (page_content pool' (view ?fd s') q)"
      if "q \<in> dom (m(a \<mapsto> page_data_zero))" for q
      using that ok(5,6) m dom by (cases "q = a") auto
    moreover have "dom (m(a \<mapsto> page_data_zero)) = allocated (disk pool') ps'" using dom ok(4) by simp
    ultimately have "represents pool' (view ?fd s') ps' (m(a \<mapsto> page_data_zero))"
      using ok(1) unfolding represents_def by blast
    then show ?thesis using step_alloc(1) ok(2) by auto
  next
    case (step_flush p err)
    note ok = flush_ok [OF inv step_flush(2)]
    have "represents pool' (view ?fd s') ps m" using ok by (intro represents_same [OF assms(2)]) auto
    then show ?thesis using step_flush(1) ok by auto
  next
    case (step_flush_all err)
    note ok = flush_all_ok [OF inv step_flush_all(2)]
    have "represents pool' (view ?fd s') ps m" using ok by (intro represents_same [OF assms(2)]) auto
    then show ?thesis using step_flush_all(1) ok by auto
  qed
qed

lemma pool_run_refines:
  assumes "pool_run os (pool, s) ops (pool', s')" "represents pool (view (dm_fd (disk pool)) s) ps m" "ops_allowed ops m"
  shows "\<exists>ps'. represents pool' (view (dm_fd (disk pool')) s') ps' (fold page_map_op ops m)"
  using assms
proof (induction ops arbitrary: pool s ps m)
  case Nil
  then show ?case by (auto elim: pool_run_NilE)
next
  case (Cons op ops)
  obtain pool1 s1 where st: "pool_step os (pool, s) op (pool1, s1)" "pool_run os (pool1, s1) ops (pool', s')"
    using pool_run_ConsE [OF Cons.prems(1)] by (metis surj_pair)
  obtain ps1 where "represents pool1 (view (dm_fd (disk pool1)) s1) ps1 (page_map_op op m)"
    using pool_step_refines [OF st(1) Cons.prems(2)] Cons.prems(3) by auto
  then show ?case using Cons.IH [OF st(2)] Cons.prems(3) by simp
qed

end

section \<open>A new pool\<close>

lemma probe_ok_empty: "probe_ok n h (\<lambda>_. None)"
  by (simp add: probe_ok_def)

lemma buffer_pool_init_inv:
  assumes "dm_inv dm c ps" "next_prime (k * 2) = Some n" "0 < k" "k * 2 < 2 ^ 32" "k < n"
  obtains pool where "buffer_pool_init os dm k (\<lambda>_. True) s = Some (NOSTR_DB_OK, pool, s)"
    "pool_inv pool c {} ps" "disk pool = dm" "\<And>p. page_content pool c p = page_at c p" "pool_size pool = k"
    "pin_counts pool = replicate k 0"
proof -
  define pool where "pool = \<lparr>page_ids = replicate k PAGE_ID_NULL, pin_counts = replicate k 0,
     dirty_flags = replicate k 0, ref_bits = replicate k 0,
     pages = replicate k page_data_zero, lsns = replicate k 0, pool_size = k,
     clock_hand = 0, hash_table = replicate n BUFFER_FRAME_INVALID, hash_size = n, disk = dm\<rparr>"
  have cells: "cell (hash_table pool) i = None" if "i < n" for i using that by (simp add: cell_def pool_def)
  have fr: "frames_in (hash_table pool) n = {}" using cells by (auto simp: frames_in_def)
  have "probe_ok n h (cell (hash_table pool))" for h using cells by (simp add: probe_ok_def)
  then have "table_ok (hash_table pool) (page_ids pool) n" using assms(5) fr by (simp add: table_ok_def) (simp add: pool_def)
  moreover have used: "used_frames pool = {}" by (auto simp: used_frames_def pool_def)
  ultimately have inv: "pool_inv pool c {} ps"
    using assms fr by (simp add: pool_inv_def) (simp add: pool_def pool_shape_def)
  moreover have "buffer_pool_init os dm k (\<lambda>_. True) s = Some (NOSTR_DB_OK, pool, s)"
    using assms(2-4) by (simp add: buffer_pool_init_def pool_def)
  moreover have "page_content pool c p = page_at c p" for p
    using page_content_unused [OF inv] used by simp
  ultimately show thesis using that [of pool] by (simp add: pool_def)
qed

lemma next_prime_2: "next_prime (1 * 2) = Some 2"
  by (simp add: next_prime_def)

lemma next_prime_4: "next_prime (2 * 2) = Some 5"
  by (simp add: next_prime_def next_prime_loop.simps prime_loop.simps)

context reliable_posix
begin

lemma flush_frame_up:
  assumes "up s" "pool_inv pool (view (dm_fd (disk pool)) s) X ps" "f \<in> used_frames pool - X"
  shows "\<exists>pool' s'. flush_frame os pool f s = (NOSTR_DB_OK, pool', s') \<and> up s'"
proof -
  have al: "page_ids pool ! f \<in> allocated (disk pool) ps" using assms(2,3) by (simp add: pool_inv_def)
  have "f < pool_size pool" using assms(3) by (simp add: used_frames_def)
  then have "length (pages pool ! f) = 4096" using assms(2) by (simp add: pool_inv_def pool_shape_def)
  moreover have "0 \<le> dm_fd (disk pool)" using assms(2) by (simp add: pool_inv_def dm_inv_def)
  ultimately obtain s' where "disk_write_page os (disk pool) (page_ids pool ! f) (pages pool ! f) s = (NOSTR_DB_OK, s')" "up s'"
    using disk_write_up [OF assms(1), of "disk pool" "page_ids pool ! f" "pages pool ! f"] al
    by (auto simp: allocated_def)
  then show ?thesis using assms(1) by (cases "dirty_flags pool ! f = 0") (auto simp: flush_frame_def Let_def)
qed

lemma flush_loop_up:
  assumes "up s" "pool_inv pool (view (dm_fd (disk pool)) s) {} ps" "set xs \<subseteq> {..<pool_size pool}"
  shows "\<exists>pool' s'. flush_loop os pool xs s = (NOSTR_DB_OK, pool', s') \<and> up s'"
  using assms
proof (induction xs arbitrary: pool s)
  case (Cons i xs)
  show ?case
  proof (cases "dirty_flags pool ! i \<noteq> 0 \<and> page_ids pool ! i \<noteq> PAGE_ID_NULL")
    case False
    have "\<exists>pool' s'. flush_loop os pool xs s = (NOSTR_DB_OK, pool', s') \<and> up s'"
      using Cons.prems by (intro Cons.IH) auto
    then show ?thesis by (simp only: flush_loop.simps False if_False)
  next
    case True
    then have i: "i \<in> used_frames pool - {}" using Cons.prems(3) by (simp add: used_frames_def)
    obtain pool1 s1 where fl: "flush_frame os pool i s = (NOSTR_DB_OK, pool1, s1)" "up s1"
      using flush_frame_up [OF Cons.prems(1,2) i] by blast
    note fi = flush_frame_inv [OF Cons.prems(2) i fl(1)]
    obtain d where p1: "pool1 = pool\<lparr>dirty_flags := d\<rparr>" using fi(2) by blast
    have "pool_inv pool1 (view (dm_fd (disk pool1)) s1) {} ps" "set xs \<subseteq> {..<pool_size pool1}"
      using fi(1) Cons.prems(3) by (simp_all add: p1)
    then show ?thesis using Cons.IH [OF fl(2)] True fl(1) by simp
  qed
qed simp

lemma flush_all_up:
  assumes "up s" "pool_inv pool (view (dm_fd (disk pool)) s) {} ps"
  shows "\<exists>pool' s'. buffer_pool_flush_all os pool s = (NOSTR_DB_OK, pool', s') \<and> up s'"
proof -
  have sub: "set [0..<pool_size pool] \<subseteq> {..<pool_size pool}" by auto
  obtain pool1 s1 where l: "flush_loop os pool [0..<pool_size pool] s = (NOSTR_DB_OK, pool1, s1)" "up s1"
    using flush_loop_up [OF assms sub] by blast
  have "disk pool1 = disk pool" using flush_loop_ok [OF assms(2) l(1) sub] by simp
  moreover have "0 \<le> dm_fd (disk pool)" using assms(2) by (simp add: pool_inv_def dm_inv_def)
  moreover obtain s2 where "os_fdatasync os (dm_fd (disk pool)) s1 = (0, s2)" "up s2"
    using fdatasync_up [OF l(2)] by blast
  ultimately show ?thesis using l(1) by (simp add: buffer_pool_flush_all_def disk_sync_def)
qed

lemma take_frame_up:
  assumes "up s" "pool_inv pool (view (dm_fd (disk pool)) s) {} ps"
    and "g < pool_size pool" "page_ids pool ! g = PAGE_ID_NULL \<or> pin_counts pool ! g = 0"
  shows "\<exists>v pool' s'. take_frame os pool s = Some (Some v, pool', s') \<and> up s'"
proof (cases "first_index (\<lambda>p. p = PAGE_ID_NULL) (page_ids pool) < pool_size pool")
  case True
  then show ?thesis using assms(1) by (simp add: take_frame_def Let_def)
next
  case False
  have shape: "pool_shape pool" using assms(2) by (simp add: pool_inv_def)
  have len: "length (page_ids pool) = pool_size pool" using shape by (simp add: pool_shape_def)
  have all: "page_ids pool ! f \<noteq> PAGE_ID_NULL" if "f < pool_size pool" for f
    using first_index_before [of f "\<lambda>p. p = PAGE_ID_NULL" "page_ids pool"] that len False by simp
  obtain v pool1 where ev: "clock_evict pool = (v, pool1)" by fastforce
  have v: "v \<noteq> BUFFER_FRAME_INVALID" using clock_evict_finds [OF shape assms(3)] assms(4) all [OF assms(3)] ev by simp
  then have vs: "v < pool_size pool" using clock_evict_result(3) [OF ev shape] by simp
  obtain h r where p1: "pool1 = pool\<lparr>clock_hand := h, ref_bits := r\<rparr>" "h < pool_size pool" "length r = pool_size pool"
    using clock_evict_upd [OF ev shape] .
  note inv1 = pool_inv_clock [OF assms(2) p1]
  have inv1': "pool_inv pool1 (view (dm_fd (disk pool1)) s) {} ps" using inv1(1) by (simp add: p1)
  have v1: "v \<in> used_frames pool1 - {}" using vs all by (simp add: used_frames_def p1)
  obtain pool2 s2 where fl: "flush_frame os pool1 v s = (NOSTR_DB_OK, pool2, s2)" "up s2"
    using flush_frame_up [OF assms(1) inv1' v1] by blast
  obtain r pool' s' where tk: "take_frame os pool s = Some (r, pool', s')"
    by (rule take_frame_inv [OF assms(2)])
  then show ?thesis
    using False ev v fl by (auto simp: take_frame_def Let_def split: option.splits)
qed

lemma buffer_pool_pin_up:
  assumes "up s" "pool_inv pool (view (dm_fd (disk pool)) s) {} ps" "p \<in> allocated (disk pool) ps"
    and "pool_lookup pool p \<noteq> BUFFER_FRAME_INVALID \<or>
      (\<exists>g < pool_size pool. page_ids pool ! g = PAGE_ID_NULL \<or> pin_counts pool ! g = 0)"
  shows "\<exists>f pool' s'. buffer_pool_pin os pool p s = Some (Some f, pool', s') \<and> up s'"
proof (cases "pool_lookup pool p = BUFFER_FRAME_INVALID")
  case False
  then show ?thesis using assms(1,3) by (simp add: buffer_pool_pin_def allocated_def Let_def)
next
  case True
  then obtain g where g: "g < pool_size pool" "page_ids pool ! g = PAGE_ID_NULL \<or> pin_counts pool ! g = 0"
    using assms(4) by blast
  obtain v pool0 s0 where tk0: "take_frame os pool s = Some (Some v, pool0, s0)" "up s0"
    using take_frame_up [OF assms(1,2) g] by blast
  obtain r1 pool1 s1 where tk: "take_frame os pool s = Some (r1, pool1, s1)"
    "page_ids pool1 = page_ids pool" "pages pool1 = pages pool" "pin_counts pool1 = pin_counts pool"
    "disk pool1 = disk pool" "pool_size pool1 = pool_size pool"
    "pool_inv pool1 (view (dm_fd (disk pool)) s1) (set_option r1) ps"
    "\<forall>f. r1 = Some f \<longrightarrow> f < pool_size pool \<and> (page_ids pool ! f = PAGE_ID_NULL \<or> pin_counts pool ! f = 0)"
    "\<forall>p \<in> allocated (disk pool) ps.
      page_content pool1 (view (dm_fd (disk pool)) s1) p = page_content pool (view (dm_fd (disk pool)) s) p"
    by (rule take_frame_inv [OF assms(2)])
  have r1: "r1 = Some v" "up s1" using tk0 tk(1) by auto
  have inv1: "pool_inv pool1 (view (dm_fd (disk pool)) s1) {v} ps" using tk(7) r1 by simp
  have dm: "dm_inv (disk pool) (view (dm_fd (disk pool)) s1) ps" using inv1 tk(5) by (simp add: pool_inv_def)
  obtain s2 where rd: "disk_read_page os (disk pool) p s1 = (NOSTR_DB_OK, page_at (view (dm_fd (disk pool)) s1) p, s2)" "up s2"
    using disk_read_up [OF r1(2), of "disk pool" p] dm assms(3) by (auto simp: dm_inv_def allocated_def)
  let ?out = "page_at (view (dm_fd (disk pool)) s1) p"
  have lo: "length ?out = 4096" using disk_read_page_ok(2) [OF rd(1)] .
  have vs: "v < pool_size pool1" using tk(6,8) r1(1) by simp
  have "length (pages pool1 ! v) = 4096" using inv1 vs by (simp add: pool_inv_def pool_shape_def)
  then have bl: "blit (pages pool1 ! v) 0 ?out = ?out" using lo by (simp add: blit_0_full)
  let ?pool = "pool1\<lparr>pages := (pages pool1)[v := ?out]\<rparr>"
  note pg = pool_inv_pages [OF inv1 lo]
  have miss: "\<forall>g \<in> used_frames pool. page_ids pool ! g \<noteq> p"
    using pool_lookup_used [OF assms(2), of _ p] True pool_frame_valid [OF assms(2)] by (auto simp: used_frames_def)
  have fresh: "\<forall>g \<in> used_frames ?pool - {v}. page_ids ?pool ! g \<noteq> p"
    using miss by (auto simp: used_frames_def tk)
  have sz: "v < pool_size ?pool" "p \<in> allocated (disk ?pool) ps" using vs assms(3) by (simp_all add: tk)
  have cl: "(0 :: nat) = 0 \<longrightarrow> pages ?pool ! v = ?out" using inv1 vs by (simp add: pool_inv_def pool_shape_def)
  obtain pool' where "install_frame ?pool v p 0 = Some pool'"
    using install_frame_inv [OF pg(1) sz fresh cl] by blast
  then have "buffer_pool_pin os pool p s = Some (Some v, pool', s2)"
    using True tk(1,5) r1(1) rd(1) bl assms(3) by (simp add: buffer_pool_pin_def allocated_def)
  then show ?thesis using rd(2) by blast
qed

end

lemma next_prime_pool: "next_prime (1024 * 2) = Some 2053"
  by (simp add: next_prime_def next_prime_loop.simps prime_loop.simps)

text \<open>The pool with one frame over the example database, and its first allocation.\<close>

lemma mem_pool1:
  obtains pool and s :: mem_state
  where "pool_inv pool (mem_view s (dm_fd (disk pool))) {} [1, 2]" "script s = []" "pool_size pool = 1"
    "page_ids pool = [0]" "pin_counts pool = [0]" "total_pages (disk pool) = 3"
    "\<And>p. page_content pool (mem_view s (dm_fd (disk pool))) p = page_at (mem_view s (dm_fd (disk pool))) p"
proof -
  obtain dm and s :: mem_state where c: "script s = []" "dm_inv dm (mem_view s (dm_fd dm)) [1, 2]" "total_pages dm = 3"
    by (rule mem_db3)
  obtain pool where p: "buffer_pool_init mem_os dm 1 (\<lambda>_. True) s = Some (NOSTR_DB_OK, pool, s)"
    "pool_inv pool (mem_view s (dm_fd dm)) {} [1, 2]" "disk pool = dm"
    "\<And>p. page_content pool (mem_view s (dm_fd dm)) p = page_at (mem_view s (dm_fd dm)) p"
    "pool_size pool = 1" "pin_counts pool = replicate 1 0"
    using buffer_pool_init_inv [OF c(2) next_prime_2, of mem_os s] by auto
  moreover have "page_ids pool = [0]"
    using p(1) next_prime_2 by (auto simp: buffer_pool_init_def)
  ultimately show thesis using that [of pool s] c by simp
qed

lemma mem_pool1_alloc:
  obtains pool and s :: mem_state and pool' and s' :: mem_state and out ps where "pool_inv pool (mem_view s (dm_fd (disk pool))) {} [1, 2]" "script s = []"
    "buffer_pool_alloc_page mem_os pool s = Some (1, out, pool', s')" "script s' = []"
    "pool_inv pool' (mem_view s' (dm_fd (disk pool'))) {} ps" "1 \<in> allocated (disk pool') ps"
    "page_ids pool' = [1]" "pin_counts pool' = [1]" "pool_size pool' = 1" "total_pages (disk pool) = 3"
    "total_pages (disk pool') = 3" "page_ids pool = [0]" "pool_size pool = 1"
proof -
  obtain pool and s :: mem_state where p: "pool_inv pool (mem_view s (dm_fd (disk pool))) {} [1, 2]" "script s = []"
    "pool_size pool = 1" "page_ids pool = [0]" "pin_counts pool = [0]" "total_pages (disk pool) = 3" by (rule mem_pool1)
  have dm: "dm_inv (disk pool) (mem_view s (dm_fd (disk pool))) [1, 2]" using p(1) by (simp add: pool_inv_def)
  obtain dm s1 where da: "disk_alloc_page mem_os (disk pool) s = (1, dm, s1)" "script s1 = []"
    using mem.disk_pop_up [OF p(2) dm] by auto
  obtain ps' where D: "dm_inv dm (mem_view s1 (dm_fd (disk pool))) ps'" "dm_fd dm = dm_fd (disk pool)"
      "1 \<notin> allocated (disk pool) [1, 2]" "allocated dm ps' = insert 1 (allocated (disk pool) [1, 2])"
      "\<forall>q \<in> allocated (disk pool) [1, 2]. page_at (mem_view s1 (dm_fd (disk pool))) q = page_at (mem_view s (dm_fd (disk pool))) q"
    using mem.disk_alloc_inv [OF dm da(1)] by auto
  have tot: "total_pages dm = 3"
    using mem.disk_pop_inv(5) [OF dm _ da(1)] dm p(6) by (simp add: dm_inv_def)
  have inv1: "pool_inv (pool\<lparr>disk := dm\<rparr>) (mem_view s1 (dm_fd (disk pool))) {} ps'"
    using D(4,5) by (intro pool_inv_disk [OF p(1) D(1)]) auto
  have used: "used_frames (pool\<lparr>disk := dm\<rparr>) = {}" using p by (auto simp: used_frames_def nth_Cons')
  then have inv2: "pool_inv (pool\<lparr>disk := dm\<rparr>) (mem_view s1 (dm_fd (disk pool))) {0} ps'"
    using inv1 by (simp add: pool_inv_def)
  let ?pool2 = "pool\<lparr>disk := dm, pages := (pages pool)[0 := page_data_zero]\<rparr>"
  have lenz: "length page_data_zero = 4096" by simp
  have inv3: "pool_inv ?pool2 (mem_view s1 (dm_fd (disk pool))) {0} ps'"
    using pool_inv_pages(1) [OF inv2 lenz] by simp
  have used3: "used_frames ?pool2 = {}" using used by (simp add: used_frames_def)
  obtain pool' where I: "install_frame ?pool2 0 1 1 = Some pool'"
    "pool_inv pool' (mem_view s1 (dm_fd (disk pool))) {} ps'" "disk pool' = dm"
    "pin_counts pool' = [1]" "page_ids pool' = [1]" "pool_size pool' = 1"
    using install_frame_inv [OF inv3, of 1 1] D(4) p used3 by auto
  have tk: "take_frame mem_os (pool\<lparr>disk := dm\<rparr>) s1 = Some (Some 0, pool\<lparr>disk := dm\<rparr>, s1)"
    using p by (simp add: take_frame_def)
  have "buffer_pool_alloc_page mem_os pool s = Some (1, Some 0, pool', s1)"
    using da(1) tk I(1) by (simp add: buffer_pool_alloc_page_def)
  then show thesis using that [of pool s "Some 0" pool' s1 ps'] p I da(2) D(2,4) tot by simp
qed

section \<open>Properties\<close>



text \<open>
  A successful \<open>buffer_pool_pin\<close> hands out a frame with the current content of the page,
  found again by later lookups, and leaves the id and the data of every pinned frame alone: the
  pointers other users hold stay valid.
\<close>

theorem buffer_pool_pin_content:
  assumes "posix os view durable" "pool_inv pool (view (dm_fd (disk pool)) s) {} ps" "p \<in> allocated (disk pool) ps"
    and "buffer_pool_pin os pool p s = Some (Some f, pool', s')"
  shows "pool_inv pool' (view (dm_fd (disk pool)) s') {} ps \<and> pool_lookup pool' p = f \<and>
    pages pool' ! f = page_content pool (view (dm_fd (disk pool)) s) p \<and>
    (\<forall>g < pool_size pool. pin_counts pool ! g > 0 \<and> page_ids pool ! g \<noteq> PAGE_ID_NULL \<longrightarrow>
      page_ids pool' ! g = page_ids pool ! g \<and> pages pool' ! g = pages pool ! g)"
  using posix.buffer_pool_pin_ok(1,3,4,7) [OF assms] by blast

theorem buffer_pool_pin_content_witness:
  "\<exists>pool s f pool' s'. buffer_pool_pin mem_os pool 1 s = Some (Some f, pool', s') \<and> pool_lookup pool' 1 = f \<and>
     f < pool_size pool"
proof -
  obtain pool and s :: mem_state and ps where p: "pool_inv pool (mem_view s (dm_fd (disk pool))) {} ps"
    "1 \<in> allocated (disk pool) ps" "page_ids pool = [1]" "pool_size pool = 1"
    by (rule mem_pool1_alloc) blast
  have lk: "pool_lookup pool 1 = 0" using pool_lookup_used [OF p(1), of 0 1] p by (simp add: used_frames_def)
  then obtain pool' where pin: "buffer_pool_pin mem_os pool 1 s = Some (Some 0, pool', s)"
    by (simp add: buffer_pool_pin_def)
  have "pool_lookup pool' 1 = 0" using buffer_pool_pin_content [OF posix_mem p(1,2) pin] by blast
  then show ?thesis using pin p(4) by (metis less_one)
qed

text \<open>
  C6: When \<open>buffer_pool_flush_all\<close> returns \<open>NOSTR_DB_OK\<close>, every allocated page is on stable
  storage with its logical content: nothing is lost if the machine stops right then.
\<close>

theorem buffer_pool_flush_all_durable:
  assumes "posix os view durable" "pool_inv pool (view (dm_fd (disk pool)) s) {} ps"
    and "buffer_pool_flush_all os pool s = (NOSTR_DB_OK, pool', s')"
  shows "\<forall>q \<in> allocated (disk pool) ps.
    page_at (durable (dm_fd (disk pool)) s') q = page_content pool (view (dm_fd (disk pool)) s) q"
  using posix.flush_all_ok [OF assms] by blast

theorem buffer_pool_flush_all_durable_witness:
  "\<exists>pool s pool' s'. buffer_pool_flush_all mem_os pool s = (NOSTR_DB_OK, pool', s') \<and> page_ids pool = [1] \<and>
     page_at (mem_stable s' (dm_fd (disk pool))) 1 = page_content pool (mem_view s (dm_fd (disk pool))) 1"
proof -
  obtain pool and s :: mem_state and ps where p: "pool_inv pool (mem_view s (dm_fd (disk pool))) {} ps"
    "1 \<in> allocated (disk pool) ps" "page_ids pool = [1]" "script s = []"
    by (rule mem_pool1_alloc) blast
  obtain pool' s' where "buffer_pool_flush_all mem_os pool s = (NOSTR_DB_OK, pool', s')"
    using mem.flush_all_up [OF p(4,1)] by blast
  then show ?thesis using buffer_pool_flush_all_durable [OF posix_mem p(1)] p(2,3) by blast
qed

text \<open>
  The clock never picks a pinned frame, and it finds a victim within its two rotations
  whenever some frame is not pinned.
\<close>

theorem clock_evict_unpinned:
  assumes "pool_shape pool" "clock_evict pool = (f, pool')"
  shows "(f \<noteq> BUFFER_FRAME_INVALID \<longrightarrow> f < pool_size pool \<and> pin_counts pool ! f = 0) \<and>
    ((\<exists>g < pool_size pool. pin_counts pool ! g = 0) \<longrightarrow> f \<noteq> BUFFER_FRAME_INVALID)"
  using clock_evict_result(3) [OF assms(2,1)] clock_evict_finds [OF assms(1)] assms(2) by fastforce

theorem clock_evict_unpinned_witness:
  "\<exists>pool f pool'. clock_evict pool = (f, pool') \<and> f < pool_size pool \<and> pin_counts pool ! f = 0"
proof -
  obtain pool and s :: mem_state where p: "pool_inv pool (mem_view s (dm_fd (disk pool))) {} [1, 2]"
    "pool_size pool = 1" "pin_counts pool = [0]" by (rule mem_pool1)
  obtain f pool' where ev: "clock_evict pool = (f, pool')" by fastforce
  have "pool_shape pool" "\<exists>g < pool_size pool. pin_counts pool ! g = 0" using p by (auto simp: pool_inv_def)
  then show ?thesis using clock_evict_unpinned [OF _ ev] ev by blast
qed

text \<open>
  C16: On a kernel that fails no call, an allocated page can be pinned whenever it is cached or
  some frame is empty or not pinned.
\<close>

theorem buffer_pool_pin_succeeds:
  assumes "reliable_posix os view durable up" "up s"
    and "pool_inv pool (view (dm_fd (disk pool)) s) {} ps" "p \<in> allocated (disk pool) ps"
    and "pool_lookup pool p \<noteq> BUFFER_FRAME_INVALID \<or>
      (\<exists>g < pool_size pool. page_ids pool ! g = PAGE_ID_NULL \<or> pin_counts pool ! g = 0)"
  shows "\<exists>f pool' s'. buffer_pool_pin os pool p s = Some (Some f, pool', s')"
  using reliable_posix.buffer_pool_pin_up [OF assms] by blast

theorem buffer_pool_pin_succeeds_witness:
  "\<exists>pool s f pool' s'. page_ids pool = [1] \<and> buffer_pool_pin mem_os pool 1 s = Some (Some f, pool', s')"
proof -
  obtain pool and s :: mem_state and ps where p: "pool_inv pool (mem_view s (dm_fd (disk pool))) {} ps"
    "1 \<in> allocated (disk pool) ps" "page_ids pool = [1]" "script s = []" "pool_size pool = 1"
    by (rule mem_pool1_alloc) blast
  have "pool_lookup pool 1 = 0" using pool_lookup_used [OF p(1), of 0 1] p by (simp add: used_frames_def)
  then obtain f pool' s' where "buffer_pool_pin mem_os pool 1 s = Some (Some f, pool', s')"
    using buffer_pool_pin_succeeds [OF mem.reliable_posix_axioms p(4,1,2)] by auto
  then show ?thesis using p(3) by blast
qed



text \<open>
  C17: \<open>buffer_pool_init\<close> with the pool size of the database, 1024 frames, gives a table of 2053
  cells, the least prime from 2048 on, and a pool that satisfies the invariant and shows every
  page of the file as it is on disk.
\<close>

theorem buffer_pool_init_valid:
  assumes "dm_inv dm c ps"
  shows "\<exists>pool. buffer_pool_init os dm 1024 (\<lambda>_. True) s = Some (NOSTR_DB_OK, pool, s) \<and>
    hash_size pool = 2053 \<and> pool_inv pool c {} ps \<and> (\<forall>p. page_content pool c p = page_at c p)"
proof -
  obtain pool where p: "buffer_pool_init os dm 1024 (\<lambda>_. True) s = Some (NOSTR_DB_OK, pool, s)"
    "pool_inv pool c {} ps" "\<And>p. page_content pool c p = page_at c p"
    using buffer_pool_init_inv [OF assms next_prime_pool, of os s] by auto
  moreover have "hash_size pool = 2053" using p(1) next_prime_pool by (auto simp: buffer_pool_init_def)
  ultimately show ?thesis by blast
qed

theorem buffer_pool_init_valid_witness:
  "\<exists>dm s pool. buffer_pool_init mem_os dm 1024 (\<lambda>_. True) s = Some (NOSTR_DB_OK, pool, s) \<and>
     hash_size pool = 2053"
proof -
  obtain dm and s :: mem_state where "dm_inv dm (mem_view s (dm_fd dm)) [1, 2]" by (rule mem_db3)
  from buffer_pool_init_valid [OF this, of mem_os s] show ?thesis by blast
qed

end
