(* ===== verification/Wal.thy ===== *)
theory Wal
  imports BufferPool
begin

text \<open>
  The write-ahead log: \<open>src/nostr/db/wal/\<close> (\<open>wal_manager.c\<close>, \<open>wal_write.c\<close>,
  \<open>wal_flush.c\<close>, \<open>wal_checkpoint.c\<close>, \<open>wal_recovery.c\<close>).

  Records are bytes: a header of 32 bytes and a payload. The log buffer is a byte list of
  \<open>WAL_BUFFER_SIZE\<close> bytes of which the first \<open>buffer_used\<close> are in use; a copy past its end,
  or past the end of the log data during recovery, or past the end of a page, makes the operation
  \<open>None\<close>. So does a loop that never ends: \<open>wal_flush\<close> repeats \<open>pwrite\<close> as long as it
  returns 0.
\<close>

section \<open>Data\<close>

abbreviation (input) "LSN_NULL \<equiv> (0 :: nat)"
abbreviation (input) "WAL_RECORD_BEGIN \<equiv> (1 :: nat)"
abbreviation (input) "WAL_RECORD_COMMIT \<equiv> (2 :: nat)"
abbreviation (input) "WAL_RECORD_ABORT \<equiv> (3 :: nat)"
abbreviation (input) "WAL_RECORD_UPDATE \<equiv> (4 :: nat)"
abbreviation (input) "WAL_RECORD_ALLOC_PAGE \<equiv> (5 :: nat)"
abbreviation (input) "WAL_RECORD_FREE_PAGE \<equiv> (6 :: nat)"
abbreviation (input) "WAL_RECORD_CHECKPOINT \<equiv> (7 :: nat)"
abbreviation (input) "WAL_BUFFER_SIZE \<equiv> (65536 :: nat)"

text \<open>\<open>active\<close> pairs \<open>active_tx\<close> and \<open>active_tx_lsn\<close> up to \<open>active_tx_count\<close>.\<close>

record wal_manager =
  wal_fd :: int
  flushed_lsn :: nat
  next_lsn :: nat
  next_tx_id :: nat
  buffer :: "byte list"
  buffer_size :: nat
  buffer_used :: nat
  file_offset :: nat
  active :: "(nat \<times> nat) list"

definition wal_zero :: wal_manager where
  "wal_zero = \<lparr>wal_fd = -1, flushed_lsn = 0, next_lsn = 0, next_tx_id = 0, buffer = [],
     buffer_size = 0, buffer_used = 0, file_offset = 0, active = []\<rparr>"

text \<open>
  \<open>WalRecordHeader\<close>: lsn at 0, prev\_lsn at 8, tx\_id at 16, type at 20, data\_length at 24.
\<close>

definition wal_header :: "nat \<Rightarrow> nat \<Rightarrow> nat \<Rightarrow> nat \<Rightarrow> nat \<Rightarrow> byte list" where
  "wal_header lsn prev_lsn tx_id ty data_length =
     put_le 2 24 data_length (put_le 4 20 ty (put_le 4 16 tx_id (put_le 8 8 prev_lsn
       (put_le 8 0 lsn (replicate 32 0)))))"

definition hdr_lsn :: "byte list \<Rightarrow> nat \<Rightarrow> nat" where "hdr_lsn data pos = get_le 8 pos data"
definition hdr_tx_id :: "byte list \<Rightarrow> nat \<Rightarrow> nat" where "hdr_tx_id data pos = get_le 4 (pos + 16) data"
definition hdr_type :: "byte list \<Rightarrow> nat \<Rightarrow> nat" where "hdr_type data pos = get_le 4 (pos + 20) data"
definition hdr_data_length :: "byte list \<Rightarrow> nat \<Rightarrow> nat" where
  "hdr_data_length data pos = get_le 2 (pos + 24) data"

text \<open>
  The positions the scanning loops visit: from \<open>pos\<close> on, record by record, as long as a
  header fits.
\<close>

function wal_positions :: "byte list \<Rightarrow> nat \<Rightarrow> nat list" where
  "wal_positions data pos =
     (if pos + 32 \<le> length data then pos # wal_positions data (pos + 32 + hdr_data_length data pos) else [])"
  by pat_completeness auto
termination
  by (relation "measure (\<lambda>(data, pos). length data - pos)") auto

declare wal_positions.simps [simp del]

section \<open>Starting and stopping: wal\_manager.c\<close>

definition wal_init ::
    "'s os \<Rightarrow> byte list \<Rightarrow> bool \<Rightarrow> 's \<Rightarrow> nostr_db_error \<times> wal_manager \<times> 's" where
  "wal_init os p mmap_ok s =
     (let (fd, s) = os_open os p (O_RDWR + O_CREAT) s
      in if fd < 0 then (NOSTR_DB_ERROR_FILE_CREATE, wal_zero, s)
         else
           (let (r, st_size, s) = os_fstat_size os fd s
            in if r < 0 then (let (_, s) = os_close os fd s in (NOSTR_DB_ERROR_FSTAT_FAILED, wal_zero, s))
               else if \<not> mmap_ok
               then (let (_, s) = os_close os fd s
                     in (NOSTR_DB_ERROR_MMAP_FAILED, wal_zero\<lparr>file_offset := st_size\<rparr>, s))
               else (NOSTR_DB_OK,
                     \<lparr>wal_fd = fd, flushed_lsn = 0, next_lsn = 1, next_tx_id = 1,
                      buffer = replicate WAL_BUFFER_SIZE 0, buffer_size = WAL_BUFFER_SIZE,
                      buffer_used = 0, file_offset = st_size, active = []\<rparr>, s)))"

section \<open>Flushing: wal\_flush.c\<close>

partial_function (option) wal_write_loop ::
    "'s os \<Rightarrow> int \<Rightarrow> byte list \<Rightarrow> nat \<Rightarrow> nat \<Rightarrow> nat \<Rightarrow> 's \<Rightarrow> (bool \<times> 's) option" where
  "wal_write_loop os fd buf used off written s =
     (if written < used then
        (let (ret, s) = os_pwrite os fd (slice buf written (used - written)) (off + written) s
         in if ret < 0 then Some (False, s)
            else wal_write_loop os fd buf used off (written + nat ret) s)
      else Some (True, s))"

declare wal_write_loop.simps [code]

definition wal_flush :: "'s os \<Rightarrow> wal_manager \<Rightarrow> 's \<Rightarrow> (nostr_db_error \<times> wal_manager \<times> 's) option" where
  "wal_flush os wal s =
     (if buffer_used wal = 0 then Some (NOSTR_DB_OK, wal, s)
      else if wal_fd wal < 0 then Some (NOSTR_DB_ERROR_FILE_OPEN, wal, s)
      else do {
        (ok, s) \<leftarrow> wal_write_loop os (wal_fd wal) (buffer wal) (buffer_used wal) (file_offset wal) 0 s;
        if \<not> ok then Some (NOSTR_DB_ERROR_FILE_CREATE, wal, s)
        else
          (let (r, s) = os_fdatasync os (wal_fd wal) s
           in if r < 0 then Some (NOSTR_DB_ERROR_FILE_CREATE, wal, s)
              else
                (let used = take (buffer_used wal) (buffer wal);
                     l = fold (\<lambda>pos l. if hdr_lsn used pos > l then hdr_lsn used pos else l)
                           (wal_positions used 0) (flushed_lsn wal)
                 in Some (NOSTR_DB_OK,
                          wal\<lparr>file_offset := file_offset wal + buffer_used wal, flushed_lsn := l,
                              buffer_used := 0\<rparr>, s)))
      })"

definition wal_shutdown :: "'s os \<Rightarrow> wal_manager \<Rightarrow> 's \<Rightarrow> (wal_manager \<times> 's) option" where
  "wal_shutdown os wal s = do {
     (_, wal, s) \<leftarrow> (if wal_fd wal \<ge> 0 \<and> buffer_used wal > 0 then wal_flush os wal s
                       else Some (NOSTR_DB_OK, wal, s));
     if wal_fd wal \<ge> 0 then (let (_, s) = os_close os (wal_fd wal) s in Some (wal_zero, s))
     else Some (wal_zero, s)
   }"

section \<open>Writing records: wal\_write.c\<close>

text \<open>The index of a transaction in the active list; \<open>length\<close> of the list if it is not there.\<close>

definition find_active_tx :: "wal_manager \<Rightarrow> nat \<Rightarrow> nat" where
  "find_active_tx wal tx_id = first_index (\<lambda>(t, l). t = tx_id) (active wal)"

definition prev_lsn_of :: "wal_manager \<Rightarrow> nat \<Rightarrow> nat" where
  "prev_lsn_of wal tx_id =
     (let i = find_active_tx wal tx_id in if i < length (active wal) then snd (active wal ! i) else LSN_NULL)"

definition set_active_lsn :: "wal_manager \<Rightarrow> nat \<Rightarrow> nat \<Rightarrow> (nat \<times> nat) list" where
  "set_active_lsn wal tx_id lsn =
     (let i = find_active_tx wal tx_id
      in if i < length (active wal) then (active wal)[i := (fst (active wal ! i), lsn)] else active wal)"

definition remove_active_tx :: "wal_manager \<Rightarrow> nat \<Rightarrow> wal_manager" where
  "remove_active_tx wal tx_id =
     (let i = find_active_tx wal tx_id
      in if i < length (active wal)
         then wal\<lparr>active := take i (active wal) @ drop (i + 1) (active wal)\<rparr> else wal)"

definition ensure_buffer_space ::
    "'s os \<Rightarrow> wal_manager \<Rightarrow> nat \<Rightarrow> 's \<Rightarrow> (nostr_db_error \<times> wal_manager \<times> 's) option" where
  "ensure_buffer_space os wal needed s = do {
     (err, wal, s) \<leftarrow> (if buffer_used wal + needed > buffer_size wal then wal_flush os wal s
                         else Some (NOSTR_DB_OK, wal, s));
     if err \<noteq> NOSTR_DB_OK then Some (err, wal, s)
     else if needed > buffer_size wal then Some (NOSTR_DB_ERROR_FULL, wal, s)
     else Some (NOSTR_DB_OK, wal, s)
   }"

text \<open>
  What the record writers do alike: make room for \<open>total\<close> bytes, take an LSN, copy header and
  payload behind the used part, and advance it by \<open>total\<close>. \<open>data_length\<close> is the
  16-bit length of the header.
\<close>

definition wal_append ::
    "'s os \<Rightarrow> wal_manager \<Rightarrow> nat \<Rightarrow> nat \<Rightarrow> nat \<Rightarrow> byte list \<Rightarrow> 's \<Rightarrow> (nat \<times> wal_manager \<times> 's) option" where
  "wal_append os wal tx_id ty data_length payload s = do {
     let total = 32 + data_length;
     (err, wal, s) \<leftarrow> ensure_buffer_space os wal total s;
     if err \<noteq> NOSTR_DB_OK then Some (LSN_NULL, wal, s)
     else do {
       let lsn = next_lsn wal;
       buf \<leftarrow> poke (buffer wal) (buffer_used wal)
                (wal_header lsn (prev_lsn_of wal tx_id) tx_id ty data_length @ payload);
       Some (lsn, wal\<lparr>next_lsn := (next_lsn wal + 1) mod 2 ^ 64, buffer := buf,
                      buffer_used := buffer_used wal + total,
                      active := set_active_lsn wal tx_id lsn\<rparr>, s)
     }
   }"

definition write_simple_record ::
    "'s os \<Rightarrow> wal_manager \<Rightarrow> nat \<Rightarrow> nat \<Rightarrow> 's \<Rightarrow> (nat \<times> wal_manager \<times> 's) option" where
  "write_simple_record os wal tx_id ty s = wal_append os wal tx_id ty 0 [] s"

definition wal_log_begin :: "'s os \<Rightarrow> wal_manager \<Rightarrow> 's \<Rightarrow> (nat \<times> wal_manager \<times> 's) option" where
  "wal_log_begin os wal s =
     (if \<not> length (active wal) < 64 then Some (0, wal, s)
      else do {
        let tx_id = next_tx_id wal;
        (lsn, wal, s) \<leftarrow> write_simple_record os
           (wal\<lparr>next_tx_id := (next_tx_id wal + 1) mod 2 ^ 32, active := active wal @ [(tx_id, LSN_NULL)]\<rparr>)
           tx_id WAL_RECORD_BEGIN s;
        if lsn = LSN_NULL then Some (0, wal\<lparr>active := butlast (active wal)\<rparr>, s)
        else Some (tx_id, wal, s)
      })"

text \<open>\<open>WalUpdatePayload\<close>: page\_id at 0, offset at 4, length at 6; then before- and after-image.\<close>

definition update_payload :: "nat \<Rightarrow> nat \<Rightarrow> nat \<Rightarrow> byte list \<Rightarrow> byte list \<Rightarrow> byte list" where
  "update_payload page_id offset len old_data new_data =
     le_bytes 4 page_id @ le_bytes 2 offset @ le_bytes 2 len @ old_data @ new_data"

definition wal_log_update ::
    "'s os \<Rightarrow> wal_manager \<Rightarrow> nat \<Rightarrow> nat \<Rightarrow> nat \<Rightarrow> nat \<Rightarrow> byte list \<Rightarrow> byte list \<Rightarrow> 's \<Rightarrow>
     (nat \<times> wal_manager \<times> 's) option" where
  "wal_log_update os wal tx_id page_id offset len old_data new_data s =
     (if \<not> len > 0 then Some (LSN_NULL, wal, s)
      else do {
        old \<leftarrow> peek old_data 0 len;
        new \<leftarrow> peek new_data 0 len;
        wal_append os wal tx_id WAL_RECORD_UPDATE ((8 + len * 2) mod 2 ^ 16)
          (update_payload page_id offset len old new) s
      })"

definition wal_log_alloc_page ::
    "'s os \<Rightarrow> wal_manager \<Rightarrow> nat \<Rightarrow> nat \<Rightarrow> 's \<Rightarrow> (nat \<times> wal_manager \<times> 's) option" where
  "wal_log_alloc_page os wal tx_id page_id s =
     wal_append os wal tx_id WAL_RECORD_ALLOC_PAGE 4 (le_bytes 4 page_id) s"

definition wal_log_free_page ::
    "'s os \<Rightarrow> wal_manager \<Rightarrow> nat \<Rightarrow> nat \<Rightarrow> 's \<Rightarrow> (nat \<times> wal_manager \<times> 's) option" where
  "wal_log_free_page os wal tx_id page_id s =
     wal_append os wal tx_id WAL_RECORD_FREE_PAGE 4 (le_bytes 4 page_id) s"

definition wal_log_commit ::
    "'s os \<Rightarrow> wal_manager \<Rightarrow> nat \<Rightarrow> 's \<Rightarrow> (nostr_db_error \<times> wal_manager \<times> 's) option" where
  "wal_log_commit os wal tx_id s = do {
     (lsn, wal, s) \<leftarrow> write_simple_record os wal tx_id WAL_RECORD_COMMIT s;
     if lsn = LSN_NULL then Some (NOSTR_DB_ERROR_FULL, wal, s)
     else wal_flush os (remove_active_tx wal tx_id) s
   }"

definition wal_log_abort ::
    "'s os \<Rightarrow> wal_manager \<Rightarrow> nat \<Rightarrow> 's \<Rightarrow> (nostr_db_error \<times> wal_manager \<times> 's) option" where
  "wal_log_abort os wal tx_id s = do {
     (lsn, wal, s) \<leftarrow> write_simple_record os wal tx_id WAL_RECORD_ABORT s;
     if lsn = LSN_NULL then Some (NOSTR_DB_ERROR_FULL, wal, s)
     else Some (NOSTR_DB_OK, remove_active_tx wal tx_id, s)
   }"

section \<open>Checkpoint: wal\_checkpoint.c\<close>

definition wal_checkpoint ::
    "'s os \<Rightarrow> wal_manager \<Rightarrow> buffer_pool \<Rightarrow> 's \<Rightarrow>
     (nostr_db_error \<times> wal_manager \<times> buffer_pool \<times> 's) option" where
  "wal_checkpoint os wal pool s =
     (let (err, pool, s) = buffer_pool_flush_all os pool s
      in if err \<noteq> NOSTR_DB_OK then Some (err, wal, pool, s)
         else do {
           (err, wal, s) \<leftarrow> (if buffer_used wal + 32 > buffer_size wal then wal_flush os wal s
                               else Some (NOSTR_DB_OK, wal, s));
           if err \<noteq> NOSTR_DB_OK then Some (err, wal, pool, s)
           else do {
             let lsn = next_lsn wal;
             buf \<leftarrow> poke (buffer wal) (buffer_used wal) (wal_header lsn LSN_NULL 0 WAL_RECORD_CHECKPOINT 0);
             (err, wal, s) \<leftarrow> wal_flush os (wal\<lparr>next_lsn := (next_lsn wal + 1) mod 2 ^ 64, buffer := buf,
                                               buffer_used := buffer_used wal + 32\<rparr>) s;
             if err \<noteq> NOSTR_DB_OK then Some (err, wal, pool, s)
             else
               (let (r, s) = os_ftruncate os (wal_fd wal) 0 s
                in if r < 0 then Some (NOSTR_DB_OK, wal, pool, s)
                   else Some (NOSTR_DB_OK, wal\<lparr>file_offset := 0\<rparr>, pool, s))
           }
         })"

section \<open>Recovery: wal\_recovery.c\<close>

text \<open>The loop of \<open>wal_mmap_file\<close>: the whole file, or \<open>None\<close> if a read gives nothing.\<close>

function wal_read_loop ::
    "'s os \<Rightarrow> int \<Rightarrow> nat \<Rightarrow> nat \<Rightarrow> byte list \<Rightarrow> 's \<Rightarrow> byte list option \<times> 's" where
  "wal_read_loop os fd st_size total_read buf s =
     (if total_read < st_size then
        (let (ret, bs, s) = os_pread os fd (st_size - total_read) total_read s
         in if ret \<le> 0 then (None, s)
            else wal_read_loop os fd st_size (total_read + nat ret) (blit buf total_read bs) s)
      else (Some buf, s))"
  by pat_completeness auto
termination
  by (relation "measure (\<lambda>(os, fd, st_size, total_read, buf, s). st_size - total_read)") auto

declare wal_read_loop.simps [simp del]

definition wal_mmap_file :: "'s os \<Rightarrow> int \<Rightarrow> bool \<Rightarrow> 's \<Rightarrow> byte list option \<times> 's" where
  "wal_mmap_file os fd mmap_ok s =
     (let (r, st_size, s) = os_fstat_size os fd s
      in if r < 0 then (None, s)
         else if st_size = 0 then (None, s)
         else if \<not> mmap_ok then (None, s)
         else wal_read_loop os fd st_size 0 (replicate st_size 0) s)"

definition tx_committed :: "byte list \<Rightarrow> nat \<Rightarrow> bool" where
  "tx_committed data tx_id \<longleftrightarrow>
     (\<exists>pos \<in> set (wal_positions data 0). hdr_type data pos = WAL_RECORD_COMMIT \<and> hdr_tx_id data pos = tx_id)"

definition find_last_checkpoint :: "byte list \<Rightarrow> nat option" where
  "find_last_checkpoint data =
     fold (\<lambda>pos cp. if hdr_type data pos = WAL_RECORD_CHECKPOINT then Some pos else cp)
       (wal_positions data 0) None"

text \<open>
  One update record at \<open>pos\<close>: page id, offset and length of its payload, and the after-image
  (redo) or the before-image (undo).
\<close>

definition payload_fields :: "byte list \<Rightarrow> nat \<Rightarrow> (nat \<times> nat \<times> nat) option" where
  "payload_fields data pos = do {
     _ \<leftarrow> peek data (pos + 32) 8;
     Some (get_le 4 (pos + 32) data, get_le 2 (pos + 36) data, get_le 2 (pos + 38) data)
   }"

definition redo_record ::
    "'s os \<Rightarrow> disk_manager \<Rightarrow> byte list \<Rightarrow> nat \<Rightarrow> 's \<Rightarrow> (nostr_db_error \<times> 's) option" where
  "redo_record os dm data pos s = do {
     (page_id, offset, len) \<leftarrow> payload_fields data pos;
     let (err, p, s) = disk_read_page os dm page_id s;
     if err \<noteq> NOSTR_DB_OK then Some (NOSTR_DB_OK, s)
     else do {
       new_data \<leftarrow> peek data (pos + 40 + len) len;
       p \<leftarrow> poke p offset new_data;
       Some (disk_write_page os dm page_id p s)
     }
   }"

primrec redo_loop ::
    "'s os \<Rightarrow> disk_manager \<Rightarrow> byte list \<Rightarrow> nat list \<Rightarrow> 's \<Rightarrow> (nostr_db_error \<times> 's) option" where
  "redo_loop os dm data [] s = Some (NOSTR_DB_OK, s)"
| "redo_loop os dm data (pos # positions) s =
     (if hdr_type data pos = WAL_RECORD_UPDATE \<and> hdr_data_length data pos > 0 \<and>
         tx_committed data (hdr_tx_id data pos)
      then do {
        (err, s) \<leftarrow> redo_record os dm data pos s;
        if err \<noteq> NOSTR_DB_OK then Some (err, s) else redo_loop os dm data positions s
      }
      else redo_loop os dm data positions s)"

definition redo_phase ::
    "'s os \<Rightarrow> disk_manager \<Rightarrow> byte list \<Rightarrow> nat \<Rightarrow> 's \<Rightarrow> (nostr_db_error \<times> 's) option" where
  "redo_phase os dm data start_pos s = redo_loop os dm data (wal_positions data start_pos) s"

definition undo_record ::
    "'s os \<Rightarrow> disk_manager \<Rightarrow> byte list \<Rightarrow> nat \<Rightarrow> 's \<Rightarrow> (nostr_db_error \<times> 's) option" where
  "undo_record os dm data pos s = do {
     (page_id, offset, len) \<leftarrow> payload_fields data pos;
     let (err, p, s) = disk_read_page os dm page_id s;
     if err \<noteq> NOSTR_DB_OK then Some (err, s)
     else do {
       old_data \<leftarrow> peek data (pos + 40) len;
       p \<leftarrow> poke p offset old_data;
       Some (disk_write_page os dm page_id p s)
     }
   }"

primrec undo_loop ::
    "'s os \<Rightarrow> disk_manager \<Rightarrow> byte list \<Rightarrow> nat list \<Rightarrow> 's \<Rightarrow> (nostr_db_error \<times> 's) option" where
  "undo_loop os dm data [] s = Some (NOSTR_DB_OK, s)"
| "undo_loop os dm data (pos # positions) s = do {
     (err, s) \<leftarrow> undo_record os dm data pos s;
     if err \<noteq> NOSTR_DB_OK then Some (err, s) else undo_loop os dm data positions s
   }"

definition undo_phase ::
    "'s os \<Rightarrow> disk_manager \<Rightarrow> byte list \<Rightarrow> nat \<Rightarrow> bool \<Rightarrow> 's \<Rightarrow> (nostr_db_error \<times> 's) option" where
  "undo_phase os dm data start_pos mmap_ok s =
     (let positions = filter (\<lambda>pos. hdr_type data pos = WAL_RECORD_UPDATE \<and>
                         \<not> tx_committed data (hdr_tx_id data pos)) (wal_positions data start_pos)
      in if positions = [] then Some (NOSTR_DB_OK, s)
         else if \<not> mmap_ok then Some (NOSTR_DB_ERROR_MMAP_FAILED, s)
         else undo_loop os dm data (rev positions) s)"

definition wal_recover ::
    "'s os \<Rightarrow> wal_manager \<Rightarrow> disk_manager \<Rightarrow> (nat \<Rightarrow> bool) \<Rightarrow> 's \<Rightarrow>
     (nostr_db_error \<times> wal_manager \<times> 's) option" where
  "wal_recover os wal dm mmap_ok s =
     (if wal_fd wal < 0 then Some (NOSTR_DB_ERROR_FILE_OPEN, wal, s)
      else
        (case wal_mmap_file os (wal_fd wal) (mmap_ok 0) s of
           (None, s) \<Rightarrow> Some (NOSTR_DB_OK, wal, s)
         | (Some data, s) \<Rightarrow> do {
             let start_pos = (case find_last_checkpoint data of None \<Rightarrow> 0 | Some p \<Rightarrow> p);
             (err, s) \<leftarrow> redo_phase os dm data start_pos s;
             if err \<noteq> NOSTR_DB_OK then Some (err, wal, s)
             else do {
               (err, s) \<leftarrow> undo_phase os dm data start_pos (mmap_ok 1) s;
               if err \<noteq> NOSTR_DB_OK then Some (err, wal, s)
               else
                 (let (_, s) = disk_sync os dm s;
                      ps = wal_positions data 0;
                      max_lsn = fold (\<lambda>pos m. if hdr_lsn data pos > m then hdr_lsn data pos else m) ps 0;
                      max_tx_id = fold (\<lambda>pos m. if hdr_tx_id data pos > m then hdr_tx_id data pos else m) ps 0
                  in Some (NOSTR_DB_OK,
                           wal\<lparr>next_lsn := (max_lsn + 1) mod 2 ^ 64,
                               next_tx_id := (max_tx_id + 1) mod 2 ^ 32, flushed_lsn := max_lsn\<rparr>, s))
             }
           }))"

section \<open>The log as a byte string\<close>

text \<open>
  \<open>c\<close> is the content of the log file. After a flush that failed half-way the file may be longer
  than \<open>file_offset\<close>, but never longer than what the next flush writes.
\<close>

definition wal_ok :: "wal_manager \<Rightarrow> byte list \<Rightarrow> bool" where
  "wal_ok wal c \<longleftrightarrow> 0 \<le> wal_fd wal \<and> buffer_size wal = WAL_BUFFER_SIZE \<and>
     length (buffer wal) = WAL_BUFFER_SIZE \<and> buffer_used wal \<le> WAL_BUFFER_SIZE \<and>
     file_offset wal \<le> length c \<and> length c \<le> file_offset wal + buffer_used wal"

definition log_bytes :: "wal_manager \<Rightarrow> byte list \<Rightarrow> byte list" where
  "log_bytes wal c = take (file_offset wal) c @ take (buffer_used wal) (buffer wal)"

lemma length_wal_header [simp]: "length (wal_header a b t y d) = 32"
  by (simp add: wal_header_def)

lemma poke_end:
  assumes "poke buf used bs = Some buf'"
  shows "take (used + length bs) buf' = take used buf @ bs" "length buf' = length buf"
    "used + length bs \<le> length buf"
  using assms by (auto simp: poke_eq_Some blit_def)

lemma write_at_grow:
  assumes "off + w \<le> length c" "length c \<le> off + used" "used \<le> length buf"
    and "slice c off w = take w buf" "w \<le> used" "k \<le> used - w"
  shows "let c' = write_at c (off + w) (take k (slice buf w (used - w))) in
    off + (w + k) \<le> length c' \<and> length c' \<le> off + used \<and> take off c' = take off c \<and>
    slice c' off (w + k) = take (w + k) buf"
proof (cases "k = 0")
  case True
  then show ?thesis using assms by (simp add: write_at_def)
next
  case False
  let ?bs = "take k (slice buf w (used - w))"
  have bs: "?bs = slice buf w k" using assms by (simp add: slice_def min_def)
  have lbs: "length ?bs = k" using assms by simp
  have ne: "?bs \<noteq> []" using lbs False by (metis length_0_conv)
  let ?c' = "write_at c (off + w) ?bs"
  have len: "length ?c' = max (length c) (off + w + k)" using length_write_at [OF ne] lbs by simp
  have c': "?c' = blit (resize c (max (length c) (off + w + k))) (off + w) ?bs"
    using ne lbs by (simp add: write_at_def)
  have tk: "take (off + w) ?c' = take (off + w) c"
    using assms(1) by (simp add: c' blit_def resize_def)
  have "take off ?c' = take off (take (off + w) ?c')" by simp
  then have t1: "take off ?c' = take off c" using tk by simp
  have "drop (off + w) ?c' = ?bs @ drop (off + w + k) (resize c (max (length c) (off + w + k)))"
    using assms(1) lbs by (simp add: c' blit_def min_def)
  then have d: "take k (drop (off + w) ?c') = ?bs" using lbs by simp
  have "slice ?c' off (w + k) = slice ?c' off w @ take k (drop (off + w) ?c')"
    unfolding slice_def by (subst take_add) (simp add: add.commute)
  also have "slice ?c' off w = slice c off w"
    using tk by (metis slice_def drop_take add_diff_cancel_left')
  finally have "slice ?c' off (w + k) = take w buf @ slice buf w k" using assms(4) d bs by simp
  also have "\<dots> = take (w + k) buf" by (simp add: slice_def take_add)
  finally have "slice ?c' off (w + k) = take (w + k) buf" .
  moreover have "off + (w + k) \<le> length ?c'" "length ?c' \<le> off + used" using len assms by linarith+
  ultimately show ?thesis using t1 by (simp add: Let_def)
qed

context posix
begin

lemma wal_write_loop_ok:
  assumes "wal_write_loop os fd buf used off w s = Some r" "r = (True, s')"
    and "off + w \<le> length (view fd s)" "length (view fd s) \<le> off + used" "used \<le> length buf"
    and "slice (view fd s) off w = take w buf" "w \<le> used"
  shows "view fd s' = take off (view fd s) @ take used buf \<and> (\<forall>g. g \<noteq> fd \<longrightarrow> view g s' = view g s)"
proof -
  let ?P = "\<lambda>x fd buf used off w s r. x = os \<longrightarrow> r = (True, s') \<longrightarrow>
      off + w \<le> length (view fd s) \<longrightarrow> length (view fd s) \<le> off + used \<longrightarrow> used \<le> length buf \<longrightarrow>
      slice (view fd s) off w = take w buf \<longrightarrow> w \<le> used \<longrightarrow>
      view fd s' = take off (view fd s) @ take used buf \<and> (\<forall>g. g \<noteq> fd \<longrightarrow> view g s' = view g s)"
  have "?P os fd buf used off w s r"
  proof (rule wal_write_loop.raw_induct [where P = ?P, OF _ assms(1)])
    fix loop x fd buf used off w s r
    assume IH: "\<And>x fd buf used off w s r. loop x fd buf used off w s = Some r \<Longrightarrow> ?P x fd buf used off w s r"
      and body: "(if w < used
         then let (ret, s) = os_pwrite x fd (slice buf w (used - w)) (off + w) s
              in if ret < 0 then Some (False, s) else loop x fd buf used off (w + nat ret) s
         else Some (True, s)) = Some r"
    show "?P x fd buf used off w s r"
    proof (intro impI)
      assume x: "x = os" and r: "r = (True, s')" and len: "off + w \<le> length (view fd s)"
        "length (view fd s) \<le> off + used" "used \<le> length buf"
        and pre: "slice (view fd s) off w = take w buf" "w \<le> used"
      show "view fd s' = take off (view fd s) @ take used buf \<and> (\<forall>g. g \<noteq> fd \<longrightarrow> view g s' = view g s)"
      proof (cases "w < used")
        case False
        then have "w = used" "s' = s" using pre body r by simp_all
        moreover have "view fd s = take off (view fd s) @ slice (view fd s) off used"
          using len \<open>w = used\<close> by (simp add: slice_def)
        ultimately show ?thesis using pre by simp
      next
        case True
        obtain ret s1 where w1: "os_pwrite os fd (slice buf w (used - w)) (off + w) s = (ret, s1)" by fastforce
        have ret: "\<not> ret < 0" using body True x w1 r by (auto split: if_splits)
        obtain k where k: "k \<le> length (slice buf w (used - w))" "ret = int k"
          "view fd s1 = write_at (view fd s) (off + w) (take k (slice buf w (used - w)))"
          using pwrite_law [OF w1, of fd] ret by auto
        have "k \<le> used - w" using k(1) by simp
        note g = write_at_grow [OF len(1,2,3) pre this, unfolded Let_def, folded k(3)]
        have rest: "loop os fd buf used off (w + k) s1 = Some r" using body True x w1 ret k(2) by simp
        have "w + k \<le> used" using \<open>k \<le> used - w\<close> True by simp
        then have "view fd s' = take off (view fd s1) @ take used buf \<and> (\<forall>g. g \<noteq> fd \<longrightarrow> view g s' = view g s1)"
          using IH [OF rest] r g len(3) by blast
        then show ?thesis using g pwrite_law [OF w1] by auto
      qed
    qed
  qed
  then show ?thesis using assms by blast
qed

lemma wal_flush_ok:
  assumes ok: "wal_ok wal (view (wal_fd wal) s)" and fl: "wal_flush os wal s = Some (NOSTR_DB_OK, wal', s')"
  shows "view (wal_fd wal) s' = log_bytes wal (view (wal_fd wal) s)" "wal_ok wal' (view (wal_fd wal) s')"
    "log_bytes wal' (view (wal_fd wal) s') = log_bytes wal (view (wal_fd wal) s)"
    "buffer_used wal > 0 \<Longrightarrow> durable (wal_fd wal) s' = view (wal_fd wal) s'"
    "g \<noteq> wal_fd wal \<Longrightarrow> view g s' = view g s"
    "wal_fd wal' = wal_fd wal" "buffer_used wal' = 0" "next_lsn wal' = next_lsn wal" "active wal' = active wal"
    "buffer wal' = buffer wal" "buffer_size wal' = buffer_size wal"
proof -
  let ?fd = "wal_fd wal" and ?c = "view (wal_fd wal) s"
  have "view ?fd s' = log_bytes wal ?c \<and> wal_ok wal' (view ?fd s') \<and>
    log_bytes wal' (view ?fd s') = log_bytes wal ?c \<and>
    (buffer_used wal > 0 \<longrightarrow> durable ?fd s' = view ?fd s') \<and> (\<forall>g. g \<noteq> ?fd \<longrightarrow> view g s' = view g s) \<and>
    wal_fd wal' = ?fd \<and> buffer_used wal' = 0 \<and> next_lsn wal' = next_lsn wal \<and> active wal' = active wal \<and>
    buffer wal' = buffer wal \<and> buffer_size wal' = buffer_size wal"
  proof (cases "buffer_used wal = 0")
    case True
    then have "wal' = wal" "s' = s" using fl by (auto simp: wal_flush_def)
    then show ?thesis using ok True by (auto simp: wal_ok_def log_bytes_def)
  next
    case False
    have fd: "\<not> ?fd < 0" using ok by (simp add: wal_ok_def)
    obtain b s1 where w0: "wal_write_loop os ?fd (buffer wal) (buffer_used wal) (file_offset wal) 0 s = Some (b, s1)"
      using fl False fd
      by (cases "wal_write_loop os ?fd (buffer wal) (buffer_used wal) (file_offset wal) 0 s") (auto simp: wal_flush_def)
    have b: "b" using fl False fd w0 by (cases b) (simp_all add: wal_flush_def)
    obtain r s2 where y0: "os_fdatasync os ?fd s1 = (r, s2)" by fastforce
    have y2: "\<not> r < 0" "s2 = s'" using fl False fd w0 b y0 by (auto simp: wal_flush_def Let_def split: if_splits)
    have wal': "\<exists>l. wal' = wal\<lparr>file_offset := file_offset wal + buffer_used wal, flushed_lsn := l, buffer_used := 0\<rparr>"
      using fl False fd w0 b y0 y2 by (auto simp: wal_flush_def Let_def)
    have w: "wal_write_loop os ?fd (buffer wal) (buffer_used wal) (file_offset wal) 0 s = Some (True, s1)"
      and y: "os_fdatasync os ?fd s1 = (r, s')" "\<not> r < 0" using w0 b y0 y2 by simp_all
    have v1: "view ?fd s1 = log_bytes wal ?c \<and> (\<forall>g. g \<noteq> ?fd \<longrightarrow> view g s1 = view g s)"
      using wal_write_loop_ok [OF w refl] ok by (simp add: wal_ok_def log_bytes_def)
    have v: "view g s' = view g s1" for g using fdatasync_view [OF y(1)] .
    have d: "durable ?fd s' = view ?fd s'" using fdatasync_law [OF y(1)] y(2) v by auto
    obtain l where l: "wal' = wal\<lparr>file_offset := file_offset wal + buffer_used wal, flushed_lsn := l, buffer_used := 0\<rparr>"
      using wal' by blast
    have vs: "view ?fd s' = log_bytes wal ?c" using v1 v by simp
    have len: "length (view ?fd s') = file_offset wal + buffer_used wal"
      using ok by (simp add: vs log_bytes_def wal_ok_def)
    have "wal_ok wal' (view ?fd s')" using ok len by (simp add: wal_ok_def l)
    moreover have "log_bytes wal' (view ?fd s') = view ?fd s'" using len by (simp add: log_bytes_def l)
    moreover have "\<forall>g. g \<noteq> ?fd \<longrightarrow> view g s' = view g s" using v1 v by simp
    ultimately show ?thesis using vs d by (simp add: l)
  qed
  then show "view ?fd s' = log_bytes wal ?c" "wal_ok wal' (view ?fd s')"
    "log_bytes wal' (view ?fd s') = log_bytes wal ?c"
    "buffer_used wal > 0 \<Longrightarrow> durable ?fd s' = view ?fd s'" "g \<noteq> ?fd \<Longrightarrow> view g s' = view g s"
    "wal_fd wal' = ?fd" "buffer_used wal' = 0" "next_lsn wal' = next_lsn wal" "active wal' = active wal"
    "buffer wal' = buffer wal" "buffer_size wal' = buffer_size wal" by blast+
qed

end

context posix
begin

lemma ensure_buffer_space_ok:
  assumes ok: "wal_ok wal (view (wal_fd wal) s)"
    and en: "ensure_buffer_space os wal needed s = Some (NOSTR_DB_OK, wal', s')"
  shows "wal_ok wal' (view (wal_fd wal) s')"
    "log_bytes wal' (view (wal_fd wal) s') = log_bytes wal (view (wal_fd wal) s)"
    "g \<noteq> wal_fd wal \<Longrightarrow> view g s' = view g s" "wal_fd wal' = wal_fd wal"
    "next_lsn wal' = next_lsn wal" "active wal' = active wal"
    "buffer_used wal' + needed \<le> WAL_BUFFER_SIZE"
proof -
  let ?fd = "wal_fd wal"
  have size: "buffer_size wal = WAL_BUFFER_SIZE" using ok by (simp add: wal_ok_def)
  have "wal_ok wal' (view ?fd s') \<and> log_bytes wal' (view ?fd s') = log_bytes wal (view ?fd s) \<and>
    (\<forall>g. g \<noteq> ?fd \<longrightarrow> view g s' = view g s) \<and> wal_fd wal' = ?fd \<and> next_lsn wal' = next_lsn wal \<and>
    active wal' = active wal \<and> buffer_used wal' + needed \<le> WAL_BUFFER_SIZE"
  proof (cases "buffer_used wal + needed > buffer_size wal")
    case False
    then have "wal' = wal" "s' = s" using en by (auto simp: ensure_buffer_space_def split: if_splits)
    then show ?thesis using ok False size by simp
  next
    case True
    obtain err w1 s1 where fl: "wal_flush os wal s = Some (err, w1, s1)"
      using en True by (cases "wal_flush os wal s") (auto simp: ensure_buffer_space_def)
    have err: "err = NOSTR_DB_OK" using en True fl by (cases "err = NOSTR_DB_OK") (simp_all add: ensure_buffer_space_def)
    note F = wal_flush_ok [OF ok fl [unfolded err]]
    have "wal' = w1" "s' = s1" "needed \<le> buffer_size w1"
      using en True fl err by (auto simp: ensure_buffer_space_def split: if_splits)
    then show ?thesis using F size by simp
  qed
  then show "wal_ok wal' (view ?fd s')" "log_bytes wal' (view ?fd s') = log_bytes wal (view ?fd s)"
    "g \<noteq> ?fd \<Longrightarrow> view g s' = view g s" "wal_fd wal' = ?fd" "next_lsn wal' = next_lsn wal"
    "active wal' = active wal" "buffer_used wal' + needed \<le> WAL_BUFFER_SIZE" by blast+
qed

lemma wal_append_ok:
  assumes ok: "wal_ok wal (view (wal_fd wal) s)" and len: "length payload = data_length"
    and ap: "wal_append os wal tx_id ty data_length payload s = Some (lsn, wal', s')" "lsn \<noteq> LSN_NULL"
  shows "wal_ok wal' (view (wal_fd wal) s')"
    "log_bytes wal' (view (wal_fd wal) s') = log_bytes wal (view (wal_fd wal) s) @
      wal_header (next_lsn wal) (prev_lsn_of wal tx_id) tx_id ty data_length @ payload"
    "lsn = next_lsn wal" "g \<noteq> wal_fd wal \<Longrightarrow> view g s' = view g s" "wal_fd wal' = wal_fd wal"
    "buffer_used wal' > 0" "active wal' = set_active_lsn wal tx_id lsn"
proof -
  let ?fd = "wal_fd wal"
  obtain err w1 s1 where en: "ensure_buffer_space os wal (32 + data_length) s = Some (err, w1, s1)"
    using ap(1) by (cases "ensure_buffer_space os wal (32 + data_length) s") (auto simp: wal_append_def)
  have err: "err = NOSTR_DB_OK" using ap en by (cases "err = NOSTR_DB_OK") (simp_all add: wal_append_def)
  note E = ensure_buffer_space_ok [OF ok en [unfolded err]]
  have prev: "prev_lsn_of w1 tx_id = prev_lsn_of wal tx_id" "set_active_lsn w1 tx_id l = set_active_lsn wal tx_id l" for l
    by (simp_all add: prev_lsn_of_def set_active_lsn_def find_active_tx_def E(6) Let_def)
  let ?rec = "wal_header (next_lsn wal) (prev_lsn_of wal tx_id) tx_id ty data_length @ payload"
  obtain buf where p: "poke (buffer w1) (buffer_used w1) ?rec = Some buf"
    using ap(1) en err E(5) prev by (cases "poke (buffer w1) (buffer_used w1) ?rec") (simp_all add: wal_append_def)
  note B = poke_end [OF p]
  have r: "lsn = next_lsn wal" "s' = s1" "wal' = w1\<lparr>next_lsn := (next_lsn wal + 1) mod 2 ^ 64, buffer := buf,
      buffer_used := buffer_used w1 + (32 + data_length), active := set_active_lsn wal tx_id lsn\<rparr>"
    using ap(1) en err E(5) prev p by (auto simp: wal_append_def Let_def)
  have lr: "length ?rec = 32 + data_length" using len by simp
  show "wal_ok wal' (view ?fd s')"
    using E(1,7) B(2) by (simp add: r wal_ok_def)
  show "log_bytes wal' (view ?fd s') = log_bytes wal (view ?fd s) @ ?rec"
    using E(2) B(1) lr by (simp add: r log_bytes_def)
  show "lsn = next_lsn wal" "g \<noteq> ?fd \<Longrightarrow> view g s' = view g s" "wal_fd wal' = ?fd" "buffer_used wal' > 0"
    "active wal' = set_active_lsn wal tx_id lsn"
    using E(3,4) by (simp_all add: r)
qed

lemma wal_log_commit_ok:
  assumes ok: "wal_ok wal (view (wal_fd wal) s)"
    and co: "wal_log_commit os wal tx_id s = Some (NOSTR_DB_OK, wal', s')"
  shows "durable (wal_fd wal) s' = log_bytes wal (view (wal_fd wal) s) @
      wal_header (next_lsn wal) (prev_lsn_of wal tx_id) tx_id WAL_RECORD_COMMIT 0"
    "wal_ok wal' (view (wal_fd wal) s')" "log_bytes wal' (view (wal_fd wal) s') = durable (wal_fd wal) s'"
    "g \<noteq> wal_fd wal \<Longrightarrow> view g s' = view g s"
proof -
  let ?fd = "wal_fd wal"
  obtain lsn w1 s1 where ap: "write_simple_record os wal tx_id WAL_RECORD_COMMIT s = Some (lsn, w1, s1)"
    using co by (cases "write_simple_record os wal tx_id WAL_RECORD_COMMIT s") (auto simp: wal_log_commit_def)
  have lsn: "lsn \<noteq> LSN_NULL" using co ap by (cases "lsn = LSN_NULL") (simp_all add: wal_log_commit_def)
  have fl: "wal_flush os (remove_active_tx w1 tx_id) s1 = Some (NOSTR_DB_OK, wal', s')"
    using co ap lsn by (simp add: wal_log_commit_def)
  have len0: "length [] = (0 :: nat)" by simp
  note A = wal_append_ok [OF ok len0 ap [unfolded write_simple_record_def] lsn]
  have rm: "wal_fd (remove_active_tx w1 tx_id) = wal_fd w1" "buffer_used (remove_active_tx w1 tx_id) = buffer_used w1"
    "log_bytes (remove_active_tx w1 tx_id) c = log_bytes w1 c" "wal_ok (remove_active_tx w1 tx_id) c = wal_ok w1 c" for c
    by (simp_all add: remove_active_tx_def Let_def log_bytes_def wal_ok_def)
  note F = wal_flush_ok [of "remove_active_tx w1 tx_id" s1 wal' s', unfolded rm A(5), OF A(1) fl]
  show "durable ?fd s' = log_bytes wal (view ?fd s) @
      wal_header (next_lsn wal) (prev_lsn_of wal tx_id) tx_id WAL_RECORD_COMMIT 0"
    using F(1) F(4) [OF A(6)] A(2) by simp
  then show "log_bytes wal' (view ?fd s') = durable ?fd s'" using F(3) A(2) by simp
  show "wal_ok wal' (view ?fd s')" by (rule F(2))
  show "g \<noteq> ?fd \<Longrightarrow> view g s' = view g s" using F(5) A(4) by simp
qed

end

section \<open>Records\<close>

text \<open>A log record as the writers build it, and its bytes.\<close>

datatype log_op =
    LBegin | LCommit | LAbort | LUpdate nat nat "byte list" "byte list" | LAlloc nat | LFree nat | LCheckpoint

primrec op_type :: "log_op \<Rightarrow> nat" where
  "op_type LBegin = WAL_RECORD_BEGIN"
| "op_type LCommit = WAL_RECORD_COMMIT"
| "op_type LAbort = WAL_RECORD_ABORT"
| "op_type (LUpdate pid off old new) = WAL_RECORD_UPDATE"
| "op_type (LAlloc pid) = WAL_RECORD_ALLOC_PAGE"
| "op_type (LFree pid) = WAL_RECORD_FREE_PAGE"
| "op_type LCheckpoint = WAL_RECORD_CHECKPOINT"

primrec op_data :: "log_op \<Rightarrow> byte list" where
  "op_data LBegin = []"
| "op_data LCommit = []"
| "op_data LAbort = []"
| "op_data (LUpdate pid off old new) = update_payload pid off (length old) old new"
| "op_data (LAlloc pid) = le_bytes 4 pid"
| "op_data (LFree pid) = le_bytes 4 pid"
| "op_data LCheckpoint = []"

primrec op_wf :: "log_op \<Rightarrow> bool" where
  "op_wf LBegin \<longleftrightarrow> True"
| "op_wf LCommit \<longleftrightarrow> True"
| "op_wf LAbort \<longleftrightarrow> True"
| "op_wf (LUpdate pid off old new) \<longleftrightarrow> pid < 2 ^ 32 \<and> length new = length old \<and> off + length old \<le> 4096"
| "op_wf (LAlloc pid) \<longleftrightarrow> pid < 2 ^ 32"
| "op_wf (LFree pid) \<longleftrightarrow> pid < 2 ^ 32"
| "op_wf LCheckpoint \<longleftrightarrow> True"

record log_entry =
  e_lsn :: nat
  e_prev :: nat
  e_tx :: nat
  e_op :: log_op

definition entry_wf :: "log_entry \<Rightarrow> bool" where
  "entry_wf e \<longleftrightarrow> e_lsn e < 2 ^ 64 \<and> e_tx e < 2 ^ 32 \<and> op_wf (e_op e)"

definition entry_bytes :: "log_entry \<Rightarrow> byte list" where
  "entry_bytes e = wal_header (e_lsn e) (e_prev e) (e_tx e) (op_type (e_op e)) (length (op_data (e_op e))) @
     op_data (e_op e)"

definition entries_bytes :: "log_entry list \<Rightarrow> byte list" where
  "entries_bytes es = concat (map entry_bytes es)"

primrec entry_positions :: "nat \<Rightarrow> log_entry list \<Rightarrow> nat list" where
  "entry_positions off [] = []"
| "entry_positions off (e # es) = off # entry_positions (off + length (entry_bytes e)) es"

text \<open>\<open>data\<close> holds the record \<open>e\<close> at \<open>pos\<close>.\<close>

definition entry_at :: "byte list \<Rightarrow> nat \<Rightarrow> log_entry \<Rightarrow> bool" where
  "entry_at data pos e \<longleftrightarrow> pos + length (entry_bytes e) \<le> length data \<and>
     slice data pos (length (entry_bytes e)) = entry_bytes e"

lemma get_le_slice: "o2 + w \<le> n \<Longrightarrow> get_le w o2 (slice p off n) = get_le w (off + o2) p"
  by (simp add: get_le_def slice_slice)

lemma get_le_append1: "off + w \<le> length p \<Longrightarrow> get_le w off (p @ q) = get_le w off p"
  by (simp add: get_le_def slice_append1)

lemma length_entry_bytes: "length (entry_bytes e) = 32 + length (op_data (e_op e))"
  by (simp add: entry_bytes_def)

lemma op_data_length: "op_wf op \<Longrightarrow> length (op_data op) < 2 ^ 16"
  by (cases op) (auto simp: update_payload_def)

lemma op_type_less: "op_type op < 8"
  by (cases op) auto

lemma entry_header_fields:
  assumes "entry_wf e"
  shows "get_le 8 0 (entry_bytes e) = e_lsn e" "get_le 4 16 (entry_bytes e) = e_tx e"
    "get_le 4 20 (entry_bytes e) = op_type (e_op e)" "get_le 2 24 (entry_bytes e) = length (op_data (e_op e))"
  using assms op_data_length [of "e_op e"] op_type_less [of "e_op e"]
  by (simp_all add: entry_bytes_def entry_wf_def get_le_append1 wal_header_def mem_simps)

lemma entry_at_fields:
  assumes "entry_at data pos e" "entry_wf e"
  shows "hdr_lsn data pos = e_lsn e" "hdr_tx_id data pos = e_tx e" "hdr_type data pos = op_type (e_op e)"
    "hdr_data_length data pos = length (op_data (e_op e))"
proof -
  have s: "slice data pos (length (entry_bytes e)) = entry_bytes e" using assms(1) by (simp add: entry_at_def)
  have len: "32 \<le> length (entry_bytes e)" by (simp add: length_entry_bytes)
  have g: "get_le w (pos + o2) data = get_le w o2 (entry_bytes e)" if "o2 + w \<le> 32" for w o2
    using get_le_slice [of o2 w "length (entry_bytes e)" data pos] s that len by simp
  show "hdr_lsn data pos = e_lsn e" "hdr_tx_id data pos = e_tx e" "hdr_type data pos = op_type (e_op e)"
    "hdr_data_length data pos = length (op_data (e_op e))"
    using g [of 0 8] g [of 16 4] g [of 20 4] g [of 24 2] entry_header_fields [OF assms(2)]
    by (simp_all add: hdr_lsn_def hdr_tx_id_def hdr_type_def hdr_data_length_def)
qed

lemma entries_at:
  assumes "data = pre @ entries_bytes es @ tail" "off = length pre"
  shows "list_all2 (entry_at data) (entry_positions off es) es"
  using assms
proof (induction es arbitrary: pre off)
  case Nil
  then show ?case by simp
next
  case (Cons e es)
  have "entry_at data off e"
    using Cons.prems by (simp add: entry_at_def entries_bytes_def slice_def)
  moreover have "list_all2 (entry_at data) (entry_positions (off + length (entry_bytes e)) es) es"
    using Cons.prems by (intro Cons.IH [of "pre @ entry_bytes e"]) (simp_all add: entries_bytes_def)
  ultimately show ?case by simp
qed

lemma wal_positions_entries:
  assumes "data = pre @ entries_bytes es @ tail" "off = length pre" "length tail < 32" "\<forall>e \<in> set es. entry_wf e"
  shows "wal_positions data off = entry_positions off es"
  using assms
proof (induction es arbitrary: pre off)
  case Nil
  then show ?case by (subst wal_positions.simps) (simp add: entries_bytes_def)
next
  case (Cons e es)
  have "entry_at data off e" using entries_at [OF Cons.prems(1,2)] by simp
  then have "hdr_data_length data off = length (op_data (e_op e))" using Cons.prems(4) by (simp add: entry_at_fields)
  moreover have "off + 32 \<le> length data" using Cons.prems(1,2) by (simp add: entries_bytes_def length_entry_bytes)
  moreover have "wal_positions data (off + length (entry_bytes e)) = entry_positions (off + length (entry_bytes e)) es"
    using Cons.prems by (intro Cons.IH [of "pre @ entry_bytes e"]) (simp_all add: entries_bytes_def)
  ultimately show ?case by (subst wal_positions.simps) (simp add: length_entry_bytes add.assoc)
qed

definition committed :: "log_entry list \<Rightarrow> nat \<Rightarrow> bool" where
  "committed es tx \<longleftrightarrow> (\<exists>e \<in> set es. e_op e = LCommit \<and> e_tx e = tx)"

lemma op_type_commit: "op_type op = WAL_RECORD_COMMIT \<longleftrightarrow> op = LCommit"
  by (cases op) auto

lemma tx_committed_entries:
  assumes "data = entries_bytes es @ tail" "length tail < 32" "\<forall>e \<in> set es. entry_wf e"
  shows "tx_committed data tx = committed es tx"
proof -
  have pos: "wal_positions data 0 = entry_positions 0 es" using wal_positions_entries [of data "[]" es tail 0] assms by simp
  have at: "list_all2 (entry_at data) (entry_positions 0 es) es" using entries_at [of data "[]" es tail 0] assms by simp
  have "(\<exists>pos \<in> set ps. hdr_type data pos = WAL_RECORD_COMMIT \<and> hdr_tx_id data pos = tx) \<longleftrightarrow>
      (\<exists>e \<in> set xs. e_op e = LCommit \<and> e_tx e = tx)"
    if "list_all2 (entry_at data) ps xs" "\<forall>e \<in> set xs. entry_wf e" for ps xs
    using that by (induction rule: list_all2_induct) (simp_all add: entry_at_fields op_type_commit)
  then show ?thesis using at assms(3) by (simp add: tx_committed_def committed_def pos)
qed

end
