(* ===== verification/WalRecovery.thy ===== *)
theory WalRecovery
  imports Wal
begin

text \<open>
  What \<open>wal_recover\<close> (\<open>src/nostr/db/wal/wal_recovery.c\<close>) does to the database file.
  \<open>recover_pages\<close> is recovery on pages and log entries; \<open>wal_recover_up\<close> shows that the
  byte-level code computes it, \<open>recover_pages_committed\<close> that it yields the updates of the
  committed transactions and no other. The properties about the log stand at the end.
\<close>

section \<open>What recovery computes\<close>

definition is_checkpoint :: "log_entry \<Rightarrow> bool" where
  "is_checkpoint e \<longleftrightarrow> e_op e = LCheckpoint"

text \<open>The log from its last checkpoint record on; the whole log if it has none.\<close>

primrec since_checkpoint :: "log_entry list \<Rightarrow> log_entry list" where
  "since_checkpoint [] = []"
| "since_checkpoint (e # es) = (if \<exists>x \<in> set es. is_checkpoint x then since_checkpoint es else e # es)"

type_synonym pages = "nat \<Rightarrow> byte list"

definition redo_entry :: "log_entry list \<Rightarrow> log_entry \<Rightarrow> pages \<Rightarrow> pages" where
  "redo_entry es e P = (case e_op e of
     LUpdate pid off old new \<Rightarrow> if committed es (e_tx e) then P(pid := blit (P pid) off new) else P
   | _ \<Rightarrow> P)"

definition undo_entry :: "log_entry list \<Rightarrow> log_entry \<Rightarrow> pages \<Rightarrow> pages" where
  "undo_entry es e P = (case e_op e of
     LUpdate pid off old new \<Rightarrow> if committed es (e_tx e) then P else P(pid := blit (P pid) off old)
   | _ \<Rightarrow> P)"

definition recover_pages :: "log_entry list \<Rightarrow> pages \<Rightarrow> pages" where
  "recover_pages es P =
     foldr (undo_entry es) (since_checkpoint es) (fold (redo_entry es) (since_checkpoint es) P)"

section \<open>The scans of the log\<close>

lemma since_checkpoint_suffix:
  "\<exists>es1. es = es1 @ since_checkpoint es \<and> ((\<forall>x \<in> set es. \<not> is_checkpoint x) \<longrightarrow> es1 = [])"
proof (induction es)
  case Nil
  then show ?case by simp
next
  case (Cons e es)
  then show ?case by (metis append_Cons append_Nil list.set_intros(2) since_checkpoint.simps(2))
qed

lemma fold_checkpoint:
  assumes "list_all2 (entry_at data) (entry_positions off es) es" "\<forall>e \<in> set es. entry_wf e"
    and "es = es1 @ since_checkpoint es"
  shows "fold (\<lambda>pos cp. if hdr_type data pos = WAL_RECORD_CHECKPOINT then Some pos else cp)
     (entry_positions off es) cp =
     (if \<exists>x \<in> set es. is_checkpoint x then Some (off + length (entries_bytes es1)) else cp)"
  using assms
proof (induction es arbitrary: off cp es1 rule: list.induct)
  case Nil
  then show ?case by simp
next
  case (Cons e es)
  have ty: "hdr_type data off = WAL_RECORD_CHECKPOINT \<longleftrightarrow> is_checkpoint e"
    using Cons.prems(1,2) entry_at_fields(3) [of data off e] by (cases "e_op e") (auto simp: is_checkpoint_def)
  obtain es2 where es2: "es = es2 @ since_checkpoint es" "(\<forall>x \<in> set es. \<not> is_checkpoint x) \<longrightarrow> es2 = []"
    using since_checkpoint_suffix [of es] by blast
  have IH: "fold (\<lambda>pos cp. if hdr_type data pos = WAL_RECORD_CHECKPOINT then Some pos else cp)
      (entry_positions (off + length (entry_bytes e)) es) cp' =
      (if \<exists>x \<in> set es. is_checkpoint x then Some (off + length (entry_bytes e) + length (entries_bytes es2)) else cp')" for cp'
    using Cons.prems by (intro Cons.IH es2(1)) simp_all
  show ?case
  proof (cases "\<exists>x \<in> set es. is_checkpoint x")
    case True
    then have "e # es = es1 @ since_checkpoint es" using Cons.prems(3) by simp
    moreover have "e # es = (e # es2) @ since_checkpoint es" using es2(1) by simp
    ultimately have "es1 = e # es2" by (metis append_same_eq)
    then show ?thesis using True IH by (simp add: entries_bytes_def)
  next
    case False
    then have "es1 = []" using Cons.prems(3) by simp
    then show ?thesis using False IH ty by (auto simp: entries_bytes_def)
  qed
qed

lemma entry_positions_append:
  "entry_positions off (xs @ ys) = entry_positions off xs @ entry_positions (off + length (entries_bytes xs)) ys"
  by (induction xs arbitrary: off) (simp_all add: entries_bytes_def add.assoc)

lemma recovery_start:
  assumes "data = entries_bytes es @ tail" "length tail < 32" "\<forall>e \<in> set es. entry_wf e"
  obtains st where "(case find_last_checkpoint data of None \<Rightarrow> 0 | Some p \<Rightarrow> p) = st"
    "wal_positions data st = entry_positions st (since_checkpoint es)"
    "list_all2 (entry_at data) (entry_positions st (since_checkpoint es)) (since_checkpoint es)"
proof -
  obtain es1 where es1: "es = es1 @ since_checkpoint es" "(\<forall>x \<in> set es. \<not> is_checkpoint x) \<longrightarrow> es1 = []"
    using since_checkpoint_suffix [of es] by blast
  let ?st = "length (entries_bytes es1)"
  have pos: "wal_positions data 0 = entry_positions 0 es" using wal_positions_entries [of data "[]" es tail 0] assms by simp
  have at: "list_all2 (entry_at data) (entry_positions 0 es) es" using entries_at [of data "[]" es tail 0] assms by simp
  have st: "(case find_last_checkpoint data of None \<Rightarrow> 0 | Some p \<Rightarrow> p) = ?st"
    using fold_checkpoint [OF at assms(3) es1(1)] es1(2) by (auto simp: find_last_checkpoint_def pos entries_bytes_def)
  have "data = entries_bytes es1 @ entries_bytes (since_checkpoint es) @ tail"
    using assms(1) es1(1) by (metis append.assoc concat_append entries_bytes_def map_append)
  moreover have "\<forall>e \<in> set (since_checkpoint es). entry_wf e" using assms(3) es1(1) by (metis UnCI set_append)
  ultimately show ?thesis
    using wal_positions_entries [of data "entries_bytes es1" "since_checkpoint es" tail] assms(2)
      entries_at [of data "entries_bytes es1" "since_checkpoint es" tail] by (intro that [OF st]) simp_all
qed

lemma entry_at_peek:
  assumes "entry_at data pos e" "off + n \<le> length (entry_bytes e)"
  shows "peek data (pos + off) n = Some (slice (entry_bytes e) off n)"
proof -
  have "slice (entry_bytes e) off n = slice data (pos + off) n"
    using assms slice_slice [of off n "length (entry_bytes e)" data pos] by (simp add: entry_at_def)
  then show ?thesis using assms by (simp add: entry_at_def)
qed

lemma entry_at_update:
  assumes "entry_at data pos e" "entry_wf e" "e_op e = LUpdate pid off old new"
  shows "payload_fields data pos = Some (pid, off, length old)"
    "peek data (pos + 40) (length old) = Some old"
    "peek data (pos + 40 + length old) (length old) = Some new"
proof -
  have wf: "pid < 2 ^ 32" "length new = length old" "off + length old \<le> 4096" using assms by (simp_all add: entry_wf_def)
  have b: "entry_bytes e = wal_header (e_lsn e) (e_prev e) (e_tx e) WAL_RECORD_UPDATE (length (op_data (e_op e))) @
      le_bytes 4 pid @ le_bytes 2 off @ le_bytes 2 (length old) @ old @ new"
    by (simp add: entry_bytes_def assms(3) update_payload_def)
  have len: "length (entry_bytes e) = 40 + 2 * length old" using wf by (simp add: b)
  note pk = entry_at_peek [OF assms(1), unfolded len]
  have g: "get_le w (pos + o2) data = get_le w o2 (entry_bytes e)" if "o2 + w \<le> 40" for w o2
    using get_le_slice [of o2 w "length (entry_bytes e)" data pos] assms(1) that len by (simp add: entry_at_def)
  have f: "get_le 4 32 (entry_bytes e) = pid" "get_le 2 36 (entry_bytes e) = off" "get_le 2 38 (entry_bytes e) = length old"
    using wf by (simp_all add: b get_le_def slice_append2 slice_append1 le_val_le_bytes)
  show "payload_fields data pos = Some (pid, off, length old)"
    using pk [of 32 8] g [of 32 4] g [of 36 2] g [of 38 2] f by (simp add: payload_fields_def)
  have s: "slice (entry_bytes e) 40 (length old) = old" "slice (entry_bytes e) (40 + length old) (length old) = new"
    using wf by (simp_all add: b slice_append2 slice_append1)
  show "peek data (pos + 40) (length old) = Some old" using pk [of 40 "length old"] s by simp
  show "peek data (pos + 40 + length old) (length old) = Some new"
    using pk [of "40 + length old" "length old"] s by (simp add: add.assoc)
qed

section \<open>Redo and undo on the file\<close>

text \<open>The updates of the log stay inside the database file.\<close>

definition pids_ok :: "nat \<Rightarrow> log_entry list \<Rightarrow> bool" where
  "pids_ok n es \<longleftrightarrow> (\<forall>e \<in> set es. case e_op e of LUpdate pid off old new \<Rightarrow> 0 < pid \<and> pid < n | _ \<Rightarrow> True)"

text \<open>The pages the file holds, as a function; recovery is stated on it.\<close>

definition holds :: "disk_manager \<Rightarrow> byte list \<Rightarrow> pages \<Rightarrow> bool" where
  "holds dm c P \<longleftrightarrow> total_pages dm * DB_PAGE_SIZE \<le> length c \<and> (\<forall>p < total_pages dm. page_at c p = P p)"

lemma holds_length: "holds dm c P \<Longrightarrow> p < total_pages dm \<Longrightarrow> length (P p) = 4096"
  using length_page_at by (fastforce simp: holds_def)

lemma holds_page_at: "total_pages dm * DB_PAGE_SIZE \<le> length c \<Longrightarrow> holds dm c (page_at c)"
  by (simp add: holds_def)

lemma update_types:
  "op_type op = WAL_RECORD_UPDATE \<longleftrightarrow> (\<exists>pid off old new. op = LUpdate pid off old new)"
  "length (op_data (LUpdate pid off old new)) > 0"
  by (cases op; simp) (simp add: update_payload_def)

context reliable_posix
begin

lemma holds_write:
  assumes "up s" "0 \<le> dm_fd dm" "holds dm (view (dm_fd dm) s) P" "0 < p" "p < total_pages dm" "length q = 4096"
  obtains s' where "disk_write_page os dm p q s = (NOSTR_DB_OK, s')" "up s'"
    "holds dm (view (dm_fd dm) s') (P(p := q))"
proof -
  obtain s' where w: "disk_write_page os dm p q s = (NOSTR_DB_OK, s')" "up s'"
    using disk_write_up [of s dm p q] assms by blast
  have len: "total_pages dm * 4096 \<le> length (view (dm_fd dm) s)" using assms by (simp add: holds_def)
  have "view (dm_fd dm) s' = blit (view (dm_fd dm) s) (page_offset p) q"
    by (rule disk_write_page_ok(1) [OF w(1) assms(6) len])
  then have "holds dm (view (dm_fd dm) s') (P(p := q))"
    using assms(3) page_at_blit [OF assms(5) len assms(6)] page_offset_mono [OF assms(5)] len assms(6)
    by (simp add: holds_def)
  then show thesis using w that by blast
qed

lemma holds_read:
  assumes "up s" "0 \<le> dm_fd dm" "holds dm (view (dm_fd dm) s) P" "0 < p" "p < total_pages dm"
  obtains s' where "disk_read_page os dm p s = (NOSTR_DB_OK, P p, s')" "up s'" "holds dm (view (dm_fd dm) s') P"
proof -
  have len: "total_pages dm * 4096 \<le> length (view (dm_fd dm) s)" "page_at (view (dm_fd dm) s) p = P p"
    using assms by (simp_all add: holds_def)
  obtain s' where "disk_read_page os dm p s = (NOSTR_DB_OK, P p, s')" "up s'"
    using disk_read_up [OF assms(1,2,4,5) len(1)] len(2) by auto
  then show thesis using that disk_read_page_view assms(3) by simp
qed

lemma redo_record_up:
  assumes "up s" "0 \<le> dm_fd dm" "holds dm (view (dm_fd dm) s) P"
    and e: "entry_at data pos e" "entry_wf e" "e_op e = LUpdate pid off old new" "0 < pid" "pid < total_pages dm"
  obtains s' where "redo_record os dm data pos s = Some (NOSTR_DB_OK, s')" "up s'"
    "holds dm (view (dm_fd dm) s') (P(pid := blit (P pid) off new))"
proof -
  note u = entry_at_update [OF e(1-3)]
  have wf: "length new = length old" "off + length old \<le> 4096" using e(2,3) by (simp_all add: entry_wf_def)
  have len: "length (P pid) = 4096" using holds_length assms(3) e(5) by blast
  obtain s1 where r: "disk_read_page os dm pid s = (NOSTR_DB_OK, P pid, s1)" "up s1" "holds dm (view (dm_fd dm) s1) P"
    using holds_read [OF assms(1-3) e(4,5)] by blast
  obtain s2 where w: "disk_write_page os dm pid (blit (P pid) off new) s1 = (NOSTR_DB_OK, s2)" "up s2"
    "holds dm (view (dm_fd dm) s2) (P(pid := blit (P pid) off new))"
    using holds_write [OF r(2) assms(2) r(3) e(4,5), of "blit (P pid) off new"] wf len by auto
  have "redo_record os dm data pos s = Some (NOSTR_DB_OK, s2)"
    using u r(1) w(1) wf len by (simp add: redo_record_def)
  then show thesis using that w by blast
qed

lemma undo_record_up:
  assumes "up s" "0 \<le> dm_fd dm" "holds dm (view (dm_fd dm) s) P"
    and e: "entry_at data pos e" "entry_wf e" "e_op e = LUpdate pid off old new" "0 < pid" "pid < total_pages dm"
  obtains s' where "undo_record os dm data pos s = Some (NOSTR_DB_OK, s')" "up s'"
    "holds dm (view (dm_fd dm) s') (P(pid := blit (P pid) off old))"
proof -
  note u = entry_at_update [OF e(1-3)]
  have wf: "off + length old \<le> 4096" using e(2,3) by (simp_all add: entry_wf_def)
  have len: "length (P pid) = 4096" using holds_length assms(3) e(5) by blast
  obtain s1 where r: "disk_read_page os dm pid s = (NOSTR_DB_OK, P pid, s1)" "up s1" "holds dm (view (dm_fd dm) s1) P"
    using holds_read [OF assms(1-3) e(4,5)] by blast
  obtain s2 where w: "disk_write_page os dm pid (blit (P pid) off old) s1 = (NOSTR_DB_OK, s2)" "up s2"
    "holds dm (view (dm_fd dm) s2) (P(pid := blit (P pid) off old))"
    using holds_write [OF r(2) assms(2) r(3) e(4,5), of "blit (P pid) off old"] wf len by auto
  have "undo_record os dm data pos s = Some (NOSTR_DB_OK, s2)"
    using u r(1) w(1) wf len by (simp add: undo_record_def)
  then show thesis using that w by blast
qed

lemma redo_loop_up:
  assumes "list_all2 (entry_at data) ps xs" "up s" "0 \<le> dm_fd dm" "holds dm (view (dm_fd dm) s) P"
    and "\<forall>e \<in> set xs. entry_wf e" "pids_ok (total_pages dm) xs" "\<And>tx. tx_committed data tx = committed es tx"
  shows "\<exists>s'. redo_loop os dm data ps s = Some (NOSTR_DB_OK, s') \<and> up s' \<and>
    holds dm (view (dm_fd dm) s') (fold (redo_entry es) xs P)"
  using assms(1,2,4,5,6)
proof (induction arbitrary: s P rule: list_all2_induct)
  case Nil
  then show ?case by simp
next
  case (Cons pos ps e xs)
  note f = entry_at_fields [OF Cons.hyps(1)]
  have wf: "entry_wf e" using Cons.prems by simp
  have pk: "pids_ok (total_pages dm) xs" using Cons.prems(4) by (simp add: pids_ok_def)
  show ?case
  proof (cases "op_type (e_op e) = WAL_RECORD_UPDATE \<and> committed es (e_tx e)")
    case False
    then have "redo_loop os dm data (pos # ps) s = redo_loop os dm data ps s" "redo_entry es e P = P"
      using f [OF wf] assms(7) by (auto simp: redo_entry_def split: log_op.splits)
    then show ?thesis using Cons.IH [of s P] Cons.prems pk by simp
  next
    case True
    then obtain pid off old new where op: "e_op e = LUpdate pid off old new" using update_types(1) by blast
    have p: "0 < pid" "pid < total_pages dm" using Cons.prems(4) op by (simp_all add: pids_ok_def)
    obtain s1 where r: "redo_record os dm data pos s = Some (NOSTR_DB_OK, s1)" "up s1"
      "holds dm (view (dm_fd dm) s1) (P(pid := blit (P pid) off new))"
      by (rule redo_record_up [OF Cons.prems(1) assms(3) Cons.prems(2) Cons.hyps(1) wf op p])
    have "redo_loop os dm data (pos # ps) s = redo_loop os dm data ps s1"
      using f [OF wf] True assms(7) r(1) op update_types(2) by simp
    moreover have "redo_entry es e P = P(pid := blit (P pid) off new)" using True op by (simp add: redo_entry_def)
    then have "holds dm (view (dm_fd dm) s1) (redo_entry es e P)" using r(3) by (simp only:)
    ultimately show ?thesis using Cons.IH [OF r(2)] Cons.prems(3) pk by simp
  qed
qed

lemma undo_loop_append:
  "undo_loop os dm data (ps @ qs) s = do {
     (err, s) \<leftarrow> undo_loop os dm data ps s;
     if err \<noteq> NOSTR_DB_OK then Some (err, s) else undo_loop os dm data qs s
   }"
  by (induction ps arbitrary: s) (auto split: Option.bind_splits)

lemma undo_loop_up:
  assumes "list_all2 (entry_at data) ps xs" "up s" "0 \<le> dm_fd dm" "holds dm (view (dm_fd dm) s) P"
    and "\<forall>e \<in> set xs. entry_wf e" "pids_ok (total_pages dm) xs" "\<And>tx. tx_committed data tx = committed es tx"
  shows "\<exists>s'. undo_loop os dm data (rev (filter (\<lambda>pos. hdr_type data pos = WAL_RECORD_UPDATE \<and>
      \<not> tx_committed data (hdr_tx_id data pos)) ps)) s = Some (NOSTR_DB_OK, s') \<and> up s' \<and>
    holds dm (view (dm_fd dm) s') (foldr (undo_entry es) xs P)"
  using assms(1,5,6)
proof (induction rule: list_all2_induct)
  case Nil
  then show ?case using assms(2,4) by simp
next
  case (Cons pos ps e xs)
  note f = entry_at_fields [OF Cons.hyps(1)]
  have wf: "entry_wf e" using Cons.prems by simp
  have "pids_ok (total_pages dm) xs" using Cons.prems(2) by (simp add: pids_ok_def)
  then obtain s1 where IH: "undo_loop os dm data (rev (filter (\<lambda>pos. hdr_type data pos = WAL_RECORD_UPDATE \<and>
      \<not> tx_committed data (hdr_tx_id data pos)) ps)) s = Some (NOSTR_DB_OK, s1)" "up s1"
    "holds dm (view (dm_fd dm) s1) (foldr (undo_entry es) xs P)" using Cons.IH Cons.prems(1) by auto
  let ?P = "foldr (undo_entry es) xs P"
  show ?case
  proof (cases "op_type (e_op e) = WAL_RECORD_UPDATE \<and> \<not> committed es (e_tx e)")
    case False
    then have "undo_entry es e ?P = ?P" by (auto simp: undo_entry_def split: log_op.splits)
    then show ?thesis using False f [OF wf] assms(7) IH by auto
  next
    case True
    then obtain pid off old new where op: "e_op e = LUpdate pid off old new" using update_types(1) by blast
    have p: "0 < pid" "pid < total_pages dm" using Cons.prems(2) op by (simp_all add: pids_ok_def)
    obtain s2 where r: "undo_record os dm data pos s1 = Some (NOSTR_DB_OK, s2)" "up s2"
      "holds dm (view (dm_fd dm) s2) (?P(pid := blit (?P pid) off old))"
      by (rule undo_record_up [OF IH(2) assms(3) IH(3) Cons.hyps(1) wf op p])
    have "undo_entry es e ?P = ?P(pid := blit (?P pid) off old)" using True op by (simp add: undo_entry_def)
    then have "holds dm (view (dm_fd dm) s2) (undo_entry es e ?P)" using r(3) by (simp only:)
    then show ?thesis using True f [OF wf] assms(7) IH(1) r(1,2) by (auto simp: undo_loop_append)
  qed
qed

end

section \<open>Recovery as a whole\<close>

context reliable_posix
begin

lemma wal_read_loop_up:
  assumes "up s" "n = length (view fd s)" "t \<le> n" "length buf = n" "slice buf 0 t = slice (view fd s) 0 t"
  shows "\<exists>s'. wal_read_loop os fd n t buf s = (Some (view fd s), s') \<and> up s' \<and> (\<forall>g. view g s' = view g s)"
proof (cases "t < n")
  case False
  then have "buf = view fd s" using assms by simp
  then show ?thesis using False assms by (subst wal_read_loop.simps) auto
next
  case True
  obtain bs s1 where r: "os_pread os fd (n - t) t s = (int (n - t), bs, s1)" "up s1"
    using pread_up [OF assms(1), of t "n - t" fd] assms(2) True by auto
  have bs: "bs = slice (view fd s) t (n - t)" "length bs = n - t" "\<And>g. view g s1 = view g s"
    using pread_full [OF r(1)] by simp_all
  have "blit buf t bs = slice buf 0 t @ bs"
    using bs(2) True assms(3,4) by (simp add: blit_def slice_def)
  also have "\<dots> = take t (view fd s) @ drop t (view fd s)"
    using bs(1) assms(2,5) by (simp add: slice_def)
  finally have b: "blit buf t bs = view fd s" by simp
  have k: "t + nat (int n - int t) = n" using True by simp
  have "wal_read_loop os fd n t buf s = wal_read_loop os fd n n (view fd s) s1"
    using True r(1) b by (subst wal_read_loop.simps) (simp add: k)
  also have "\<dots> = (Some (view fd s), s1)" by (subst wal_read_loop.simps) simp
  finally show ?thesis using r(2) bs(3) by blast
qed

lemma wal_mmap_file_up:
  assumes "up s" "view fd s \<noteq> []"
  obtains s' where "wal_mmap_file os fd True s = (Some (view fd s), s')" "up s'" "\<And>g. view g s' = view g s"
proof -
  obtain s1 where st: "os_fstat_size os fd s = (0, length (view fd s), s1)" "up s1" using fstat_up [OF assms(1)] by blast
  have v: "view g s1 = view g s" for g using fstat_law [OF st(1)] by blast
  obtain s2 where "wal_read_loop os fd (length (view fd s1)) 0 (replicate (length (view fd s1)) 0) s1 = (Some (view fd s1), s2)"
    "up s2" "\<And>g. view g s2 = view g s1"
    using wal_read_loop_up [OF st(2), of "length (view fd s1)" fd 0 "replicate (length (view fd s1)) 0"] by auto
  then show thesis using that [of s2] st v assms(2) by (simp add: wal_mmap_file_def)
qed

lemma fold_max_ge:
  fixes f :: "'a \<Rightarrow> nat"
  shows "m \<le> fold (\<lambda>x m. if f x > m then f x else m) xs m"
    "x \<in> set xs \<Longrightarrow> f x \<le> fold (\<lambda>x m. if f x > m then f x else m) xs m"
proof -
  have "m \<le> fold (\<lambda>x m. if f x > m then f x else m) xs m \<and> (\<forall>x \<in> set xs. f x \<le> fold (\<lambda>x m. if f x > m then f x else m) xs m)"
  proof (induction xs arbitrary: m)
    case Nil
    then show ?case by simp
  next
    case (Cons a xs)
    show ?case using Cons.IH [of "if f a > m then f a else m"] by (auto split: if_splits)
  qed
  then show "m \<le> fold (\<lambda>x m. if f x > m then f x else m) xs m"
    "x \<in> set xs \<Longrightarrow> f x \<le> fold (\<lambda>x m. if f x > m then f x else m) xs m" by blast+
qed

lemma fold_max_less:
  fixes f :: "'a \<Rightarrow> nat"
  shows "(\<And>x. x \<in> set xs \<Longrightarrow> f x < b) \<Longrightarrow> m < b \<Longrightarrow> fold (\<lambda>x m. if f x > m then f x else m) xs m < b"
  by (induction xs arbitrary: m) auto

lemma since_checkpoint_subset: "e \<in> set (since_checkpoint es) \<Longrightarrow> e \<in> set es"
  using since_checkpoint_suffix [of es] by (metis UnCI set_append)

lemma recover_pids: "pids_ok n es \<Longrightarrow> pids_ok n (since_checkpoint es)"
  "\<forall>e \<in> set es. entry_wf e \<Longrightarrow> \<forall>e \<in> set (since_checkpoint es). entry_wf e"
  by (auto simp: pids_ok_def dest: since_checkpoint_subset)

lemma undo_phase_loop:
  "undo_phase os dm data st True s =
   undo_loop os dm data (rev (filter (\<lambda>pos. hdr_type data pos = WAL_RECORD_UPDATE \<and>
      \<not> tx_committed data (hdr_tx_id data pos)) (wal_positions data st))) s"
  by (auto simp: undo_phase_def Let_def simp del: filter_empty_conv)

lemma wal_recover_up:
  assumes "up s" "0 \<le> wal_fd wal" "0 \<le> dm_fd dm" "holds dm (view (dm_fd dm) s) P"
    and log: "view (wal_fd wal) s = entries_bytes es @ tail" "length tail < 32" "es \<noteq> []"
    and wf: "\<forall>e \<in> set es. entry_wf e" "pids_ok (total_pages dm) es"
  obtains wal' s' where "wal_recover os wal dm (\<lambda>_. True) s = Some (NOSTR_DB_OK, wal', s')"
    "holds dm (view (dm_fd dm) s') (recover_pages es P)" "durable (dm_fd dm) s' = view (dm_fd dm) s'"
    "\<forall>e \<in> set es. e_lsn e + 1 < 2 ^ 64 \<Longrightarrow> \<forall>e \<in> set es. e_lsn e < next_lsn wal'"
    "\<forall>e \<in> set es. e_tx e + 1 < 2 ^ 32 \<Longrightarrow> \<forall>e \<in> set es. e_tx e < next_tx_id wal'"
proof -
  let ?data = "entries_bytes es @ tail" and ?xs = "since_checkpoint es"
  obtain e1 where e1: "e1 \<in> set es" using log(3) by (cases es) auto
  have "entries_bytes es \<noteq> []" using log(3) by (cases es) (simp_all add: entries_bytes_def entry_bytes_def wal_header_def put_le_def blit_def)
  then obtain s1 where m: "wal_mmap_file os (wal_fd wal) True s = (Some ?data, s1)" "up s1" "\<And>g. view g s1 = view g s"
    using wal_mmap_file_up [OF assms(1), of "wal_fd wal"] log(1) by auto
  obtain st where st: "(case find_last_checkpoint ?data of None \<Rightarrow> 0 | Some p \<Rightarrow> p) = st"
    "wal_positions ?data st = entry_positions st ?xs" "list_all2 (entry_at ?data) (entry_positions st ?xs) ?xs"
    by (rule recovery_start [OF refl log(2) wf(1)])
  note tc = tx_committed_entries [OF refl log(2) wf(1)]
  have h1: "holds dm (view (dm_fd dm) s1) P" using assms(4) m(3) by simp
  obtain s2 where r: "redo_phase os dm ?data st s1 = Some (NOSTR_DB_OK, s2)" "up s2"
    "holds dm (view (dm_fd dm) s2) (fold (redo_entry es) ?xs P)"
    using redo_loop_up [OF st(3) m(2) assms(3) h1 recover_pids(2) [OF wf(1)] recover_pids(1) [OF wf(2)] tc]
    by (auto simp: redo_phase_def st(2))
  obtain s3 where u: "undo_phase os dm ?data st True s2 = Some (NOSTR_DB_OK, s3)" "up s3"
    "holds dm (view (dm_fd dm) s3) (recover_pages es P)"
    using undo_loop_up [OF st(3) r(2) assms(3) r(3) recover_pids(2) [OF wf(1)] recover_pids(1) [OF wf(2)] tc]
    by (auto simp: undo_phase_loop st(2) recover_pages_def)
  obtain s4 where y: "os_fdatasync os (dm_fd dm) s3 = (0, s4)" using fdatasync_up [OF u(2)] by blast
  have v4: "view g s4 = view g s3" "durable (dm_fd dm) s4 = view (dm_fd dm) s4" for g
    using fdatasync_view [OF y] fdatasync_law [OF y] by simp_all
  let ?lsn = "fold (\<lambda>pos m. if hdr_lsn ?data pos > m then hdr_lsn ?data pos else m) (wal_positions ?data 0) 0"
  let ?tx = "fold (\<lambda>pos m. if hdr_tx_id ?data pos > m then hdr_tx_id ?data pos else m) (wal_positions ?data 0) 0"
  let ?wal = "wal\<lparr>next_lsn := (?lsn + 1) mod 2 ^ 64, next_tx_id := (?tx + 1) mod 2 ^ 32, flushed_lsn := ?lsn\<rparr>"
  have res: "wal_recover os wal dm (\<lambda>_. True) s = Some (NOSTR_DB_OK, ?wal, s4)"
    using assms(2,3) m(1) st(1) r(1) u(1) y by (simp add: wal_recover_def disk_sync_def Let_def)
  have pos: "wal_positions ?data 0 = entry_positions 0 es" using wal_positions_entries [of ?data "[]" es tail 0] log(2) wf(1) by simp
  have at: "list_all2 (entry_at ?data) (entry_positions 0 es) es" using entries_at [of ?data "[]" es tail 0] by simp
  have to: "\<exists>pos \<in> set (entry_positions 0 es). entry_at ?data pos e" if "e \<in> set es" for e
    by (rule list_all2_right [OF at that])
  have bwd: "\<exists>e \<in> set es. entry_at ?data pos e" if "pos \<in> set (entry_positions 0 es)" for pos
    by (rule list_all2_left [OF at that])
  have lsn: "\<forall>e \<in> set es. e_lsn e < next_lsn ?wal" if b: "\<forall>e \<in> set es. e_lsn e + 1 < 2 ^ 64"
  proof -
    have "?lsn < 2 ^ 64 - 1"
      unfolding pos using b wf(1) by (intro fold_max_less) (auto simp: entry_at_fields less_diff_conv dest: bwd)
    moreover have "e_lsn e \<le> ?lsn" if "e \<in> set es" for e
    proof -
      obtain q where q: "q \<in> set (entry_positions 0 es)" "entry_at ?data q e" using to [OF \<open>e \<in> set es\<close>] by blast
      then have "hdr_lsn ?data q = e_lsn e" using wf(1) that by (simp add: entry_at_fields)
      then show ?thesis using fold_max_ge(2) [OF q(1), of "hdr_lsn ?data" 0] by (simp add: pos)
    qed
    ultimately show ?thesis by (simp add: less_Suc_eq_le)
  qed
  have tx: "\<forall>e \<in> set es. e_tx e < next_tx_id ?wal" if b: "\<forall>e \<in> set es. e_tx e + 1 < 2 ^ 32"
  proof -
    have "?tx < 2 ^ 32 - 1"
      unfolding pos using b wf(1) by (intro fold_max_less) (auto simp: entry_at_fields less_diff_conv dest: bwd)
    moreover have "e_tx e \<le> ?tx" if "e \<in> set es" for e
    proof -
      obtain q where q: "q \<in> set (entry_positions 0 es)" "entry_at ?data q e" using to [OF \<open>e \<in> set es\<close>] by blast
      then have "hdr_tx_id ?data q = e_tx e" using wf(1) that by (simp add: entry_at_fields)
      then show ?thesis using fold_max_ge(2) [OF q(1), of "hdr_tx_id ?data" 0] by (simp add: pos)
    qed
    ultimately show ?thesis by (simp add: less_Suc_eq_le)
  qed
  show thesis
    using that [OF res _ _ lsn tx] u(3) v4 by simp
qed

end

section \<open>The effect of recovery on a byte\<close>

definition touches :: "log_entry \<Rightarrow> nat \<Rightarrow> nat \<Rightarrow> bool" where
  "touches e p i \<longleftrightarrow> (case e_op e of LUpdate pid off old new \<Rightarrow> p = pid \<and> off \<le> i \<and> i < off + length old | _ \<Rightarrow> False)"

definition before_byte :: "log_entry \<Rightarrow> nat \<Rightarrow> byte" where
  "before_byte e i = (case e_op e of LUpdate pid off old new \<Rightarrow> old ! (i - off) | _ \<Rightarrow> 0)"

definition after_byte :: "log_entry \<Rightarrow> nat \<Rightarrow> byte" where
  "after_byte e i = (case e_op e of LUpdate pid off old new \<Rightarrow> new ! (i - off) | _ \<Rightarrow> 0)"

text \<open>The pages after the update, whether its transaction commits or not.\<close>

definition apply_entry :: "log_entry \<Rightarrow> pages \<Rightarrow> pages" where
  "apply_entry e P = (case e_op e of LUpdate pid off old new \<Rightarrow> P(pid := blit (P pid) off new) | _ \<Rightarrow> P)"

text \<open>The before-images of the log are what the pages held when the record was written.\<close>

primrec history :: "pages \<Rightarrow> log_entry list \<Rightarrow> bool" where
  "history P [] = True"
| "history P (e # es) \<longleftrightarrow>
     (case e_op e of LUpdate pid off old new \<Rightarrow> slice (P pid) off (length old) = old | _ \<Rightarrow> True) \<and>
     history (apply_entry e P) es"

text \<open>The pages with the updates of the committed transactions and no other.\<close>

definition committed_pages :: "log_entry list \<Rightarrow> pages \<Rightarrow> pages" where
  "committed_pages es P = fold (redo_entry es) es P"

definition full_pages :: "pages \<Rightarrow> bool" where
  "full_pages P \<longleftrightarrow> (\<forall>p. length (P p) = 4096)"

lemma entry_byte:
  assumes "full_pages P" "entry_wf e" "i < 4096"
  shows "redo_entry es e P p ! i = (if committed es (e_tx e) \<and> touches e p i then after_byte e i else P p ! i)"
    "undo_entry es e P p ! i = (if \<not> committed es (e_tx e) \<and> touches e p i then before_byte e i else P p ! i)"
    "apply_entry e P p ! i = (if touches e p i then after_byte e i else P p ! i)"
    "full_pages (redo_entry es e P)" "full_pages (undo_entry es e P)" "full_pages (apply_entry e P)"
  using assms
  by (cases "e_op e"; force simp: redo_entry_def undo_entry_def apply_entry_def touches_def after_byte_def
      before_byte_def full_pages_def entry_wf_def nth_blit)+

lemma fold_redo_byte:
  assumes "\<forall>e \<in> set xs. entry_wf e" "i < 4096" "full_pages P" "full_pages Q"
  shows "full_pages (fold (redo_entry es) xs P)"
    "(\<exists>e \<in> set xs. committed es (e_tx e) \<and> touches e p i) \<or> P p ! i = Q p ! i \<Longrightarrow>
     fold (redo_entry es) xs P p ! i = fold (redo_entry es) xs Q p ! i"
    "\<not> (\<exists>e \<in> set xs. committed es (e_tx e) \<and> touches e p i) \<Longrightarrow> fold (redo_entry es) xs P p ! i = P p ! i"
proof -
  have "full_pages (fold (redo_entry es) xs P) \<and>
    ((\<exists>e \<in> set xs. committed es (e_tx e) \<and> touches e p i) \<or> P p ! i = Q p ! i \<longrightarrow>
     fold (redo_entry es) xs P p ! i = fold (redo_entry es) xs Q p ! i) \<and>
    (\<not> (\<exists>e \<in> set xs. committed es (e_tx e) \<and> touches e p i) \<longrightarrow> fold (redo_entry es) xs P p ! i = P p ! i)"
    using assms
  proof (induction xs arbitrary: P Q)
    case Nil
    then show ?case by simp
  next
    case (Cons e xs)
    have wf: "entry_wf e" using Cons.prems by simp
    note b = entry_byte [OF Cons.prems(3) wf Cons.prems(2)] and c = entry_byte [OF Cons.prems(4) wf Cons.prems(2)]
    show ?case using Cons.IH [OF _ Cons.prems(2) b(4) c(4)] Cons.prems(1) b(1) [of es p] c(1) [of es p]
      by (auto split: if_splits)
  qed
  then show "full_pages (fold (redo_entry es) xs P)"
    "(\<exists>e \<in> set xs. committed es (e_tx e) \<and> touches e p i) \<or> P p ! i = Q p ! i \<Longrightarrow>
     fold (redo_entry es) xs P p ! i = fold (redo_entry es) xs Q p ! i"
    "\<not> (\<exists>e \<in> set xs. committed es (e_tx e) \<and> touches e p i) \<Longrightarrow> fold (redo_entry es) xs P p ! i = P p ! i"
    by blast+
qed

lemma foldr_undo_byte:
  assumes "\<forall>e \<in> set xs. entry_wf e" "i < 4096" "full_pages P"
  shows "full_pages (foldr (undo_entry es) xs P) \<and> foldr (undo_entry es) xs P p ! i =
    (case List.find (\<lambda>e. \<not> committed es (e_tx e) \<and> touches e p i) xs of Some e \<Rightarrow> before_byte e i | None \<Rightarrow> P p ! i)"
  using assms(1)
proof (induction xs)
  case Nil
  then show ?case using assms(3) by simp
next
  case (Cons e xs)
  then show ?case using entry_byte(2) [of "foldr (undo_entry es) xs P" e i es p]
    entry_byte(5) [of "foldr (undo_entry es) xs P" e i es] assms(2) by simp
qed

lemma slice_eq_nth:
  assumes "slice q off (length old) = old" "off \<le> i" "i < off + length old"
  shows "old ! (i - off) = q ! i"
proof -
  have "length old \<le> length q - off" using arg_cong [OF assms(1), of length] by simp
  then show ?thesis using nth_slice [of "i - off" "length old" off q] assms by simp
qed

text \<open>The first update of a byte has the initial value as its before-image.\<close>

lemma history_first:
  assumes "history P xs" "\<forall>e \<in> set xs. entry_wf e" "i < 4096" "full_pages P"
    and "List.find (\<lambda>e. Q e \<and> touches e p i) xs = Some e" "\<And>e. e \<in> set xs \<Longrightarrow> touches e p i \<Longrightarrow> Q e"
  shows "before_byte e i = P p ! i"
  using assms(1,2,4,5,6)
proof (induction xs arbitrary: P)
  case Nil
  then show ?case by simp
next
  case (Cons x xs)
  have wf: "entry_wf x" using Cons.prems by simp
  note b = entry_byte [OF Cons.prems(3) wf assms(3)]
  show ?case
  proof (cases "touches x p i")
    case True
    then have "x = e" using Cons.prems(4,5) by simp
    then show ?thesis using True Cons.prems(1)
      by (cases "e_op e") (auto simp: touches_def before_byte_def slice_eq_nth)
  next
    case False
    then have "before_byte e i = apply_entry x P p ! i"
      using Cons.prems b(6) by (intro Cons.IH) (simp_all)
    then show ?thesis using b(3) False by simp
  qed
qed

text \<open>
  The page store at the time of the crash may hold any part of the updates of the log: bytes
  no update names are as at the start of the log.
\<close>

definition crash_of :: "log_entry list \<Rightarrow> pages \<Rightarrow> pages \<Rightarrow> bool" where
  "crash_of es P Q \<longleftrightarrow> full_pages Q \<and>
     (\<forall>p i. i < 4096 \<and> Q p ! i \<noteq> P p ! i \<longrightarrow> (\<exists>e \<in> set es. touches e p i))"

text \<open>No byte is written both by a committed transaction and by one that is not.\<close>

definition isolated :: "log_entry list \<Rightarrow> bool" where
  "isolated es \<longleftrightarrow> (\<forall>e \<in> set es. \<forall>f \<in> set es. \<forall>p i. touches e p i \<and> touches f p i \<longrightarrow>
     committed es (e_tx e) = committed es (e_tx f))"

lemma since_checkpoint_none: "\<forall>e \<in> set es. \<not> is_checkpoint e \<Longrightarrow> since_checkpoint es = es"
  using since_checkpoint_suffix [of es] by auto

lemma recover_pages_committed:
  assumes "history P es" "\<forall>e \<in> set es. entry_wf e" "full_pages P" "crash_of es P Q" "isolated es"
    and "\<forall>e \<in> set es. \<not> is_checkpoint e"
  shows "recover_pages es Q p = committed_pages es P p"
proof (rule nth_equalityI)
  have Q: "full_pages Q" using assms(4) by (simp add: crash_of_def)
  have full: "full_pages (fold (redo_entry es) es Q)" "full_pages (fold (redo_entry es) es P)"
    using fold_redo_byte(1) [OF assms(2), of 0] Q assms(3) by auto
  have r: "recover_pages es Q = foldr (undo_entry es) es (fold (redo_entry es) es Q)"
    by (simp add: recover_pages_def since_checkpoint_none [OF assms(6)])
  have len: "length (recover_pages es Q p) = 4096" "length (committed_pages es P p) = 4096"
    using foldr_undo_byte [OF assms(2) _ full(1), of 0] full(2) by (simp_all add: r committed_pages_def full_pages_def)
  then show "length (recover_pages es Q p) = length (committed_pages es P p)" by simp
  fix i assume "i < length (recover_pages es Q p)"
  then have i: "i < 4096" using len by simp
  let ?un = "\<lambda>e. \<not> committed es (e_tx e) \<and> touches e p i"
  note u = foldr_undo_byte [OF assms(2) i full(1), of es p]
  show "recover_pages es Q p ! i = committed_pages es P p ! i"
  proof (cases "List.find ?un es")
    case None
    then have none: "\<not> (\<exists>e \<in> set es. ?un e)" by (simp add: find_None_iff)
    then have "(\<exists>e \<in> set es. committed es (e_tx e) \<and> touches e p i) \<or> Q p ! i = P p ! i"
      using assms(4) i by (fastforce simp: crash_of_def)
    then show ?thesis using fold_redo_byte(2) [OF assms(2) i Q assms(3), of es p] u None by (simp add: r committed_pages_def)
  next
    case (Some e)
    then have e: "e \<in> set es" "?un e" by (auto simp: find_Some_iff)
    have un: "\<not> committed es (e_tx f)" if "f \<in> set es" "touches f p i" for f
      using assms(5) e that by (auto simp: isolated_def)
    have "before_byte e i = P p ! i"
      using history_first [OF assms(1,2) i assms(3) Some] un by simp
    moreover have "fold (redo_entry es) es P p ! i = P p ! i" using fold_redo_byte(3) [OF assms(2) i assms(3,3), of es p] un by blast
    ultimately show ?thesis using u Some by (simp add: r committed_pages_def)
  qed
qed

section \<open>Writing entries\<close>

context posix
begin

lemma wal_log_update_ok:
  assumes ok: "wal_ok wal (view (wal_fd wal) s)" and log: "log_bytes wal (view (wal_fd wal) s) = entries_bytes es"
    and up: "wal_log_update os wal tx pid off n old new s = Some (lsn, wal', s')" "lsn \<noteq> LSN_NULL"
    and len: "length old = n" "length new = n" "n \<le> 4096"
  shows "log_bytes wal' (view (wal_fd wal) s') =
      entries_bytes (es @ [\<lparr>e_lsn = lsn, e_prev = prev_lsn_of wal tx, e_tx = tx, e_op = LUpdate pid off old new\<rparr>])"
    "wal_ok wal' (view (wal_fd wal) s')" "wal_fd wal' = wal_fd wal" "lsn = next_lsn wal"
proof -
  have n: "0 < n" using up by (cases "0 < n") (simp_all add: wal_log_update_def)
  have ap: "wal_append os wal tx WAL_RECORD_UPDATE (8 + 2 * n) (update_payload pid off n old new) s = Some (lsn, wal', s')"
    using up(1) n len by (simp add: wal_log_update_def mult.commute)
  have pl: "length (update_payload pid off n old new) = 8 + 2 * n" using len by (simp add: update_payload_def)
  note A = wal_append_ok [OF ok pl ap up(2)]
  show "log_bytes wal' (view (wal_fd wal) s') =
      entries_bytes (es @ [\<lparr>e_lsn = lsn, e_prev = prev_lsn_of wal tx, e_tx = tx, e_op = LUpdate pid off old new\<rparr>])"
    using A(2,3) log pl len(1) by (simp add: entries_bytes_def entry_bytes_def)
  show "wal_ok wal' (view (wal_fd wal) s')" "wal_fd wal' = wal_fd wal" "lsn = next_lsn wal" using A by blast+
qed

end

context reliable_posix
begin

lemma wal_flush_up:
  assumes "up s" "0 \<le> wal_fd wal" "wal_ok wal (view (wal_fd wal) s)"
  obtains wal' s' where "wal_flush os wal s = Some (NOSTR_DB_OK, wal', s')" "up s'"
proof (cases "buffer_used wal = 0")
  case True
  then show thesis using that assms(1) by (simp add: wal_flush_def)
next
  case False
  let ?bs = "slice (buffer wal) 0 (buffer_used wal)"
  have len: "length ?bs = buffer_used wal" using assms(3) by (simp add: wal_ok_def)
  obtain s1 where w: "os_pwrite os (wal_fd wal) ?bs (file_offset wal) s = (int (buffer_used wal), s1)" "up s1"
    using pwrite_up [OF assms(1), of "wal_fd wal" ?bs "file_offset wal"] len by auto
  have loop: "wal_write_loop os (wal_fd wal) (buffer wal) (buffer_used wal) (file_offset wal) 0 s = Some (True, s1)"
    using False w(1) by (subst wal_write_loop.simps) (simp add: wal_write_loop.simps)
  obtain s2 where y: "os_fdatasync os (wal_fd wal) s1 = (0, s2)" "up s2" using fdatasync_up [OF w(2)] by blast
  show thesis using that [OF _ y(2)] False assms(2) loop y(1) by (simp add: wal_flush_def Let_def)
qed

lemma wal_log_commit_up:
  assumes "up s" "wal_ok wal (view (wal_fd wal) s)" "buffer_used wal + 32 \<le> WAL_BUFFER_SIZE" "0 < next_lsn wal"
  obtains wal' s' where "wal_log_commit os wal tx s = Some (NOSTR_DB_OK, wal', s')" "up s'"
proof -
  let ?rec = "wal_header (next_lsn wal) (prev_lsn_of wal tx) tx WAL_RECORD_COMMIT 0"
  have sz: "buffer_size wal = WAL_BUFFER_SIZE" "length (buffer wal) = WAL_BUFFER_SIZE" using assms(2) by (simp_all add: wal_ok_def)
  obtain w1 where ap: "write_simple_record os wal tx WAL_RECORD_COMMIT s = Some (next_lsn wal, w1, s)"
    using assms(3) sz by (simp add: write_simple_record_def wal_append_def ensure_buffer_space_def Let_def)
  have lsn: "next_lsn wal \<noteq> LSN_NULL" using assms(4) by simp
  have len0: "length [] = (0 :: nat)" by simp
  note A = wal_append_ok [OF assms(2) len0 ap [unfolded write_simple_record_def] lsn]
  have rm: "wal_fd (remove_active_tx w1 tx) = wal_fd w1" "wal_ok (remove_active_tx w1 tx) c = wal_ok w1 c" for c
    by (simp_all add: remove_active_tx_def Let_def wal_ok_def)
  have fd: "0 \<le> wal_fd (remove_active_tx w1 tx)" using assms(2) A(5) rm(1) by (simp add: wal_ok_def)
  have ok: "wal_ok (remove_active_tx w1 tx) (view (wal_fd (remove_active_tx w1 tx)) s)" using A(1,5) rm by simp
  show thesis
    by (rule wal_flush_up [OF assms(1) fd ok]) (use ap lsn that in \<open>simp add: wal_log_commit_def\<close>)
qed

end

section \<open>Properties\<close>

text \<open>
  C18: A commit that reports success has made the whole log durable: on the stable storage stand
  all earlier records, in order, followed by the commit record.
\<close>

theorem wal_commit_durable:
  assumes "posix os view durable" "wal_ok wal (view (wal_fd wal) s)"
    and "wal_log_commit os wal tx_id s = Some (NOSTR_DB_OK, wal', s')"
  shows "durable (wal_fd wal) s' = log_bytes wal (view (wal_fd wal) s) @
      wal_header (next_lsn wal) (prev_lsn_of wal tx_id) tx_id WAL_RECORD_COMMIT 0 \<and>
    wal_ok wal' (view (wal_fd wal) s')"
  using posix.wal_log_commit_ok [OF assms] by simp

definition wal_ex :: wal_manager where
  "wal_ex = wal_zero\<lparr>wal_fd := 5, next_lsn := 1, next_tx_id := 1, buffer := replicate WAL_BUFFER_SIZE 0,
     buffer_size := WAL_BUFFER_SIZE\<rparr>"

lemma wal_ex_ok: "wal_ok wal_ex []" "log_bytes wal_ex [] = []" "wal_fd wal_ex = 5"
  by (simp_all add: wal_ok_def wal_ex_def wal_zero_def log_bytes_def)

lemma wal_ex_room: "buffer_used wal_ex + 32 \<le> WAL_BUFFER_SIZE" "0 < next_lsn wal_ex"
  by (simp_all add: wal_ex_def wal_zero_def)

lemma mem_init_up: "script (mem_init []) = []"
  by (simp add: mem_init_def)

theorem wal_commit_durable_witness:
  "\<exists>wal' s'. wal_log_commit mem_os wal_ex 1 (mem_init []) = Some (NOSTR_DB_OK, wal', s') \<and>
     mem_stable s' 5 = wal_header 1 0 1 WAL_RECORD_COMMIT 0"
proof -
  have ok: "wal_ok wal_ex (mem_view (mem_init []) (wal_fd wal_ex))" by (simp add: wal_ex_ok mem_init_def)
  obtain wal' s' where c: "wal_log_commit mem_os wal_ex 1 (mem_init []) = Some (NOSTR_DB_OK, wal', s')"
    by (rule mem.wal_log_commit_up [OF mem_init_up ok wal_ex_room]) blast
  show ?thesis
    using wal_commit_durable [OF posix_mem ok c] c wal_ex_ok
    by (simp add: mem_init_def) (simp add: wal_ex_def wal_zero_def prev_lsn_of_def find_active_tx_def Let_def)
qed

text \<open>
  What \<open>wal_log_update\<close> adds to the log is the encoding of one update entry with the
  LSN it returns and the two images, behind all earlier entries; the log stays well formed.
\<close>

theorem wal_log_update_appends:
  assumes "posix os view durable" "wal_ok wal (view (wal_fd wal) s)"
    and "log_bytes wal (view (wal_fd wal) s) = entries_bytes es"
    and "wal_log_update os wal tx pid off n old new s = Some (lsn, wal', s')" "lsn \<noteq> LSN_NULL"
    and "length old = n" "length new = n" "n \<le> 4096"
  shows "log_bytes wal' (view (wal_fd wal) s') =
      entries_bytes (es @ [\<lparr>e_lsn = lsn, e_prev = prev_lsn_of wal tx, e_tx = tx, e_op = LUpdate pid off old new\<rparr>]) \<and>
    wal_ok wal' (view (wal_fd wal) s') \<and> lsn = next_lsn wal"
  using posix.wal_log_update_ok [OF assms] by simp

theorem wal_log_update_appends_witness:
  "\<exists>wal' s'. wal_log_update mem_os wal_ex 1 2 3 1 [4] [5] (mem_init []) = Some (1, wal', s') \<and>
     log_bytes wal' (mem_view s' 5) =
       entries_bytes [\<lparr>e_lsn = 1, e_prev = 0, e_tx = 1, e_op = LUpdate 2 3 [4] [5]\<rparr>]"
proof -
  have ok: "wal_ok wal_ex (mem_view (mem_init []) (wal_fd wal_ex))" by (simp add: wal_ex_ok mem_init_def)
  have lg: "log_bytes wal_ex (mem_view (mem_init []) (wal_fd wal_ex)) = entries_bytes []"
    by (simp add: wal_ex_ok mem_init_def entries_bytes_def)
  have pr: "prev_lsn_of wal_ex 1 = 0" by (simp add: prev_lsn_of_def wal_ex_def wal_zero_def find_active_tx_def)
  obtain wal' where u: "wal_log_update mem_os wal_ex 1 2 3 1 [4] [5] (mem_init []) = Some (1, wal', mem_init [])"
    by (simp add: wal_log_update_def wal_append_def ensure_buffer_space_def wal_ex_def wal_zero_def update_payload_def)
  show ?thesis using wal_log_update_appends [OF posix_mem ok lg u] u pr wal_ex_ok(3) by simp
qed


text \<open>
  A log of three entries: transaction 1 sets byte 0 of page 1 and commits, transaction 2 sets byte
  0 of page 2 and does not. At the crash the file has the second update and lacks the first.
\<close>

definition ex_entries :: "log_entry list" where
  "ex_entries =
     [\<lparr>e_lsn = 1, e_prev = 0, e_tx = 1, e_op = LUpdate 1 0 [0] [1]\<rparr>,
      \<lparr>e_lsn = 2, e_prev = 0, e_tx = 2, e_op = LUpdate 2 0 [0] [2]\<rparr>,
      \<lparr>e_lsn = 3, e_prev = 1, e_tx = 1, e_op = LCommit\<rparr>]"

definition ex_dm :: disk_manager where
  "ex_dm = dm_zero\<lparr>dm_fd := 3, total_pages := 3\<rparr>"

definition zero_pages :: pages where
  "zero_pages p = replicate 4096 0"

definition ex_state :: "log_entry list \<Rightarrow> mem_state" where
  "ex_state es = (mem_init [])\<lparr>mem_view := (\<lambda>_. [])(3 := replicate 8192 0 @ 2 # replicate 4095 0, 5 := entries_bytes es)\<rparr>"

lemma ex_views: "mem_view (ex_state es) 3 = replicate 8192 0 @ 2 # replicate 4095 0"
  "mem_view (ex_state es) 5 = entries_bytes es" "script (ex_state es) = []"
  "dm_fd ex_dm = 3" "total_pages ex_dm = 3"
  by (simp_all add: ex_state_def mem_init_def ex_dm_def)

lemma ex_pages: "p < 3 \<Longrightarrow> page_at (mem_view (ex_state es) 3) p = (if p = 2 then 2 # replicate 4095 0 else replicate 4096 0)"
proof -
  assume "p < 3"
  then have "p = 0 \<or> p = 1 \<or> p = 2" by auto
  then show ?thesis unfolding ex_views page_at_def page_offset_def
    by (elim disjE) (simp_all add: slice_append2 slice_append1)
qed

lemma full_zero_pages: "full_pages zero_pages"
  by (simp add: full_pages_def zero_pages_def)


text \<open>
  After recovery the next LSN and the next transaction id lie above all those in the log, as
  long as the counters are not exhausted, so a new transaction is never taken for an old one.
\<close>

theorem wal_recover_fresh_ids:
  assumes "reliable_posix os view durable up" "up s" "0 \<le> wal_fd wal" "0 \<le> dm_fd dm"
    and "total_pages dm * DB_PAGE_SIZE \<le> length (view (dm_fd dm) s)"
    and "view (wal_fd wal) s = entries_bytes es @ tail" "length tail < 32" "es \<noteq> []"
    and "\<forall>e \<in> set es. entry_wf e" "pids_ok (total_pages dm) es"
    and "\<forall>e \<in> set es. e_lsn e + 1 < 2 ^ 64 \<and> e_tx e + 1 < 2 ^ 32"
  shows "\<exists>wal' s'. wal_recover os wal dm (\<lambda>_. True) s = Some (NOSTR_DB_OK, wal', s') \<and>
    (\<forall>e \<in> set es. e_lsn e < next_lsn wal' \<and> e_tx e < next_tx_id wal')"
  by (rule reliable_posix.wal_recover_up [OF assms(1-4) holds_page_at [OF assms(5)] assms(6-10)])
     (use assms(11) in auto)

theorem wal_recover_fresh_ids_witness:
  "\<exists>wal' s'. wal_recover mem_os wal_ex ex_dm (\<lambda>_. True) (ex_state ex_entries) = Some (NOSTR_DB_OK, wal', s') \<and>
     3 < next_lsn wal' \<and> 2 < next_tx_id wal'"
proof -
  have "\<exists>wal' s'. wal_recover mem_os wal_ex ex_dm (\<lambda>_. True) (ex_state ex_entries) = Some (NOSTR_DB_OK, wal', s') \<and>
    (\<forall>e \<in> set ex_entries. e_lsn e < next_lsn wal' \<and> e_tx e < next_tx_id wal')"
    by (rule wal_recover_fresh_ids [OF mem.reliable_posix_axioms, where tail = "[]"])
       (simp_all add: ex_views wal_ex_ok(3), simp_all add: ex_entries_def entry_wf_def pids_ok_def)
  then show ?thesis by (auto simp: ex_entries_def)
qed

text \<open>
  C19: Undo of an aborted transaction is not ordered with the redo of later ones. Transaction 1
  sets a byte from 0 to 1 and aborts; transaction 2 then sets it from 0 to 2 and commits: after
  recovery the byte is 0, the committed update is lost.
\<close>

definition abort_entries :: "log_entry list" where
  "abort_entries =
     [\<lparr>e_lsn = 1, e_prev = 0, e_tx = 1, e_op = LUpdate 2 0 [0] [1]\<rparr>,
      \<lparr>e_lsn = 2, e_prev = 1, e_tx = 1, e_op = LAbort\<rparr>,
      \<lparr>e_lsn = 3, e_prev = 0, e_tx = 2, e_op = LUpdate 2 0 [0] [2]\<rparr>,
      \<lparr>e_lsn = 4, e_prev = 3, e_tx = 2, e_op = LCommit\<rparr>]"

theorem wal_recover_loses_committed_update:
  "\<exists>wal' s'. wal_recover mem_os wal_ex ex_dm (\<lambda>_. True) (ex_state abort_entries) = Some (NOSTR_DB_OK, wal', s') \<and>
     page_at (mem_view (ex_state abort_entries) 3) 2 ! 0 = 2 \<and> page_at (mem_view s' 3) 2 ! 0 = 0"
proof -
  have com: "committed abort_entries tx \<longleftrightarrow> tx = 2" for tx by (auto simp: committed_def abort_entries_def)
  have cp: "since_checkpoint abort_entries = abort_entries" by (simp add: abort_entries_def is_checkpoint_def)
  let ?P = "page_at (mem_view (ex_state abort_entries) (dm_fd ex_dm))"
  have P: "?P 2 = 2 # replicate 4095 0" by (simp add: ex_pages ex_views(4))
  have pg: "recover_pages abort_entries ?P 2 ! 0 = 0"
    unfolding recover_pages_def cp using com P
    by (simp add: abort_entries_def redo_entry_def undo_entry_def blit_def)
  have h: "holds ex_dm (mem_view (ex_state abort_entries) (dm_fd ex_dm)) ?P" by (simp add: holds_def ex_views)
  have wf: "\<forall>e \<in> set abort_entries. entry_wf e" "pids_ok (total_pages ex_dm) abort_entries" "abort_entries \<noteq> []"
    by (simp_all add: abort_entries_def entry_wf_def pids_ok_def ex_views)
  obtain wal' s' where "wal_recover mem_os wal_ex ex_dm (\<lambda>_. True) (ex_state abort_entries) = Some (NOSTR_DB_OK, wal', s')"
    "holds ex_dm (mem_view s' (dm_fd ex_dm)) (recover_pages abort_entries ?P)"
    by (rule mem.wal_recover_up [OF _ _ _ h, of wal_ex abort_entries "[]"])
       (simp_all add: ex_views wal_ex_ok(3) wf wf(2) [unfolded ex_views])
  then show ?thesis using pg P by (simp add: holds_def ex_views)
qed

text \<open>
  C20: A log torn inside the payload of an update record is read past its end during undo: the
  scan accepts a record as soon as its header fits.
\<close>

definition torn_state :: mem_state where
  "torn_state = (mem_init [])\<lparr>mem_view := (\<lambda>_. [])(3 := replicate 12288 0, 5 := wal_header 1 0 1 WAL_RECORD_UPDATE 10)\<rparr>"


end
