(* ===== verification/WsFrame.thy ===== *)
theory WsFrame
  imports Prelude
begin

unbundle bit_operations_syntax

text \<open>
  The WebSocket frame codec: \<open>src/websocket/parser/to_entity.c\<close> (a raw buffer to a
  frame) and \<open>src/websocket/parser/to_packet.c\<close> (a frame to a raw buffer).

  The buffers behind the C pointers are byte lists and every access goes through
  \<open>peek\<close>, \<open>poke\<close> or \<open>byte_at\<close>: a result \<open>None\<close> says that the C code touches
  memory outside the buffer it was given. Sizes are \<open>nat\<close>; where the C subtraction of
  two \<open>size_t\<close> can wrap it is written with \<open>size_sub\<close>.
\<close>

section \<open>Data\<close>

text \<open>\<open>WebSocketOpCode\<close> and \<open>WebSocketEntity\<close> of \<open>src/websocket/websocket.h\<close>.\<close>

abbreviation (input) "WEBSOCKET_OP_CODE_TEXT \<equiv> (0x1 :: nat)"
abbreviation (input) "WEBSOCKET_OP_CODE_BINARY \<equiv> (0x2 :: nat)"
abbreviation (input) "WEBSOCKET_OP_CODE_CLOSE \<equiv> (0x8 :: nat)"
abbreviation (input) "WEBSOCKET_OP_CODE_PING \<equiv> (0x9 :: nat)"
abbreviation (input) "WEBSOCKET_OP_CODE_PONG \<equiv> (0xA :: nat)"

record ws_entity =
  fin :: byte
  rsv1 :: byte
  rsv2 :: byte
  rsv3 :: byte
  opcode :: nat
  mask :: byte
  payload_len :: byte
  ext_payload_len :: nat
  masking_key :: "byte list"
  payload :: "byte list"

definition byte_at :: "byte list \<Rightarrow> nat \<Rightarrow> byte option" where
  "byte_at p i = (if i < length p then Some (p ! i) else None)"

text \<open>Subtraction of two 64-bit unsigned sizes.\<close>

definition size_sub :: "nat \<Rightarrow> nat \<Rightarrow> nat" where
  "size_sub a b = (2 ^ 64 + a - b) mod 2 ^ 64"

section \<open>Parsing: to\_entity.c\<close>

text \<open>The first two bytes: flags, opcode, mask bit and 7-bit length.\<close>

definition ws_head :: "byte \<Rightarrow> byte \<Rightarrow> ws_entity \<Rightarrow> ws_entity" where
  "ws_head b0 b1 e = e\<lparr>
     fin := drop_bit 7 (b0 AND 0x80),
     rsv1 := drop_bit 6 (b0 AND 0x40),
     rsv2 := drop_bit 5 (b0 AND 0x20),
     rsv3 := drop_bit 4 (b0 AND 0x10),
     opcode := unat (b0 AND 0x0F),
     mask := drop_bit 7 (b1 AND 0x80),
     payload_len := b1 AND 0x7F\<rparr>"

text \<open>The loop that shifts eight length bytes into the 64-bit field.\<close>

definition ws_ext_len8 :: "nat \<Rightarrow> byte list \<Rightarrow> nat" where
  "ws_ext_len8 acc bs = foldl (\<lambda>v b. (v * 256) mod 2 ^ 64 + unat b) acc bs"

text \<open>The payload bytes, unmasked by the key when the mask bit is set.\<close>

definition ws_xor :: "byte \<Rightarrow> byte list \<Rightarrow> byte list \<Rightarrow> byte list" where
  "ws_xor m key bs = map (\<lambda>i. (bs ! i) XOR (if m \<noteq> 0 then key ! (i mod 4) else 0)) [0..<length bs]"

text \<open>From the length check to the end: copy the payload and terminate it.\<close>

definition ws_payload :: "byte list \<Rightarrow> nat \<Rightarrow> ws_entity \<Rightarrow> nat \<Rightarrow> (nat \<times> ws_entity) option" where
  "ws_payload raw capacity e packet_offset =
     (let n = ext_payload_len e in
      if n > size_sub capacity packet_offset then Some (0, e)
      else do {
        bs \<leftarrow> peek raw packet_offset n;
        p1 \<leftarrow> poke (payload e) 0 (ws_xor (mask e) (masking_key e) bs);
        p2 \<leftarrow> poke p1 n [0];
        Some (packet_offset + n, e\<lparr>payload := p2\<rparr>)
      })"

definition ws_mask_payload :: "byte list \<Rightarrow> nat \<Rightarrow> ws_entity \<Rightarrow> nat \<Rightarrow> (nat \<times> ws_entity) option" where
  "ws_mask_payload raw capacity e packet_offset =
     (if mask e \<noteq> 0 then
        if capacity < packet_offset + 4 then Some (0, e)
        else do {
          key \<leftarrow> peek raw packet_offset 4;
          ws_payload raw capacity (e\<lparr>masking_key := key\<rparr>) (packet_offset + 4)
        }
      else ws_payload raw capacity e packet_offset)"

text \<open>
  \<open>to_websocket_entity_consumed\<close>: the number of bytes consumed, 0 on failure, and the
  entity as the code leaves it.
\<close>

definition to_websocket_entity_consumed ::
    "byte list \<Rightarrow> nat \<Rightarrow> ws_entity \<Rightarrow> (nat \<times> ws_entity) option" where
  "to_websocket_entity_consumed raw capacity entity =
     (if capacity < 2 then Some (0, entity)
      else do {
        b0 \<leftarrow> byte_at raw 0;
        b1 \<leftarrow> byte_at raw 1;
        let e = ws_head b0 b1 entity;
        if payload_len e = 126 then
          (if capacity < 4 then Some (0, e)
           else do {
             b2 \<leftarrow> byte_at raw 2;
             b3 \<leftarrow> byte_at raw 3;
             let e = e\<lparr>ext_payload_len := unat b2 * 256 + unat b3\<rparr>;
             if ext_payload_len e > capacity then Some (0, e)
             else ws_mask_payload raw capacity e 4
           })
        else if payload_len e = 127 then
          (if capacity < 10 then Some (0, e)
           else do {
             bs \<leftarrow> peek raw 2 8;
             ws_mask_payload raw capacity (e\<lparr>ext_payload_len := ws_ext_len8 0 bs\<rparr>) 10
           })
        else ws_mask_payload raw capacity (e\<lparr>ext_payload_len := unat (payload_len e)\<rparr>) 2
      })"

text \<open>
  \<open>to_websocket_entity\<close>: the same, with the length checks this variant has. Its guard
  \<open>require_valid_length(capacity - 4, ...)\<close> tests an unsigned difference for
  \<open>\<le> 0\<close>, that is for 0; and the 64-bit length is accumulated on the old field value.
\<close>

definition to_websocket_entity ::
    "byte list \<Rightarrow> nat \<Rightarrow> ws_entity \<Rightarrow> (bool \<times> ws_entity) option" where
  "to_websocket_entity raw capacity entity =
     (if capacity < 2 then Some (False, entity)
      else do {
        b0 \<leftarrow> byte_at raw 0;
        b1 \<leftarrow> byte_at raw 1;
        let e = ws_head b0 b1 entity;
        if payload_len e = 126 then
          (if size_sub capacity 4 = 0 then Some (False, e)
           else do {
             b2 \<leftarrow> byte_at raw 2;
             b3 \<leftarrow> byte_at raw 3;
             let e = e\<lparr>ext_payload_len := unat b2 * 256 + unat b3\<rparr>;
             if ext_payload_len e > capacity then Some (False, e)
             else map_option (\<lambda>(n, e). (n > 0, e)) (ws_mask_payload raw capacity e 4)
           })
        else if payload_len e = 127 then
          (if capacity < 10 then Some (False, e)
           else do {
             bs \<leftarrow> peek raw 2 8;
             map_option (\<lambda>(n, e). (n > 0, e))
               (ws_mask_payload raw capacity
                 (e\<lparr>ext_payload_len := ws_ext_len8 (ext_payload_len e) bs\<rparr>) 10)
           })
        else
          map_option (\<lambda>(n, e). (n > 0, e))
            (ws_mask_payload raw capacity (e\<lparr>ext_payload_len := unat (payload_len e)\<rparr>) 2)
      })"

section \<open>Building: to\_packet.c\<close>

definition ws_byte0 :: "ws_entity \<Rightarrow> byte" where
  "ws_byte0 e = push_bit 7 (fin e AND 1) OR push_bit 6 (rsv1 e AND 1) OR
     push_bit 5 (rsv2 e AND 1) OR push_bit 4 (rsv3 e AND 1) OR
     ((word_of_nat (opcode e) :: byte) AND 0x0F)"

text \<open>
  The masking loops: four bytes at a time with the key indices written out, then the rest
  one by one. \<open>ws_mask_unrolled key bs i n\<close> is what they write from index \<open>i\<close> on.
\<close>

function ws_mask_tail :: "byte list \<Rightarrow> byte list \<Rightarrow> nat \<Rightarrow> nat \<Rightarrow> byte list" where
  "ws_mask_tail key bs i n =
     (if i < n then (bs ! i XOR key ! (i mod 4)) # ws_mask_tail key bs (Suc i) n else [])"
  by pat_completeness auto
termination
  by (relation "measure (\<lambda>(key, bs, i, n). n - i)") auto

function ws_mask_unrolled :: "byte list \<Rightarrow> byte list \<Rightarrow> nat \<Rightarrow> nat \<Rightarrow> byte list" where
  "ws_mask_unrolled key bs i n =
     (if i + 4 \<le> n then
        [bs ! (i + 0) XOR key ! 0, bs ! (i + 1) XOR key ! 1,
         bs ! (i + 2) XOR key ! 2, bs ! (i + 3) XOR key ! 3] @ ws_mask_unrolled key bs (i + 4) n
      else ws_mask_tail key bs i n)"
  by pat_completeness auto
termination
  by (relation "measure (\<lambda>(key, bs, i, n). n - i)") auto

declare ws_mask_tail.simps [simp del] ws_mask_unrolled.simps [simp del]

text \<open>The payload section: \<open>len\<close> is the local \<open>ext_payload_len\<close> at that point.\<close>

definition ws_put_payload ::
    "ws_entity \<Rightarrow> nat \<Rightarrow> nat \<Rightarrow> byte list \<Rightarrow> nat \<Rightarrow> (nat \<times> byte list) option" where
  "ws_put_payload e len capacity raw offset =
     (if capacity < offset + len then Some (0, raw)
      else do {
        bs \<leftarrow> peek (payload e) 0 len;
        raw \<leftarrow> poke raw offset (if mask e \<noteq> 0 then ws_mask_unrolled (masking_key e) bs 0 len else bs);
        Some (offset + len, raw)
      })"

definition ws_put_mask_payload ::
    "ws_entity \<Rightarrow> nat \<Rightarrow> nat \<Rightarrow> byte list \<Rightarrow> nat \<Rightarrow> (nat \<times> byte list) option" where
  "ws_put_mask_payload e len capacity raw offset =
     (if mask e \<noteq> 0 then
        if capacity < offset + 4 then Some (0, raw)
        else do {
          key \<leftarrow> peek (masking_key e) 0 4;
          raw \<leftarrow> poke raw offset key;
          ws_put_payload e len capacity raw (offset + 4)
        }
      else ws_put_payload e len capacity raw offset)"

text \<open>
  \<open>to_websocket_packet\<close>: the packet size, 0 on failure, and the buffer. The loop that
  writes the 64-bit length shifts the local length to the right as it goes, so the code
  after it sees \<open>len div 256 ^ 8\<close>.
\<close>

definition to_websocket_packet ::
    "ws_entity \<Rightarrow> nat \<Rightarrow> byte list \<Rightarrow> (nat \<times> byte list) option" where
  "to_websocket_packet e capacity raw =
     (if capacity < 2 then Some (0, raw)
      else do {
        raw \<leftarrow> poke raw 0 [ws_byte0 e];
        let m = (if mask e \<noteq> 0 then 0x80 else 0x00 :: byte);
        let len = ext_payload_len e;
        if len \<le> 125 \<and> mask e = 0 then do {
          raw \<leftarrow> poke raw 1 [word_of_nat len AND 0x7F];
          bs \<leftarrow> peek (payload e) 0 len;
          raw \<leftarrow> poke raw 2 bs;
          Some (2 + len, raw)
        }
        else if len > 125 \<and> len \<le> 0xFFFF then do {
          raw \<leftarrow> poke raw 1 [m OR 126];
          if capacity < 4 then Some (0, raw)
          else do {
            raw \<leftarrow> poke raw 2 [word_of_nat (len div 256), word_of_nat len];
            ws_put_mask_payload e len capacity raw 4
          }
        }
        else if len > 0xFFFF then do {
          raw \<leftarrow> poke raw 1 [m OR 127];
          if capacity < 10 then Some (0, raw)
          else do {
            raw \<leftarrow> poke raw 2 (rev (le_bytes 8 len));
            ws_put_mask_payload e (len div 256 ^ 8) capacity raw 10
          }
        }
        else do {
          raw \<leftarrow> poke raw 1 [m OR word_of_nat len];
          ws_put_mask_payload e len capacity raw 2
        }
      })"

section \<open>The frame layout and the codec against it\<close>

text \<open>
  \<open>ws_frame e\<close> is the byte layout RFC 6455 gives a frame: flags and opcode, mask bit and
  7-bit length, 0, 2 or 8 bytes of extended length in network order, the key if the frame is
  masked, and the payload, masked if the frame is.
\<close>

definition ws_wf :: "ws_entity \<Rightarrow> bool" where
  "ws_wf e \<longleftrightarrow> fin e \<le> 1 \<and> rsv1 e \<le> 1 \<and> rsv2 e \<le> 1 \<and> rsv3 e \<le> 1 \<and> mask e \<le> 1 \<and>
     opcode e < 16 \<and> ext_payload_len e < 2 ^ 63 \<and> length (masking_key e) = 4 \<and>
     ext_payload_len e \<le> length (payload e)"

definition ws_len7 :: "nat \<Rightarrow> nat" where
  "ws_len7 n = (if n \<le> 125 then n else if n \<le> 0xFFFF then 126 else 127)"

definition ws_ext_bytes :: "nat \<Rightarrow> byte list" where
  "ws_ext_bytes n =
     (if n \<le> 125 then []
      else if n \<le> 0xFFFF then [word_of_nat (n div 256), word_of_nat n]
      else rev (le_bytes 8 n))"

definition ws_content :: "ws_entity \<Rightarrow> byte list" where
  "ws_content e = take (ext_payload_len e) (payload e)"

definition ws_frame :: "ws_entity \<Rightarrow> byte list" where
  "ws_frame e =
     [ws_byte0 e, (if mask e \<noteq> 0 then 0x80 else 0) OR word_of_nat (ws_len7 (ext_payload_len e))] @
     ws_ext_bytes (ext_payload_len e) @
     (if mask e \<noteq> 0 then masking_key e else []) @
     ws_xor (mask e) (masking_key e) (ws_content e)"

lemma byte_le_1_AND_1: "(b :: byte) \<le> 1 \<Longrightarrow> b AND 1 = b"
proof -
  assume "b \<le> 1"
  then have "unat b \<le> 1" by (simp add: word_le_nat_alt)
  then consider "unat b = 0" | "unat b = 1" by linarith
  then have "unat (b AND 1) = unat b"
    by cases (simp_all only: unsigned_and_eq unsigned_1, simp_all)
  then show ?thesis by (simp only: word_unat_eq_iff)
qed

lemma AND_15_take_bit: "(w :: byte) AND 15 = take_bit 4 w"
proof -
  have "(15 :: byte) = 2 ^ 4 - 1" by simp
  then show ?thesis by (simp only: take_bit_eq_mask mask_eq_exp_minus_1)
qed

lemma AND_127_take_bit: "(w :: byte) AND 127 = take_bit 7 w"
proof -
  have "(127 :: byte) = 2 ^ 7 - 1" by simp
  then show ?thesis by (simp only: take_bit_eq_mask mask_eq_exp_minus_1)
qed

lemma ws_byte0_bits:
  "drop_bit 7 (ws_byte0 e AND 0x80) = fin e AND 1"
  "drop_bit 6 (ws_byte0 e AND 0x40) = rsv1 e AND 1"
  "drop_bit 5 (ws_byte0 e AND 0x20) = rsv2 e AND 1"
  "drop_bit 4 (ws_byte0 e AND 0x10) = rsv3 e AND 1"
  unfolding ws_byte0_def by (rule bit_word_eqI; auto simp: bit_simps)+

lemma ws_byte0_opcode: "ws_byte0 e AND 0x0F = word_of_nat (opcode e) AND 0x0F"
  unfolding ws_byte0_def AND_15_take_bit by (rule bit_word_eqI) (auto simp: bit_simps)

lemma byte_AND_15: "unat ((word_of_nat n :: byte) AND 0x0F) = n mod 16"
proof -
  have "unat (take_bit 4 (word_of_nat n :: byte)) = take_bit 4 (n mod 256)"
    by (simp only: unsigned_take_bit_eq unat_byte_of_nat)
  then show ?thesis by (simp only: AND_15_take_bit take_bit_eq_mod) (simp add: mod_mod_cancel)
qed

lemma byte_take_bit_7: "n \<le> 127 \<Longrightarrow> take_bit 7 (word_of_nat n :: byte) = word_of_nat n"
proof -
  assume "n \<le> 127"
  moreover have "unat (take_bit 7 (word_of_nat n :: byte)) = take_bit 7 (n mod 256)"
    by (simp only: unsigned_take_bit_eq unat_byte_of_nat)
  ultimately have "unat (take_bit 7 (word_of_nat n :: byte)) = unat (word_of_nat n :: byte)"
    by (simp only: unat_byte_of_nat take_bit_eq_mod) simp
  then show ?thesis by (simp only: word_unat_eq_iff)
qed

lemma ws_byte1_bits:
  assumes "n \<le> 127"
  shows "drop_bit 7 (((if m then 0x80 else 0) OR word_of_nat n) AND 0x80 :: byte) = (if m then 1 else 0)"
    and "((if m then 0x80 else 0) OR word_of_nat n) AND 0x7F = (word_of_nat n :: byte)"
proof -
  note n = byte_take_bit_7 [OF assms, symmetric]
  show "drop_bit 7 (((if m then 0x80 else 0) OR word_of_nat n) AND 0x80 :: byte) = (if m then 1 else 0)"
    by (subst n, rule bit_word_eqI) (auto simp: bit_simps)
  show "((if m then 0x80 else 0) OR word_of_nat n) AND 0x7F = (word_of_nat n :: byte)"
    using byte_take_bit_7 [OF assms]
    by (cases m) (simp_all only: AND_127_take_bit take_bit_or if_True if_False, simp_all)
qed

lemma ws_ext_len8_eq:
  "acc * 256 ^ length bs + le_val (rev bs) < 2 ^ 64 \<Longrightarrow>
   ws_ext_len8 acc bs = acc * 256 ^ length bs + le_val (rev bs)"
proof (induction bs arbitrary: acc)
  case Nil
  then show ?case by (simp add: ws_ext_len8_def)
next
  case (Cons b bs)
  let ?acc = "acc * 256 + unat b"
  have total: "?acc * 256 ^ length bs + le_val (rev bs) < 2 ^ 64"
    using Cons.prems by (simp add: le_val_append algebra_simps)
  have "acc * 256 * 1 \<le> ?acc * 256 ^ length bs" by (rule mult_le_mono) auto
  with total have "acc * 256 < 2 ^ 64" by linarith
  then have "ws_ext_len8 acc (b # bs) = ws_ext_len8 ?acc bs" by (simp add: ws_ext_len8_def)
  also have "\<dots> = ?acc * 256 ^ length bs + le_val (rev bs)" using total by (rule Cons.IH)
  finally show ?case by (simp add: le_val_append algebra_simps)
qed

lemma ws_ext_len8_rev: "n < 2 ^ 64 \<Longrightarrow> ws_ext_len8 0 (rev (le_bytes 8 n)) = n"
  using ws_ext_len8_eq [of 0 "rev (le_bytes 8 n)"] by (simp add: le_val_le_bytes)

lemma size_sub_ge: "b \<le> a \<Longrightarrow> a < 2 ^ 64 \<Longrightarrow> size_sub a b = a - b"
proof -
  assume "b \<le> a" "a < 2 ^ 64"
  then have "2 ^ 64 + a - b = 2 ^ 64 + (a - b)" and "a - b < 2 ^ 64" by auto
  then show ?thesis unfolding size_sub_def by (simp only: mod_add_self1 mod_less)
qed

lemma length_ws_xor [simp]: "length (ws_xor m key bs) = length bs"
  by (simp add: ws_xor_def)

lemma ws_xor_ws_xor: "ws_xor m key (ws_xor m key bs) = bs"
  by (rule nth_equalityI) (auto simp: ws_xor_def xor.assoc)

lemma ws_xor_0 [simp]: "ws_xor 0 key bs = bs"
  by (rule nth_equalityI) (auto simp: ws_xor_def)

lemma ws_xor_mask_cong: "(m = 0 \<longleftrightarrow> m' = 0) \<Longrightarrow> ws_xor m key bs = ws_xor m' key bs"
  by (simp add: ws_xor_def)

lemma ws_mask_tail_eq:
  "ws_mask_tail key bs i n = map (\<lambda>i. bs ! i XOR key ! (i mod 4)) [i..<n]"
proof (induction key bs i n rule: ws_mask_tail.induct)
  case (1 key bs i n)
  then show ?case by (subst ws_mask_tail.simps) (auto simp: upt_conv_Cons)
qed

lemma upt_split4: "i + 4 \<le> n \<Longrightarrow> [i..<n] = [i, i + 1, i + 2, i + 3] @ [i + 4..<n]"
  by (simp add: upt_conv_Cons numeral_eq_Suc)

lemma ws_mask_unrolled_eq:
  "i mod 4 = 0 \<Longrightarrow>
   ws_mask_unrolled key bs i n = map (\<lambda>i. bs ! i XOR key ! (i mod 4)) [i..<n]"
proof (induction key bs i n rule: ws_mask_unrolled.induct)
  case (1 key bs i n)
  show ?case
  proof (cases "i + 4 \<le> n")
    case True
    have m: "(i + 1) mod 4 = 1" "(i + 2) mod 4 = 2" "(i + 3) mod 4 = 3" "(i + 4) mod 4 = 0"
      using "1.prems" by presburger+
    show ?thesis
      using True "1.IH" "1.prems" m
      by (subst ws_mask_unrolled.simps) (simp add: upt_split4 del: upt_Suc)
  next
    case False
    then show ?thesis by (subst ws_mask_unrolled.simps) (simp add: ws_mask_tail_eq)
  qed
qed

lemma ws_mask_unrolled_xor:
  "m \<noteq> 0 \<Longrightarrow> ws_mask_unrolled key bs 0 (length bs) = ws_xor m key bs"
  by (simp add: ws_mask_unrolled_eq ws_xor_def)

lemma ws_payload_ok:
  assumes "capacity < 2 ^ 64" "capacity \<le> length raw" "off \<le> capacity"
    and "ext_payload_len e \<le> capacity - off" "ext_payload_len e < length (payload e)"
  shows "ws_payload raw capacity e off = Some (off + ext_payload_len e,
    e\<lparr>payload := ws_xor (mask e) (masking_key e) (slice raw off (ext_payload_len e)) @ [0] @
       drop (Suc (ext_payload_len e)) (payload e)\<rparr>)"
  using assms
  by (simp add: ws_payload_def Let_def size_sub_ge blit_def)


definition ws_received :: "ws_entity \<Rightarrow> ws_entity \<Rightarrow> ws_entity" where
  "ws_received e e0 = e0\<lparr>fin := fin e, rsv1 := rsv1 e, rsv2 := rsv2 e, rsv3 := rsv3 e,
     opcode := opcode e, mask := mask e,
     payload_len := word_of_nat (ws_len7 (ext_payload_len e)),
     ext_payload_len := ext_payload_len e,
     masking_key := (if mask e \<noteq> 0 then masking_key e else masking_key e0),
     payload := ws_content e @ [0] @ drop (Suc (ext_payload_len e)) (payload e0)\<rparr>"

lemma ws_len7_le: "ws_len7 n \<le> 127"
  by (simp add: ws_len7_def)

lemma length_ws_ext_bytes:
  "length (ws_ext_bytes n) = (if n \<le> 125 then 0 else if n \<le> 0xFFFF then 2 else 8)"
  by (simp add: ws_ext_bytes_def)

lemma length_ws_content [simp]: "ws_wf e \<Longrightarrow> length (ws_content e) = ext_payload_len e"
  by (simp add: ws_content_def ws_wf_def)

lemma length_ws_frame:
  "ws_wf e \<Longrightarrow> length (ws_frame e) =
     2 + length (ws_ext_bytes (ext_payload_len e)) + (if mask e \<noteq> 0 then 4 else 0) + ext_payload_len e"
  by (simp add: ws_frame_def) (simp add: ws_wf_def)

lemma ws_mask_01: "ws_wf e \<Longrightarrow> mask e = (if mask e \<noteq> 0 then 1 else 0)"
proof -
  assume "ws_wf e"
  then have "unat (mask e) \<le> 1" by (simp add: ws_wf_def word_le_nat_alt)
  then consider "unat (mask e) = 0" | "unat (mask e) = 1" by linarith
  then show ?thesis by cases (simp_all add: word_unat_eq_iff)
qed

lemma ws_head_frame:
  assumes "ws_wf e"
  shows "ws_head (ws_byte0 e) ((if mask e \<noteq> 0 then 0x80 else 0) OR word_of_nat (ws_len7 n)) e0 =
    e0\<lparr>fin := fin e, rsv1 := rsv1 e, rsv2 := rsv2 e, rsv3 := rsv3 e, opcode := opcode e,
       mask := mask e, payload_len := word_of_nat (ws_len7 n)\<rparr>"
  using assms ws_mask_01 [OF assms] ws_byte1_bits [OF ws_len7_le, of "mask e \<noteq> 0" n]
  by (simp only: ws_head_def ws_byte0_bits ws_byte0_opcode byte_AND_15)
     (simp add: ws_wf_def byte_le_1_AND_1)

lemma ws_mask_payload_frame:
  assumes wf: "ws_wf e" and e1: "mask e1 = mask e" "ext_payload_len e1 = ext_payload_len e"
    and raw: "raw = pre @ (if mask e \<noteq> 0 then masking_key e else []) @
      ws_xor (mask e) (masking_key e) (ws_content e) @ rest" "off = length pre"
    and cap: "capacity < 2 ^ 64" "capacity \<le> length raw"
      "off + (if mask e \<noteq> 0 then 4 else 0) + ext_payload_len e \<le> capacity"
      "ext_payload_len e < length (payload e1)"
  shows "ws_mask_payload raw capacity e1 off =
    Some (off + (if mask e \<noteq> 0 then 4 else 0) + ext_payload_len e,
      e1\<lparr>masking_key := (if mask e \<noteq> 0 then masking_key e else masking_key e1),
         payload := ws_content e @ [0] @ drop (Suc (ext_payload_len e)) (payload e1)\<rparr>)"
proof (cases "mask e = 0")
  case True
  have "slice raw off (ext_payload_len e) = ws_content e"
    using wf raw True by (simp add: slice_def)
  then show ?thesis
    using True e1 cap by (simp add: ws_mask_payload_def ws_payload_ok)
next
  case False
  have key: "slice raw off 4 = masking_key e"
    using wf raw False by (simp add: slice_def ws_wf_def)
  have "slice raw (off + 4) (ext_payload_len e) = ws_xor (mask e) (masking_key e) (ws_content e)"
    using wf raw False by (simp add: slice_def) (simp add: ws_wf_def)
  then show ?thesis
    using False e1 cap key by (simp add: ws_mask_payload_def ws_payload_ok ws_xor_ws_xor)
qed

lemma ws_consumed_frame:
  assumes wf: "ws_wf e" and raw: "raw = ws_frame e @ rest"
    and cap: "capacity < 2 ^ 64" "length (ws_frame e) \<le> capacity" "capacity \<le> length raw"
      "ext_payload_len e < length (payload e0)"
  shows "to_websocket_entity_consumed raw capacity e0 =
    Some (length (ws_frame e), ws_received e e0)"
proof -
  let ?n = "ext_payload_len e"
  define b1 :: byte where "b1 = (if mask e \<noteq> 0 then 0x80 else 0) OR word_of_nat (ws_len7 ?n)"
  let ?pre = "[ws_byte0 e, b1] @ ws_ext_bytes ?n"
  let ?e1 = "ws_head (ws_byte0 e) b1 e0\<lparr>ext_payload_len := ?n\<rparr>"
  have hd: "ws_head (ws_byte0 e) b1 e0 =
    e0\<lparr>fin := fin e, rsv1 := rsv1 e, rsv2 := rsv2 e, rsv3 := rsv3 e, opcode := opcode e,
       mask := mask e, payload_len := word_of_nat (ws_len7 ?n)\<rparr>"
    unfolding b1_def using wf by (rule ws_head_frame)
  have len: "length (ws_frame e) = length ?pre + (if mask e \<noteq> 0 then 4 else 0) + ?n"
    using wf by (simp add: length_ws_frame)
  have raw': "raw = ?pre @ (if mask e \<noteq> 0 then masking_key e else []) @
      ws_xor (mask e) (masking_key e) (ws_content e) @ rest"
    by (simp add: raw ws_frame_def b1_def)
  have tail: "ws_mask_payload raw capacity ?e1 off = Some (length (ws_frame e), ws_received e e0)"
    if "off = length ?pre" for off
    using ws_mask_payload_frame [of e ?e1 raw ?pre rest off capacity] wf raw' cap len that
    by (simp only: hd) (simp add: ws_received_def)
  have head: "byte_at raw 0 = Some (ws_byte0 e)" "byte_at raw 1 = Some b1"
    by (simp_all add: byte_at_def raw')
  have pl: "payload_len (ws_head (ws_byte0 e) b1 e0) = word_of_nat (ws_len7 ?n)"
    by (simp add: hd)
  have n63: "?n < 2 ^ 63" using wf by (simp add: ws_wf_def)
  consider "?n \<le> 125" | "125 < ?n" "?n \<le> 0xFFFF" | "0xFFFF < ?n" by linarith
  then show ?thesis
  proof cases
    case 1
    then have "payload_len (ws_head (ws_byte0 e) b1 e0) = word_of_nat ?n" using pl by (simp add: ws_len7_def)
    moreover have "unat (word_of_nat ?n :: byte) = ?n" using 1 by (simp only: unat_byte_of_nat) simp
    moreover have "(word_of_nat ?n :: byte) \<noteq> 126" "(word_of_nat ?n :: byte) \<noteq> 127"
      using 1 by (auto simp only: word_unat_eq_iff unat_byte_of_nat) auto
    moreover have "\<not> capacity < 2" using cap len by simp
    ultimately show ?thesis
      using tail [of 2] 1 head by (simp add: to_websocket_entity_consumed_def Let_def ws_ext_bytes_def)
  next
    case 2
    then have "payload_len (ws_head (ws_byte0 e) b1 e0) = 126" using pl by (simp add: ws_len7_def)
    moreover have "byte_at raw 2 = Some (word_of_nat (?n div 256))" "byte_at raw 3 = Some (word_of_nat ?n)"
      using 2 by (simp_all add: byte_at_def raw' ws_ext_bytes_def)
    moreover have "unat (word_of_nat (?n div 256) :: byte) * 256 + unat (word_of_nat ?n :: byte) = ?n"
      using 2 by (simp only: unat_byte_of_nat) simp
    moreover have "\<not> capacity < 2" "\<not> capacity < 4" "\<not> capacity < ?n"
      using cap len 2 by (simp_all add: ws_ext_bytes_def)
    ultimately show ?thesis
      using tail [of 4] 2 head
      by (simp add: to_websocket_entity_consumed_def Let_def ws_ext_bytes_def del: unat_byte_of_nat)
  next
    case 3
    then have "payload_len (ws_head (ws_byte0 e) b1 e0) = 127" using pl by (simp add: ws_len7_def)
    moreover have "peek raw 2 8 = Some (rev (le_bytes 8 ?n))"
      using 3 by (simp add: peek_def slice_def raw' ws_ext_bytes_def)
    moreover have "ws_ext_len8 0 (rev (le_bytes 8 ?n)) = ?n" using n63 by (intro ws_ext_len8_rev) simp
    moreover have "\<not> capacity < 2" "\<not> capacity < 10"
      using cap len 3 by (simp_all add: ws_ext_bytes_def)
    ultimately show ?thesis
      using tail [of 10] 3 head
      by (simp add: to_websocket_entity_consumed_def Let_def ws_ext_bytes_def)
  qed
qed

text \<open>Every outcome of the parser on any input: memory safety and progress.\<close>

lemma ws_payload_total:
  assumes "capacity < 2 ^ 64" "capacity \<le> length raw" "capacity \<le> length (payload e) + 1" "2 \<le> off" "off \<le> capacity"
  shows "\<exists>n e'. ws_payload raw capacity e off = Some (n, e') \<and> n \<le> capacity \<and> (n = 0 \<or> off \<le> n) \<and>
    length (payload e') = length (payload e)"
proof (cases "ext_payload_len e \<le> capacity - off")
  case True
  with assms show ?thesis by (subst ws_payload_ok) auto
next
  case False
  with assms show ?thesis by (simp add: ws_payload_def size_sub_ge)
qed

lemma ws_mask_payload_total:
  assumes "capacity < 2 ^ 64" "capacity \<le> length raw" "capacity \<le> length (payload e) + 1" "2 \<le> off" "off \<le> capacity"
  shows "\<exists>n e'. ws_mask_payload raw capacity e off = Some (n, e') \<and> n \<le> capacity \<and> (n = 0 \<or> off \<le> n) \<and>
    length (payload e') = length (payload e)"
proof -
  have "off + 4 \<le> capacity \<Longrightarrow> peek raw off 4 = Some (slice raw off 4)" using assms by simp
  then show ?thesis
    using assms ws_payload_total [of capacity raw e off]
      ws_payload_total [of capacity raw "e\<lparr>masking_key := slice raw off 4\<rparr>" "off + 4"]
    by (fastforce simp: ws_mask_payload_def simp del: peek_Some)
qed

lemma payload_ws_head [simp]: "payload (ws_head b0 b1 e) = payload e"
  by (simp add: ws_head_def)

lemma ws_consumed_total:
  assumes "capacity < 2 ^ 64" "capacity \<le> length raw" "capacity \<le> length (payload e) + 1"
  shows "\<exists>n e'. to_websocket_entity_consumed raw capacity e = Some (n, e') \<and> n \<le> capacity \<and>
    (n = 0 \<or> 2 \<le> n) \<and> length (payload e') = length (payload e)"
proof (cases "capacity < 2")
  case True
  then show ?thesis by (simp add: to_websocket_entity_consumed_def)
next
  case False
  have at: "\<And>i. i < capacity \<Longrightarrow> byte_at raw i = Some (raw ! i)" using assms by (simp add: byte_at_def)
  have tail: "\<exists>n e'. ws_mask_payload raw capacity e1 off = Some (n, e') \<and> n \<le> capacity \<and> (n = 0 \<or> 2 \<le> n) \<and>
      length (payload e') = length (payload e)"
    if "payload e1 = payload e" "2 \<le> off" "off \<le> capacity" for e1 off
    using ws_mask_payload_total [of capacity raw e1 off] that assms by fastforce
  show ?thesis
    using False assms
    by (auto simp: to_websocket_entity_consumed_def at Let_def intro!: tail)
qed

lemma ws_put_payload_ok:
  assumes "ws_wf e" "ext_payload_len e = len" "off + len \<le> capacity" "capacity \<le> length raw"
    "off = length pre"
  shows "ws_put_payload e len capacity (blit raw 0 pre) off =
    Some (off + len, blit raw 0 (pre @ ws_xor (mask e) (masking_key e) (ws_content e)))"
proof -
  have bs: "peek (payload e) 0 len = Some (ws_content e)"
    using assms by (simp add: ws_wf_def ws_content_def slice_def)
  have x: "(if mask e \<noteq> 0 then ws_mask_unrolled (masking_key e) (ws_content e) 0 len else ws_content e) =
    ws_xor (mask e) (masking_key e) (ws_content e)"
    using ws_mask_unrolled_xor [of "mask e" "masking_key e" "ws_content e"] assms by auto
  show ?thesis
    using assms blit_blit_next [of 0 pre "ws_xor (mask e) (masking_key e) (ws_content e)" raw]
    by (simp add: ws_put_payload_def bs x)
qed

lemma ws_put_mask_payload_ok:
  assumes "ws_wf e" "ext_payload_len e = len" "capacity \<le> length raw" "off = length pre"
    "off + (if mask e \<noteq> 0 then 4 else 0) + len \<le> capacity"
  shows "ws_put_mask_payload e len capacity (blit raw 0 pre) off =
    Some (off + (if mask e \<noteq> 0 then 4 else 0) + len,
      blit raw 0 (pre @ (if mask e \<noteq> 0 then masking_key e else []) @
        ws_xor (mask e) (masking_key e) (ws_content e)))"
proof (cases "mask e = 0")
  case True
  then show ?thesis using assms by (simp add: ws_put_mask_payload_def ws_put_payload_ok)
next
  case False
  have "length (masking_key e) = 4" using assms by (simp add: ws_wf_def)
  then show ?thesis
    using False assms blit_blit_next [of 0 pre "masking_key e" raw]
      ws_put_payload_ok [of e len "off + 4" capacity raw "pre @ masking_key e"]
    by (simp add: ws_put_mask_payload_def)
qed

lemma ws_packet_frame:
  assumes wf: "ws_wf e" and small: "ext_payload_len e \<le> 0xFFFF"
    and cap: "length (ws_frame e) \<le> capacity" "capacity \<le> length raw"
  shows "to_websocket_packet e capacity raw = Some (length (ws_frame e), blit raw 0 (ws_frame e))"
proof -
  let ?n = "ext_payload_len e"
  have len: "length (ws_frame e) = 2 + length (ws_ext_bytes ?n) + (if mask e \<noteq> 0 then 4 else 0) + ?n"
    using wf by (rule length_ws_frame)
  have next1: "blit (blit raw 0 [ws_byte0 e]) 1 [b] = blit raw 0 [ws_byte0 e, b]" for b
    using blit_blit_next [of 0 "[ws_byte0 e]" "[b]" raw] cap len by simp
  have next2: "blit (blit raw 0 [b0, b1]) 2 bs = blit raw 0 ([b0, b1] @ bs)"
    if "2 + length bs \<le> length raw" for b0 b1 bs
    using blit_blit_next [of 0 "[b0, b1]" bs raw] that by (simp add: numeral_2_eq_2)
  have next2': "blit (blit raw 0 [b0, b1]) 2 [c, d] = blit raw 0 [b0, b1, c, d]"
    if "4 \<le> length raw" for b0 b1 c d
    using next2 [of "[c, d]" b0 b1] that by simp
  consider "?n \<le> 125" "mask e = 0" | "?n \<le> 125" "mask e \<noteq> 0" | "125 < ?n" by linarith
  then show ?thesis
  proof cases
    case 1
    have "(word_of_nat ?n :: byte) AND 0x7F = word_of_nat ?n"
      using byte_take_bit_7 [of ?n] 1 by (simp only: AND_127_take_bit)
    then show ?thesis
      using 1 cap len wf next2 [of "ws_content e" "ws_byte0 e" "word_of_nat ?n"]
      by (simp add: to_websocket_packet_def Let_def next1 [simplified] ws_wf_def ws_ext_bytes_def ws_frame_def
          ws_content_def ws_len7_def slice_def)
  next
    case 2
    then show ?thesis
      using cap len wf ws_put_mask_payload_ok [of e ?n capacity raw 2 "[ws_byte0 e, 0x80 OR word_of_nat ?n]"]
      by (simp add: to_websocket_packet_def Let_def next1 next1 [simplified] ws_ext_bytes_def ws_frame_def ws_len7_def)
  next
    case 3
    define b1 :: byte where "b1 = (if mask e \<noteq> 0 then 0x80 else 0) OR 126"
    have c4: "\<not> capacity < 4" "\<not> capacity < 2" "4 \<le> length raw" using 3 small cap len by (simp_all add: ws_ext_bytes_def)
    have f: "ws_frame e = [ws_byte0 e, b1, word_of_nat (?n div 256), word_of_nat ?n] @
        (if mask e \<noteq> 0 then masking_key e else []) @ ws_xor (mask e) (masking_key e) (ws_content e)"
      using 3 small by (simp add: ws_frame_def b1_def ws_len7_def ws_ext_bytes_def)
    have fl: "length (ws_frame e) = 4 + (if mask e \<noteq> 0 then 4 else 0) + ?n"
      using 3 small len by (simp add: ws_ext_bytes_def)
    have "ws_put_mask_payload e ?n capacity
        (blit raw 0 [ws_byte0 e, b1, word_of_nat (?n div 256), word_of_nat ?n]) 4 =
        Some (length (ws_frame e), blit raw 0 (ws_frame e))"
    proof (subst ws_put_mask_payload_ok [OF wf refl])
      show "4 + (if mask e \<noteq> 0 then 4 else 0) + ?n \<le> capacity" using cap fl by simp
      show "capacity \<le> length raw" by (rule cap)
    qed (simp, simp only: fl, simp add: f)
    then show ?thesis
      using 3 small c4
      by (simp add: to_websocket_packet_def Let_def next1 next1 [simplified] next2' flip: b1_def)
  qed
qed

lemma ws_packet_oversize:
  assumes "ws_wf e" "0xFFFF < ext_payload_len e" "mask e = 0" "10 \<le> capacity" "capacity \<le> length raw"
  shows "to_websocket_packet e capacity raw =
    Some (10, blit raw 0 ([ws_byte0 e, 127] @ rev (le_bytes 8 (ext_payload_len e))))"
proof -
  have "ext_payload_len e div 256 ^ 8 = 0" using assms by (simp add: ws_wf_def)
  moreover have "blit (blit raw 0 [ws_byte0 e]) 1 [127] = blit raw 0 [ws_byte0 e, 127]"
    using assms blit_blit_next [of 0 "[ws_byte0 e]" "[127]" raw] by simp
  moreover have "blit (blit raw 0 [ws_byte0 e, 127]) 2 bs = blit raw 0 ([ws_byte0 e, 127] @ bs)"
    if "length bs = 8" for bs
    using that assms blit_blit_next [of 0 "[ws_byte0 e, 127]" bs raw] by (simp add: numeral_2_eq_2)
  ultimately show ?thesis
    using assms by (simp add: to_websocket_packet_def Let_def ws_put_mask_payload_def ws_put_payload_def)
qed

end
