(* ===== verification/WsReceive.thy ===== *)
theory WsReceive
  imports WsFrame
begin

unbundle bit_operations_syntax

text \<open>
  The receive path of the server loop: \<open>websocket/socket/recv.c\<close>, \<open>send.c\<close>, and
  \<open>websocket/server/receive/\<close> (\<open>epoll_receive\<close>, \<open>receive_handle\<close>, \<open>opcode_handle\<close>).

  The kernel and the user callback are parameters, gathered in \<open>ws_env\<close>: they work on a
  state \<open>'s\<close> of their own. The function results are the C error codes; an outer
  \<open>None\<close> is an access outside a buffer.
\<close>

section \<open>Error codes, system calls and callbacks\<close>

abbreviation (input) "WEBSOCKET_ERRORCODE_FATAL_ERROR \<equiv> (-3 :: int)"
abbreviation (input) "WEBSOCKET_ERRORCODE_SOCKET_CLOSE_ERROR \<equiv> (-2 :: int)"
abbreviation (input) "WEBSOCKET_ERRORCODE_CONTINUABLE_ERROR \<equiv> (-1 :: int)"
abbreviation (input) "WEBSOCKET_ERRORCODE_NONE \<equiv> (0 :: int)"

abbreviation (input) "EINTR \<equiv> (4 :: nat)"
abbreviation (input) "EAGAIN \<equiv> (11 :: nat)"

text \<open>
  \<open>recvfrom\<close> returns the C result and the bytes it stored, \<open>sendto\<close> the C result;
  \<open>receive_callback\<close> gets the client socket, the frame, the capacity and the response
  buffer (which it may overwrite).
\<close>

record 's ws_env =
  recvfrom :: "int \<Rightarrow> nat \<Rightarrow> 's \<Rightarrow> int \<times> byte list \<times> 's"
  sendto :: "int \<Rightarrow> byte list \<Rightarrow> 's \<Rightarrow> int \<times> 's"
  errno :: "'s \<Rightarrow> nat"
  is_rise_signal :: "'s \<Rightarrow> bool"
  receive_callback :: "(int \<Rightarrow> ws_entity \<Rightarrow> nat \<Rightarrow> byte list \<Rightarrow> 's \<Rightarrow> byte list \<times> 's) option"

definition get_recv_err :: "'s ws_env \<Rightarrow> int \<Rightarrow> 's \<Rightarrow> int" where
  "get_recv_err env bytes_read s =
     (if bytes_read = 0 then WEBSOCKET_ERRORCODE_SOCKET_CLOSE_ERROR
      else if bytes_read \<noteq> -1 then WEBSOCKET_ERRORCODE_NONE
      else if errno env s = EINTR then WEBSOCKET_ERRORCODE_CONTINUABLE_ERROR
      else if errno env s = EAGAIN then WEBSOCKET_ERRORCODE_CONTINUABLE_ERROR
      else WEBSOCKET_ERRORCODE_SOCKET_CLOSE_ERROR)"

definition get_send_err :: "'s ws_env \<Rightarrow> int \<Rightarrow> 's \<Rightarrow> int" where
  "get_send_err env bytes_send s =
     (if bytes_send \<noteq> -1 then WEBSOCKET_ERRORCODE_NONE
      else if errno env s = EAGAIN then WEBSOCKET_ERRORCODE_CONTINUABLE_ERROR
      else WEBSOCKET_ERRORCODE_SOCKET_CLOSE_ERROR)"

definition websocket_send :: "'s ws_env \<Rightarrow> int \<Rightarrow> nat \<Rightarrow> byte list \<Rightarrow> 's \<Rightarrow> (int \<times> 's) option" where
  "websocket_send env sock_fd buffer_size buffer s = do {
     bs \<leftarrow> peek buffer 0 buffer_size;
     let (bytes_send, s) = sendto env sock_fd bs s;
     Some (get_send_err env bytes_send s, s)
   }"

text \<open>
  The request buffer after \<open>recvfrom\<close> holds the received bytes in front; the code then
  terminates them with a zero byte.
\<close>

definition websocket_recv ::
    "'s ws_env \<Rightarrow> int \<Rightarrow> nat \<Rightarrow> byte list \<Rightarrow> 's \<Rightarrow> (int \<times> byte list \<times> 's) option" where
  "websocket_recv env sock_fd capacity buffer s =
     (if is_rise_signal env s then Some (WEBSOCKET_ERRORCODE_FATAL_ERROR, buffer, s)
      else do {
        let (bytes_read, bs, s) = recvfrom env sock_fd (capacity - 1) s;
        buffer \<leftarrow> poke buffer 0 bs;
        let errcode = get_recv_err env bytes_read s;
        if errcode \<noteq> WEBSOCKET_ERRORCODE_NONE then Some (errcode, buffer, s)
        else do {
          buffer \<leftarrow> poke buffer (nat bytes_read) [0];
          Some (bytes_read, buffer, s)
        }
      })"

section \<open>Dispatch on the opcode\<close>

definition opcode_handle ::
    "'s ws_env \<Rightarrow> int \<Rightarrow> nat \<Rightarrow> byte list \<Rightarrow> ws_entity \<Rightarrow> 's \<Rightarrow> (int \<times> byte list \<times> 's) option" where
  "opcode_handle env client_sock capacity response entity s =
     (if client_sock \<le> 0 then Some (WEBSOCKET_ERRORCODE_FATAL_ERROR, response, s)
      else if capacity = 0 then Some (WEBSOCKET_ERRORCODE_FATAL_ERROR, response, s)
      else if opcode entity = WEBSOCKET_OP_CODE_TEXT \<or> opcode entity = WEBSOCKET_OP_CODE_BINARY then
        (case receive_callback env of
           None \<Rightarrow> Some (WEBSOCKET_ERRORCODE_NONE, response, s)
         | Some f \<Rightarrow>
             let (response, s) = f client_sock entity capacity response s
             in Some (WEBSOCKET_ERRORCODE_NONE, response, s))
      else if opcode entity = WEBSOCKET_OP_CODE_CLOSE then
        Some (WEBSOCKET_ERRORCODE_SOCKET_CLOSE_ERROR, response, s)
      else if opcode entity = WEBSOCKET_OP_CODE_PING then do {
        let response_entity = entity\<lparr>mask := 0, opcode := WEBSOCKET_OP_CODE_PONG\<rparr>;
        (packet_size, response) \<leftarrow> to_websocket_packet response_entity capacity response;
        if packet_size = 0 then Some (WEBSOCKET_ERRORCODE_SOCKET_CLOSE_ERROR, response, s)
        else do {
          (rtn, s) \<leftarrow> websocket_send env client_sock packet_size response s;
          if rtn \<noteq> WEBSOCKET_ERRORCODE_NONE then Some (rtn, response, s)
          else Some (WEBSOCKET_ERRORCODE_NONE, response, s)
        }
      }
      else if opcode entity = WEBSOCKET_OP_CODE_PONG then
        Some (WEBSOCKET_ERRORCODE_NONE, response, s)
      else Some (WEBSOCKET_ERRORCODE_SOCKET_CLOSE_ERROR, response, s))"

section \<open>The frames of one read\<close>

text \<open>\<open>websocket_memset(&entity, 0)\<close> and \<open>entity.payload = payload_buf\<close>.\<close>

definition ws_zero_entity :: "byte list \<Rightarrow> ws_entity" where
  "ws_zero_entity payload_buf =
     \<lparr>fin = 0, rsv1 = 0, rsv2 = 0, rsv3 = 0, opcode = 0, mask = 0, payload_len = 0,
      ext_payload_len = 0, masking_key = [0, 0, 0, 0], payload = payload_buf\<rparr>"

function receive_loop ::
    "'s ws_env \<Rightarrow> int \<Rightarrow> nat \<Rightarrow> byte list \<Rightarrow> nat \<Rightarrow> nat \<Rightarrow> byte list \<Rightarrow> byte list \<Rightarrow> 's \<Rightarrow>
     (int \<times> byte list \<times> 's) option" where
  "receive_loop env client_sock read_size request capacity offset payload_buf response s =
     (if offset < read_size then
        (case to_websocket_entity_consumed (drop offset request) (read_size - offset)
                (ws_zero_entity payload_buf) of
           None \<Rightarrow> None
         | Some (consumed, entity) \<Rightarrow>
             if consumed = 0 then Some (WEBSOCKET_ERRORCODE_NONE, response, s)
             else
               (case opcode_handle env client_sock capacity response entity s of
                  None \<Rightarrow> None
                | Some (rtn, response, s) \<Rightarrow>
                    if rtn \<noteq> WEBSOCKET_ERRORCODE_NONE then Some (rtn, response, s)
                    else if is_rise_signal env s then Some (WEBSOCKET_ERRORCODE_FATAL_ERROR, response, s)
                    else receive_loop env client_sock read_size request capacity (offset + consumed)
                           (payload entity) response s))
      else Some (WEBSOCKET_ERRORCODE_NONE, response, s))"
  by pat_completeness auto
termination
  by (relation "measure (\<lambda>(env, c, read_size, req, cap, offset, _). read_size - offset)") auto

declare receive_loop.simps [simp del]

text \<open>\<open>payload_buf\<close> is the memory \<open>alloca(read_size)\<close> returns.\<close>

definition receive_handle ::
    "'s ws_env \<Rightarrow> int \<Rightarrow> nat \<Rightarrow> byte list \<Rightarrow> nat \<Rightarrow> byte list \<Rightarrow> byte list \<Rightarrow> 's \<Rightarrow>
     (int \<times> byte list \<times> 's) option" where
  "receive_handle env client_sock read_size request capacity payload_buf response s =
     (if client_sock \<le> 0 \<or> read_size = 0 \<or> capacity = 0
      then Some (WEBSOCKET_ERRORCODE_FATAL_ERROR, response, s)
      else receive_loop env client_sock read_size request capacity 0 payload_buf response s)"

section \<open>One epoll event\<close>

record epoll_event =
  events :: "32 word"
  fd :: int

abbreviation (input) "EPOLLIN \<equiv> (0x001 :: 32 word)"
abbreviation (input) "EPOLLERR \<equiv> (0x008 :: 32 word)"
abbreviation (input) "EPOLLHUP \<equiv> (0x010 :: 32 word)"
abbreviation (input) "EPOLLRDHUP \<equiv> (0x2000 :: 32 word)"

definition websocket_epoll_rise_error :: "epoll_event \<Rightarrow> int" where
  "websocket_epoll_rise_error event =
     (if events event AND (EPOLLHUP OR EPOLLERR OR EPOLLRDHUP) \<noteq> 0
      then WEBSOCKET_ERRORCODE_SOCKET_CLOSE_ERROR else WEBSOCKET_ERRORCODE_NONE)"

definition websocket_epoll_rise_input :: "epoll_event \<Rightarrow> int" where
  "websocket_epoll_rise_input event =
     (if events event AND EPOLLIN = 0
      then WEBSOCKET_ERRORCODE_CONTINUABLE_ERROR else WEBSOCKET_ERRORCODE_NONE)"

definition epoll_receive ::
    "'s ws_env \<Rightarrow> int \<Rightarrow> epoll_event \<Rightarrow> nat \<Rightarrow> byte list \<Rightarrow> (nat \<Rightarrow> byte list) \<Rightarrow> byte list \<Rightarrow> 's \<Rightarrow>
     (int \<times> byte list \<times> byte list \<times> 's) option" where
  "epoll_receive env epoll_fd event capacity request alloca response s =
     (if epoll_fd \<le> 0 \<or> capacity = 0 then Some (WEBSOCKET_ERRORCODE_FATAL_ERROR, request, response, s)
      else if websocket_epoll_rise_error event \<noteq> WEBSOCKET_ERRORCODE_NONE
      then Some (websocket_epoll_rise_error event, request, response, s)
      else if websocket_epoll_rise_input event \<noteq> WEBSOCKET_ERRORCODE_NONE
      then Some (websocket_epoll_rise_input event, request, response, s)
      else do {
        (read_size, request, s) \<leftarrow> websocket_recv env (fd event) capacity request s;
        if read_size \<le> 0 then
          (if read_size = WEBSOCKET_ERRORCODE_FATAL_ERROR \<or>
              read_size = WEBSOCKET_ERRORCODE_SOCKET_CLOSE_ERROR
           then Some (read_size, request, response, s)
           else Some (WEBSOCKET_ERRORCODE_CONTINUABLE_ERROR, request, response, s))
        else do {
          (ret, response, s) \<leftarrow> receive_handle env (fd event) (nat read_size) request capacity
                                 (alloca (nat read_size)) response s;
          if ret = WEBSOCKET_ERRORCODE_FATAL_ERROR \<or> ret = WEBSOCKET_ERRORCODE_SOCKET_CLOSE_ERROR
          then Some (ret, request, response, s)
          else Some (WEBSOCKET_ERRORCODE_NONE, request, response, s)
        }
      })"

section \<open>The frames of one read are delivered in order\<close>

lemma ws_mask_payload_short:
  assumes "capacity < 2 ^ 64" "capacity \<le> length raw" "off \<le> capacity"
    and "capacity < off + (if mask e \<noteq> 0 then 4 else 0) + ext_payload_len e"
  shows "\<exists>e'. ws_mask_payload raw capacity e off = Some (0, e')"
  using assms by (auto simp: ws_mask_payload_def ws_payload_def size_sub_ge Let_def)

lemma ws_consumed_prefix:
  assumes wf: "ws_wf e"
    and raw: "capacity \<le> length raw" "take capacity raw = take capacity (ws_frame e)"
    and cap: "capacity < length (ws_frame e)" "capacity < 2 ^ 64"
  shows "\<exists>e'. to_websocket_entity_consumed raw capacity e0 = Some (0, e')"
proof (cases "capacity < 2")
  case True
  then show ?thesis by (simp add: to_websocket_entity_consumed_def)
next
  case False
  let ?n = "ext_payload_len e"
  define b1 :: byte where "b1 = (if mask e \<noteq> 0 then 0x80 else 0) OR word_of_nat (ws_len7 ?n)"
  have hd: "ws_head (ws_byte0 e) b1 e0 =
    e0\<lparr>fin := fin e, rsv1 := rsv1 e, rsv2 := rsv2 e, rsv3 := rsv3 e, opcode := opcode e,
       mask := mask e, payload_len := word_of_nat (ws_len7 ?n)\<rparr>"
    unfolding b1_def using wf by (rule ws_head_frame)
  have len: "length (ws_frame e) = 2 + length (ws_ext_bytes ?n) + (if mask e \<noteq> 0 then 4 else 0) + ?n"
    using wf by (rule length_ws_frame)
  have fr: "ws_frame e = [ws_byte0 e, b1] @ ws_ext_bytes ?n @ (if mask e \<noteq> 0 then masking_key e else []) @
      ws_xor (mask e) (masking_key e) (ws_content e)"
    by (simp add: ws_frame_def b1_def)
  have at: "byte_at raw i = Some (ws_frame e ! i)" if "i < capacity" for i
    using that raw nth_take [of i capacity raw] nth_take [of i capacity "ws_frame e"]
    by (simp add: byte_at_def del: nth_take)
  have head: "byte_at raw 0 = Some (ws_byte0 e)" "byte_at raw 1 = Some b1"
    using at [of 0] at [of 1] False by (simp_all add: fr)
  have pl: "payload_len (ws_head (ws_byte0 e) b1 e0) = word_of_nat (ws_len7 ?n)"
    by (simp add: hd)
  have m: "mask (ws_head (ws_byte0 e) b1 e0) = mask e" by (simp add: hd)
  have tail: "\<exists>e'. ws_mask_payload raw capacity (ws_head (ws_byte0 e) b1 e0\<lparr>ext_payload_len := ?n\<rparr>) off =
      Some (0, e')" if "off = 2 + length (ws_ext_bytes ?n)" "off \<le> capacity" for off
    using ws_mask_payload_short [of capacity raw off "ws_head (ws_byte0 e) b1 e0\<lparr>ext_payload_len := ?n\<rparr>"]
      cap len that raw m by simp
  have n63: "?n < 2 ^ 63" using wf by (simp add: ws_wf_def)
  consider "?n \<le> 125" | "125 < ?n" "?n \<le> 0xFFFF" | "0xFFFF < ?n" by linarith
  then show ?thesis
  proof cases
    case 1
    then have "payload_len (ws_head (ws_byte0 e) b1 e0) = word_of_nat ?n" using pl by (simp add: ws_len7_def)
    moreover have "unat (word_of_nat ?n :: byte) = ?n" using 1 by (simp only: unat_byte_of_nat) simp
    moreover have "(word_of_nat ?n :: byte) \<noteq> 126" "(word_of_nat ?n :: byte) \<noteq> 127"
      using 1 by (auto simp only: word_unat_eq_iff unat_byte_of_nat) auto
    ultimately show ?thesis
      using tail [of 2] False 1 head by (simp add: to_websocket_entity_consumed_def Let_def ws_ext_bytes_def)
  next
    case 2
    then have "payload_len (ws_head (ws_byte0 e) b1 e0) = 126" using pl by (simp add: ws_len7_def)
    moreover have "byte_at raw 2 = Some (word_of_nat (?n div 256))" "byte_at raw 3 = Some (word_of_nat ?n)"
      if "4 \<le> capacity"
      using 2 that by (simp_all add: at fr ws_ext_bytes_def)
    moreover have "unat (word_of_nat (?n div 256) :: byte) * 256 + unat (word_of_nat ?n :: byte) = ?n"
      using 2 by (simp only: unat_byte_of_nat) simp
    ultimately show ?thesis
      using tail [of 4] False 2 head
      by (simp add: to_websocket_entity_consumed_def Let_def ws_ext_bytes_def del: unat_byte_of_nat)
  next
    case 3
    then have "payload_len (ws_head (ws_byte0 e) b1 e0) = 127" using pl by (simp add: ws_len7_def)
    moreover have "peek raw 2 8 = Some (rev (le_bytes 8 ?n))" if "10 \<le> capacity"
    proof -
      have "take 10 raw = take 10 (take capacity raw)" using that by simp
      also have "\<dots> = take 10 (ws_frame e)" using that raw by simp
      finally have "take 10 raw = [ws_byte0 e, b1] @ rev (le_bytes 8 ?n)"
        using 3 by (simp add: fr ws_ext_bytes_def)
      then have "drop 2 (take 10 raw) = rev (le_bytes 8 ?n)" by simp
      then show ?thesis using that raw by (simp add: peek_def slice_def drop_take)
    qed
    moreover have "ws_ext_len8 0 (rev (le_bytes 8 ?n)) = ?n" using n63 by (intro ws_ext_len8_rev) simp
    ultimately show ?thesis
      using tail [of 10] False 3 head
      by (simp add: to_websocket_entity_consumed_def Let_def ws_ext_bytes_def)
  qed
qed

text \<open>
  What a read of several frames has to do: hand the frames to \<open>opcode_handle\<close> one after the
  other, each unmasked, until one asks to stop or a signal was raised.
\<close>

fun ws_deliver ::
    "'s ws_env \<Rightarrow> int \<Rightarrow> nat \<Rightarrow> ws_entity list \<Rightarrow> byte list \<Rightarrow> byte list \<Rightarrow> 's \<Rightarrow>
     (int \<times> byte list \<times> 's) option" where
  "ws_deliver env client_sock capacity [] payload_buf response s = Some (0, response, s)"
| "ws_deliver env client_sock capacity (e # es) payload_buf response s =
     (let entity = ws_received e (ws_zero_entity payload_buf) in
      case opcode_handle env client_sock capacity response entity s of
        None \<Rightarrow> None
      | Some (rtn, response, s) \<Rightarrow>
          if rtn \<noteq> 0 then Some (rtn, response, s)
          else if is_rise_signal env s then Some (-3, response, s)
          else ws_deliver env client_sock capacity es (payload entity) response s)"

definition ws_frames :: "ws_entity list \<Rightarrow> byte list" where
  "ws_frames es = concat (map ws_frame es)"

lemma length_payload_ws_received:
  "ws_wf e \<Longrightarrow> ext_payload_len e < length (payload e0) \<Longrightarrow>
   length (payload (ws_received e e0)) = length (payload e0)"
  by (simp add: ws_received_def)

lemma payload_zero [simp]: "payload (ws_zero_entity pb) = pb"
  by (simp add: ws_zero_entity_def)

lemma receive_loop_frames:
  assumes "\<forall>e \<in> set es. ws_wf e"
    and "drop offset request = ws_frames es @ partial @ rest"
    and "read_size = offset + length (ws_frames es) + length partial" "read_size < 2 ^ 64"
    and "partial = [] \<or> ws_wf e1 \<and> length partial < length (ws_frame e1) \<and>
      partial = take (length partial) (ws_frame e1)"
    and "length payload_buf + offset \<ge> read_size"
  shows "receive_loop env client_sock read_size request capacity offset payload_buf response s =
    ws_deliver env client_sock capacity es payload_buf response s"
  using assms
proof (induction es arbitrary: offset payload_buf response s)
  case Nil
  show ?case
  proof (cases "partial = []")
    case True
    then show ?thesis using Nil.prems by (subst receive_loop.simps) (simp add: ws_frames_def)
  next
    case False
    have "\<exists>e'. to_websocket_entity_consumed (drop offset request) (read_size - offset)
        (ws_zero_entity payload_buf) = Some (0, e')"
      using Nil.prems False by (intro ws_consumed_prefix [of e1]) (auto simp: ws_frames_def)
    then show ?thesis using Nil.prems False by (subst receive_loop.simps) (auto simp: ws_frames_def)
  qed
next
  case (Cons e es)
  let ?entity = "ws_received e (ws_zero_entity payload_buf)"
  have wf: "ws_wf e" using Cons.prems by simp
  have len: "2 + ext_payload_len e \<le> length (ws_frame e)" using length_ws_frame [OF wf] by simp
  have split: "drop offset request = ws_frame e @ ws_frames es @ partial @ rest"
    using Cons.prems by (simp add: ws_frames_def)
  have dr: "drop (offset + length (ws_frame e)) request = ws_frames es @ partial @ rest"
    using arg_cong [OF split, of "drop (length (ws_frame e))"] by (simp add: add.commute)
  have rs: "read_size = offset + length (ws_frame e) + length (ws_frames es) + length partial"
    using Cons.prems by (simp add: ws_frames_def)
  have lt: "ext_payload_len e < length payload_buf" using Cons.prems(6) rs len by linarith
  have parse: "to_websocket_entity_consumed (drop offset request) (read_size - offset)
      (ws_zero_entity payload_buf) = Some (length (ws_frame e), ?entity)"
    using Cons.prems wf split rs lt by (intro ws_consumed_frame) auto
  have buf: "length (payload ?entity) = length payload_buf"
    using wf lt by (simp add: length_payload_ws_received)
  have IH: "receive_loop env client_sock read_size request capacity (offset + length (ws_frame e))
      (payload ?entity) response s = ws_deliver env client_sock capacity es (payload ?entity) response s"
    for response s
    using Cons.prems rs buf dr by (intro Cons.IH) auto
  have "offset < read_size" "length (ws_frame e) \<noteq> 0" using rs len by linarith+
  then show ?case
    by (subst receive_loop.simps) (simp add: parse IH Let_def split: option.split prod.split)
qed

lemma receive_handle_frames:
  assumes "\<forall>e \<in> set es. ws_wf e" "0 < client_sock" "0 < capacity"
    and "request = ws_frames es @ partial @ rest"
    and "read_size = length (ws_frames es) + length partial" "0 < read_size" "read_size < 2 ^ 64"
    and "partial = [] \<or> ws_wf e1 \<and> length partial < length (ws_frame e1) \<and>
      partial = take (length partial) (ws_frame e1)"
    and "length payload_buf = read_size"
  shows "receive_handle env client_sock read_size request capacity payload_buf response s =
    ws_deliver env client_sock capacity es payload_buf response s"
proof -
  have "receive_loop env client_sock read_size request capacity 0 payload_buf response s =
    ws_deliver env client_sock capacity es payload_buf response s"
    using assms by (intro receive_loop_frames [OF assms(1), where partial = partial and rest = rest])
      (use assms in simp_all)
  then show ?thesis using assms(2,3,6) by (simp add: receive_handle_def)
qed

section \<open>Memory safety for arbitrary input\<close>

lemma ws_payload_len:
  "ws_payload raw capacity e off = Some (n, e') \<Longrightarrow> n \<noteq> 0 \<Longrightarrow> off \<le> capacity \<Longrightarrow> capacity < 2 ^ 64 \<Longrightarrow>
   ext_payload_len e' \<le> capacity \<and> length (payload e') = length (payload e)"
  by (auto simp: ws_payload_def Let_def size_sub_ge poke_eq_Some split: if_splits Option.bind_splits)

lemma ws_mask_payload_len:
  "ws_mask_payload raw capacity e off = Some (n, e') \<Longrightarrow> n \<noteq> 0 \<Longrightarrow> off \<le> capacity \<Longrightarrow> capacity < 2 ^ 64 \<Longrightarrow>
   ext_payload_len e' \<le> capacity \<and> length (payload e') = length (payload e)"
  by (auto simp: ws_mask_payload_def dest!: ws_payload_len split: if_splits Option.bind_splits)

lemma ws_consumed_len:
  assumes "to_websocket_entity_consumed raw capacity e = Some (n, e')" "n \<noteq> 0" "capacity < 2 ^ 64"
  shows "ext_payload_len e' \<le> capacity"
  using assms
  by (auto simp: to_websocket_entity_consumed_def Let_def dest!: ws_mask_payload_len split: if_splits Option.bind_splits)

text \<open>An unmasked frame fits or is refused, provided the buffer has room for a short frame.\<close>

lemma ws_packet_total:
  assumes "mask e = 0" "ext_payload_len e \<le> length (payload e)" "ext_payload_len e < 2 ^ 64"
    and "127 \<le> capacity" "capacity \<le> length raw"
  shows "\<exists>n raw'. to_websocket_packet e capacity raw = Some (n, raw') \<and> n \<le> capacity \<and> length raw' = length raw"
proof -
  let ?n = "ext_payload_len e"
  have put: "\<exists>n raw'. ws_put_mask_payload e len capacity r off = Some (n, raw') \<and> n \<le> capacity \<and> length raw' = length raw"
    if "len \<le> ?n" "length r = length raw" for len r off
    using that assms by (auto simp: ws_put_mask_payload_def ws_put_payload_def poke_def)
  consider "?n \<le> 125" | "125 < ?n" "?n \<le> 0xFFFF" | "0xFFFF < ?n" by linarith
  then show ?thesis
  proof cases
    case 1
    then show ?thesis using assms by (simp add: to_websocket_packet_def Let_def)
  next
    case 2
    then show ?thesis using assms by (simp add: to_websocket_packet_def Let_def put)
  next
    case 3
    have "?n div 256 ^ 8 \<le> ?n" by (rule div_le_dividend)
    then show ?thesis using 3 assms put [of "?n div 256 ^ 8"] by (simp add: to_websocket_packet_def Let_def)
  qed
qed

text \<open>What the user callback promises: it returns the response buffer with its length.\<close>

definition callback_ok :: "'s ws_env \<Rightarrow> bool" where
  "callback_ok env \<longleftrightarrow> (\<forall>f. receive_callback env = Some f \<longrightarrow>
     (\<forall>c e cap resp s. length (fst (f c e cap resp s)) = length resp))"

lemma websocket_send_total: "n \<le> length b \<Longrightarrow> \<exists>r. websocket_send env c n b s = Some r"
  by (simp add: websocket_send_def split: prod.split)

lemma opcode_handle_total:
  assumes "callback_ok env" "ext_payload_len e \<le> length (payload e)" "ext_payload_len e < 2 ^ 64"
    and "127 \<le> capacity" "length response = capacity"
  shows "\<exists>r response' s'. opcode_handle env c capacity response e s = Some (r, response', s') \<and> length response' = capacity"
proof -
  obtain n raw where p: "to_websocket_packet (e\<lparr>mask := 0, opcode := WEBSOCKET_OP_CODE_PONG\<rparr>) capacity response = Some (n, raw)"
    "n \<le> capacity" "length raw = capacity"
    using ws_packet_total [of "e\<lparr>mask := 0, opcode := WEBSOCKET_OP_CODE_PONG\<rparr>" capacity response] assms by auto
  obtain r s' where "websocket_send env c n raw s = Some (r, s')" using websocket_send_total [of n raw env c s] p by auto
  moreover have "\<exists>r response' s'. (case receive_callback env of
      None \<Rightarrow> Some (WEBSOCKET_ERRORCODE_NONE, response, s)
    | Some f \<Rightarrow> let (response, s) = f c e capacity response s in Some (WEBSOCKET_ERRORCODE_NONE, response, s)) =
    Some (r, response', s') \<and> length response' = capacity"
  proof (cases "receive_callback env")
    case None
    then show ?thesis using assms by simp
  next
    case (Some f)
    obtain resp s' where "f c e capacity response s = (resp, s')" by fastforce
    moreover have "length (fst (f c e capacity response s)) = length response"
      using assms(1) Some by (simp add: callback_ok_def)
    ultimately show ?thesis using Some assms(5) by simp
  qed
  ultimately show ?thesis using p(1,3) assms(4,5) by (simp add: opcode_handle_def)
qed

lemma receive_loop_total:
  assumes "callback_ok env" "127 \<le> capacity" "length response = capacity" "read_size < 2 ^ 64"
    and "read_size \<le> length request" "read_size \<le> length payload_buf"
  shows "\<exists>r response' s'. receive_loop env c read_size request capacity offset payload_buf response s =
    Some (r, response', s') \<and> length response' = capacity"
  using assms
proof (induction env c read_size request capacity offset payload_buf response s rule: receive_loop.induct)
  case (1 env c read_size request capacity offset payload_buf response s)
  show ?case
  proof (cases "offset < read_size")
    case False
    then show ?thesis using "1.prems" by (subst receive_loop.simps) simp
  next
    case True
    have "read_size - offset < 2 ^ 64" "read_size - offset \<le> length (drop offset request)"
      "read_size - offset \<le> length (payload (ws_zero_entity payload_buf)) + 1" using "1.prems" by simp_all
    then obtain k e where k: "to_websocket_entity_consumed (drop offset request) (read_size - offset) (ws_zero_entity payload_buf) = Some (k, e)"
      "length (payload e) = length payload_buf"
      using ws_consumed_total [of "read_size - offset" "drop offset request" "ws_zero_entity payload_buf"]
      by (metis payload_zero)
    show ?thesis
    proof (cases "k = 0")
      case True
      then show ?thesis using k "1.prems" \<open>offset < read_size\<close> by (subst receive_loop.simps) simp
    next
      case False
      have le: "ext_payload_len e \<le> read_size - offset" using ws_consumed_len [OF k(1) False] "1.prems" by simp
      obtain r resp' s1 where o: "opcode_handle env c capacity response e s = Some (r, resp', s1)" "length resp' = capacity"
        using opcode_handle_total [OF "1.prems"(1) _ _ "1.prems"(2,3), of e c s] le k(2) "1.prems" by fastforce
      show ?thesis
      proof (cases "r \<noteq> WEBSOCKET_ERRORCODE_NONE \<or> is_rise_signal env s1")
        case True
        then show ?thesis using k(1) False o \<open>offset < read_size\<close> by (subst receive_loop.simps) auto
      next
        case F2: False
        then show ?thesis
          using "1.IH" [OF True k(1) refl False o(1) refl refl] o k False F2 "1.prems" \<open>offset < read_size\<close>
          by (subst receive_loop.simps) simp
      qed
    qed
  qed
qed

text \<open>What \<open>recvfrom\<close> promises: at most \<open>n\<close> bytes, and their number or -1.\<close>

definition recv_ok :: "'s ws_env \<Rightarrow> bool" where
  "recv_ok env \<longleftrightarrow> (\<forall>c n s r bs s'. recvfrom env c n s = (r, bs, s') \<longrightarrow>
     length bs \<le> n \<and> (r = -1 \<or> r = int (length bs)))"

lemma websocket_recv_total:
  assumes "recv_ok env" "0 < capacity" "length request = capacity"
  shows "\<exists>r request' s'. websocket_recv env c capacity request s = Some (r, request', s') \<and>
    length request' = capacity \<and> r < int capacity"
proof (cases "is_rise_signal env s")
  case True
  then show ?thesis using assms by (simp add: websocket_recv_def)
next
  case False
  obtain r bs s1 where r: "recvfrom env c (capacity - 1) s = (r, bs, s1)" by (metis prod_cases3)
  have b: "length bs \<le> capacity - 1" "r = -1 \<or> r = int (length bs)" using assms(1) r unfolding recv_ok_def by blast+
  have "length bs + 1 \<le> capacity" using b(1) assms(2) by simp
  then show ?thesis
    using r b(2) assms(2,3) False by (auto simp: websocket_recv_def get_recv_err_def)
qed

lemma receive_handle_total:
  assumes "callback_ok env" "127 \<le> capacity" "length response = capacity" "read_size < 2 ^ 64"
    and "read_size \<le> length request" "read_size \<le> length payload_buf"
  shows "\<exists>r response' s'. receive_handle env c read_size request capacity payload_buf response s =
    Some (r, response', s') \<and> length response' = capacity"
  using receive_loop_total [OF assms] assms(3) by (simp add: receive_handle_def)

lemma epoll_receive_total:
  assumes "recv_ok env" "callback_ok env" "127 \<le> capacity" "capacity < 2 ^ 64"
    and "length request = capacity" "length response = capacity" "\<And>n. length (alloca n) = n"
  shows "\<exists>r request' response' s'. epoll_receive env epoll_fd event capacity request alloca response s =
    Some (r, request', response', s') \<and> length request' = capacity \<and> length response' = capacity"
proof -
  have cap: "0 < capacity" using assms(3) by simp
  obtain r req s1 where r: "websocket_recv env (fd event) capacity request s = Some (r, req, s1)"
    "length req = capacity" "r < int capacity"
    using websocket_recv_total [OF assms(1) cap assms(5)] by blast
  have n: "nat r < 2 ^ 64" "nat r \<le> length req" "nat r \<le> length (alloca (nat r))" using r assms(4,7) by auto
  obtain x resp s2 where "receive_handle env (fd event) (nat r) req capacity (alloca (nat r)) response s1 = Some (x, resp, s2)"
    "length resp = capacity"
    using receive_handle_total [OF assms(2,3,6) n] by blast
  then show ?thesis using r assms(5,6) by (simp add: epoll_receive_def)
qed

section \<open>Properties\<close>

text \<open>
  C5: The round trip of the codec. A well-formed frame of at most 65535 payload bytes is built
  into exactly the bytes of its RFC 6455 layout, and parsing these bytes consumes them all and
  gives the frame back.
\<close>

theorem ws_packet_parse_roundtrip:
  assumes "ws_wf e" "ext_payload_len e \<le> 0xFFFF" "length (ws_frame e) \<le> capacity" "capacity \<le> length raw"
    and "capacity < 2 ^ 64" "ext_payload_len e < length (payload e0)"
  shows "\<exists>n buf. to_websocket_packet e capacity raw = Some (n, buf) \<and> take n buf = ws_frame e \<and>
    to_websocket_entity_consumed buf n e0 = Some (n, ws_received e e0)"
proof -
  let ?n = "length (ws_frame e)" and ?buf = "blit raw 0 (ws_frame e)"
  have b: "?buf = ws_frame e @ drop ?n raw" by (simp add: blit_def)
  have "to_websocket_packet e capacity raw = Some (?n, ?buf)" by (rule ws_packet_frame [OF assms(1-4)])
  moreover have "to_websocket_entity_consumed ?buf ?n e0 = Some (?n, ws_received e e0)"
    using ws_consumed_frame [OF assms(1) b, of ?n] assms(3-6) by simp
  ultimately show ?thesis using b by simp
qed

definition ping_frame :: ws_entity where
  "ping_frame = \<lparr>fin = 1, rsv1 = 0, rsv2 = 0, rsv3 = 0, opcode = WEBSOCKET_OP_CODE_PING, mask = 1, payload_len = 0,
     ext_payload_len = 2, masking_key = [1, 2, 3, 4], payload = [104, 105]\<rparr>"

lemma ping_frame_wf: "ws_wf ping_frame" "ext_payload_len ping_frame = 2" "length (ws_frame ping_frame) = 8"
proof -
  show wf: "ws_wf ping_frame" "ext_payload_len ping_frame = 2" by (simp_all add: ws_wf_def ping_frame_def)
  show "length (ws_frame ping_frame) = 8"
    using length_ws_frame [OF wf(1)] by (simp add: ping_frame_def ws_ext_bytes_def)
qed

theorem ws_packet_parse_roundtrip_witness:
  "\<exists>buf. to_websocket_packet ping_frame 16 (replicate 16 0) = Some (8, buf) \<and>
     to_websocket_entity_consumed buf 8 (ws_zero_entity [0, 0, 0]) =
       Some (8, ws_received ping_frame (ws_zero_entity [0, 0, 0]))"
proof -
  obtain n buf where "to_websocket_packet ping_frame 16 (replicate 16 0) = Some (n, buf)" "take n buf = ws_frame ping_frame"
    "to_websocket_entity_consumed buf n (ws_zero_entity [0, 0, 0]) = Some (n, ws_received ping_frame (ws_zero_entity [0, 0, 0]))"
    using ws_packet_parse_roundtrip [of ping_frame 16 "replicate 16 0" "ws_zero_entity [0, 0, 0]"] ping_frame_wf by auto
  moreover have "to_websocket_packet ping_frame 16 (replicate 16 0) = Some (8, blit (replicate 16 0) 0 (ws_frame ping_frame))"
    using ws_packet_frame [of ping_frame 16 "replicate 16 0"] ping_frame_wf by simp
  ultimately show ?thesis by auto
qed

text \<open>
  C4: The frames that arrive in one read are handed to \<open>opcode_handle\<close> one after the other,
  in order, each with exactly its content, until one of them ends the connection; a
  frame of which only a prefix has arrived is not handed over (and its bytes are dropped).
\<close>

theorem receive_handle_delivers:
  assumes "\<forall>e \<in> set es. ws_wf e" "0 < client_sock" "0 < capacity"
    and "request = ws_frames es @ partial @ rest"
    and "read_size = length (ws_frames es) + length partial" "0 < read_size" "read_size < 2 ^ 64"
    and "partial = [] \<or> ws_wf e1 \<and> length partial < length (ws_frame e1) \<and>
      partial = take (length partial) (ws_frame e1)"
    and "length payload_buf = read_size"
  shows "receive_handle env client_sock read_size request capacity payload_buf response s =
    ws_deliver env client_sock capacity es payload_buf response s"
  by (rule receive_handle_frames [OF assms])

definition env_ex :: "nat ws_env" where
  "env_ex = \<lparr>recvfrom = (\<lambda>c n s. (int (min n 4), take n [0x89, 0, 0x89, 0], s)), sendto = (\<lambda>c bs s. (int (length bs), s + length bs)),
     errno = (\<lambda>s. 0), is_rise_signal = (\<lambda>s. False), receive_callback = None\<rparr>"

theorem receive_handle_delivers_witness:
  "receive_handle env_ex 4 10 (ws_frame ping_frame @ take 2 (ws_frame ping_frame)) 128 (replicate 10 0) (replicate 128 0) 0 =
   ws_deliver env_ex 4 128 [ping_frame] (replicate 10 0) (replicate 128 0) 0"
proof -
  have p: "length (take 2 (ws_frame ping_frame)) = 2" using ping_frame_wf by simp
  show ?thesis
    by (rule receive_handle_delivers [where rest = "[]" and partial = "take 2 (ws_frame ping_frame)" and ?e1.0 = ping_frame])
       (use p ping_frame_wf in \<open>simp_all add: ws_frames_def\<close>)
qed

text \<open>
  C3: Whatever bytes a client sends, the handling of one epoll event reads and writes inside the
  request, response and payload buffers only (the model never becomes \<open>None\<close>), and
  ends, given buffers of at least 127 bytes.
\<close>

theorem epoll_receive_memory_safe:
  assumes "recv_ok env" "callback_ok env" "127 \<le> capacity" "capacity < 2 ^ 64"
    and "length request = capacity" "length response = capacity" "\<And>n. length (alloca n) = n"
  shows "epoll_receive env epoll_fd event capacity request alloca response s \<noteq> None"
  using epoll_receive_total [OF assms, of epoll_fd event s] by auto

theorem epoll_receive_memory_safe_witness:
  "epoll_receive env_ex 3 \<lparr>events = EPOLLIN, fd = 4\<rparr> 128 (replicate 128 0) (\<lambda>n. replicate n 0) (replicate 128 0) 0 \<noteq> None"
  by (rule epoll_receive_memory_safe) (auto simp: recv_ok_def callback_ok_def env_ex_def)

text \<open>
  C22: A payload of more than 65535 bytes is not sent: for an unmasked frame
  \<open>to_websocket_packet\<close> reports a packet of 10 bytes, the header, that announces the full length.
\<close>

theorem to_websocket_packet_drops_large_payload:
  assumes "ws_wf e" "0xFFFF < ext_payload_len e" "mask e = 0" "10 \<le> capacity" "capacity \<le> length raw"
  shows "\<exists>buf. to_websocket_packet e capacity raw = Some (10, buf) \<and>
    take 10 buf = [ws_byte0 e, 127] @ rev (le_bytes 8 (ext_payload_len e))"
  using ws_packet_oversize [OF assms] assms(4,5) by (simp add: blit_def)

definition big_frame :: ws_entity where
  "big_frame = ping_frame\<lparr>mask := 0, ext_payload_len := 65536, payload := replicate 65536 7\<rparr>"

theorem to_websocket_packet_drops_large_payload_witness:
  "\<exists>buf. to_websocket_packet big_frame 70000 (replicate 70000 0) = Some (10, buf)"
  using to_websocket_packet_drops_large_payload [of big_frame 70000 "replicate 70000 0"]
  by (simp add: ws_wf_def big_frame_def ping_frame_def) blast

text \<open>
  The variant \<open>to_websocket_entity\<close> reads past a two-byte buffer: its guard rejects a
  capacity of exactly 4 and no other, so a frame head that announces a 16-bit length is followed
  out of bounds, while \<open>to_websocket_entity_consumed\<close> refuses it.
\<close>

theorem to_websocket_entity_out_of_bounds:
  "to_websocket_entity [0x81, 0x7E] 2 e = None \<and>
   (\<exists>e'. to_websocket_entity_consumed [0x81, 0x7E] 2 e = Some (0, e'))"
  by (simp add: to_websocket_entity_def to_websocket_entity_consumed_def byte_at_def ws_head_def size_sub_def)

end
