(* ===== verification/SlotPage.thy ===== *)
theory SlotPage
  imports BufferPool
begin

text \<open>
  Slotted record pages: \<open>src/nostr/db/record/slot_page.c\<close> over the layout of
  \<open>record_types.h\<close>.

  A page is a byte list. The slot directory starts behind the header of 24 bytes and grows
  upwards, the records grow downwards from the end. The 16-bit fields of the header wrap as
  they do in C. An access outside the page makes an operation \<open>None\<close>.
\<close>

section \<open>Layout\<close>

abbreviation (input) "SLOT_PAGE_HEADER_SIZE \<equiv> (24 :: nat)"
abbreviation (input) "SLOT_ENTRY_SIZE \<equiv> (4 :: nat)"
abbreviation (input) "SPANNED_MARKER \<equiv> (0xFFFF :: nat)"
abbreviation (input) "PAGE_TYPE_RECORD \<equiv> (2 :: nat)"

text \<open>
  \<open>SlotPageHeader\<close>: page\_id at 0, overflow\_page at 4, slot\_count at 8,
  free\_space\_start at 10, free\_space\_end at 12, fragmented\_space at 14, page\_type at 16,
  flags at 17.
\<close>

definition slot_count :: "page \<Rightarrow> nat" where "slot_count p = get_le 2 8 p"
definition free_space_start :: "page \<Rightarrow> nat" where "free_space_start p = get_le 2 10 p"
definition free_space_end :: "page \<Rightarrow> nat" where "free_space_end p = get_le 2 12 p"
definition fragmented_space :: "page \<Rightarrow> nat" where "fragmented_space p = get_le 2 14 p"
definition page_type :: "page \<Rightarrow> nat" where "page_type p = get_le 1 16 p"

text \<open>\<open>SlotEntry\<close>: offset and length, 16 bits each.\<close>

definition slot_pos :: "nat \<Rightarrow> nat" where
  "slot_pos i = SLOT_PAGE_HEADER_SIZE + i * SLOT_ENTRY_SIZE"

definition get_slot :: "page \<Rightarrow> nat \<Rightarrow> (nat \<times> nat) option" where
  "get_slot p i =
     (if slot_pos i + SLOT_ENTRY_SIZE \<le> length p
      then Some (get_le 2 (slot_pos i) p, get_le 2 (slot_pos i + 2) p) else None)"

definition put_slot :: "page \<Rightarrow> nat \<Rightarrow> nat \<Rightarrow> nat \<Rightarrow> page option" where
  "put_slot p i offset len =
     (if slot_pos i + SLOT_ENTRY_SIZE \<le> length p
      then Some (put_le 2 (slot_pos i + 2) len (put_le 2 (slot_pos i) offset p)) else None)"

section \<open>Operations\<close>

definition slot_page_init :: "nat \<Rightarrow> page" where
  "slot_page_init page_id =
     put_le 2 12 DB_PAGE_SIZE (put_le 2 10 SLOT_PAGE_HEADER_SIZE
       (put_le 1 16 PAGE_TYPE_RECORD (put_le 4 0 page_id page_data_zero)))"

text \<open>The loop of \<open>slot_page_compact\<close>: the records move to \<open>temp\<close>, from its end downwards.\<close>

definition compact_step :: "nat \<Rightarrow> nat \<times> byte list \<times> page \<Rightarrow> (nat \<times> byte list \<times> page) option" where
  "compact_step i = (\<lambda>(new_end, temp, p). do {
     (offset, len) \<leftarrow> get_slot p i;
     if offset = 0 \<and> len = 0 then Some (new_end, temp, p)
     else do {
       let new_end = (new_end + 2 ^ 16 - len) mod 2 ^ 16;
       bs \<leftarrow> peek p offset len;
       temp \<leftarrow> poke temp new_end bs;
       p \<leftarrow> put_slot p i new_end len;
       Some (new_end, temp, p)
     }
   })"

primrec compact_loop :: "nat list \<Rightarrow> nat \<times> byte list \<times> page \<Rightarrow> (nat \<times> byte list \<times> page) option" where
  "compact_loop [] st = Some st"
| "compact_loop (i # is) st = do { st \<leftarrow> compact_step i st; compact_loop is st }"

text \<open>\<open>temp\<close> is the buffer on the stack, with the content it happens to have.\<close>

definition slot_page_compact :: "byte list \<Rightarrow> page \<Rightarrow> page option" where
  "slot_page_compact temp p =
     (if fragmented_space p = 0 then Some p
      else do {
        (new_end, temp, p) \<leftarrow> compact_loop [0..<slot_count p] (DB_PAGE_SIZE, temp, p);
        p \<leftarrow> (if new_end < DB_PAGE_SIZE
               then do {
                 bs \<leftarrow> peek temp new_end (DB_PAGE_SIZE - new_end);
                 poke p new_end bs
               }
               else Some p);
        Some (put_le 2 14 0 (put_le 2 12 new_end p))
      })"

text \<open>The first deleted slot, if any.\<close>

primrec find_deleted :: "page \<Rightarrow> nat list \<Rightarrow> nat option option" where
  "find_deleted p [] = Some None"
| "find_deleted p (i # is) = do {
     (offset, len) \<leftarrow> get_slot p i;
     if offset = 0 \<and> len = 0 then Some (Some i) else find_deleted p is
   }"

definition available_space :: "page \<Rightarrow> nat" where
  "available_space p = (free_space_end p + 2 ^ 16 - free_space_start p) mod 2 ^ 16"

text \<open>From the allocation of the record space on.\<close>

definition slot_place :: "page \<Rightarrow> byte list \<Rightarrow> nat \<Rightarrow> nat option \<Rightarrow> (page \<times> nat) option" where
  "slot_place p data len reuse_slot = do {
     let record_offset = (free_space_end p + 2 ^ 16 - len) mod 2 ^ 16;
     let p = put_le 2 12 record_offset p;
     p \<leftarrow> poke p record_offset data;
     case reuse_slot of
       Some i \<Rightarrow> do {
         p \<leftarrow> put_slot p i record_offset len;
         Some (p, i)
       }
     | None \<Rightarrow> do {
         let idx = slot_count p;
         p \<leftarrow> put_slot p idx record_offset len;
         let p = put_le 2 8 ((slot_count p + 1) mod 2 ^ 16) p;
         let p = put_le 2 10 ((free_space_start p + SLOT_ENTRY_SIZE) mod 2 ^ 16) p;
         Some (p, idx)
       }
   }"

text \<open>The result: error code, page, and the slot index if there is one.\<close>

definition slot_page_insert ::
    "byte list \<Rightarrow> page \<Rightarrow> byte list \<Rightarrow> nat \<Rightarrow> (nostr_db_error \<times> page \<times> nat option) option" where
  "slot_page_insert temp p data len =
     (if \<not> len > 0 then Some (NOSTR_DB_ERROR_NULL_PARAM, p, None)
      else do {
        reuse_slot \<leftarrow> find_deleted p [0..<slot_count p];
        let needed = (if reuse_slot = None then (len + SLOT_ENTRY_SIZE) mod 2 ^ 16 else len);
        p \<leftarrow> (if available_space p < needed \<and> needed \<le> available_space p + fragmented_space p
               then slot_page_compact temp p else Some p);
        if available_space p < needed then Some (NOSTR_DB_ERROR_FULL, p, None)
        else do {
          bs \<leftarrow> peek data 0 len;
          (p, idx) \<leftarrow> slot_place p bs len reuse_slot;
          Some (NOSTR_DB_OK, p, Some idx)
        }
      })"

text \<open>
  \<open>out\<close> is the buffer, \<open>None\<close> for a null pointer; \<open>cap\<close> is \<open>*length\<close> on entry, the last
  component of the result \<open>*length\<close> on return.
\<close>

definition slot_page_read ::
    "page \<Rightarrow> nat \<Rightarrow> byte list option \<Rightarrow> nat \<Rightarrow> (nostr_db_error \<times> byte list option \<times> nat) option" where
  "slot_page_read p slot_index out cap =
     (if \<not> slot_index < slot_count p then Some (NOSTR_DB_ERROR_NOT_FOUND, out, cap)
      else do {
        (offset, len) \<leftarrow> get_slot p slot_index;
        if offset = 0 \<and> len = 0 then Some (NOSTR_DB_ERROR_NOT_FOUND, out, cap)
        else
          (case out of
             None \<Rightarrow> Some (NOSTR_DB_OK, None, len)
           | Some buf \<Rightarrow> do {
               let copy_len = (if cap < len then cap else len);
               bs \<leftarrow> peek p offset copy_len;
               buf \<leftarrow> poke buf 0 bs;
               Some (NOSTR_DB_OK, Some buf, len)
             })
      })"

definition slot_page_delete :: "page \<Rightarrow> nat \<Rightarrow> (nostr_db_error \<times> page) option" where
  "slot_page_delete p slot_index =
     (if \<not> slot_index < slot_count p then Some (NOSTR_DB_ERROR_NOT_FOUND, p)
      else do {
        (offset, len) \<leftarrow> get_slot p slot_index;
        if offset = 0 \<and> len = 0 then Some (NOSTR_DB_ERROR_NOT_FOUND, p)
        else do {
          let p = put_le 2 14 ((fragmented_space p + len) mod 2 ^ 16) p;
          p \<leftarrow> put_slot p slot_index 0 0;
          Some (NOSTR_DB_OK, p)
        }
      })"

definition slot_page_free_space :: "page \<Rightarrow> nat" where
  "slot_page_free_space p = (available_space p + fragmented_space p) mod 2 ^ 16"

definition slot_page_slot_count :: "page \<Rightarrow> nat" where
  "slot_page_slot_count p = slot_count p"

section \<open>The records of a page\<close>

definition s_off :: "page \<Rightarrow> nat \<Rightarrow> nat" where "s_off p i = get_le 2 (slot_pos i) p"
definition s_len :: "page \<Rightarrow> nat \<Rightarrow> nat" where "s_len p i = get_le 2 (slot_pos i + 2) p"

definition live :: "page \<Rightarrow> nat \<Rightarrow> bool" where
  "live p i \<longleftrightarrow> \<not> (s_off p i = 0 \<and> s_len p i = 0)"

definition slot_rec :: "page \<Rightarrow> nat \<Rightarrow> byte list option" where
  "slot_rec p i = (if live p i then Some (slice p (s_off p i) (s_len p i)) else None)"

definition slot_recs :: "page \<Rightarrow> byte list option list" where
  "slot_recs p = map (slot_rec p) [0..<slot_count p]"

definition used_bytes :: "page \<Rightarrow> nat \<Rightarrow> nat" where
  "used_bytes p n = (\<Sum>i<n. s_len p i)"

definition slot_disjoint :: "page \<Rightarrow> nat \<Rightarrow> nat \<Rightarrow> bool" where
  "slot_disjoint p i j \<longleftrightarrow> s_off p i + s_len p i \<le> s_off p j \<or> s_off p j + s_len p j \<le> s_off p i"

text \<open>
  The invariant: the directory ends at \<open>free_space_start\<close>, the live records lie disjoint
  between \<open>free_space_end\<close> and the end of the page, and what they leave of this range is
  \<open>fragmented_space\<close>.
\<close>

definition slot_ok :: "page \<Rightarrow> bool" where
  "slot_ok p \<longleftrightarrow> length p = DB_PAGE_SIZE \<and> free_space_start p = slot_pos (slot_count p) \<and>
     free_space_start p \<le> free_space_end p \<and> free_space_end p \<le> DB_PAGE_SIZE \<and>
     (\<forall>i < slot_count p. live p i \<longrightarrow>
        0 < s_len p i \<and> free_space_end p \<le> s_off p i \<and> s_off p i + s_len p i \<le> DB_PAGE_SIZE) \<and>
     (\<forall>i < slot_count p. \<forall>j < slot_count p. live p i \<and> live p j \<and> i \<noteq> j \<longrightarrow> slot_disjoint p i j) \<and>
     used_bytes p (slot_count p) + fragmented_space p = DB_PAGE_SIZE - free_space_end p"

lemmas header_defs = slot_count_def free_space_start_def free_space_end_def fragmented_space_def page_type_def

lemma slot_pos_mono: "i < j \<Longrightarrow> slot_pos i + 4 \<le> slot_pos j" by (simp add: slot_pos_def)
lemma slot_pos_le: "i \<le> j \<Longrightarrow> slot_pos i \<le> slot_pos j" by (simp add: slot_pos_def)
lemma slot_pos_ge: "24 \<le> slot_pos i" by (simp add: slot_pos_def)

definition set_slot :: "page \<Rightarrow> nat \<Rightarrow> nat \<Rightarrow> nat \<Rightarrow> page" where
  "set_slot p i offset len = put_le 2 (slot_pos i + 2) len (put_le 2 (slot_pos i) offset p)"

lemma put_slot_eq: "slot_pos i + 4 \<le> length p \<Longrightarrow> put_slot p i offset len = Some (set_slot p i offset len)"
  by (simp add: put_slot_def set_slot_def)

lemma get_slot_eq: "slot_pos i + 4 \<le> length p \<Longrightarrow> get_slot p i = Some (s_off p i, s_len p i)"
  by (simp add: get_slot_def s_off_def s_len_def)

lemma set_slot_length [simp]: "slot_pos i + 4 \<le> length p \<Longrightarrow> length (set_slot p i o' l) = length p"
  by (simp add: set_slot_def)

lemma set_slot_entry:
  assumes "slot_pos i + 4 \<le> length p" "o' < 2 ^ 16" "l < 2 ^ 16"
  shows "s_off (set_slot p i o' l) j = (if j = i then o' else s_off p j)"
    "s_len (set_slot p i o' l) j = (if j = i then l else s_len p j)"
proof -
  have "j < i \<or> j = i \<or> i < j" by linarith
  then show "s_off (set_slot p i o' l) j = (if j = i then o' else s_off p j)"
    "s_len (set_slot p i o' l) j = (if j = i then l else s_len p j)"
    using assms slot_pos_mono [of i j] slot_pos_mono [of j i]
    by (auto simp: set_slot_def s_off_def s_len_def mem_simps)
qed

lemma set_slot_header:
  assumes "slot_pos i + 4 \<le> length p" "a + w \<le> 24"
  shows "get_le w a (set_slot p i o' l) = get_le w a p"
  using assms slot_pos_ge [of i] by (simp add: set_slot_def mem_simps)

lemma set_slot_slice:
  assumes "slot_pos i + 4 \<le> length p" "slot_pos i + 4 \<le> a"
  shows "slice (set_slot p i o' l) a n = slice p a n"
  using assms by (simp add: set_slot_def mem_simps)

lemma put_le_entry:
  assumes "a + w \<le> 24" "length p = 4096"
  shows "s_off (put_le w a v p) j = s_off p j" "s_len (put_le w a v p) j = s_len p j"
  using assms slot_pos_ge [of j] by (simp_all add: s_off_def s_len_def mem_simps)

lemma blit_entry:
  assumes "slot_pos j + 4 \<le> a" "a + length bs \<le> length p"
  shows "s_off (blit p a bs) j = s_off p j" "s_len (blit p a bs) j = s_len p j"
  using assms by (simp_all add: s_off_def s_len_def mem_simps)

lemma used_bytes_Suc: "used_bytes p (Suc n) = used_bytes p n + s_len p n"
  by (simp add: used_bytes_def)

lemma used_bytes_mono: "m \<le> n \<Longrightarrow> used_bytes p m \<le> used_bytes p n"
  unfolding used_bytes_def by (rule sum_mono2) auto

lemma used_bytes_cong: "(\<And>i. i < n \<Longrightarrow> s_len p i = s_len q i) \<Longrightarrow> used_bytes p n = used_bytes q n"
  by (simp add: used_bytes_def)

lemma slot_okD:
  assumes "slot_ok p"
  shows "length p = 4096" "free_space_start p = slot_pos (slot_count p)" "free_space_start p \<le> free_space_end p"
    "free_space_end p \<le> 4096" "used_bytes p (slot_count p) + fragmented_space p + free_space_end p = 4096"
    "i < slot_count p \<Longrightarrow> slot_pos i + 4 \<le> free_space_end p" "slot_pos (slot_count p) \<le> free_space_end p"
    "i < slot_count p \<Longrightarrow> slot_pos i + 4 \<le> length p"
    "i < slot_count p \<Longrightarrow> live p i \<Longrightarrow> 0 < s_len p i \<and> free_space_end p \<le> s_off p i \<and> s_off p i + s_len p i \<le> 4096"
    "i < slot_count p \<Longrightarrow> j < slot_count p \<Longrightarrow> live p i \<Longrightarrow> live p j \<Longrightarrow> i \<noteq> j \<Longrightarrow> slot_disjoint p i j"
proof -
  show s: "length p = 4096" "free_space_start p = slot_pos (slot_count p)" "free_space_start p \<le> free_space_end p"
    "free_space_end p \<le> 4096" "used_bytes p (slot_count p) + fragmented_space p + free_space_end p = 4096"
    "slot_pos (slot_count p) \<le> free_space_end p"
    using assms by (auto simp: slot_ok_def)
  show "i < slot_count p \<Longrightarrow> slot_pos i + 4 \<le> free_space_end p" "i < slot_count p \<Longrightarrow> slot_pos i + 4 \<le> length p"
    using s slot_pos_mono [of i "slot_count p"] by simp_all
  show "i < slot_count p \<Longrightarrow> live p i \<Longrightarrow> 0 < s_len p i \<and> free_space_end p \<le> s_off p i \<and> s_off p i + s_len p i \<le> 4096"
    "i < slot_count p \<Longrightarrow> j < slot_count p \<Longrightarrow> live p i \<Longrightarrow> live p j \<Longrightarrow> i \<noteq> j \<Longrightarrow> slot_disjoint p i j"
    using assms by (auto simp: slot_ok_def)
qed

section \<open>Compaction\<close>

definition new_off :: "page \<Rightarrow> nat \<Rightarrow> nat" where
  "new_off p j = DB_PAGE_SIZE - used_bytes p (Suc j)"

text \<open>The state of the loop behind the first \<open>k\<close> slots of \<open>p0\<close>.\<close>

definition compact_inv :: "page \<Rightarrow> nat \<Rightarrow> nat \<times> byte list \<times> page \<Rightarrow> bool" where
  "compact_inv p0 k st \<longleftrightarrow> (case st of (ne, temp, p) \<Rightarrow>
     ne = DB_PAGE_SIZE - used_bytes p0 k \<and> length temp = DB_PAGE_SIZE \<and> length p = DB_PAGE_SIZE \<and>
     (\<forall>a w. a + w \<le> 24 \<longrightarrow> get_le w a p = get_le w a p0) \<and>
     (\<forall>a n. slot_pos (slot_count p0) \<le> a \<longrightarrow> slice p a n = slice p0 a n) \<and>
     (\<forall>j. s_len p j = s_len p0 j) \<and>
     (\<forall>j. s_off p j = (if j < k \<and> live p0 j then new_off p0 j else s_off p0 j)) \<and>
     (\<forall>j < k. live p0 j \<longrightarrow> slice temp (new_off p0 j) (s_len p0 j) = slice p0 (s_off p0 j) (s_len p0 j)))"

lemma compact_loop_append:
  "compact_loop (xs @ ys) st = Option.bind (compact_loop xs st) (compact_loop ys)"
  by (induction xs arbitrary: st) auto

lemma compact_loop_inv:
  assumes ok: "slot_ok p0" and temp: "length temp = 4096" and "k \<le> slot_count p0"
  shows "\<exists>st. compact_loop [0..<k] (4096, temp, p0) = Some st \<and> compact_inv p0 k st"
  using assms(3)
proof (induction k)
  case 0
  then show ?case using ok temp by (simp add: compact_inv_def used_bytes_def slot_okD)
next
  case (Suc k)
  note D = slot_okD [OF ok]
  from Suc obtain ne tmp p where IH: "compact_loop [0..<k] (4096, temp, p0) = Some (ne, tmp, p)"
    "compact_inv p0 k (ne, tmp, p)" by auto
  note I = IH(2) [unfolded compact_inv_def prod.case]
  have k: "k < slot_count p0" using Suc.prems by simp
  have pos: "slot_pos k + 4 \<le> length p" using D(8) [OF k] D(1) I by simp
  have g: "get_slot p k = Some (s_off p0 k, s_len p0 k)" using get_slot_eq [OF pos] I by simp
  have u: "used_bytes p0 (Suc k) \<le> used_bytes p0 (slot_count p0)" by (rule used_bytes_mono) (use k in simp)
  then have ule: "used_bytes p0 (Suc k) + slot_pos (slot_count p0) \<le> 4096" using D(5,7) by linarith
  have loop: "compact_loop [0..<Suc k] (4096, temp, p0) = compact_step k (ne, tmp, p)"
    by (simp add: compact_loop_append IH(1))
  show ?case
  proof (cases "live p0 k")
    case False
    then have z: "s_off p0 k = 0" "s_len p0 k = 0" by (simp_all add: live_def)
    have "compact_inv p0 (Suc k) (ne, tmp, p)"
      using I z False by (auto simp: compact_inv_def used_bytes_Suc less_Suc_eq)
    then show ?thesis using loop g z by (simp add: compact_step_def)
  next
    case True
    have L: "0 < s_len p0 k" "free_space_end p0 \<le> s_off p0 k" "s_off p0 k + s_len p0 k \<le> 4096"
      using D(9) [OF k True] by auto
    let ?ne = "new_off p0 k" and ?bs = "slice p0 (s_off p0 k) (s_len p0 k)"
    have ne: "(ne + 65536 - s_len p0 k) mod 65536 = ?ne" "?ne + s_len p0 k = ne"
      using I ule by (simp_all add: new_off_def used_bytes_Suc mod_nat_eqI)
    have pk: "peek p (s_off p0 k) (s_len p0 k) = Some ?bs"
      using I L D(7) by simp
    have lbs: "length ?bs = s_len p0 k" using L D(1) by simp
    have tk: "poke tmp ?ne ?bs = Some (blit tmp ?ne ?bs)" using I ne(2) lbs by simp
    have one: "compact_step k (ne, tmp, p) = Some (?ne, blit tmp ?ne ?bs, set_slot p k ?ne (s_len p0 k))"
      using g L(1) ne(1) pk tk put_slot_eq [OF pos] by (simp add: Let_def compact_step_def)
    have b: "?ne < 2 ^ 16" "s_len p0 k < 2 ^ 16" using L by (simp_all add: new_off_def)
    note E = set_slot_entry [OF pos b] and H = set_slot_header [OF pos] and S = set_slot_slice [OF pos]
    have old: "slice (blit tmp ?ne ?bs) (new_off p0 j) (s_len p0 j) = slice tmp (new_off p0 j) (s_len p0 j)" if "j < k" for j
    proof -
      have "used_bytes p0 (Suc j) \<le> used_bytes p0 k" by (rule used_bytes_mono) (use that in simp)
      then have "?ne + s_len p0 k \<le> new_off p0 j" using ne(2) I by (simp add: new_off_def)
      then show ?thesis using I ne(2) lbs by (simp add: slice_blit_disjoint)
    qed
    have new: "slice (blit tmp ?ne ?bs) ?ne (s_len p0 k) = ?bs" using I ne(2) lbs by (simp add: slice_blit_same)
    have pm: "slot_pos k + 4 \<le> slot_pos (slot_count p0)" using slot_pos_mono [OF k] .
    have "compact_inv p0 (Suc k) (?ne, blit tmp ?ne ?bs, set_slot p k ?ne (s_len p0 k))"
      unfolding compact_inv_def prod.case
      using I ne(2) lbs pos E H S pm True old new
      by (auto simp: less_Suc_eq new_off_def)
    then show ?thesis using loop one by auto
  qed
qed

lemma slot_ok_frame:
  assumes "slot_ok p" "length p' = length p" "slot_count p' = slot_count p" "free_space_start p' = free_space_start p"
    and "free_space_end p' = free_space_end p" "fragmented_space p' = fragmented_space p"
    and "\<And>j. j < slot_count p \<Longrightarrow> s_off p' j = s_off p j \<and> s_len p' j = s_len p j"
  shows "slot_ok p'"
  using assms used_bytes_cong [of "slot_count p" p' p] by (auto simp: slot_ok_def live_def slot_disjoint_def)

lemma slot_page_compact_ok:
  assumes ok: "slot_ok p" and temp: "length temp = 4096"
  obtains p' where "slot_page_compact temp p = Some p'" "slot_ok p'" "slot_recs p' = slot_recs p"
    "slot_count p' = slot_count p" "free_space_start p' = free_space_start p"
    "\<And>i. i < slot_count p \<Longrightarrow> live p' i = live p i"
    "free_space_end p' = free_space_end p + fragmented_space p" "fragmented_space p' = 0"
    "get_le 4 0 p' = get_le 4 0 p" "page_type p' = page_type p"
proof (cases "fragmented_space p = 0")
  case True
  then show thesis using that [of p] ok by (simp add: slot_page_compact_def)
next
  case False
  let ?n = "slot_count p"
  note D = slot_okD [OF ok]
  obtain ne tmp q where L: "compact_loop [0..<?n] (4096, temp, p) = Some (ne, tmp, q)" "compact_inv p ?n (ne, tmp, q)"
    using compact_loop_inv [OF ok temp order_refl] by auto
  note I = L(2) [unfolded compact_inv_def prod.case]
  have ne: "ne = free_space_end p + fragmented_space p" "ne \<le> 4096" "slot_pos ?n \<le> ne" using I D(5,7) by linarith+
  let ?bs = "slice tmp ne (4096 - ne)"
  have lbs: "length ?bs = 4096 - ne" using I by simp
  define r where "r = blit q ne ?bs"
  have step: "(if ne < 4096 then do { bs \<leftarrow> peek tmp ne (4096 - ne); poke q ne bs } else Some q) = Some r"
    using I ne(2) lbs by (auto simp: r_def)
  define p' where "p' = put_le 2 14 0 (put_le 2 12 ne r)"
  have res: "slot_page_compact temp p = Some p'"
    using False L(1) step by (simp add: slot_page_compact_def p'_def)
  have lr: "length r = 4096" using I ne(2) lbs by (simp add: r_def)
  have hd: "get_le w a p' = get_le w a p" if "a + w \<le> 12 \<or> 16 \<le> a \<and> a + w \<le> 24" for a w
    using that I ne lbs lr slot_pos_ge [of ?n] by (auto simp: p'_def r_def mem_simps)
  have cnt: "slot_count p' = ?n" "free_space_start p' = free_space_start p" "get_le 4 0 p' = get_le 4 0 p" "page_type p' = page_type p"
    using hd [of 8 2] hd [of 10 2] hd [of 0 4] hd [of 16 1] by (simp_all add: header_defs)
  have fe: "free_space_end p' = ne" "fragmented_space p' = 0"
    using lr ne(2) by (simp_all add: header_defs p'_def mem_simps)
  have le: "ne \<le> new_off p j" "new_off p j + s_len p j \<le> 4096" if "j < ?n" for j
  proof -
    have "used_bytes p (Suc j) \<le> used_bytes p ?n" by (rule used_bytes_mono) (use that in simp)
    then show "ne \<le> new_off p j" "new_off p j + s_len p j \<le> 4096" using I D(5) by (simp_all add: new_off_def used_bytes_Suc)
  qed
  have ent: "s_off p' j = (if live p j then new_off p j else s_off p j)" "s_len p' j = s_len p j" if "j < ?n" for j
  proof -
    have "slot_pos j + 4 \<le> ne" using slot_pos_mono [OF that] ne(3) by linarith
    then show "s_off p' j = (if live p j then new_off p j else s_off p j)" "s_len p' j = s_len p j"
      using I that lr ne(2) lbs by (simp_all add: p'_def put_le_entry r_def blit_entry)
  qed
  have lv: "live p' j = live p j" if "j < ?n" for j
    using ent [OF that] D(9) [OF that] by (auto simp: live_def)
  have data: "slice p' (new_off p j) (s_len p j) = slice p (s_off p j) (s_len p j)" if "j < ?n" "live p j" for j
  proof -
    have "slice p' (new_off p j) (s_len p j) = slice r (new_off p j) (s_len p j)"
      using lr le(1) [OF that(1)] slot_pos_ge [of ?n] ne(3) by (simp add: p'_def mem_simps)
    also have "\<dots> = slice tmp (new_off p j) (s_len p j)"
    proof -
      have "slice r (new_off p j) (s_len p j) = slice (slice r ne (4096 - ne)) (new_off p j - ne) (s_len p j)"
        using le [OF that(1)] by (simp add: slice_slice)
      also have "slice r ne (4096 - ne) = ?bs" using I lbs ne(2) by (simp add: r_def slice_blit_same)
      finally show ?thesis using le [OF that(1)] by (simp add: slice_slice)
    qed
    finally show ?thesis using I that by simp
  qed
  have recs: "slot_recs p' = slot_recs p"
    using lv ent data by (simp add: slot_recs_def slot_rec_def cnt)
  have disj: "slot_disjoint p' i j" if "i < ?n" "j < ?n" "live p i" "live p j" "i \<noteq> j" for i j
  proof -
    have *: "slot_disjoint p' i j" if "i < j" "j < ?n" "live p i" "live p j" for i j
    proof -
      have "used_bytes p (Suc i) \<le> used_bytes p j" by (rule used_bytes_mono) (use that in simp)
      moreover have "used_bytes p j + s_len p j \<le> 4096" using le(2) [OF that(2)] used_bytes_mono [of "Suc j" ?n p] D(5) that(2)
        by (simp add: used_bytes_Suc)
      ultimately have "new_off p j + s_len p j \<le> new_off p i" by (simp add: new_off_def used_bytes_Suc)
      then show ?thesis using that ent by (simp add: slot_disjoint_def)
    qed
    from that show ?thesis using * [of i j] * [of j i] by (cases "i < j") (auto simp: slot_disjoint_def)
  qed
  have "slot_ok p'"
    unfolding slot_ok_def cnt fe
    using lr D(2,5,7) ne lv ent le D(9) disj used_bytes_cong [of ?n p' p] ent(2)
    by (auto simp: p'_def)
  then show thesis using that [OF res _ recs cnt(1,2) lv _ fe(2) cnt(3,4)] fe(1) ne(1) by simp
qed

section \<open>Insertion\<close>

text \<open>What an insertion does to the list of records: the first deleted slot is used, else a new one.\<close>

definition rec_insert :: "byte list option list \<Rightarrow> byte list \<Rightarrow> byte list option list" where
  "rec_insert rs d = (let i = first_index (\<lambda>r. r = None) rs in if i < length rs then rs[i := Some d] else rs @ [Some d])"

lemma length_slot_recs [simp]: "length (slot_recs p) = slot_count p"
  by (simp add: slot_recs_def)

lemma slot_recs_None: "i < slot_count p \<Longrightarrow> slot_recs p ! i = None \<longleftrightarrow> \<not> live p i"
  by (simp add: slot_recs_def slot_rec_def)

lemma find_deleted_eq:
  assumes "slot_ok p" "\<forall>i \<in> set xs. i < slot_count p"
  shows "find_deleted p xs = Some (List.find (\<lambda>i. \<not> live p i) xs)"
  using assms(2) get_slot_eq slot_okD(8) [OF assms(1)] by (induction xs) (auto simp: live_def)

lemma find_deleted_slot:
  assumes "slot_ok p"
  shows "find_deleted p [0..<slot_count p] = Some (let i = first_index (\<lambda>r. r = None) (slot_recs p) in
    if i < slot_count p then Some i else None)"
proof -
  let ?i = "first_index (\<lambda>r. r = None) (slot_recs p)"
  have "List.find (\<lambda>i. \<not> live p i) [0..<slot_count p] = (if ?i < slot_count p then Some ?i else None)"
  proof (cases "?i < slot_count p")
    case True
    then have "\<not> live p ?i" using first_index_hit [of "\<lambda>r. r = None" "slot_recs p"] slot_recs_None by simp
    moreover have "live p j" if "j < ?i" for j
      using first_index_before [OF that] slot_recs_None [of j p] that True by simp
    ultimately show ?thesis using True unfolding find_Some_iff by (auto intro!: exI [of _ ?i] simp: find_Some_iff)
  next
    case False
    then have "\<forall>i < slot_count p. live p i"
      using first_index_less_iff [of "\<lambda>r. r = None" "slot_recs p"] by (metis length_slot_recs nth_mem slot_recs_None)
    then show ?thesis using False by (auto simp: find_None_iff)
  qed
  then show ?thesis using find_deleted_eq [OF assms] by (simp add: Let_def)
qed


text \<open>A page is determined by header, entries and data; what changes when one record is placed.\<close>

lemma slot_place_ok:
  assumes ok: "slot_ok p" and d: "0 < length d" "length d + (if reuse = None then 4 else 0) \<le> free_space_end p - free_space_start p"
    and reuse: "\<And>i. reuse = Some i \<Longrightarrow> i < slot_count p \<and> \<not> live p i"
  obtains p' where "slot_place p d (length d) reuse = Some (p', case reuse of Some i \<Rightarrow> i | None \<Rightarrow> slot_count p)"
    "slot_ok p'" "slot_recs p' = (case reuse of Some i \<Rightarrow> (slot_recs p)[i := Some d] | None \<Rightarrow> slot_recs p @ [Some d])"
    "get_le 4 0 p' = get_le 4 0 p" "page_type p' = page_type p"
proof -
  note D = slot_okD [OF ok]
  let ?n = "slot_count p" and ?l = "length d"
  define ro where "ro = free_space_end p - ?l"
  have dl: "?l \<le> free_space_end p - free_space_start p" using d(2) by (auto split: if_splits)
  define k where "k = (case reuse of Some i \<Rightarrow> i | None \<Rightarrow> ?n)"
  define n' where "n' = (case reuse of Some i \<Rightarrow> ?n | None \<Rightarrow> ?n + 1)"
  have ro: "ro + ?l = free_space_end p" "ro \<le> 4096" "slot_pos ?n \<le> ro" using dl D(2,3,4) by (simp_all add: ro_def)
  have k: "slot_pos k + 4 \<le> ro" "k < n'" "n' \<le> ?n + 1"
    using reuse d(2) D(2) ro slot_pos_mono [of k ?n] slot_pos_mono [of ?n "?n + 1"]
    by (auto simp: k_def n'_def slot_pos_def split: option.splits)
  have rom: "(free_space_end p + 2 ^ 16 - ?l) mod 2 ^ 16 = ro"
  proof -
    have "free_space_end p + 2 ^ 16 - ?l = ro + 2 ^ 16" using ro(1) by linarith
    then show ?thesis using ro(2) by simp
  qed
  let ?p1 = "put_le 2 12 ro p"
  define p2 where "p2 = blit ?p1 ro d"
  have l2: "length p2 = 4096" "poke ?p1 ro d = Some p2" using ro D(1,4) by (simp_all add: p2_def)
  define p3 where "p3 = set_slot p2 k ro ?l"
  have pos2: "slot_pos k + 4 \<le> length p2" using k(1) ro l2 by simp
  have l3: "length p3 = 4096" "put_slot p2 k ro ?l = Some p3" using put_slot_eq [OF pos2] pos2 l2(1) by (simp_all add: p3_def)
  have h2: "get_le w a p2 = get_le w a p" if "a + w \<le> 12 \<or> 14 \<le> a \<and> a + w \<le> 24" for a w
    using that ro D(1,4) slot_pos_ge [of ?n] by (auto simp: p2_def mem_simps)
  have e2: "get_le 2 12 p2 = ro" using ro D(1,4) slot_pos_ge [of ?n] by (simp add: p2_def mem_simps)
  have h3: "get_le w a p3 = get_le w a p2" if "a + w \<le> 24" for a w
    using set_slot_header [OF pos2 that] by (simp add: p3_def)
  define p' where "p' = (case reuse of Some i \<Rightarrow> p3
    | None \<Rightarrow> put_le 2 10 ((free_space_start p + 4) mod 2 ^ 16) (put_le 2 8 ((?n + 1) mod 2 ^ 16) p3))"
  have cnt3: "slot_count p3 = ?n" "slot_count p2 = ?n" "free_space_start p3 = free_space_start p"
    using h3 [of 8 2] h2 [of 8 2] h3 [of 10 2] h2 [of 10 2] by (simp_all add: header_defs)
  have st: "free_space_start (put_le 2 8 v p3) = free_space_start p" for v
    using cnt3(3) l3(1) by (simp add: header_defs mem_simps)
  have res: "slot_place p d ?l reuse = Some (p', k)"
    using rom l2(2) l3(2) cnt3 st by (cases reuse) (simp_all add: slot_place_def k_def p'_def Let_def)
  have lp: "length p' = 4096" using l3 by (simp add: p'_def split: option.split)
  have ent3: "s_off p3 j = (if j = k then ro else s_off p j)" "s_len p3 j = (if j = k then ?l else s_len p j)" if "j < n'" for j
  proof -
    have b: "ro < 2 ^ 16" "?l < 2 ^ 16" using ro D(4) by simp_all
    have sj: "slot_pos j + 4 \<le> ro" if "j \<noteq> k"
      using that \<open>j < n'\<close> ro(3) slot_pos_mono [of j ?n] by (auto simp: k_def n'_def split: option.splits)
    show "s_off p3 j = (if j = k then ro else s_off p j)" "s_len p3 j = (if j = k then ?l else s_len p j)"
      using set_slot_entry [OF pos2 b, of j] sj ro D(1,4) by (auto simp: p3_def p2_def blit_entry put_le_entry)
  qed
  have ent: "s_off p' j = (if j = k then ro else s_off p j)" "s_len p' j = (if j = k then ?l else s_len p j)" if "j < n'" for j
    using ent3 [OF that] l3 by (auto simp: p'_def put_le_entry split: option.split)
  have n16: "?n + 1 < 2 ^ 16 \<and> free_space_start p + 4 < 2 ^ 16" if "reuse = None"
    using that d(2) D(2,4) by (simp add: slot_pos_def) arith
  have hdr: "slot_count p' = n'" "free_space_start p' = slot_pos n'" "free_space_end p' = ro"
    "fragmented_space p' = fragmented_space p" "get_le 4 0 p' = get_le 4 0 p" "page_type p' = page_type p"
    using h3 [of 8 2] h2 [of 8 2] h3 [of 10 2] h2 [of 10 2] h3 [of 12 2] e2 h3 [of 14 2] h2 [of 14 2] h3 [of 0 4] h2 [of 0 4]
      h3 [of 16 1] h2 [of 16 1] n16 l3(1) D(2)
    by (cases reuse; simp add: header_defs p'_def n'_def mem_simps slot_pos_def)+
  have sl: "slice p' a w = slice p2 a w" if "slot_pos k + 4 \<le> a" for a w
    using that set_slot_slice [OF pos2 that] l3 slot_pos_ge [of k] by (auto simp: p'_def p3_def mem_simps split: option.split)
  have sd: "slice p' ro ?l = d" using sl [OF k(1)] ro D(1,4) by (simp add: p2_def slice_blit_same)
  have so: "slice p' a w = slice p a w" if "free_space_end p \<le> a" for a w
    using that sl [of a w] k(1) ro D(1,4) slot_pos_ge [of k] by (simp add: p2_def mem_simps)
  have nl: "\<not> live p k \<or> k = ?n" using reuse by (auto simp: k_def split: option.split)
  have lv: "live p' j = (j = k \<or> live p j)" if "j < n'" for j
    using ent [OF that] d(1) by (auto simp: live_def)
  have lt: "j < ?n" if "j < n'" "j \<noteq> k" for j using that by (auto simp: n'_def k_def split: option.splits)
  have ub: "used_bytes p' n' = used_bytes p ?n + ?l"
  proof (cases reuse)
    case None
    then have n: "n' = Suc ?n" "k = ?n" by (simp_all add: n'_def k_def)
    have "used_bytes p' ?n = used_bytes p ?n" by (rule used_bytes_cong) (use ent n in simp)
    then show ?thesis using ent [of ?n] n by (simp add: used_bytes_Suc)
  next
    case (Some i)
    then have "i < ?n" "s_len p i = 0" using reuse [OF Some] by (simp_all add: live_def)
    moreover have "(\<Sum>j<?n. if j = i then ?l else s_len p j) = (\<Sum>j<?n. s_len p j + (if j = i then ?l else 0))"
      using \<open>s_len p i = 0\<close> by (intro sum.cong) auto
    ultimately show ?thesis using Some ent by (simp add: used_bytes_def n'_def k_def sum.distrib)
  qed
  have "slot_ok p'"
    unfolding slot_ok_def hdr
  proof (intro conjI allI impI)
    show "slot_pos n' \<le> ro" using d(2) D(2) ro by (auto simp: n'_def slot_pos_def split: option.splits)
    show "used_bytes p' n' + fragmented_space p = 4096 - ro" using ub D(5) ro by simp
    fix i assume i: "i < n'" "live p' i"
    have "0 < s_len p' i \<and> ro \<le> s_off p' i \<and> s_off p' i + s_len p' i \<le> 4096"
      using ent [OF i(1)] lv [OF i(1)] i(2) d(1) ro D(4) D(9) [of i] lt [OF i(1)] by (cases "i = k") auto
    then show "0 < s_len p' i" "ro \<le> s_off p' i" "s_off p' i + s_len p' i \<le> 4096" by auto
  next
    fix i j assume i: "i < n'" and j: "j < n'" and l: "live p' i \<and> live p' j \<and> i \<noteq> j"
    show "slot_disjoint p' i j"
      using ent [OF i] ent [OF j] lv [OF i] lv [OF j] l ro D(9) [of i] D(9) [of j] lt [OF i] lt [OF j] D(10) [of i j]
      by (auto simp: slot_disjoint_def split: if_splits)
  qed (use lp ro in simp_all)
  moreover have "slot_recs p' = (case reuse of Some i \<Rightarrow> (slot_recs p)[i := Some d] | None \<Rightarrow> slot_recs p @ [Some d])"
  proof -
    have rj: "slot_rec p' j = (if j = k then Some d else slot_rec p j)" if "j < n'" for j
      using ent [OF that] lv [OF that] sd so D(9) [of j] lt [OF that] by (auto simp: slot_rec_def)
    show ?thesis
    proof (cases reuse)
      case None
      then show ?thesis using rj by (simp add: slot_recs_def hdr n'_def k_def)
    next
      case (Some i)
      then show ?thesis using rj by (intro nth_equalityI) (auto simp: slot_recs_def hdr n'_def k_def nth_list_update)
    qed
  qed
  ultimately show thesis using that [of p'] res hdr(5,6) by (simp add: k_def)
qed

lemma available_space_eq: "slot_ok p \<Longrightarrow> available_space p = free_space_end p - free_space_start p"
  using slot_okD(3,4) [of p] by (simp add: available_space_def mod_nat_eqI)

lemma slot_page_insert_ok:
  assumes ok: "slot_ok p" and temp: "length temp = 4096" and d: "0 < length d" "length d \<le> 4096"
    and room: "length d + (if None \<in> set (slot_recs p) then 0 else 4) \<le> free_space_end p - free_space_start p + fragmented_space p"
  obtains p' idx where "slot_page_insert temp p d (length d) = Some (NOSTR_DB_OK, p', Some idx)" "slot_ok p'"
    "slot_recs p' = rec_insert (slot_recs p) d" "idx < slot_count p'" "slot_recs p' ! idx = Some d"
    "idx < slot_count p \<Longrightarrow> slot_recs p ! idx = None"
    "get_le 4 0 p' = get_le 4 0 p" "page_type p' = page_type p"
proof -
  let ?i = "first_index (\<lambda>r. r = None) (slot_recs p)"
  define reuse where "reuse = (if ?i < slot_count p then Some ?i else None)"
  have fd: "find_deleted p [0..<slot_count p] = Some reuse" using find_deleted_slot [OF ok] by (simp add: reuse_def Let_def)
  have none: "None \<in> set (slot_recs p) \<longleftrightarrow> reuse \<noteq> None"
    using first_index_less_iff [of "\<lambda>r. r = None" "slot_recs p"] by (auto simp: reuse_def)
  define needed where "needed = length d + (if reuse = None then 4 else 0)"
  have nd: "(if reuse = None then (length d + 4) mod 2 ^ 16 else length d) = needed" using d(2) by (simp add: needed_def)
  have room': "needed \<le> available_space p + fragmented_space p"
    using room none available_space_eq [OF ok] by (cases reuse) (simp_all add: needed_def)
  let ?c = "available_space p < needed \<and> needed \<le> available_space p + fragmented_space p"
  obtain q where q: "(if ?c then slot_page_compact temp p else Some p) = Some q" "slot_ok q" "slot_recs q = slot_recs p"
    "slot_count q = slot_count p" "\<And>i. i < slot_count p \<Longrightarrow> live q i = live p i" "needed \<le> available_space q"
    "get_le 4 0 q = get_le 4 0 p" "page_type q = page_type p"
  proof (cases ?c)
    case False
    then show ?thesis using that [of p] ok room' by simp
  next
    case True
    show ?thesis
      by (rule slot_page_compact_ok [OF ok temp])
         (use that True room' available_space_eq slot_okD(3) [OF ok] available_space_eq [OF ok] in simp)
  qed
  have re: "\<And>i. reuse = Some i \<Longrightarrow> i < slot_count q \<and> \<not> live q i"
    using q(4,5) first_index_hit [of "\<lambda>r. r = None" "slot_recs p"] slot_recs_None [of ?i p]
    by (auto simp: reuse_def split: if_splits)
  have sp: "length d + (if reuse = None then 4 else 0) \<le> free_space_end q - free_space_start q"
    using q(6) available_space_eq [OF q(2)] by (simp add: needed_def)
  obtain p' where p': "slot_place q d (length d) reuse = Some (p', case reuse of Some i \<Rightarrow> i | None \<Rightarrow> slot_count q)"
    "slot_ok p'" "slot_recs p' = (case reuse of Some i \<Rightarrow> (slot_recs q)[i := Some d] | None \<Rightarrow> slot_recs q @ [Some d])"
    "get_le 4 0 p' = get_le 4 0 q" "page_type p' = page_type q"
    by (rule slot_place_ok [OF q(2) d(1) sp re])
  let ?idx = "case reuse of Some i \<Rightarrow> i | None \<Rightarrow> slot_count q"
  have res: "slot_page_insert temp p d (length d) = Some (NOSTR_DB_OK, p', Some ?idx)"
    using d(1) fd nd q(1,6) p'(1) by (simp add: slot_page_insert_def Let_def)
  have recs: "slot_recs p' = rec_insert (slot_recs p) d"
    using p'(3) q(3) by (simp add: rec_insert_def reuse_def Let_def)
  have cnt: "slot_count p' = length (slot_recs p')" by simp
  have idx: "?idx < slot_count p'" "slot_recs p' ! ?idx = Some d"
    unfolding cnt p'(3) using re q(4) length_slot_recs [of q] by (auto split: option.split simp: nth_append)
  have was: "slot_recs p ! ?idx = None" if "?idx < slot_count p"
    using that q(4) re q(5) slot_recs_None by (cases reuse) auto
  show thesis by (rule that [OF res p'(2) recs idx was]) (use p' q in simp_all)
qed

lemma slot_page_insert_full:
  assumes ok: "slot_ok p" and d: "0 < length d" "length d \<le> 4096"
    and room: "\<not> length d + (if None \<in> set (slot_recs p) then 0 else 4) \<le> free_space_end p - free_space_start p + fragmented_space p"
  shows "slot_page_insert temp p d (length d) = Some (NOSTR_DB_ERROR_FULL, p, None)"
proof -
  let ?i = "first_index (\<lambda>r. r = None) (slot_recs p)"
  have none: "None \<in> set (slot_recs p) \<longleftrightarrow> ?i < slot_count p"
    using first_index_less_iff [of "\<lambda>r. r = None" "slot_recs p"] by auto
  then show ?thesis
    using room d find_deleted_slot [OF ok] available_space_eq [OF ok]
    by (cases "?i < slot_count p") (simp_all add: slot_page_insert_def Let_def)
qed

section \<open>Reading and deletion\<close>

lemma slot_page_read_ok:
  assumes ok: "slot_ok p" and buf: "cap \<le> length buf"
  shows "slot_page_read p i (Some buf) cap =
    (if i < slot_count p
     then case slot_recs p ! i of
            Some d \<Rightarrow> Some (NOSTR_DB_OK, Some (blit buf 0 (take cap d)), length d)
          | None \<Rightarrow> Some (NOSTR_DB_ERROR_NOT_FOUND, Some buf, cap)
     else Some (NOSTR_DB_ERROR_NOT_FOUND, Some buf, cap))"
proof (cases "i < slot_count p")
  case False
  then show ?thesis by (simp add: slot_page_read_def)
next
  case True
  note D = slot_okD [OF ok]
  have g: "get_slot p i = Some (s_off p i, s_len p i)" using get_slot_eq D(8) [OF True] by blast
  have r: "slot_recs p ! i = slot_rec p i" using True by (simp add: slot_recs_def)
  show ?thesis
  proof (cases "live p i")
    case False
    then show ?thesis using True g r by (simp add: slot_page_read_def slot_rec_def live_def)
  next
    case L: True
    have b: "0 < s_len p i" "s_off p i + s_len p i \<le> 4096" using D(9) [OF True L] by auto
    let ?m = "min cap (s_len p i)"
    have c: "(if cap < s_len p i then cap else s_len p i) = ?m" by simp
    have pk: "peek p (s_off p i) ?m = Some (take cap (slice p (s_off p i) (s_len p i)))"
      using b D(1) by (simp add: slice_def)
    have "poke buf 0 (take cap (slice p (s_off p i) (s_len p i))) = Some (blit buf 0 (take cap (slice p (s_off p i) (s_len p i))))"
      using buf by simp
    then show ?thesis using True g r L b(1) pk D(1) b(2) by (simp add: slot_page_read_def slot_rec_def c)
  qed
qed

lemma slot_page_delete_ok:
  assumes ok: "slot_ok p" and i: "i < slot_count p" "slot_recs p ! i \<noteq> None"
  obtains p' where "slot_page_delete p i = Some (NOSTR_DB_OK, p')" "slot_ok p'" "slot_recs p' = (slot_recs p)[i := None]"
    "get_le 4 0 p' = get_le 4 0 p" "page_type p' = page_type p" "fragmented_space p' = fragmented_space p + s_len p i"
proof -
  note D = slot_okD [OF ok]
  have l: "live p i" using i slot_recs_None [of i p] by simp
  have pos: "slot_pos i + 4 \<le> length p" using D(8) [OF i(1)] .
  let ?f = "fragmented_space p + s_len p i"
  have "s_len p i \<le> used_bytes p (slot_count p)" using used_bytes_mono [of "Suc i" "slot_count p" p] i(1) by (simp add: used_bytes_Suc)
  then have f: "?f \<le> 4096" using D(5) by linarith
  define q where "q = put_le 2 14 ?f p"
  have lq: "length q = 4096" using D(1) by (simp add: q_def)
  have posq: "slot_pos i + 4 \<le> length q" using pos lq D(1) by simp
  define p' where "p' = set_slot q i 0 0"
  have lp: "length p' = 4096" using posq lq by (simp add: p'_def)
  have g: "get_slot p i = Some (s_off p i, s_len p i)" by (rule get_slot_eq [OF pos])
  have nz: "\<not> (s_off p i = 0 \<and> s_len p i = 0)" using l by (simp add: live_def)
  have res: "slot_page_delete p i = Some (NOSTR_DB_OK, p')"
    using i(1) g nz f put_slot_eq [OF posq, of 0 0] by (auto simp: slot_page_delete_def Let_def q_def p'_def)
  have hq: "get_le w a q = get_le w a p" if "a + w \<le> 14 \<or> 16 \<le> a \<and> a + w \<le> 24" for a w
    using that D(1) by (auto simp: q_def mem_simps)
  have h: "get_le w a p' = get_le w a q" if "a + w \<le> 24" for a w using set_slot_header [OF posq that] by (simp add: p'_def)
  have hdr: "slot_count p' = slot_count p" "free_space_start p' = free_space_start p" "free_space_end p' = free_space_end p"
    "get_le 4 0 p' = get_le 4 0 p" "page_type p' = page_type p"
    using h [of 8 2] hq [of 8 2] h [of 10 2] hq [of 10 2] h [of 12 2] hq [of 12 2] h [of 0 4] hq [of 0 4] h [of 16 1] hq [of 16 1]
    by (simp_all add: header_defs)
  have fr: "fragmented_space p' = ?f" using h [of 14 2] f D(1) by (simp add: header_defs q_def mem_simps)
  have ent: "s_off p' j = (if j = i then 0 else s_off p j)" "s_len p' j = (if j = i then 0 else s_len p j)" for j
    using set_slot_entry [OF posq, of 0 0 j] D(1) by (simp_all add: p'_def q_def put_le_entry)
  have lv: "live p' j = (j \<noteq> i \<and> live p j)" for j using ent by (auto simp: live_def)
  have sl: "slice p' a w = slice p a w" if "slot_pos (slot_count p) \<le> a" for a w
    using that set_slot_slice [OF posq, of a 0 0 w] slot_pos_mono [OF i(1)] D(1) slot_pos_ge [of i] by (simp add: p'_def q_def mem_simps)
  have ub: "used_bytes p' (slot_count p) + s_len p i = used_bytes p (slot_count p)"
  proof -
    have "(\<Sum>j < slot_count p. s_len p j) = (\<Sum>j < slot_count p. s_len p' j + (if j = i then s_len p i else 0))"
      using ent by (intro sum.cong) auto
    then show ?thesis using i(1) by (simp add: used_bytes_def sum.distrib)
  qed
  have "slot_ok p'"
    unfolding slot_ok_def hdr fr
    using lp D(2,3,4,5) ub lv ent D(9) D(10) by (auto simp: slot_disjoint_def)
  moreover have "slot_recs p' = (slot_recs p)[i := None]"
  proof (rule nth_equalityI)
    fix j assume "j < length (slot_recs p')"
    then have j: "j < slot_count p" by (simp add: hdr)
    have "slot_rec p' j = (if j = i then None else slot_rec p j)"
      using lv [of j] ent [of j] sl [of "s_off p j" "s_len p j"] D(7) D(9) [OF j] by (auto simp: slot_rec_def)
    then show "slot_recs p' ! j = (slot_recs p)[i := None] ! j"
      using j by (simp add: slot_recs_def hdr nth_list_update)
  qed (simp add: hdr)
  ultimately show thesis using that res hdr(4,5) fr by blast
qed

lemma slot_page_init_ok:
  assumes "pid < 2 ^ 32"
  shows "slot_ok (slot_page_init pid)" "slot_recs (slot_page_init pid) = []" "get_le 4 0 (slot_page_init pid) = pid"
    "page_type (slot_page_init pid) = PAGE_TYPE_RECORD"
proof -
  have l: "length (slot_page_init pid) = 4096" by (simp add: slot_page_init_def)
  have h: "slot_count (slot_page_init pid) = 0" "free_space_start (slot_page_init pid) = 24" "free_space_end (slot_page_init pid) = 4096"
    "fragmented_space (slot_page_init pid) = 0"
    by (simp_all add: header_defs slot_page_init_def mem_simps)
  show "slot_ok (slot_page_init pid)" using l h by (simp add: slot_ok_def slot_pos_def used_bytes_def)
  show "slot_recs (slot_page_init pid) = []" by (simp add: slot_recs_def h)
  show "get_le 4 0 (slot_page_init pid) = pid" "page_type (slot_page_init pid) = PAGE_TYPE_RECORD"
    using assms by (simp_all add: page_type_def slot_page_init_def mem_simps)
qed

section \<open>Properties\<close>

text \<open>
  C34: Insertion on a well-formed page. If the record and, unless a deleted slot is reused, a new
  slot entry fit into the free and fragmented space, the record is stored: the page stays
  well formed, exactly one record is added, all others keep their slot and their content (also
  when the page is compacted), and the returned slot holds the record. Else the page is
  left as it was and the error is FULL.
\<close>

theorem slot_page_insert_refines:
  assumes "slot_ok p" "length temp = 4096" "0 < length d" "length d \<le> 4096"
  shows "if length d + (if None \<in> set (slot_recs p) then 0 else 4) \<le> free_space_end p - free_space_start p + fragmented_space p
    then \<exists>p' i. slot_page_insert temp p d (length d) = Some (NOSTR_DB_OK, p', Some i) \<and> slot_ok p' \<and>
      slot_recs p' = rec_insert (slot_recs p) d \<and> slot_recs p' ! i = Some d
    else slot_page_insert temp p d (length d) = Some (NOSTR_DB_ERROR_FULL, p, None)"
proof (cases "length d + (if None \<in> set (slot_recs p) then 0 else 4) \<le> free_space_end p - free_space_start p + fragmented_space p")
  case True
  show ?thesis unfolding if_P [OF True] by (rule slot_page_insert_ok [OF assms True]) blast
next
  case False
  then show ?thesis using slot_page_insert_full [OF assms(1,3,4) False] by (simp only: if_False)
qed

theorem slot_page_insert_refines_witness:
  "\<exists>p' i. slot_page_insert (replicate 4096 9) (slot_page_init 7) [1, 2, 3] 3 = Some (NOSTR_DB_OK, p', Some i) \<and>
     slot_recs p' = [Some [1, 2, 3]]"
proof -
  have f: "free_space_end (slot_page_init 7) = 4096" "free_space_start (slot_page_init 7) = 24"
    by (simp_all add: header_defs slot_page_init_def mem_simps)
  show ?thesis
    using slot_page_insert_refines [of "slot_page_init 7" "replicate 4096 9" "[1, 2, 3]"] slot_page_init_ok [of 7]
    by (auto simp: f rec_insert_def numeral_3_eq_3)
qed

text \<open>
  Deletion on a well-formed page empties exactly the named slot and keeps the page well formed;
  a slot that does not exist or is already deleted gives NOT\_FOUND and leaves the page as it was.
\<close>

theorem slot_page_delete_refines:
  assumes "slot_ok p"
  shows "if i < slot_count p \<and> slot_recs p ! i \<noteq> None
    then \<exists>p'. slot_page_delete p i = Some (NOSTR_DB_OK, p') \<and> slot_ok p' \<and> slot_recs p' = (slot_recs p)[i := None]
    else slot_page_delete p i = Some (NOSTR_DB_ERROR_NOT_FOUND, p)"
proof (cases "i < slot_count p \<and> slot_recs p ! i \<noteq> None")
  case True
  then have i: "i < slot_count p" "slot_recs p ! i \<noteq> None" by blast+
  show ?thesis unfolding if_P [OF True] by (rule slot_page_delete_ok [OF assms i]) blast
next
  case False
  then have "slot_page_delete p i = Some (NOSTR_DB_ERROR_NOT_FOUND, p)"
    using slot_recs_None [of i p] get_slot_eq [of i p] slot_okD(8) [OF assms, of i]
    by (cases "i < slot_count p") (simp_all add: slot_page_delete_def live_def)
  then show ?thesis using False by (simp only: if_False)
qed

theorem slot_page_delete_refines_witness:
  "slot_page_delete (slot_page_init 7) 0 = Some (NOSTR_DB_ERROR_NOT_FOUND, slot_page_init 7)"
  using slot_page_delete_refines [of "slot_page_init 7" 0] slot_page_init_ok [of 7] length_slot_recs [of "slot_page_init 7"] by simp

text \<open>
  Compaction keeps the page well formed and every record in its slot with its content, and
  turns all fragmented space into contiguous free space.
\<close>

theorem slot_page_compact_refines:
  assumes "slot_ok p" "length temp = 4096"
  shows "\<exists>p'. slot_page_compact temp p = Some p' \<and> slot_ok p' \<and> slot_recs p' = slot_recs p \<and>
    fragmented_space p' = 0 \<and> slot_page_free_space p' = slot_page_free_space p"
proof (rule slot_page_compact_ok [OF assms])
  fix p' assume *: "slot_page_compact temp p = Some p'" "slot_ok p'" "slot_recs p' = slot_recs p"
    "free_space_start p' = free_space_start p" "free_space_end p' = free_space_end p + fragmented_space p" "fragmented_space p' = 0"
  have "free_space_end p' - free_space_start p' = free_space_end p - free_space_start p + fragmented_space p"
    using * slot_okD(3) [OF assms(1)] by simp
  then have "slot_page_free_space p' = slot_page_free_space p"
    using * available_space_eq [OF assms(1)] available_space_eq [OF *(2)] by (simp add: slot_page_free_space_def)
  then show ?thesis using * by blast
qed

theorem slot_page_compact_refines_witness:
  "\<exists>p'. slot_page_compact (replicate 4096 9) (slot_page_init 7) = Some p' \<and> slot_recs p' = []"
  using slot_page_compact_refines [of "slot_page_init 7" "replicate 4096 9"] slot_page_init_ok [of 7] by auto



end
