(* ===== verification/PageStore.thy ===== *)
theory PageStore
  imports BufferPool
begin

text \<open>
  The contract of the buffer pool with its clients (record store, overflow chains, B+ tree): a
  store of whole pages. \<open>page_store\<close> states what a client relies on, over a state \<open>'st\<close>
  that pairs the pool with the kernel, and derives what its access patterns do: pin, look and
  unpin; pin, overwrite and unpin; allocate, fill and unpin. The pool of the code satisfies it
  for every kernel that satisfies \<open>posix\<close>.
\<close>

section \<open>The contract\<close>

locale page_store =
  fixes pin :: "'st \<Rightarrow> nat \<Rightarrow> (nat option \<times> 'st) option"
    and alloc :: "'st \<Rightarrow> (nat \<times> nat option \<times> 'st) option"
    and unpin :: "'st \<Rightarrow> nat \<Rightarrow> 'st"
    and store :: "'st \<Rightarrow> nat \<Rightarrow> nat \<Rightarrow> page \<Rightarrow> 'st"
    and content :: "'st \<Rightarrow> nat \<Rightarrow> page"
    and held :: "'st \<Rightarrow> nat \<Rightarrow> nat \<Rightarrow> bool"
    and cached :: "'st \<Rightarrow> nat \<Rightarrow> nat"
    and frames :: "'st \<Rightarrow> nat"
    and rep :: "'st \<Rightarrow> (nat \<rightharpoonup> page) \<Rightarrow> bool"
  assumes page_law: "rep st m \<Longrightarrow> m p = Some q \<Longrightarrow> p \<noteq> 0 \<and> p < 2 ^ 32 \<and> length q = 4096"
    and total_law: "rep st m \<Longrightarrow> alloc st \<noteq> None \<and> (m p \<noteq> None \<longrightarrow> pin st p \<noteq> None)"
    and pin_law: "rep st m \<Longrightarrow> m p = Some q \<Longrightarrow> pin st p = Some (Some f, st') \<Longrightarrow>
      rep st' m \<and> held st' p f \<and> content st' f = q \<and> frames st' = frames st"
    and cached_law: "rep st m \<Longrightarrow> i < frames st \<Longrightarrow> cached st i \<noteq> 0 \<Longrightarrow>
      m (cached st i) \<noteq> None \<and> (\<exists>f st'. pin st (cached st i) = Some (Some f, st'))"
    and unpin_law: "rep st m \<Longrightarrow> rep (unpin st p) m \<and> frames (unpin st p) = frames st"
    and store_law: "rep st m \<Longrightarrow> m p \<noteq> None \<Longrightarrow> held st p f \<Longrightarrow> length q = 4096 \<Longrightarrow>
      rep (store st p f q) (m(p \<mapsto> q)) \<and> frames (store st p f q) = frames st"
    and alloc_law: "rep st m \<Longrightarrow> alloc st = Some (a, out, st') \<Longrightarrow> a \<noteq> 0 \<Longrightarrow>
      m a = None \<and> rep st' (m(a \<mapsto> page_data_zero)) \<and>
      (\<exists>f. out = Some f \<and> held st' a f \<and> content st' f = page_data_zero)"
begin

lemma look:
  assumes "rep st m" "m p = Some q" "pin st p = Some (Some f, st')"
  shows "content st' f = q" "rep (unpin st' p) m" "frames (unpin st' p) = frames st"
  using pin_law [OF assms] unpin_law by auto

lemma overwrite:
  assumes "rep st m" "m p = Some q" "pin st p = Some (Some f, st')" "length q' = 4096"
  shows "content st' f = q" "rep (unpin (store st' p f q') p) (m(p \<mapsto> q'))"
  using pin_law [OF assms(1-3)] unpin_law store_law [of st' m p f q'] assms(2,4) by auto

lemma fill:
  assumes "rep st m" "alloc st = Some (a, out, st')" "a \<noteq> 0"
  obtains f where "out = Some f" "content st' f = page_data_zero" "m a = None" "held st' a f" "rep st' (m(a \<mapsto> page_data_zero))"
    "\<And>q'. length q' = 4096 \<Longrightarrow> rep (unpin (store st' a f q') a) (m(a \<mapsto> q'))"
proof -
  obtain f where f: "m a = None" "rep st' (m(a \<mapsto> page_data_zero))" "out = Some f" "held st' a f" "content st' f = page_data_zero"
    using alloc_law [OF assms] by blast
  have "rep (unpin (store st' a f q') a) (m(a \<mapsto> q'))" if "length q' = 4096" for q'
    using store_law [OF f(2) _ f(4) that] unpin_law by auto
  then show thesis using that f by blast
qed

lemma keep:
  assumes "rep st m" "m p = Some q" "held st p f"
  shows "length q' = 4096 \<Longrightarrow> rep (unpin (store st p f q') p) (m(p \<mapsto> q'))"
  using store_law [OF assms(1) _ assms(3)] unpin_law assms(2) by auto

end

section \<open>The buffer pool as a page store\<close>

definition put_page :: "buffer_pool \<Rightarrow> nat \<Rightarrow> page \<Rightarrow> buffer_pool" where
  "put_page pool frame p = pool\<lparr>pages := (pages pool)[frame := p]\<rparr>"

definition pool_rep :: "(int \<Rightarrow> 's \<Rightarrow> byte list) \<Rightarrow> buffer_pool \<times> 's \<Rightarrow> (nat \<rightharpoonup> page) \<Rightarrow> bool" where
  "pool_rep view st m \<longleftrightarrow> (\<exists>ps. represents (fst st) (view (dm_fd (disk (fst st))) (snd st)) ps m)"

lemma put_page_same: "pages pool ! f = p \<Longrightarrow> put_page pool f p = pool"
  by (auto simp: put_page_def)

lemma represents_page:
  assumes "represents pool c ps m" "m p = Some q"
  shows "p \<noteq> 0" "p < 2 ^ 32" "length q = 4096" "p \<in> allocated (disk pool) ps" "q = page_content pool c p"
proof -
  have inv: "pool_inv pool c {} ps" and d: "dom m = allocated (disk pool) ps" using assms(1) by (simp_all add: represents_def)
  have "\<forall>p \<in> dom m. m p = Some (page_content pool c p)" using assms(1) by (simp add: represents_def)
  then have pc: "m p = Some (page_content pool c p)" using assms(2) by blast
  have p: "p \<in> allocated (disk pool) ps" "q = page_content pool c p" using assms(2) d pc by auto
  show "p \<in> allocated (disk pool) ps" "q = page_content pool c p" by (rule p)+
  show "p \<noteq> 0" using p(1) by (simp add: allocated_def)
  have dm: "p < total_pages (disk pool)" "length c = total_pages (disk pool) * 4096"
    using p(1) inv by (simp_all add: allocated_def pool_inv_def dm_inv_def)
  show "p < 2 ^ 32" using dm(1) inv by (simp add: pool_inv_def dm_inv_def)
  show "length q = 4096"
  proof (cases "pool_lookup pool p = BUFFER_FRAME_INVALID")
    case True
    then show ?thesis using p(2) dm length_page_at [of p "total_pages (disk pool)" c] by (simp add: page_content_def)
  next
    case False
    then have "pool_lookup pool p < length (pages pool)" "\<forall>x \<in> set (pages pool). length x = 4096"
      using pool_lookup_Some [OF inv False] inv by (auto simp: used_frames_def pool_inv_def pool_shape_def)
    then show ?thesis using p(2) False by (simp add: page_content_def)
  qed
qed

lemma unpin_fields [simp]: "pool_size (buffer_pool_unpin pool p) = pool_size pool"
  "disk (buffer_pool_unpin pool p) = disk pool" "pages (buffer_pool_unpin pool p) = pages pool"
  "page_ids (buffer_pool_unpin pool p) = page_ids pool" "pool_lookup (buffer_pool_unpin pool p) q = pool_lookup pool q"
  by (simp_all add: buffer_pool_unpin_def Let_def pool_lookup_def)

lemma mark_fields [simp]: "pool_size (buffer_pool_mark_dirty pool p l) = pool_size pool"
  "disk (buffer_pool_mark_dirty pool p l) = disk pool" "pages (buffer_pool_mark_dirty pool p l) = pages pool"
  "page_ids (buffer_pool_mark_dirty pool p l) = page_ids pool" "pool_lookup (buffer_pool_mark_dirty pool p l) q = pool_lookup pool q"
  by (simp_all add: buffer_pool_mark_dirty_def Let_def pool_lookup_def)

lemma put_page_fields [simp]: "pool_size (put_page pool f p) = pool_size pool"
  "disk (put_page pool f p) = disk pool" "page_ids (put_page pool f p) = page_ids pool"
  "pool_lookup (put_page pool f p) q = pool_lookup pool q" "pages (put_page pool f p) = (pages pool)[f := p]"
  by (simp_all add: put_page_def pool_lookup_def)

lemma pin_cached:
  assumes "pool_lookup pool p \<noteq> BUFFER_FRAME_INVALID" "p \<noteq> PAGE_ID_NULL"
  shows "\<exists>pool'. buffer_pool_pin os pool p s = Some (Some (pool_lookup pool p), pool', s)"
  using assms by (simp add: buffer_pool_pin_def Let_def)

sublocale posix \<subseteq> store: page_store
  "\<lambda>(pool, s) p. map_option (\<lambda>(f, pool, s). (f, (pool, s))) (buffer_pool_pin os pool p s)"
  "\<lambda>(pool, s). map_option (\<lambda>(a, out, pool, s). (a, out, (pool, s))) (buffer_pool_alloc_page os pool s)"
  "\<lambda>(pool, s) p. (buffer_pool_unpin pool p, s)"
  "\<lambda>(pool, s) p f q. (buffer_pool_mark_dirty (put_page pool f q) p 0, s)"
  "\<lambda>(pool, s) f. pages pool ! f"
  "\<lambda>(pool, s) p f. pool_lookup pool p = f \<and> f < pool_size pool"
  "\<lambda>(pool, s) i. page_ids pool ! i"
  "\<lambda>(pool, s). pool_size pool"
  "pool_rep view"
proof
  fix st m p q
  assume "pool_rep view st m" "m p = Some q"
  then show "p \<noteq> 0 \<and> p < 2 ^ 32 \<and> length q = 4096" using represents_page by (auto simp: pool_rep_def)
next
  fix st :: "buffer_pool \<times> 's" and m p
  assume r: "pool_rep view st m"
  then obtain pool s ps where st: "st = (pool, s)" and rep: "represents pool (view (dm_fd (disk pool)) s) ps m"
    by (cases st) (auto simp: pool_rep_def)
  have inv: "pool_inv pool (view (dm_fd (disk pool)) s) {} ps" using rep by (simp add: represents_def)
  have "m p \<noteq> None \<Longrightarrow> buffer_pool_pin os pool p s \<noteq> None"
    using buffer_pool_pin_total [OF inv] represents_page(4) [OF rep] by blast
  then show "(case st of (pool, s) \<Rightarrow> map_option (\<lambda>(a, out, pool, s). (a, out, (pool, s))) (buffer_pool_alloc_page os pool s)) \<noteq> None \<and>
     (m p \<noteq> None \<longrightarrow> (case st of (pool, s) \<Rightarrow> \<lambda>p. map_option (\<lambda>(f, pool, s). (f, (pool, s))) (buffer_pool_pin os pool p s)) p \<noteq> None)"
    using buffer_pool_alloc_total [OF inv] by (simp add: st)
next
  fix st st' :: "buffer_pool \<times> 's" and m p q f
  assume r: "pool_rep view st m" and p: "m p = Some q"
    and pin: "(case st of (pool, s) \<Rightarrow> \<lambda>p. map_option (\<lambda>(f, pool, s). (f, (pool, s))) (buffer_pool_pin os pool p s)) p = Some (Some f, st')"
  obtain pool s pool' s' ps where st: "st = (pool, s)" "st' = (pool', s')"
    and rep: "represents pool (view (dm_fd (disk pool)) s) ps m"
    and pn: "buffer_pool_pin os pool p s = Some (Some f, pool', s')"
    using r pin by (cases st; cases st') (auto simp: pool_rep_def)
  have inv: "pool_inv pool (view (dm_fd (disk pool)) s) {} ps" using rep by (simp add: represents_def)
  note R = represents_page [OF rep p]
  note ok = buffer_pool_pin_ok [OF inv R(4) pn]
  have "represents pool' (view (dm_fd (disk pool)) s') ps m" using represents_same [OF rep ok(1,2,6)] by simp
  then show "pool_rep view st' m \<and> (case st' of (pool, s) \<Rightarrow> \<lambda>p f. pool_lookup pool p = f \<and> f < pool_size pool) p f \<and>
      (case st' of (pool, s) \<Rightarrow> \<lambda>f. pages pool ! f) f = q \<and> (case st' of (pool, s) \<Rightarrow> pool_size pool) = (case st of (pool, s) \<Rightarrow> pool_size pool)"
    using ok(2-5) R(5) ok(8) by (auto simp: st pool_rep_def)
next
  fix st :: "buffer_pool \<times> 's" and m i
  assume r: "pool_rep view st m" and i: "i < (case st of (pool, s) \<Rightarrow> pool_size pool)" and c: "(case st of (pool, s) \<Rightarrow> \<lambda>i. page_ids pool ! i) i \<noteq> 0"
  obtain pool s ps where st: "st = (pool, s)" and rep: "represents pool (view (dm_fd (disk pool)) s) ps m"
    using r by (cases st) (auto simp: pool_rep_def)
  have inv: "pool_inv pool (view (dm_fd (disk pool)) s) {} ps" using rep by (simp add: represents_def)
  let ?p = "page_ids pool ! i"
  have u: "i \<in> used_frames pool" using i c by (simp add: st used_frames_def)
  then have "?p \<in> allocated (disk pool) ps" using inv by (simp add: pool_inv_def)
  moreover have "pool_lookup pool ?p = i" using pool_lookup_used [OF inv, of i] u by simp
  then have "pool_lookup pool ?p \<noteq> BUFFER_FRAME_INVALID" using pool_frame_valid [OF inv, of i] i st by simp
  ultimately show "m ((case st of (pool, s) \<Rightarrow> \<lambda>i. page_ids pool ! i) i) \<noteq> None \<and>
      (\<exists>f st'. (case st of (pool, s) \<Rightarrow> \<lambda>p. map_option (\<lambda>(f, pool, s). (f, (pool, s))) (buffer_pool_pin os pool p s))
        ((case st of (pool, s) \<Rightarrow> \<lambda>i. page_ids pool ! i) i) = Some (Some f, st'))"
    using rep c pin_cached [of pool ?p os s] by (auto simp: st represents_def)
next
  fix st :: "buffer_pool \<times> 's" and m p
  assume "pool_rep view st m"
  then obtain pool s ps where st: "st = (pool, s)" and rep: "represents pool (view (dm_fd (disk pool)) s) ps m"
    by (cases st) (auto simp: pool_rep_def)
  have inv: "pool_inv pool (view (dm_fd (disk pool)) s) {} ps" using rep by (simp add: represents_def)
  have "represents (buffer_pool_unpin pool p) (view (dm_fd (disk pool)) s) ps m"
    by (rule represents_same [OF rep]) (simp_all add: unpin_same [OF inv])
  then show "pool_rep view ((case st of (pool, s) \<Rightarrow> \<lambda>p. (buffer_pool_unpin pool p, s)) p) m \<and>
      (case (case st of (pool, s) \<Rightarrow> \<lambda>p. (buffer_pool_unpin pool p, s)) p of (pool, s) \<Rightarrow> pool_size pool) = (case st of (pool, s) \<Rightarrow> pool_size pool)"
    by (auto simp: st pool_rep_def)
next
  fix st :: "buffer_pool \<times> 's" and m p f and q :: page
  assume "pool_rep view st m" "m p \<noteq> None" and h: "(case st of (pool, s) \<Rightarrow> \<lambda>p f. pool_lookup pool p = f \<and> f < pool_size pool) p f"
    and q: "length q = 4096"
  then obtain pool s ps where st: "st = (pool, s)" and rep: "represents pool (view (dm_fd (disk pool)) s) ps m" and d: "p \<in> dom m"
    by (cases st) (auto simp: pool_rep_def)
  have inv: "pool_inv pool (view (dm_fd (disk pool)) s) {} ps" using rep by (simp add: represents_def)
  have p: "p \<noteq> PAGE_ID_NULL" "pool_lookup pool p = f" "f \<noteq> BUFFER_FRAME_INVALID"
    using d represents_page(1) [OF rep] h pool_frame_valid [OF inv, of f] by (auto simp: st)
  let ?pool = "buffer_pool_mark_dirty (put_page pool f q) p 0"
  note ok = page_write_ok [OF inv p(2,3,1) q, of ?pool 0, unfolded put_page_def, OF refl, folded put_page_def]
  have "represents ?pool (view (dm_fd (disk pool)) s) ps (m(p \<mapsto> q))"
    using rep d ok by (auto simp: represents_def)
  then show "pool_rep view ((case st of (pool, s) \<Rightarrow> \<lambda>p f q. (buffer_pool_mark_dirty (put_page pool f q) p 0, s)) p f q) (m(p \<mapsto> q)) \<and>
      (case (case st of (pool, s) \<Rightarrow> \<lambda>p f q. (buffer_pool_mark_dirty (put_page pool f q) p 0, s)) p f q of (pool, s) \<Rightarrow> pool_size pool) =
      (case st of (pool, s) \<Rightarrow> pool_size pool)"
    by (auto simp: st pool_rep_def)
next
  fix st st' :: "buffer_pool \<times> 's" and m a out
  assume "pool_rep view st m" and al: "(case st of (pool, s) \<Rightarrow> map_option (\<lambda>(a, out, pool, s). (a, out, (pool, s))) (buffer_pool_alloc_page os pool s)) = Some (a, out, st')"
    and a: "a \<noteq> 0"
  then obtain pool s pool' s' ps where st: "st = (pool, s)" "st' = (pool', s')"
    and rep: "represents pool (view (dm_fd (disk pool)) s) ps m" and al': "buffer_pool_alloc_page os pool s = Some (a, out, pool', s')"
    by (cases st; cases st') (auto simp: pool_rep_def)
  have inv: "pool_inv pool (view (dm_fd (disk pool)) s) {} ps" using rep by (simp add: represents_def)
  obtain ps' where ok: "pool_inv pool' (view (dm_fd (disk pool)) s') {} ps'" "dm_fd (disk pool') = dm_fd (disk pool)"
    "a \<notin> allocated (disk pool) ps" "allocated (disk pool') ps' = insert a (allocated (disk pool) ps)"
    "out = Some (pool_lookup pool' a)" "pool_lookup pool' a < pool_size pool'" "page_content pool' (view (dm_fd (disk pool)) s') a = page_data_zero"
    "\<forall>q \<in> allocated (disk pool) ps. page_content pool' (view (dm_fd (disk pool)) s') q = page_content pool (view (dm_fd (disk pool)) s) q"
    using buffer_pool_alloc_ok [OF inv al' a] by blast
  have "m a = None" using rep ok(3) by (auto simp: represents_def)
  moreover have "represents pool' (view (dm_fd (disk pool)) s') ps' (m(a \<mapsto> page_data_zero))"
    using rep ok by (auto simp: represents_def)
  moreover have "pool_lookup pool' a \<noteq> BUFFER_FRAME_INVALID" using pool_frame_valid [OF ok(1) ok(6)] .
  ultimately show "m a = None \<and> pool_rep view st' (m(a \<mapsto> page_data_zero)) \<and>
      (\<exists>f. out = Some f \<and> (case st' of (pool, s) \<Rightarrow> \<lambda>p f. pool_lookup pool p = f \<and> f < pool_size pool) a f \<and>
        (case st' of (pool, s) \<Rightarrow> \<lambda>f. pages pool ! f) f = page_data_zero)"
    using ok(2,5,6,7) by (auto simp: st pool_rep_def page_content_def used_frames_def)
qed

section \<open>The contract on pool and kernel\<close>

context posix
begin

lemma rep_page: "pool_rep view st m \<Longrightarrow> m p = Some q \<Longrightarrow> p \<noteq> 0 \<and> p < 2 ^ 32 \<and> length q = 4096"
  by (rule store.page_law)

lemma rep_pin:
  assumes "pool_rep view (pool, s) m" "m p = Some q"
  obtains (fail) pool' s' where "buffer_pool_pin os pool p s = Some (None, pool', s')"
  | (pinned) f pool' s' where "buffer_pool_pin os pool p s = Some (Some f, pool', s')" "pages pool' ! f = q"
      "pool_rep view (pool', s') m" "pool_rep view (buffer_pool_unpin pool' p, s') m" "pool_size pool' = pool_size pool"
      "pool_lookup pool' p = f" "f < pool_size pool'"
      "\<And>q'. length q' = 4096 \<Longrightarrow>
        pool_rep view (buffer_pool_unpin (buffer_pool_mark_dirty (put_page pool' f q') p 0) p, s') (m(p \<mapsto> q'))"
proof -
  obtain r pool' s' where pin: "buffer_pool_pin os pool p s = Some (r, pool', s')"
    using store.total_law [OF assms(1), of p] assms(2) by (auto simp: split_paired_all)
  show thesis
  proof (cases r)
    case None
    then show thesis using fail pin by simp
  next
    case (Some f)
    have *: "(case (pool, s) of (pool, s) \<Rightarrow> \<lambda>p. map_option (\<lambda>(f, pool, s). (f, (pool, s))) (buffer_pool_pin os pool p s)) p =
      Some (Some f, (pool', s'))" using pin Some by simp
    have "pool_rep view (buffer_pool_unpin (buffer_pool_mark_dirty (put_page pool' f q') p 0) p, s') (m(p \<mapsto> q'))"
      if "length q' = 4096" for q'
      using store.overwrite(2) [OF assms * that] by simp
    then show thesis
      using pin Some store.pin_law [OF assms *] store.look [OF assms *] by (intro pinned [of f pool' s']) auto
  qed
qed

lemma rep_pin_cached:
  assumes "pool_rep view (pool, s) m" "i < pool_size pool" "page_ids pool ! i \<noteq> 0"
  obtains q where "m (page_ids pool ! i) = Some q" "\<And>pool' s'. buffer_pool_pin os pool (page_ids pool ! i) s \<noteq> Some (None, pool', s')"
  using store.cached_law [OF assms(1), of i] assms(2,3) by auto

lemma rep_alloc:
  assumes "pool_rep view (pool, s) m"
  obtains (fail) out pool' s' where "buffer_pool_alloc_page os pool s = Some (0, out, pool', s')"
  | (alloc) a f pool' s' where "buffer_pool_alloc_page os pool s = Some (a, Some f, pool', s')" "a \<noteq> 0" "m a = None" "a < 2 ^ 32"
      "pages pool' ! f = page_data_zero" "pool_rep view (pool', s') (m(a \<mapsto> page_data_zero))"
      "\<And>q'. length q' = 4096 \<Longrightarrow>
        pool_rep view (buffer_pool_mark_dirty (put_page pool' f q') a 0, s') (m(a \<mapsto> q')) \<and>
        pool_rep view (buffer_pool_unpin (buffer_pool_mark_dirty (put_page pool' f q') a 0) a, s') (m(a \<mapsto> q'))"
proof -
  obtain a out pool' s' where al: "buffer_pool_alloc_page os pool s = Some (a, out, pool', s')"
    using store.total_law [OF assms, of 0] by (auto simp: split_paired_all)
  show thesis
  proof (cases "a = 0")
    case True
    then show thesis using fail al by simp
  next
    case False
    have *: "(case (pool, s) of (pool, s) \<Rightarrow> map_option (\<lambda>(a, out, pool, s). (a, out, (pool, s))) (buffer_pool_alloc_page os pool s)) =
      Some (a, out, (pool', s'))" using al by simp
    obtain f where f: "out = Some f" "pages pool' ! f = page_data_zero" "m a = None" "pool_lookup pool' a = f \<and> f < pool_size pool'"
      "pool_rep view (pool', s') (m(a \<mapsto> page_data_zero))"
      using store.alloc_law [OF assms * False] by auto
    have st: "pool_rep view (buffer_pool_mark_dirty (put_page pool' f q') a 0, s') (m(a \<mapsto> q'))" if "length q' = 4096" for q'
      using store.store_law [OF f(5), of a f q'] f(4) that by simp
    have "pool_rep view (buffer_pool_unpin (buffer_pool_mark_dirty (put_page pool' f q') a 0) a, s') (m(a \<mapsto> q'))"
      if "length q' = 4096" for q' using store.unpin_law [OF st [OF that], of a] by simp
    moreover have "a < 2 ^ 32" using store.page_law [OF f(5), of a] by simp
    ultimately show thesis using alloc al False f st by simp
  qed
qed

end

end
