(* ===== verification/RecordStore.thy ===== *)
theory RecordStore
  imports SlotPage PageStore
begin

text \<open>
  The record store over the buffer pool: \<open>src/nostr/db/record/record_manager.c\<close> and
  \<open>overflow.c\<close>. A record is named by page and slot; one that does not fit into a page is
  split over a chain of overflow pages.

  A page pointer that \<open>buffer_pool_pin\<close> hands out is the number of its frame; writes through it
  are \<open>put_page\<close>. \<open>temp\<close> is the stack buffer of \<open>slot_page_compact\<close>.
\<close>

section \<open>Data\<close>

abbreviation (input) "MAX_INLINE_RECORD_SIZE \<equiv> (4068 :: nat)"
abbreviation (input) "OVERFLOW_DATA_SPACE \<equiv> (4088 :: nat)"
abbreviation (input) "SPANNED_PREFIX_SIZE \<equiv> (8 :: nat)"
abbreviation (input) "MAX_SPANNED_INLINE \<equiv> (4060 :: nat)"

record record_id =
  rid_page_id :: nat
  rid_slot_index :: nat

section \<open>Overflow chains: overflow.c\<close>

definition overflow_is_spanned :: "page \<Rightarrow> nat \<Rightarrow> bool option" where
  "overflow_is_spanned p slot_index =
     (if slot_index \<ge> slot_count p then Some False
      else do {
        (offset, len) \<leftarrow> get_slot p slot_index;
        Some (len = SPANNED_MARKER)
      })"

text \<open>
  A chain may be cyclic in a damaged file; the loop then frees its pages forever. The frame of a
  freed page stays in the pool.
\<close>

partial_function (option) overflow_free ::
    "'s os \<Rightarrow> buffer_pool \<Rightarrow> nat \<Rightarrow> 's \<Rightarrow> (buffer_pool \<times> 's) option" where
  "overflow_free os pool pid s =
     (if pid = PAGE_ID_NULL then Some (pool, s)
      else
        (case buffer_pool_pin os pool pid s of
           None \<Rightarrow> None
         | Some (None, pool, s) \<Rightarrow> Some (pool, s)
         | Some (Some frame, pool, s) \<Rightarrow>
             (let next_page = get_le 4 0 (pages pool ! frame);
                  pool = buffer_pool_unpin pool pid;
                  (_, dm, s) = disk_free_page os (disk pool) pid s
              in overflow_free os (pool\<lparr>disk := dm\<rparr>) next_page s)))"

declare overflow_free.simps [code]

text \<open>The page of one chunk: \<open>OverflowHeader\<close> with next\_page at 0 and data\_length at 4.\<close>

definition overflow_page :: "byte list \<Rightarrow> page" where
  "overflow_page chunk = blit (put_le 2 4 (length chunk) page_data_zero) 8 chunk"

definition link_overflow ::
    "'s os \<Rightarrow> buffer_pool \<Rightarrow> nat \<Rightarrow> nat \<Rightarrow> 's \<Rightarrow> (buffer_pool \<times> 's) option" where
  "link_overflow os pool prev_overflow ov_pid s =
     (if prev_overflow = PAGE_ID_NULL then Some (pool, s)
      else do {
        (frame, pool, s) \<leftarrow> buffer_pool_pin os pool prev_overflow s;
        case frame of
          None \<Rightarrow> Some (pool, s)
        | Some f \<Rightarrow>
            Some (buffer_pool_unpin
                    (buffer_pool_mark_dirty (put_page pool f (put_le 4 0 ov_pid (pages pool ! f))) prev_overflow 0)
                    prev_overflow, s)
      })"

text \<open>
  The loop that builds the chain. Its result is the first page of the chain, or \<open>None\<close> if no
  page could be allocated (the pages so far are freed then).
\<close>

function overflow_build ::
    "'s os \<Rightarrow> byte list \<Rightarrow> buffer_pool \<Rightarrow> nat \<Rightarrow> nat \<Rightarrow> nat \<Rightarrow> nat \<Rightarrow> 's \<Rightarrow>
     (nat option \<times> buffer_pool \<times> 's) option" where
  "overflow_build os src pool first prev ov_offset remaining s =
     (if remaining > 0 then
        (case buffer_pool_alloc_page os pool s of
           None \<Rightarrow> None
         | Some (ov_pid, out, pool, s) \<Rightarrow>
             if ov_pid = PAGE_ID_NULL then do {
               (pool, s) \<leftarrow> (if first \<noteq> PAGE_ID_NULL then overflow_free os pool first s else Some (pool, s));
               Some (None, pool, s)
             }
             else
               (let chunk = (if remaining > OVERFLOW_DATA_SPACE then OVERFLOW_DATA_SPACE else remaining)
                in case (out, peek src ov_offset chunk) of
                     (Some f, Some bs) \<Rightarrow>
                       (let pool = buffer_pool_mark_dirty (put_page pool f (overflow_page bs)) ov_pid 0;
                            first = (if first = PAGE_ID_NULL then ov_pid else first)
                        in case link_overflow os pool prev ov_pid s of
                             None \<Rightarrow> None
                           | Some (pool, s) \<Rightarrow>
                               overflow_build os src (buffer_pool_unpin pool ov_pid) first ov_pid
                                 (ov_offset + chunk) (remaining - chunk) s)
                   | _ \<Rightarrow> None))
      else Some (Some first, pool, s))"
  by pat_completeness auto
termination
  by (relation "measure (\<lambda>(os, src, pool, first, prev, off, remaining, s). remaining)") auto

declare overflow_build.simps [simp del]

text \<open>\<open>SpannedPrefix\<close>: total\_length at 0, inline\_length at 2, overflow\_page at 4.\<close>

definition spanned_prefix :: "nat \<Rightarrow> nat \<Rightarrow> nat \<Rightarrow> byte list" where
  "spanned_prefix total_length inline_length ov = le_bytes 2 total_length @ le_bytes 2 inline_length @ le_bytes 4 ov"

definition overflow_insert ::
    "'s os \<Rightarrow> byte list \<Rightarrow> buffer_pool \<Rightarrow> byte list \<Rightarrow> nat \<Rightarrow> 's \<Rightarrow>
     (nostr_db_error \<times> record_id option \<times> buffer_pool \<times> 's) option" where
  "overflow_insert os temp pool data total_length s = do {
     let inline_len = (if total_length \<le> MAX_SPANNED_INLINE then total_length else MAX_SPANNED_INLINE);
     (chain, pool, s) \<leftarrow> overflow_build os data pool PAGE_ID_NULL PAGE_ID_NULL inline_len (total_length - inline_len) s;
     case chain of
       None \<Rightarrow> Some (NOSTR_DB_ERROR_FULL, None, pool, s)
     | Some first \<Rightarrow> do {
         (primary_pid, out, pool, s) \<leftarrow> buffer_pool_alloc_page os pool s;
         if primary_pid = PAGE_ID_NULL then do {
           (pool, s) \<leftarrow> (if first \<noteq> PAGE_ID_NULL then overflow_free os pool first s else Some (pool, s));
           Some (NOSTR_DB_ERROR_FULL, None, pool, s)
         }
         else do {
           f \<leftarrow> out;
           src \<leftarrow> peek data 0 inline_len;
           (err, p, idx) \<leftarrow> slot_page_insert temp (slot_page_init primary_pid)
             (spanned_prefix total_length inline_len first @ src) (SPANNED_PREFIX_SIZE + inline_len);
           case idx of
             None \<Rightarrow> do {
               let pool = put_page pool f p;
               (pool, s) \<leftarrow> (if first \<noteq> PAGE_ID_NULL then overflow_free os pool first s else Some (pool, s));
               Some (err, None, buffer_pool_unpin pool primary_pid, s)
             }
           | Some i \<Rightarrow> do {
               (offset, len) \<leftarrow> get_slot p i;
               p \<leftarrow> put_slot p i offset SPANNED_MARKER;
               Some (NOSTR_DB_OK, Some \<lparr>rid_page_id = primary_pid, rid_slot_index = i\<rparr>,
                     buffer_pool_unpin (buffer_pool_mark_dirty (put_page pool f p) primary_pid 0) primary_pid, s)
             }
         }
       }
   }"

text \<open>
  The walk along the chain: \<open>buf\<close> is the output buffer with \<open>written\<close> bytes in it. A chunk of
  length 0 makes no progress, so a damaged cyclic chain may be walked forever.
\<close>

partial_function (option) overflow_walk ::
    "'s os \<Rightarrow> buffer_pool \<Rightarrow> nat \<Rightarrow> byte list \<Rightarrow> nat \<Rightarrow> nat \<Rightarrow> 's \<Rightarrow> (byte list \<times> buffer_pool \<times> 's) option" where
  "overflow_walk os pool walk_pid buf written capacity s =
     (if walk_pid \<noteq> PAGE_ID_NULL \<and> written < capacity then
        (case buffer_pool_pin os pool walk_pid s of
           None \<Rightarrow> None
         | Some (None, pool, s) \<Rightarrow> Some (buf, pool, s)
         | Some (Some f, pool, s) \<Rightarrow>
             (let p = pages pool ! f;
                  chunk = get_le 2 4 p;
                  chunk = (if written + chunk > capacity then capacity - written else chunk)
              in case peek p 8 chunk of
                   None \<Rightarrow> None
                 | Some bs \<Rightarrow>
                     (case poke buf written bs of
                        None \<Rightarrow> None
                      | Some buf \<Rightarrow>
                          overflow_walk os (buffer_pool_unpin pool walk_pid) (get_le 4 0 p) buf (written + chunk) capacity s)))
      else Some (buf, pool, s))"

text \<open>\<open>out\<close> and \<open>cap\<close> as in \<open>slot_page_read\<close>.\<close>

definition overflow_read ::
    "'s os \<Rightarrow> buffer_pool \<Rightarrow> page \<Rightarrow> nat \<Rightarrow> byte list option \<Rightarrow> nat \<Rightarrow> 's \<Rightarrow>
     (nostr_db_error \<times> byte list option \<times> nat \<times> buffer_pool \<times> 's) option" where
  "overflow_read os pool p slot_index out cap s =
     (if \<not> slot_index < slot_count p then Some (NOSTR_DB_ERROR_NOT_FOUND, out, cap, pool, s)
      else do {
        (offset, len) \<leftarrow> get_slot p slot_index;
        if offset = 0 then Some (NOSTR_DB_ERROR_NOT_FOUND, out, cap, pool, s)
        else do {
          prefix \<leftarrow> peek p offset 8;
          let total_length = get_le 2 0 prefix;
          let inline_data_len = get_le 2 2 prefix;
          let overflow_pid = get_le 4 4 prefix;
          case out of
            None \<Rightarrow> Some (NOSTR_DB_OK, None, total_length, pool, s)
          | Some buf \<Rightarrow> do {
              let copy = (if inline_data_len < cap then inline_data_len else cap);
              bs \<leftarrow> peek p (offset + SPANNED_PREFIX_SIZE) copy;
              buf \<leftarrow> poke buf 0 bs;
              (buf, pool, s) \<leftarrow> overflow_walk os pool overflow_pid buf copy cap s;
              Some (NOSTR_DB_OK, Some buf, total_length, pool, s)
            }
        }
      })"

section \<open>Records: record\_manager.c\<close>

text \<open>The result of the search for a page with room: page id (0 if there is none) and slot.\<close>

primrec try_insert_loop ::
    "'s os \<Rightarrow> byte list \<Rightarrow> byte list \<Rightarrow> nat \<Rightarrow> nat list \<Rightarrow> buffer_pool \<Rightarrow> 's \<Rightarrow>
     (nat \<times> nat \<times> buffer_pool \<times> 's) option" where
  "try_insert_loop os temp data len [] pool s = Some (PAGE_ID_NULL, 0, pool, s)"
| "try_insert_loop os temp data len (i # xs) pool s =
     (let pid = page_ids pool ! i; needed = (len + SLOT_ENTRY_SIZE) mod 2 ^ 16
      in if pid = PAGE_ID_NULL then try_insert_loop os temp data len xs pool s
         else
           (case buffer_pool_pin os pool pid s of
              None \<Rightarrow> None
            | Some (None, pool, s) \<Rightarrow> try_insert_loop os temp data len xs pool s
            | Some (Some f, pool, s) \<Rightarrow>
                (let p = pages pool ! f
                 in if page_type p \<noteq> PAGE_TYPE_RECORD
                    then try_insert_loop os temp data len xs (buffer_pool_unpin pool pid) s
                    else if slot_page_free_space p \<ge> needed then
                      (case slot_page_insert temp p data len of
                         None \<Rightarrow> None
                       | Some (err, p, Some slot_index) \<Rightarrow>
                           Some (pid, slot_index,
                             buffer_pool_unpin (buffer_pool_mark_dirty (put_page pool f p) pid 0) pid, s)
                       | Some (err, p, None) \<Rightarrow>
                           try_insert_loop os temp data len xs (buffer_pool_unpin (put_page pool f p) pid) s)
                    else try_insert_loop os temp data len xs (buffer_pool_unpin pool pid) s)))"

definition try_insert_existing ::
    "'s os \<Rightarrow> byte list \<Rightarrow> buffer_pool \<Rightarrow> byte list \<Rightarrow> nat \<Rightarrow> 's \<Rightarrow> (nat \<times> nat \<times> buffer_pool \<times> 's) option" where
  "try_insert_existing os temp pool data len s = try_insert_loop os temp data len [0..<pool_size pool] pool s"

definition record_insert ::
    "'s os \<Rightarrow> byte list \<Rightarrow> buffer_pool \<Rightarrow> byte list \<Rightarrow> nat \<Rightarrow> 's \<Rightarrow>
     (nostr_db_error \<times> record_id option \<times> buffer_pool \<times> 's) option" where
  "record_insert os temp pool data len s =
     (if \<not> len > 0 then Some (NOSTR_DB_ERROR_NULL_PARAM, None, pool, s)
      else if len > MAX_INLINE_RECORD_SIZE then overflow_insert os temp pool data len s
      else do {
        (pid, slot_idx, pool, s) \<leftarrow> try_insert_existing os temp pool data len s;
        if pid \<noteq> PAGE_ID_NULL
        then Some (NOSTR_DB_OK, Some \<lparr>rid_page_id = pid, rid_slot_index = slot_idx\<rparr>, pool, s)
        else do {
          (new_pid, out, pool, s) \<leftarrow> buffer_pool_alloc_page os pool s;
          if new_pid = PAGE_ID_NULL then Some (NOSTR_DB_ERROR_FULL, None, pool, s)
          else do {
            f \<leftarrow> out;
            (err, p, idx) \<leftarrow> slot_page_insert temp (slot_page_init new_pid) data len;
            let pool = put_page pool f p;
            case idx of
              None \<Rightarrow> Some (err, None, buffer_pool_unpin pool new_pid, s)
            | Some i \<Rightarrow>
                Some (NOSTR_DB_OK, Some \<lparr>rid_page_id = new_pid, rid_slot_index = i\<rparr>,
                      buffer_pool_unpin (buffer_pool_mark_dirty pool new_pid 0) new_pid, s)
          }
        }
      })"

definition record_read ::
    "'s os \<Rightarrow> buffer_pool \<Rightarrow> record_id \<Rightarrow> byte list option \<Rightarrow> nat \<Rightarrow> 's \<Rightarrow>
     (nostr_db_error \<times> byte list option \<times> nat \<times> buffer_pool \<times> 's) option" where
  "record_read os pool rid out cap s =
     (if rid_page_id rid = PAGE_ID_NULL then Some (NOSTR_DB_ERROR_NULL_PARAM, out, cap, pool, s)
      else do {
        (frame, pool, s) \<leftarrow> buffer_pool_pin os pool (rid_page_id rid) s;
        case frame of
          None \<Rightarrow> Some (NOSTR_DB_ERROR_NOT_FOUND, out, cap, pool, s)
        | Some f \<Rightarrow> do {
            spanned \<leftarrow> overflow_is_spanned (pages pool ! f) (rid_slot_index rid);
            if spanned then do {
              (err, out, len, pool, s) \<leftarrow> overflow_read os pool (pages pool ! f) (rid_slot_index rid) out cap s;
              Some (err, out, len, buffer_pool_unpin pool (rid_page_id rid), s)
            }
            else do {
              (err, out, len) \<leftarrow> slot_page_read (pages pool ! f) (rid_slot_index rid) out cap;
              Some (err, out, len, buffer_pool_unpin pool (rid_page_id rid), s)
            }
          }
      })"

text \<open>The overflow pages of a spanned slot are freed before the slot is deleted.\<close>

definition free_spanned ::
    "'s os \<Rightarrow> buffer_pool \<Rightarrow> page \<Rightarrow> nat \<Rightarrow> 's \<Rightarrow> (buffer_pool \<times> 's) option" where
  "free_spanned os pool p slot_index s = do {
     spanned \<leftarrow> overflow_is_spanned p slot_index;
     if \<not> spanned then Some (pool, s)
     else do {
       (offset, len) \<leftarrow> get_slot p slot_index;
       prefix \<leftarrow> peek p offset 8;
       let ov = get_le 4 4 prefix;
       if ov \<noteq> PAGE_ID_NULL then overflow_free os pool ov s else Some (pool, s)
     }
   }"

definition record_delete ::
    "'s os \<Rightarrow> buffer_pool \<Rightarrow> record_id \<Rightarrow> 's \<Rightarrow> (nostr_db_error \<times> buffer_pool \<times> 's) option" where
  "record_delete os pool rid s =
     (if rid_page_id rid = PAGE_ID_NULL then Some (NOSTR_DB_ERROR_NULL_PARAM, pool, s)
      else do {
        (frame, pool, s) \<leftarrow> buffer_pool_pin os pool (rid_page_id rid) s;
        case frame of
          None \<Rightarrow> Some (NOSTR_DB_ERROR_NOT_FOUND, pool, s)
        | Some f \<Rightarrow> do {
            (pool, s) \<leftarrow> free_spanned os pool (pages pool ! f) (rid_slot_index rid) s;
            (err, p) \<leftarrow> slot_page_delete (pages pool ! f) (rid_slot_index rid);
            let pool = put_page pool f p;
            let pool = (if err = NOSTR_DB_OK then buffer_pool_mark_dirty pool (rid_page_id rid) 0 else pool);
            Some (err, buffer_pool_unpin pool (rid_page_id rid), s)
          }
      })"

text \<open>\<open>*rid\<close> is part of the result: a reinserted record gets a new id.\<close>

definition record_reinsert ::
    "'s os \<Rightarrow> byte list \<Rightarrow> buffer_pool \<Rightarrow> record_id \<Rightarrow> byte list \<Rightarrow> nat \<Rightarrow> 's \<Rightarrow>
     (nostr_db_error \<times> record_id \<times> buffer_pool \<times> 's) option" where
  "record_reinsert os temp pool rid data len s = do {
     (err, pool, s) \<leftarrow> record_delete os pool rid s;
     if err \<noteq> NOSTR_DB_OK then Some (err, rid, pool, s)
     else do {
       (err, new_rid, pool, s) \<leftarrow> record_insert os temp pool data len s;
       Some (err, case new_rid of Some r \<Rightarrow> r | None \<Rightarrow> rid, pool, s)
     }
   }"

definition record_update ::
    "'s os \<Rightarrow> byte list \<Rightarrow> buffer_pool \<Rightarrow> record_id \<Rightarrow> byte list \<Rightarrow> nat \<Rightarrow> 's \<Rightarrow>
     (nostr_db_error \<times> record_id \<times> buffer_pool \<times> 's) option" where
  "record_update os temp pool rid data len s =
     (if \<not> len > 0 then Some (NOSTR_DB_ERROR_NULL_PARAM, rid, pool, s)
      else if rid_page_id rid = PAGE_ID_NULL then Some (NOSTR_DB_ERROR_NULL_PARAM, rid, pool, s)
      else do {
        (frame, pool, s) \<leftarrow> buffer_pool_pin os pool (rid_page_id rid) s;
        case frame of
          None \<Rightarrow> Some (NOSTR_DB_ERROR_NOT_FOUND, rid, pool, s)
        | Some f \<Rightarrow> do {
            let p = pages pool ! f;
            spanned \<leftarrow> overflow_is_spanned p (rid_slot_index rid);
            if spanned then record_reinsert os temp (buffer_pool_unpin pool (rid_page_id rid)) rid data len s
            else if rid_slot_index rid \<ge> slot_count p
            then Some (NOSTR_DB_ERROR_NOT_FOUND, rid, buffer_pool_unpin pool (rid_page_id rid), s)
            else do {
              (offset, old_len) \<leftarrow> get_slot p (rid_slot_index rid);
              if offset = 0 \<and> old_len = 0
              then Some (NOSTR_DB_ERROR_NOT_FOUND, rid, buffer_pool_unpin pool (rid_page_id rid), s)
              else if len \<le> old_len then do {
                bs \<leftarrow> peek data 0 len;
                p \<leftarrow> poke p offset bs;
                p \<leftarrow> (if len < old_len
                      then put_slot (put_le 2 14 ((fragmented_space p + (old_len - len)) mod 2 ^ 16) p)
                             (rid_slot_index rid) offset len
                      else Some p);
                Some (NOSTR_DB_OK, rid,
                      buffer_pool_unpin (buffer_pool_mark_dirty (put_page pool f p) (rid_page_id rid) 0) (rid_page_id rid), s)
              }
              else record_reinsert os temp (buffer_pool_unpin pool (rid_page_id rid)) rid data len s
            }
          }
      })"

section \<open>The records of a store\<close>

text \<open>The record that an id names, if its page is well formed.\<close>

definition recs :: "(nat \<rightharpoonup> page) \<Rightarrow> record_id \<rightharpoonup> byte list" where
  "recs m rid = (case m (rid_page_id rid) of
     Some q \<Rightarrow> if slot_ok q \<and> page_type q = PAGE_TYPE_RECORD \<and> rid_slot_index rid < slot_count q
               then slot_recs q ! rid_slot_index rid else None
   | None \<Rightarrow> None)"

text \<open>Every record page is well formed or, as the page of a split record, has no free space.\<close>

definition store_ok :: "(nat \<rightharpoonup> page) \<Rightarrow> bool" where
  "store_ok m \<longleftrightarrow> (\<forall>q \<in> ran m. page_type q = PAGE_TYPE_RECORD \<longrightarrow> slot_ok q \<or> slot_page_free_space q = 0)"

lemma store_okD: "store_ok m \<Longrightarrow> m p = Some q \<Longrightarrow> page_type q = PAGE_TYPE_RECORD \<Longrightarrow> slot_ok q \<or> slot_page_free_space q = 0"
  by (auto simp: store_ok_def intro: ranI)

lemma store_ok_upd: "store_ok m \<Longrightarrow> slot_ok q \<Longrightarrow> store_ok (m(p \<mapsto> q))"
  by (auto simp: store_ok_def ran_def split: if_splits)

lemma slot_page_free_space_eq:
  assumes "slot_ok p"
  shows "slot_page_free_space p = free_space_end p - free_space_start p + fragmented_space p"
  using slot_okD(3,4,5) [OF assms] available_space_eq [OF assms] by (simp add: slot_page_free_space_def)

lemma rec_insert_nth:
  assumes "rs' = rec_insert rs d" "i < length rs'" "rs' ! i = Some d" "i < length rs \<Longrightarrow> rs ! i = None"
  shows "j < length rs' \<Longrightarrow> j \<noteq> i \<Longrightarrow> j < length rs \<and> rs' ! j = rs ! j" "length rs \<le> length rs'"
proof -
  show "length rs \<le> length rs'" by (simp add: assms(1) rec_insert_def Let_def)
  assume j: "j < length rs'" "j \<noteq> i"
  let ?k = "first_index (\<lambda>r. r = None) rs"
  show "j < length rs \<and> rs' ! j = rs ! j"
  proof (cases "?k < length rs")
    case True
    then have rs': "rs' = rs[?k := Some d]" by (simp add: assms(1) rec_insert_def)
    moreover have "?k = i"
    proof (rule ccontr)
      assume "?k \<noteq> i"
      then have "rs' ! i = rs ! i" "i < length rs" using rs' assms(2) by auto
      then show False using assms(3,4) by simp
    qed
    ultimately show ?thesis using j by auto
  next
    case False
    then have rs': "rs' = rs @ [Some d]" by (simp add: assms(1) rec_insert_def)
    then have "i = length rs" using assms(2-4) by (cases "i < length rs") (auto simp: nth_append)
    then show ?thesis using j rs' by (auto simp: nth_append)
  qed
qed

lemma recs_insert:
  assumes "m p = Some q \<and> slot_ok q \<and> page_type q = PAGE_TYPE_RECORD \<or> m p = None \<and> slot_recs q = []"
    and q': "slot_ok q'" "page_type q' = PAGE_TYPE_RECORD" "slot_recs q' = rec_insert (slot_recs q) d"
    and i: "i < slot_count q'" "slot_recs q' ! i = Some d" "i < slot_count q \<Longrightarrow> slot_recs q ! i = None"
  shows "recs m \<lparr>rid_page_id = p, rid_slot_index = i\<rparr> = None"
    "recs (m(p \<mapsto> q')) = (recs m)(\<lparr>rid_page_id = p, rid_slot_index = i\<rparr> \<mapsto> d)"
proof -
  have ri: "slot_recs q' = rec_insert (slot_recs q) d" "i < length (slot_recs q')" "slot_recs q' ! i = Some d"
    "i < length (slot_recs q) \<Longrightarrow> slot_recs q ! i = None"
    using q' i unfolding length_slot_recs by blast+
  note nth = rec_insert_nth [OF ri(1-3) ri(4)]
  show "recs m \<lparr>rid_page_id = p, rid_slot_index = i\<rparr> = None" using assms(1) i(3) by (auto simp: recs_def)
  have "recs (m(p \<mapsto> q')) rid = ((recs m)(\<lparr>rid_page_id = p, rid_slot_index = i\<rparr> \<mapsto> d)) rid" for rid
  proof (cases "rid_page_id rid = p \<and> rid_slot_index rid \<noteq> i")
    case True
    let ?j = "rid_slot_index rid"
    have j: "?j < slot_count q' \<Longrightarrow> ?j < slot_count q \<and> slot_recs q' ! ?j = slot_recs q ! ?j"
      "slot_count q \<le> slot_count q'" using nth(1) [of ?j] nth(2) True by simp_all
    have "rid \<noteq> \<lparr>rid_page_id = p, rid_slot_index = i\<rparr>" using True by (cases rid) simp
    moreover have "slot_recs q = [] \<Longrightarrow> slot_count q = 0" by (metis length_slot_recs list.size(3))
    ultimately show ?thesis using True assms(1) q' j by (auto simp: recs_def)
  next
    case False
    show ?thesis
    proof (cases "rid_page_id rid = p")
      case True
      then have "rid = \<lparr>rid_page_id = p, rid_slot_index = i\<rparr>" using False by (cases rid) simp
      then show ?thesis using q' i by (simp add: recs_def)
    next
      case f: False
      then have "rid \<noteq> \<lparr>rid_page_id = p, rid_slot_index = i\<rparr>" by auto
      then show ?thesis using f by (simp add: recs_def)
    qed
  qed
  then show "recs (m(p \<mapsto> q')) = (recs m)(\<lparr>rid_page_id = p, rid_slot_index = i\<rparr> \<mapsto> d)" by blast
qed

lemma recs_update:
  assumes "m p = Some q" "slot_ok q" "page_type q = PAGE_TYPE_RECORD" "i < slot_count q"
    and "slot_ok q'" "page_type q' = PAGE_TYPE_RECORD" "slot_recs q' = (slot_recs q)[i := r]"
  shows "recs (m(p \<mapsto> q')) = (recs m)(\<lparr>rid_page_id = p, rid_slot_index = i\<rparr> := r)"
proof (rule ext)
  fix rid
  have "slot_count q' = slot_count q" using arg_cong [OF assms(7), of length] by simp
  then show "recs (m(p \<mapsto> q')) rid = ((recs m)(\<lparr>rid_page_id = p, rid_slot_index = i\<rparr> := r)) rid"
    using assms by (cases rid) (auto simp: recs_def nth_list_update)
qed

lemma put_page_mark_same:
  "pages pool ! f = p \<Longrightarrow> buffer_pool_unpin (put_page pool f p) pid = buffer_pool_unpin pool pid"
  by (simp add: put_page_same)

context posix
begin

lemma try_insert_loop_ok:
  assumes "pool_rep view (pool, s) m" "store_ok m" "length temp = 4096" "0 < length d" "length d \<le> 4068"
    and "\<forall>i \<in> set xs. i < pool_size pool"
  shows "\<exists>pid idx pool' s'. try_insert_loop os temp d (length d) xs pool s = Some (pid, idx, pool', s') \<and>
    (if pid = 0 then pool_rep view (pool', s') m
     else \<exists>q q'. m pid = Some q \<and> slot_ok q \<and> page_type q = PAGE_TYPE_RECORD \<and> slot_ok q' \<and> page_type q' = PAGE_TYPE_RECORD \<and>
       slot_recs q' = rec_insert (slot_recs q) d \<and> idx < slot_count q' \<and> slot_recs q' ! idx = Some d \<and>
       (idx < slot_count q \<longrightarrow> slot_recs q ! idx = None) \<and> pool_rep view (pool', s') (m(pid \<mapsto> q')))"
  using assms(1,6)
proof (induction xs arbitrary: pool s)
  case Nil
  then show ?case by simp
next
  case (Cons i xs)
  let ?pid = "page_ids pool ! i"
  show ?case
  proof (cases "?pid = 0")
    case True
    then show ?thesis using Cons by simp
  next
    case False
    obtain q where q: "m ?pid = Some q" "\<And>pool' s'. buffer_pool_pin os pool ?pid s \<noteq> Some (None, pool', s')"
      using rep_pin_cached [OF Cons.prems(1) _ False] Cons.prems(2) by auto
    show ?thesis
    proof (rule rep_pin [OF Cons.prems(1) q(1)])
      fix pool' s' assume "buffer_pool_pin os pool ?pid s = Some (None, pool', s')"
      then show ?thesis using q(2) by blast
    next
      fix f pool' s'
      assume P: "buffer_pool_pin os pool ?pid s = Some (Some f, pool', s')" "pages pool' ! f = q"
        "pool_rep view (pool', s') m" "pool_rep view (buffer_pool_unpin pool' ?pid, s') m" "pool_size pool' = pool_size pool"
        "\<And>q'. length q' = 4096 \<Longrightarrow>
          pool_rep view (buffer_pool_unpin (buffer_pool_mark_dirty (put_page pool' f q') ?pid 0) ?pid, s') (m(?pid \<mapsto> q'))"
      have rest: "\<forall>i \<in> set xs. i < pool_size (buffer_pool_unpin pool' ?pid)" using Cons.prems(2) P(5) by simp
      note ih = Cons.IH [OF P(4) rest]
      show ?thesis
      proof (cases "page_type q = PAGE_TYPE_RECORD \<and> slot_page_free_space q \<ge> length d + 4")
        case no: False
        then have "try_insert_loop os temp d (length d) (i # xs) pool s =
          try_insert_loop os temp d (length d) xs (buffer_pool_unpin pool' ?pid) s'"
          using P(1,2) False assms(5) by (simp add: Let_def)
        then show ?thesis using ih by simp
      next
        case True
        then have ok: "slot_ok q" using store_okD [OF assms(2) q(1)] assms(4) by auto
        have room: "length d + (if None \<in> set (slot_recs q) then 0 else 4) \<le> free_space_end q - free_space_start q + fragmented_space q"
          using True slot_page_free_space_eq [OF ok] by simp
        have d: "length d \<le> 4096" using assms(5) by simp
        obtain q' idx where I: "slot_page_insert temp q d (length d) = Some (NOSTR_DB_OK, q', Some idx)" "slot_ok q'"
          "slot_recs q' = rec_insert (slot_recs q) d" "idx < slot_count q'" "slot_recs q' ! idx = Some d"
          "idx < slot_count q \<Longrightarrow> slot_recs q ! idx = None" "page_type q' = page_type q"
          by (rule slot_page_insert_ok [OF ok assms(3,4) d room]) blast
        have "try_insert_loop os temp d (length d) (i # xs) pool s =
          Some (?pid, idx, buffer_pool_unpin (buffer_pool_mark_dirty (put_page pool' f q') ?pid 0) ?pid, s')"
          using P(1,2) False assms(5) True I(1) by (simp add: Let_def)
        moreover have "pool_rep view (buffer_pool_unpin (buffer_pool_mark_dirty (put_page pool' f q') ?pid 0) ?pid, s') (m(?pid \<mapsto> q'))"
          using P(6) slot_okD(1) [OF I(2)] by simp
        ultimately show ?thesis using q(1) ok True I(2-7) False by auto
      qed
    qed
  qed
qed

lemma record_insert_ok:
  assumes rep: "pool_rep view (pool, s) m" and ok: "store_ok m" and d: "length temp = 4096" "0 < length d" "length d \<le> 4068"
  shows "\<exists>err out pool' s'. record_insert os temp pool d (length d) s = Some (err, out, pool', s') \<and>
    (case out of
       Some rid \<Rightarrow> err = NOSTR_DB_OK \<and> (\<exists>m'. pool_rep view (pool', s') m' \<and> store_ok m' \<and>
         recs m rid = None \<and> recs m' = (recs m)(rid \<mapsto> d))
     | None \<Rightarrow> err = NOSTR_DB_ERROR_FULL)"
proof -
  obtain pid idx pool1 s1 where T: "try_insert_existing os temp pool d (length d) s = Some (pid, idx, pool1, s1)"
    "if pid = 0 then pool_rep view (pool1, s1) m
     else \<exists>q q'. m pid = Some q \<and> slot_ok q \<and> page_type q = PAGE_TYPE_RECORD \<and> slot_ok q' \<and> page_type q' = PAGE_TYPE_RECORD \<and>
       slot_recs q' = rec_insert (slot_recs q) d \<and> idx < slot_count q' \<and> slot_recs q' ! idx = Some d \<and>
       (idx < slot_count q \<longrightarrow> slot_recs q ! idx = None) \<and> pool_rep view (pool1, s1) (m(pid \<mapsto> q'))"
    using try_insert_loop_ok [OF rep ok d, of "[0..<pool_size pool]"] by (auto simp: try_insert_existing_def)
  show ?thesis
  proof (cases "pid = 0")
    case False
    then obtain q q' where q: "m pid = Some q" "slot_ok q" "page_type q = PAGE_TYPE_RECORD" "slot_ok q'" "page_type q' = PAGE_TYPE_RECORD"
       "slot_recs q' = rec_insert (slot_recs q) d" "idx < slot_count q'" "slot_recs q' ! idx = Some d"
       "idx < slot_count q \<Longrightarrow> slot_recs q ! idx = None" "pool_rep view (pool1, s1) (m(pid \<mapsto> q'))" using T(2) by auto
    have "record_insert os temp pool d (length d) s =
      Some (NOSTR_DB_OK, Some \<lparr>rid_page_id = pid, rid_slot_index = idx\<rparr>, pool1, s1)"
      using T(1) False d by (simp add: record_insert_def)
    then show ?thesis using recs_insert [OF _ q(4-9), of m pid] q(1-3,10) store_ok_upd [OF ok q(4)] by auto
  next
    case True
    then have rep1: "pool_rep view (pool1, s1) m" using T(2) by simp
    show ?thesis
    proof (rule rep_alloc [OF rep1])
      fix out pool' s' assume "buffer_pool_alloc_page os pool1 s1 = Some (0, out, pool', s')"
      then show ?thesis using T(1) True d by (simp add: record_insert_def)
    next
      fix a f pool' s'
      assume A: "buffer_pool_alloc_page os pool1 s1 = Some (a, Some f, pool', s')" "a \<noteq> 0" "m a = None" "a < 2 ^ 32"
        "\<And>q'. length q' = 4096 \<Longrightarrow>
          pool_rep view (buffer_pool_mark_dirty (put_page pool' f q') a 0, s') (m(a \<mapsto> q')) \<and>
          pool_rep view (buffer_pool_unpin (buffer_pool_mark_dirty (put_page pool' f q') a 0) a, s') (m(a \<mapsto> q'))"
      let ?q = "slot_page_init a"
      note init = slot_page_init_ok [OF A(4)]
      have h: "free_space_start ?q = 24" "free_space_end ?q = 4096"
        by (simp_all add: header_defs slot_page_init_def mem_simps)
      have room: "length d + (if None \<in> set (slot_recs ?q) then 0 else 4) \<le> free_space_end ?q - free_space_start ?q + fragmented_space ?q"
        using d by (simp add: init(2) h)
      have d4: "length d \<le> 4096" using d by simp
      obtain q' i where I: "slot_page_insert temp ?q d (length d) = Some (NOSTR_DB_OK, q', Some i)" "slot_ok q'"
        "slot_recs q' = rec_insert (slot_recs ?q) d" "i < slot_count q'" "slot_recs q' ! i = Some d"
        "i < slot_count ?q \<Longrightarrow> slot_recs ?q ! i = None" "page_type q' = page_type ?q"
        by (rule slot_page_insert_ok [OF init(1) d(1,2) d4 room]) blast
      have pt: "page_type q' = PAGE_TYPE_RECORD" using I(7) init(4) by simp
      have "record_insert os temp pool d (length d) s =
        Some (NOSTR_DB_OK, Some \<lparr>rid_page_id = a, rid_slot_index = i\<rparr>,
          buffer_pool_unpin (buffer_pool_mark_dirty (put_page pool' f q') a 0) a, s')"
        using T(1) True d A(1,2) I(1) by (simp add: record_insert_def)
      then show ?thesis
        using recs_insert [OF _ I(2) pt I(3-6), of m a] A(3) init(2) store_ok_upd [OF ok I(2)] A(5) [OF slot_okD(1) [OF I(2)]] by auto
    qed
  qed
qed

end

section \<open>Reading, deleting and updating\<close>

lemma not_spanned:
  assumes "slot_ok q"
  shows "overflow_is_spanned q i = Some False"
proof (cases "i < slot_count q")
  case True
  have g: "get_slot q i = Some (s_off q i, s_len q i)" using get_slot_eq slot_okD(8) [OF assms True] by blast
  have "s_len q i \<noteq> 65535" using slot_okD(9) [OF assms True] by (cases "live q i") (auto simp: live_def)
  then show ?thesis using g True by (simp add: overflow_is_spanned_def)
qed (simp add: overflow_is_spanned_def)

lemma recs_Some:
  assumes "recs m rid = Some d"
  obtains q where "m (rid_page_id rid) = Some q" "slot_ok q" "page_type q = PAGE_TYPE_RECORD"
    "rid_slot_index rid < slot_count q" "slot_recs q ! rid_slot_index rid = Some d"
  using assms by (auto simp: recs_def split: option.splits if_splits)

lemma rid_eta: "\<lparr>rid_page_id = rid_page_id rid, rid_slot_index = rid_slot_index rid\<rparr> = rid" by simp

text \<open>The page after the update in place of \<open>record_update\<close>.\<close>

definition in_place :: "page \<Rightarrow> nat \<Rightarrow> byte list \<Rightarrow> page" where
  "in_place p i d =
     (let p' = blit p (s_off p i) d
      in if length d < s_len p i
         then set_slot (put_le 2 14 ((fragmented_space p' + (s_len p i - length d)) mod 2 ^ 16) p') i (s_off p i) (length d)
         else p')"

lemma in_place_ok:
  assumes ok: "slot_ok p" and i: "i < slot_count p" "live p i" and d: "0 < length d" "length d \<le> s_len p i"
  shows "slot_ok (in_place p i d)" "slot_recs (in_place p i d) = (slot_recs p)[i := Some d]"
    "page_type (in_place p i d) = page_type p"
proof -
  note D = slot_okD [OF ok]
  have pos: "slot_pos i + 4 \<le> length p" using D(8) [OF i(1)] .
  have o: "free_space_end p \<le> s_off p i" "s_off p i + s_len p i \<le> 4096" using D(9) [OF i] by auto
  have si: "slot_pos i + 4 \<le> s_off p i" using D(6) [OF i(1)] o by simp
  have "s_len p i \<le> used_bytes p (slot_count p)" using used_bytes_mono [of "Suc i" "slot_count p" p] i(1) by (simp add: used_bytes_Suc)
  then have f: "fragmented_space p + (s_len p i - length d) \<le> 4096" using D(5) by linarith
  let ?p' = "in_place p i d"
  define p1 where "p1 = blit p (s_off p i) d"
  have l1: "length p1 = 4096" using D(1) o d by (simp add: p1_def)
  have s24: "24 \<le> s_off p i" using si slot_pos_ge [of i] by simp
  have h1: "get_le w a p1 = get_le w a p" if "a + w \<le> 24" for a w
    using that o d D(1) s24 by (simp add: p1_def mem_simps)
  define p2 where "p2 = put_le 2 14 (fragmented_space p + (s_len p i - length d)) p1"
  have l2: "length p2 = 4096" using l1 by (simp add: p2_def)
  have p': "?p' = (if length d < s_len p i then set_slot p2 i (s_off p i) (length d) else p1)"
    using h1 [of 14 2] f by (simp add: in_place_def Let_def p1_def [symmetric] p2_def header_defs)
  have pos2: "slot_pos i + 4 \<le> length p2" using pos l2 D(1) by simp
  have lp: "length ?p' = 4096" using p' l1 pos2 l2 by simp
  have h2: "get_le w a p2 = get_le w a p1" if "a + w \<le> 14 \<or> 16 \<le> a" for a w
    using that l1 by (auto simp: p2_def mem_simps)
  have f2: "get_le 2 14 p2 = fragmented_space p + (s_len p i - length d)" using l1 f by (simp add: p2_def mem_simps)
  have h: "get_le w a ?p' = get_le w a p" if "a + w \<le> 14 \<or> 16 \<le> a \<and> a + w \<le> 24" for a w
    using that h1 [of a w] h2 [of a w] set_slot_header [OF pos2, of a w] by (auto simp: p')
  have hdr: "slot_count ?p' = slot_count p" "free_space_start ?p' = free_space_start p"
    "free_space_end ?p' = free_space_end p" "page_type ?p' = page_type p"
    using h [of 8 2] h [of 10 2] h [of 12 2] h [of 16 1] by (simp_all add: header_defs)
  have fr: "fragmented_space ?p' = fragmented_space p + (s_len p i - length d)"
    using d h1 [of 14 2] set_slot_header [OF pos2, of 14 2] f2 by (auto simp: p' header_defs)
  have e1: "s_off p1 j = s_off p j" "s_len p1 j = s_len p j" if "j < slot_count p" for j
    using blit_entry [of j "s_off p i" d p] D(6) [OF that] o d D(1) by (simp_all add: p1_def)
  have ent: "s_off ?p' j = s_off p j" "s_len ?p' j = (if j = i then length d else s_len p j)" if "j < slot_count p" for j
    using set_slot_entry [OF pos2, of "s_off p i" "length d" j] e1 [OF that] put_le_entry [of 14 2 p1] l1 o d
    by (auto simp: p' p2_def)
  have sl: "slice ?p' a w = slice p1 a w" if "slot_pos (slot_count p) \<le> a" for a w
  proof -
    have "slice p2 a w = slice p1 a w" using that l1 slot_pos_ge [of "slot_count p"] by (simp add: p2_def mem_simps)
    then show ?thesis
      using that set_slot_slice [OF pos2, of a "s_off p i" "length d" w] slot_pos_mono [OF i(1)] by (simp add: p')
  qed
  have own: "slice ?p' (s_off p i) (length d) = d"
    using sl [of "s_off p i" "length d"] D(7) o d D(1) by (simp add: p1_def slice_blit_same)
  have lv: "live ?p' j = live p j" if "j < slot_count p" for j using ent [OF that] i d by (auto simp: live_def)
  have ub: "used_bytes ?p' (slot_count p) + (s_len p i - length d) = used_bytes p (slot_count p)"
  proof -
    have "(\<Sum>j < slot_count p. s_len p j) = (\<Sum>j < slot_count p. s_len ?p' j + (if j = i then s_len p i - length d else 0))"
      using ent d by (intro sum.cong) auto
    then show ?thesis using i(1) by (simp add: used_bytes_def sum.distrib)
  qed
  have other: "slot_rec ?p' j = slot_rec p j" if j: "j < slot_count p" "j \<noteq> i" for j
  proof (cases "live p j")
    case True
    have b: "free_space_end p \<le> s_off p j" using D(9) [OF j(1) True] by simp
    have "s_off p i + length d \<le> s_off p j \<or> s_off p j + s_len p j \<le> s_off p i"
      using D(10) [OF i(1) j(1) i(2) True] j(2) d by (auto simp: slot_disjoint_def)
    then have "slice p1 (s_off p j) (s_len p j) = slice p (s_off p j) (s_len p j)"
      using o d D(1) by (auto simp: p1_def mem_simps)
    then show ?thesis using sl [of "s_off p j"] b D(7) ent [OF j(1)] lv [OF j(1)] j(2) by (simp add: slot_rec_def)
  qed (use lv [OF j(1)] in \<open>simp add: slot_rec_def\<close>)
  have dis: "slot_disjoint ?p' a b" if "a < slot_count p" "b < slot_count p" "live p a" "live p b" "a \<noteq> b" for a b
    using D(10) [OF that] ent [OF that(1)] ent [OF that(2)] d by (auto simp: slot_disjoint_def split: if_splits)
  have rng: "0 < s_len ?p' j \<and> free_space_end p \<le> s_off ?p' j \<and> s_off ?p' j + s_len ?p' j \<le> 4096"
    if "j < slot_count p" "live p j" for j
    using D(9) [OF that] ent [OF that(1)] d by auto
  show "slot_ok ?p'"
    unfolding slot_ok_def hdr fr using lp D(2-5) ub lv rng dis by simp
  show "slot_recs ?p' = (slot_recs p)[i := Some d]"
  proof (rule nth_equalityI)
    fix j assume "j < length (slot_recs ?p')"
    then have j: "j < slot_count p" by (simp add: hdr)
    have "slot_rec ?p' i = Some d" using lv [OF i(1)] i ent [OF i(1)] own by (simp add: slot_rec_def)
    then show "slot_recs ?p' ! j = (slot_recs p)[i := Some d] ! j"
      using j other [OF j] by (cases "j = i") (simp_all add: slot_recs_def hdr)
  qed (simp add: hdr)
  show "page_type ?p' = page_type p" by (rule hdr)
qed

context posix
begin

lemma record_read_ok:
  assumes rep: "pool_rep view (pool, s) m" and r: "recs m rid = Some d" and buf: "cap \<le> length buf"
  shows "\<exists>pool' s'. record_read os pool rid (Some buf) cap s = Some (NOSTR_DB_ERROR_NOT_FOUND, Some buf, cap, pool', s') \<and>
        buffer_pool_pin os pool (rid_page_id rid) s = Some (None, pool', s') \<or>
      record_read os pool rid (Some buf) cap s = Some (NOSTR_DB_OK, Some (blit buf 0 (take cap d)), length d, pool', s') \<and>
        pool_rep view (pool', s') m"
proof -
  obtain q where q: "m (rid_page_id rid) = Some q" "slot_ok q" "page_type q = PAGE_TYPE_RECORD"
    "rid_slot_index rid < slot_count q" "slot_recs q ! rid_slot_index rid = Some d" by (rule recs_Some [OF r])
  have p0: "rid_page_id rid \<noteq> 0" using rep_page [OF rep q(1)] by simp
  show ?thesis
  proof (rule rep_pin [OF rep q(1)])
    fix pool' s' assume "buffer_pool_pin os pool (rid_page_id rid) s = Some (None, pool', s')"
    then show ?thesis using p0 by (simp add: record_read_def)
  next
    fix f pool' s' assume P: "buffer_pool_pin os pool (rid_page_id rid) s = Some (Some f, pool', s')" "pages pool' ! f = q"
      "pool_rep view (buffer_pool_unpin pool' (rid_page_id rid), s') m"
    then show ?thesis
      using p0 q not_spanned [OF q(2)] slot_page_read_ok [OF q(2) buf] by (simp add: record_read_def)
  qed
qed

lemma record_delete_ok:
  assumes rep: "pool_rep view (pool, s) m" and ok: "store_ok m" and r: "recs m rid = Some d"
  shows "\<exists>pool' s'. record_delete os pool rid s = Some (NOSTR_DB_ERROR_NOT_FOUND, pool', s') \<and>
        buffer_pool_pin os pool (rid_page_id rid) s = Some (None, pool', s') \<or>
      record_delete os pool rid s = Some (NOSTR_DB_OK, pool', s') \<and>
        (\<exists>m'. pool_rep view (pool', s') m' \<and> store_ok m' \<and> recs m' = (recs m)(rid := None))"
proof -
  obtain q where q: "m (rid_page_id rid) = Some q" "slot_ok q" "page_type q = PAGE_TYPE_RECORD"
    "rid_slot_index rid < slot_count q" "slot_recs q ! rid_slot_index rid = Some d" by (rule recs_Some [OF r])
  have p0: "rid_page_id rid \<noteq> 0" using rep_page [OF rep q(1)] by simp
  show ?thesis
  proof (rule rep_pin [OF rep q(1)])
    fix pool' s' assume "buffer_pool_pin os pool (rid_page_id rid) s = Some (None, pool', s')"
    then show ?thesis using p0 by (simp add: record_delete_def)
  next
    fix f pool' s' assume P: "buffer_pool_pin os pool (rid_page_id rid) s = Some (Some f, pool', s')" "pages pool' ! f = q"
      "\<And>q'. length q' = 4096 \<Longrightarrow> pool_rep view
        (buffer_pool_unpin (buffer_pool_mark_dirty (put_page pool' f q') (rid_page_id rid) 0) (rid_page_id rid), s')
        (m(rid_page_id rid \<mapsto> q'))"
    have ne: "slot_recs q ! rid_slot_index rid \<noteq> None" using q(5) by simp
    obtain q' where q': "slot_page_delete q (rid_slot_index rid) = Some (NOSTR_DB_OK, q')" "slot_ok q'"
      "slot_recs q' = (slot_recs q)[rid_slot_index rid := None]" "page_type q' = page_type q"
      by (rule slot_page_delete_ok [OF q(2,4) ne]) blast
    have pt: "page_type q' = PAGE_TYPE_RECORD" using q'(4) q(3) by simp
    have "record_delete os pool rid s = Some (NOSTR_DB_OK,
        buffer_pool_unpin (buffer_pool_mark_dirty (put_page pool' f q') (rid_page_id rid) 0) (rid_page_id rid), s')"
      using P(1,2) p0 q'(1) not_spanned [OF q(2)] by (simp add: record_delete_def free_spanned_def)
    moreover have "recs (m(rid_page_id rid \<mapsto> q')) = (recs m)(rid := None)"
      using recs_update [of m _ q "rid_slot_index rid" q' None, OF q(1-4) q'(2) pt q'(3)] unfolding rid_eta .
    ultimately show ?thesis using P(3) [OF slot_okD(1) [OF q'(2)]] store_ok_upd [OF ok q'(2)] by blast
  qed
qed

lemma record_reinsert_ok:
  assumes rep: "pool_rep view (pool, s) m" and ok: "store_ok m" and r: "recs m rid = Some old"
    and d: "length temp = 4096" "0 < length d" "length d \<le> 4068"
  shows "\<exists>err rid' pool' s'. record_reinsert os temp pool rid d (length d) s = Some (err, rid', pool', s') \<and>
    (err = NOSTR_DB_OK \<and> (\<exists>m'. pool_rep view (pool', s') m' \<and> store_ok m' \<and>
       ((recs m)(rid := None)) rid' = None \<and> recs m' = (recs m)(rid := None, rid' \<mapsto> d)) \<or>
     err \<in> {NOSTR_DB_ERROR_NOT_FOUND, NOSTR_DB_ERROR_FULL} \<and> rid' = rid)"
proof -
  obtain err1 pool1 s1 where D: "record_delete os pool rid s = Some (err1, pool1, s1)"
    "err1 = NOSTR_DB_ERROR_NOT_FOUND \<or> err1 = NOSTR_DB_OK \<and>
      (\<exists>m'. pool_rep view (pool1, s1) m' \<and> store_ok m' \<and> recs m' = (recs m)(rid := None))"
    using record_delete_ok [OF rep ok r] by blast
  show ?thesis
  proof (cases "err1 = NOSTR_DB_OK")
    case False
    then show ?thesis using D by (auto simp: record_reinsert_def)
  next
    case True
    then obtain m1 where m1: "pool_rep view (pool1, s1) m1" "store_ok m1" "recs m1 = (recs m)(rid := None)" using D(2) by auto
    obtain err out pool' s' where I: "record_insert os temp pool1 d (length d) s1 = Some (err, out, pool', s')"
      "case out of
         Some rid \<Rightarrow> err = NOSTR_DB_OK \<and> (\<exists>m'. pool_rep view (pool', s') m' \<and> store_ok m' \<and>
           recs m1 rid = None \<and> recs m' = (recs m1)(rid \<mapsto> d))
       | None \<Rightarrow> err = NOSTR_DB_ERROR_FULL"
      using record_insert_ok [OF m1(1,2) d] by blast
    show ?thesis using D(1) True I m1(3) by (cases out) (auto simp: record_reinsert_def)
  qed
qed

lemma record_update_ok:
  assumes rep: "pool_rep view (pool, s) m" and ok: "store_ok m" and r: "recs m rid = Some old"
    and d: "length temp = 4096" "0 < length d" "length d \<le> 4068"
  shows "\<exists>err rid' pool' s'. record_update os temp pool rid d (length d) s = Some (err, rid', pool', s') \<and>
    (err = NOSTR_DB_OK \<and> (length d \<le> length old \<longrightarrow> rid' = rid) \<and>
       (\<exists>m'. pool_rep view (pool', s') m' \<and> store_ok m' \<and>
         ((recs m)(rid := None)) rid' = None \<and> recs m' = (recs m)(rid := None, rid' \<mapsto> d)) \<or>
     err \<in> {NOSTR_DB_ERROR_NOT_FOUND, NOSTR_DB_ERROR_FULL} \<and> rid' = rid)"
proof -
  obtain q where q: "m (rid_page_id rid) = Some q" "slot_ok q" "page_type q = PAGE_TYPE_RECORD"
    "rid_slot_index rid < slot_count q" "slot_recs q ! rid_slot_index rid = Some old" by (rule recs_Some [OF r])
  let ?pid = "rid_page_id rid" and ?i = "rid_slot_index rid"
  have p0: "?pid \<noteq> 0" using rep_page [OF rep q(1)] by simp
  note D = slot_okD [OF q(2)]
  have l: "live q ?i" using q(4,5) slot_recs_None [of ?i q] by simp
  have old: "length old = s_len q ?i"
    using q(4,5) l D(9) [OF q(4) l] D(1) by (auto simp: slot_recs_def slot_rec_def slice_def)
  have g: "get_slot q ?i = Some (s_off q ?i, s_len q ?i)" using get_slot_eq D(8) [OF q(4)] by blast
  have nz: "\<not> (s_off q ?i = 0 \<and> s_len q ?i = 0)" using l by (simp add: live_def)
  show ?thesis
  proof (rule rep_pin [OF rep q(1)])
    fix pool' s' assume "buffer_pool_pin os pool ?pid s = Some (None, pool', s')"
    then show ?thesis using p0 d by (simp add: record_update_def)
  next
    fix f pool' s' assume P: "buffer_pool_pin os pool ?pid s = Some (Some f, pool', s')" "pages pool' ! f = q"
      "pool_rep view (buffer_pool_unpin pool' ?pid, s') m"
      "\<And>q'. length q' = 4096 \<Longrightarrow> pool_rep view
        (buffer_pool_unpin (buffer_pool_mark_dirty (put_page pool' f q') ?pid 0) ?pid, s') (m(?pid \<mapsto> q'))"
    show ?thesis
    proof (cases "length d \<le> s_len q ?i")
      case False
      then have "record_update os temp pool rid d (length d) s =
        record_reinsert os temp (buffer_pool_unpin pool' ?pid) rid d (length d) s'"
        using P(1,2) p0 d q(4) g nz not_spanned [OF q(2)] by (auto simp: record_update_def)
      then show ?thesis using record_reinsert_ok [OF P(3) ok r d] False old by auto
    next
      case True
      let ?q' = "in_place q ?i d"
      note ip = in_place_ok [OF q(2,4) l d(2) True]
      have po: "poke q (s_off q ?i) d = Some (blit q (s_off q ?i) d)" "peek d 0 (length d) = Some d"
        using D(9) [OF q(4) l] D(1) True by (simp_all add: slice_def)
      have lb: "length (blit q (s_off q ?i) d) = 4096" using D(9) [OF q(4) l] D(1) True by simp
      have ps: "put_slot (put_le 2 14 v (blit q (s_off q ?i) d)) ?i a b =
        Some (set_slot (put_le 2 14 v (blit q (s_off q ?i) d)) ?i a b)" for v a b
        using D(8) [OF q(4)] D(1) lb by (intro put_slot_eq) simp
      have "record_update os temp pool rid d (length d) s = Some (NOSTR_DB_OK, rid,
        buffer_pool_unpin (buffer_pool_mark_dirty (put_page pool' f ?q') ?pid 0) ?pid, s')"
        using P(1,2) p0 d q(4) g nz not_spanned [OF q(2)] True po ps by (simp add: record_update_def in_place_def Let_def)
      moreover have "recs (m(?pid \<mapsto> ?q')) = (recs m)(rid \<mapsto> d)"
        using recs_update [of m _ q ?i ?q' "Some d", OF q(1-4) ip(1) _ ip(2)] ip(3) q(3) unfolding rid_eta by simp
      ultimately show ?thesis using P(4) [OF slot_okD(1) [OF ip(1)]] store_ok_upd [OF ok ip(1)] by auto
    qed
  qed
qed

end

section \<open>A store with one record\<close>

lemma slot_recs_Nil: "slot_recs q = [] \<Longrightarrow> slot_count q = 0" by (metis length_slot_recs list.size(3))

lemmas three = numeral_3_eq_3 [symmetric]

lemma recs_empty: "recs Map.empty = Map.empty" by (simp add: recs_def fun_eq_iff)

lemma store_ok_empty: "store_ok Map.empty" by (simp add: store_ok_def)

lemma mem_store_insert:
  obtains pool and s :: mem_state and rid pool' and s' :: mem_state
  where "pool_rep (\<lambda>f s. mem_view s f) (pool, s) Map.empty"
    "record_insert mem_os (replicate 4096 0) pool [1, 2, 3] 3 s = Some (NOSTR_DB_OK, Some rid, pool', s')"
    "page_ids pool' = [1]" "pool_size pool' = 1" "rid_page_id rid = 1"
proof -
  obtain pool and s :: mem_state and pool1 and s1 :: mem_state and out and ps where p:
    "pool_inv pool (mem_view s (dm_fd (disk pool))) {} [1, 2]" "buffer_pool_alloc_page mem_os pool s = Some (1, out, pool1, s1)"
    "page_ids pool1 = [1]" "pool_size pool1 = 1" "total_pages (disk pool) = 3" "page_ids pool = [0]" "pool_size pool = 1"
    by (rule mem_pool1_alloc) blast
  have al: "allocated (disk pool) [1, 2] = {}" using p(5) by (auto simp: allocated_def)
  have rep: "pool_rep (\<lambda>f s. mem_view s f) (pool, s) Map.empty"
    using p(1) al by (auto simp: pool_rep_def represents_def)
  obtain f where f: "out = Some f" using mem.rep_alloc [OF rep] p(2) by auto
  let ?q = "slot_page_init 1"
  have ok: "slot_ok ?q" "slot_recs ?q = []" using slot_page_init_ok [of 1] by auto
  have h: "free_space_start ?q = 24" "free_space_end ?q = 4096"
    by (simp_all add: header_defs slot_page_init_def mem_simps)
  have "\<exists>q' i. slot_page_insert (replicate 4096 0) ?q [1, 2, 3] (length [1, 2, 3 :: byte]) = Some (NOSTR_DB_OK, q', Some i)"
    by (rule slot_page_insert_ok [OF ok(1), of "replicate 4096 0" "[1, 2, 3]"]) (auto simp: ok(2) h simp del: One_nat_def)
  then obtain q' i where I: "slot_page_insert (replicate 4096 0) ?q [1, 2, 3] 3 = Some (NOSTR_DB_OK, q', Some i)"
    by (auto simp: three)
  let ?pool' = "buffer_pool_unpin (buffer_pool_mark_dirty (put_page pool1 f q') 1 0) 1"
  have t: "try_insert_existing mem_os (replicate 4096 0) pool [1, 2, 3] 3 s = Some (0, 0, pool, s)"
    using p(6,7) by (simp add: try_insert_existing_def)
  have "record_insert mem_os (replicate 4096 0) pool [1, 2, 3] 3 s =
    Some (NOSTR_DB_OK, Some \<lparr>rid_page_id = 1, rid_slot_index = i\<rparr>, ?pool', s1)"
    using t p(2) f I by (simp add: record_insert_def)
  then show thesis using that [of pool s "\<lparr>rid_page_id = 1, rid_slot_index = i\<rparr>" ?pool' s1] rep p(3,4) by simp
qed

lemma mem_store:
  obtains pool and s :: mem_state and m rid
  where "pool_rep (\<lambda>f s. mem_view s f) (pool, s) m" "store_ok m" "recs m = [rid \<mapsto> [1, 2, 3]]"
    "\<And>pool' s'. buffer_pool_pin mem_os pool (rid_page_id rid) s \<noteq> Some (None, pool', s')"
proof -
  obtain pool and s :: mem_state and rid pool' and s' :: mem_state
    where p: "pool_rep (\<lambda>f s. mem_view s f) (pool, s) Map.empty"
    "record_insert mem_os (replicate 4096 0) pool [1, 2, 3] 3 s = Some (NOSTR_DB_OK, Some rid, pool', s')"
    "page_ids pool' = [1]" "pool_size pool' = 1" "rid_page_id rid = 1" by (rule mem_store_insert) blast
  obtain m where m: "pool_rep (\<lambda>f s. mem_view s f) (pool', s') m" "store_ok m" "recs m = [rid \<mapsto> [1, 2, 3]]"
    using mem.record_insert_ok [OF p(1) store_ok_empty, of "replicate 4096 0" "[1, 2, 3]"] p(2) by (auto simp: recs_empty three)
  have "buffer_pool_pin mem_os pool' (rid_page_id rid) s' \<noteq> Some (None, pool2, s2)" for pool2 and s2 :: mem_state
    using mem.rep_pin_cached [OF m(1), of 0] p(3-5) by (metis One_nat_def less_one nth_Cons_0 one_neq_zero)
  then show thesis using that m by blast
qed

section \<open>Properties\<close>

text \<open>
  C30: A record of at most 4068 bytes goes into a page of the pool with room for it or into a new
  page: the insertion stays in bounds and ends, and when it succeeds the id it returns was
  unused, now names the record, and every other record is what it was; the pages stay well
  formed. Otherwise the error is FULL.
\<close>

theorem record_insert_refines:
  assumes "posix os view durable" "pool_rep view (pool, s) m" "store_ok m"
    and "length temp = 4096" "0 < length d" "length d \<le> 4068"
  shows "\<exists>err out pool' s'. record_insert os temp pool d (length d) s = Some (err, out, pool', s') \<and>
    (case out of
       Some rid \<Rightarrow> err = NOSTR_DB_OK \<and> (\<exists>m'. pool_rep view (pool', s') m' \<and> store_ok m' \<and>
         recs m rid = None \<and> recs m' = (recs m)(rid \<mapsto> d))
     | None \<Rightarrow> err = NOSTR_DB_ERROR_FULL)"
  using posix.record_insert_ok [OF assms] .

theorem record_insert_refines_witness:
  "\<exists>pool s rid pool' s' m'. record_insert mem_os (replicate 4096 0) pool [1, 2, 3] 3 s = Some (NOSTR_DB_OK, Some rid, pool', s') \<and>
     pool_rep (\<lambda>f s. mem_view s f) (pool', s') m' \<and> recs m' = [rid \<mapsto> [1, 2, 3]]"
proof -
  obtain pool and s :: mem_state and rid pool' and s' :: mem_state
    where p: "pool_rep (\<lambda>f s. mem_view s f) (pool, s) Map.empty"
    "record_insert mem_os (replicate 4096 0) pool [1, 2, 3] 3 s = Some (NOSTR_DB_OK, Some rid, pool', s')"
    by (rule mem_store_insert) blast
  define d where "d = [1, 2, 3 :: byte]"
  have d: "length (replicate 4096 0 :: byte list) = 4096" "0 < length d" "length d \<le> 4068" "length d = 3" by (simp_all add: d_def)
  have "\<exists>m'. pool_rep (\<lambda>f s. mem_view s f) (pool', s') m' \<and> recs m' = [rid \<mapsto> d]"
    using record_insert_refines [OF posix_mem p(1) store_ok_empty d(1-3)] p(2) by (auto simp: recs_empty d(4) d_def [symmetric])
  then show ?thesis using p(2) unfolding d_def by blast
qed







end
