(* ===== verification/CString.thy ===== *)
theory CString
  imports Prelude
begin

text \<open>
  The string functions of \<open>src/util/string.h\<close>. A pointer into memory is the list of the bytes
  from it to the end of its region; an access behind the region is \<open>None\<close>. \<open>char\<close> is signed
  in the C code, but all its comparisons are range tests within ASCII, which no byte from 128 on
  passes either way. The null pointer tests of the functions are left out: the callers in the
  repository pass arrays.
\<close>

section \<open>Characters\<close>

definition is_empty_value :: "byte \<Rightarrow> bool" where "is_empty_value c \<longleftrightarrow> c = 0"

text \<open>13 and 10 are carriage return and line feed; 32, 9, 11 and 12 the other white space.\<close>

definition is_line_break :: "byte \<Rightarrow> bool" where "is_line_break c \<longleftrightarrow> c = 13 \<or> c = 10"

definition is_space :: "byte \<Rightarrow> bool" where
  "is_space c \<longleftrightarrow> c = 32 \<or> c = 9 \<or> c = 13 \<or> c = 10 \<or> c = 11 \<or> c = 12"

text \<open>The letters a to z are 97 to 122, A to Z are 65 to 90, the digits 48 to 57.\<close>

definition is_lower :: "byte \<Rightarrow> bool" where "is_lower c \<longleftrightarrow> c \<ge> 97 \<and> c \<le> 122"
definition is_upper :: "byte \<Rightarrow> bool" where "is_upper c \<longleftrightarrow> c \<ge> 65 \<and> c \<le> 90"
definition is_digit :: "byte \<Rightarrow> bool" where "is_digit c \<longleftrightarrow> c \<ge> 48 \<and> c \<le> 57"
definition is_lower_hex :: "byte \<Rightarrow> bool" where "is_lower_hex c \<longleftrightarrow> is_digit c \<or> c \<ge> 97 \<and> c \<le> 102"

definition lower :: "byte \<Rightarrow> byte" where
  "lower c = (if c \<ge> 65 \<and> c \<le> 90 then c + 97 - 65 else c)"

definition chrcmp_sensitive :: "byte \<Rightarrow> byte \<Rightarrow> bool" where "chrcmp_sensitive a b \<longleftrightarrow> a = b"
definition chrcmp :: "byte \<Rightarrow> byte \<Rightarrow> bool" where "chrcmp a b \<longleftrightarrow> lower a = lower b"

definition char_at :: "byte list \<Rightarrow> nat \<Rightarrow> byte option" where
  "char_at str i = (if i < length str then Some (str ! i) else None)"

text \<open>The conjunction of C reads on only while the bytes match.\<close>

definition is_utf8_space :: "byte list \<Rightarrow> nat \<Rightarrow> bool option" where
  "is_utf8_space str pos = do {
     a \<leftarrow> char_at str pos;
     if a \<noteq> 0xE3 then Some False
     else do {
       b \<leftarrow> char_at str (pos + 1);
       if b \<noteq> 0x80 then Some False
       else do { c \<leftarrow> char_at str (pos + 2); Some (c = 0x80) }
     }
   }"

section \<open>Comparison and search\<close>

primrec is_lower_hex_loop :: "byte list \<Rightarrow> nat list \<Rightarrow> bool option" where
  "is_lower_hex_loop c [] = Some True"
| "is_lower_hex_loop c (i # is) = do {
     x \<leftarrow> char_at c i;
     if \<not> is_lower_hex x then Some False else is_lower_hex_loop c is
   }"

definition is_lower_hex_str :: "byte list \<Rightarrow> nat \<Rightarrow> bool option" where
  "is_lower_hex_str c len = (if len \<le> 0 then Some False else is_lower_hex_loop c [0..<len])"

primrec compare_loop :: "(byte \<Rightarrow> byte \<Rightarrow> bool) \<Rightarrow> byte list \<Rightarrow> byte list \<Rightarrow> nat list \<Rightarrow> bool option" where
  "compare_loop cmp str1 str2 [] = Some True"
| "compare_loop cmp str1 str2 (i # is) = do {
     a \<leftarrow> char_at str1 i;
     b \<leftarrow> char_at str2 i;
     if \<not> cmp a b then Some False else compare_loop cmp str1 str2 is
   }"

definition nostr_strncmp :: "byte list \<Rightarrow> byte list \<Rightarrow> nat \<Rightarrow> bool option" where
  "nostr_strncmp str1 str2 capacity =
     (if capacity \<le> 0 then Some False else compare_loop chrcmp str1 str2 [0..<capacity])"

definition strncmp_sensitive :: "byte list \<Rightarrow> byte list \<Rightarrow> nat \<Rightarrow> nat \<Rightarrow> bool \<Rightarrow> bool option" where
  "strncmp_sensitive str1 str2 str1capacity str2capacity case_sensitive =
     (if str1capacity \<le> 0 then Some False
      else if str2capacity \<le> 0 then Some False
      else
        (let capacity = (if str1capacity > str2capacity then str2capacity else str1capacity)
         in if capacity = 0 then Some False
            else compare_loop (if case_sensitive then chrcmp_sensitive else chrcmp) str1 str2 [0..<capacity]))"

primrec strpos_loop :: "byte list \<Rightarrow> nat \<Rightarrow> byte list \<Rightarrow> nat \<Rightarrow> bool \<Rightarrow> nat list \<Rightarrow> int option" where
  "strpos_loop base base_len target target_len case_sensitive [] = Some (-1)"
| "strpos_loop base base_len target target_len case_sensitive (base_pos # is) = do {
     eq \<leftarrow> strncmp_sensitive (drop base_pos base) target base_len target_len case_sensitive;
     if eq then Some (int base_pos) else strpos_loop base base_len target target_len case_sensitive is
   }"

definition strpos_sensitive :: "byte list \<Rightarrow> nat \<Rightarrow> byte list \<Rightarrow> nat \<Rightarrow> bool \<Rightarrow> int option" where
  "strpos_sensitive base base_len target target_len case_sensitive =
     (if base_len \<le> 0 then Some (-1)
      else if target_len \<le> 0 then Some (-1)
      else if target_len > base_len then Some (-1)
      else strpos_loop base base_len target target_len case_sensitive [0..<base_len - target_len + 1])"

definition strstr_sensitive :: "byte list \<Rightarrow> nat \<Rightarrow> byte list \<Rightarrow> nat \<Rightarrow> bool \<Rightarrow> bool option" where
  "strstr_sensitive base base_len target target_len case_sensitive =
     map_option (\<lambda>r. r \<noteq> -1) (strpos_sensitive base base_len target target_len case_sensitive)"

section \<open>Skipping\<close>

text \<open>The loop condition reads the byte at \<open>pos\<close> before it compares \<open>pos\<close> with the size.\<close>

function skip_space_loop :: "byte list \<Rightarrow> nat \<Rightarrow> nat \<Rightarrow> int option" where
  "skip_space_loop buffer buffer_size pos =
     (case char_at buffer pos of
        None \<Rightarrow> None
      | Some current \<Rightarrow>
          if \<not> is_empty_value current \<and> pos < buffer_size then
            (if is_space current then skip_space_loop buffer buffer_size (pos + 1)
             else if pos + 2 < buffer_size then
               (case is_utf8_space buffer pos of
                  None \<Rightarrow> None
                | Some True \<Rightarrow> skip_space_loop buffer buffer_size (pos + 3)
                | Some False \<Rightarrow> Some (int pos))
             else Some (int pos))
          else Some (int pos))"
  by pat_completeness auto
termination by (relation "measure (\<lambda>(buffer, size, pos). size - pos)") auto

declare skip_space_loop.simps [simp del]

definition skip_space :: "byte list \<Rightarrow> nat \<Rightarrow> int option" where
  "skip_space buffer buffer_size =
     (if buffer_size \<le> 0 then Some (-1) else skip_space_loop buffer buffer_size 0)"

primrec skip_word_loop :: "byte list \<Rightarrow> nat \<Rightarrow> nat list \<Rightarrow> nat option" where
  "skip_word_loop buffer buffer_size [] = Some buffer_size"
| "skip_word_loop buffer buffer_size (i # is) = do {
     c \<leftarrow> char_at buffer i;
     if is_space c then Some i
     else if is_empty_value c then Some i
     else if i + 2 \<ge> buffer_size then skip_word_loop buffer buffer_size is
     else do {
       sp \<leftarrow> is_utf8_space buffer i;
       if sp then Some i else skip_word_loop buffer buffer_size is
     }
   }"

definition skip_word :: "byte list \<Rightarrow> nat \<Rightarrow> nat option" where
  "skip_word buffer buffer_size = skip_word_loop buffer buffer_size [0..<buffer_size]"

text \<open>\<open>buffer_len - 1\<close> is unsigned: a length of 0 makes it \<open>2 ^ 64 - 1\<close>.\<close>

function skip_next_line_loop :: "byte list \<Rightarrow> nat \<Rightarrow> nat \<Rightarrow> nat option" where
  "skip_next_line_loop buffer limit buffer_pos =
     (case char_at buffer buffer_pos of
        None \<Rightarrow> None
      | Some current \<Rightarrow>
          if current \<noteq> 0 \<and> buffer_pos < limit then
            (case char_at buffer (buffer_pos + 1) of
               None \<Rightarrow> None
             | Some nxt \<Rightarrow>
                 if current = 10 then Some (buffer_pos + 1)
                 else if nxt = 10 then Some (buffer_pos + 2)
                 else skip_next_line_loop buffer limit (buffer_pos + 1))
          else Some buffer_pos)"
  by pat_completeness auto
termination by (relation "measure (\<lambda>(buffer, limit, pos). limit - pos)") auto

declare skip_next_line_loop.simps [simp del]

definition skip_next_line :: "byte list \<Rightarrow> nat \<Rightarrow> nat option" where
  "skip_next_line buffer buffer_len =
     (if buffer_len = 2 then Some 0
      else skip_next_line_loop buffer ((buffer_len + 2 ^ 64 - 1) mod 2 ^ 64) 0)"

primrec skip_token_loop :: "byte list \<Rightarrow> byte \<Rightarrow> nat list \<Rightarrow> int option" where
  "skip_token_loop buffer token [] = Some (-1)"
| "skip_token_loop buffer token (i # is) = do {
     c \<leftarrow> char_at buffer i;
     if c = token then Some (int i) else skip_token_loop buffer token is
   }"

definition skip_token :: "byte list \<Rightarrow> nat \<Rightarrow> byte \<Rightarrow> int option" where
  "skip_token buffer buffer_size token =
     (if buffer_size \<le> 0 then Some (-1) else skip_token_loop buffer token [0..<buffer_size])"

section \<open>Length\<close>

text \<open>\<open>len\<close> is the counter before the increment in the loop condition.\<close>

function strlen_loop :: "byte list \<Rightarrow> nat \<Rightarrow> nat option" where
  "strlen_loop str len =
     (case char_at str len of
        None \<Rightarrow> None
      | Some c \<Rightarrow> if c \<noteq> 0 then strlen_loop str (len + 1) else Some (len + 1 - 1))"
  by pat_completeness auto
termination
  by (relation "measure (\<lambda>(str, len). length str - len)") (auto simp: char_at_def split: if_splits)

declare strlen_loop.simps [simp del]

definition nostr_strlen :: "byte list \<Rightarrow> nat option" where
  "nostr_strlen str = strlen_loop str 0"

function strnlen_loop :: "byte list \<Rightarrow> nat \<Rightarrow> nat \<Rightarrow> nat option" where
  "strnlen_loop str capacity len =
     (case char_at str len of
        None \<Rightarrow> None
      | Some c \<Rightarrow> if c \<noteq> 0 \<and> len + 1 < capacity then strnlen_loop str capacity (len + 1) else Some (len + 1 - 1))"
  by pat_completeness auto
termination by (relation "measure (\<lambda>(str, capacity, len). capacity - len)") auto

declare strnlen_loop.simps [simp del]

definition nostr_strnlen :: "byte list \<Rightarrow> nat \<Rightarrow> nat option" where
  "nostr_strnlen str capacity = (if capacity \<le> 0 then Some 0 else strnlen_loop str capacity 0)"

section \<open>Numbers\<close>

text \<open>In the loop \<open>i\<close> is \<open>10 ^ j\<close>.\<close>

function calc_digit_loop :: "int \<Rightarrow> nat \<Rightarrow> nat \<Rightarrow> nat" where
  "calc_digit_loop value is_negative j =
     (if (10 :: int) ^ j < 1000000000
      then (if value < 10 ^ j then j else calc_digit_loop value is_negative (j + 1))
      else 10 + is_negative)"
  by pat_completeness auto
termination
proof (relation "measure (\<lambda>(value, neg, j). 9 - j)")
  fix v :: int and neg j :: nat
  assume "(10 :: int) ^ j < 1000000000"
  then have "(10 :: int) ^ j < 10 ^ 9" by simp
  then have "j < 9" by (simp only: power_strict_increasing_iff)
  then show "((v, neg, j + 1), v, neg, j) \<in> measure (\<lambda>(value, neg, j). 9 - j)" by simp
qed simp

declare calc_digit_loop.simps [simp del]

text \<open>The negation of the smallest number is undefined in C; \<open>itoa\<close> excludes it.\<close>

definition calc_digit :: "int \<Rightarrow> nat" where
  "calc_digit value = calc_digit_loop \<bar>value\<bar> (if value < 0 then 1 else 0) 1"

text \<open>The do-while loop writes digits downwards from \<open>current\<close>.\<close>

function itoa_loop :: "int \<Rightarrow> int \<Rightarrow> byte list \<Rightarrow> (int \<times> byte list) option" where
  "itoa_loop value current buffer =
     (if current < 0 then None
      else
        (case poke buffer (nat current) [word_of_int (48 + value mod 10)] of
           None \<Rightarrow> None
         | Some buffer \<Rightarrow>
             if value div 10 > 0 \<and> current - 1 \<ge> 0 then itoa_loop (value div 10) (current - 1) buffer
             else Some (current - 1, buffer)))"
  by pat_completeness auto
termination by (relation "measure (\<lambda>(value, current, buffer). nat (current + 1))") auto

declare itoa_loop.simps [simp del]

definition itoa :: "int \<Rightarrow> byte list \<Rightarrow> nat \<Rightarrow> (nat \<times> byte list) option" where
  "itoa value buffer buffer_capacity =
     (if buffer_capacity \<le> 0 then Some (0, buffer)
      else if value = - (2 ^ 31) then None
      else do {
        let digit = calc_digit value;
        buffer \<leftarrow> poke buffer digit [0];
        (current, buffer) \<leftarrow> itoa_loop \<bar>value\<bar> (int digit - 1) buffer;
        (current, buffer) \<leftarrow>
          (if value < 0 \<and> current \<ge> 0
           then map_option (\<lambda>buffer. (current - 1, buffer)) (poke buffer (nat current) [45])
           else Some (current, buffer));
        Some (nat (int digit - (current + 1)), buffer)
      })"

section \<open>What the functions compute\<close>

text \<open>The characters before the terminating 0.\<close>

definition cstr :: "byte list \<Rightarrow> byte list" where "cstr s = takeWhile (\<lambda>c. c \<noteq> 0) s"

lemma lower_0 [simp]: "lower 0 = 0" by (simp add: lower_def)

lemma lower_eq_0 [simp]: "lower c = 0 \<longleftrightarrow> c = 0"
proof -
  have le: "e \<le> d \<longleftrightarrow> uint e \<le> uint d" for e d :: byte by (rule word_le_def)
  have "c + 97 - 65 = c + 32" by simp
  moreover have "32 + c = 0 \<longleftrightarrow> c = - 32" by (metis add.commute eq_neg_iff_add_eq_0)
  ultimately show ?thesis unfolding lower_def by (auto simp: add.commute [of c])
qed

lemma zero_eq_lower [simp]: "0 = lower c \<longleftrightarrow> c = 0"
  using lower_eq_0 [of c] by (auto simp del: lower_eq_0)

lemma cstr_no_0: "0 \<notin> set (cstr s)" by (auto simp: cstr_def dest: set_takeWhileD)

lemma cstr_append: "0 \<notin> set t \<Longrightarrow> cstr (t @ 0 # u) = t"
  by (induction t) (auto simp: cstr_def)

lemma cstr_length: "0 \<in> set s \<Longrightarrow> length (cstr s) < length s"
  unfolding cstr_def by (induction s) auto

lemma cstr_nth: "length (cstr s) < length s \<Longrightarrow> s ! length (cstr s) = 0"
  using nth_length_takeWhile [of "\<lambda>c. c \<noteq> 0" s] by (simp add: cstr_def)

lemma cstr_before:
  assumes "i < length (cstr s)"
  shows "s ! i \<noteq> 0"
proof -
  have "takeWhile (\<lambda>c. c \<noteq> 0) s ! i = s ! i" using takeWhile_nth [of i "\<lambda>c. c \<noteq> 0" s] assms by (simp add: cstr_def)
  moreover have "takeWhile (\<lambda>c. c \<noteq> 0) s ! i \<in> set (takeWhile (\<lambda>c. c \<noteq> 0) s)" using assms by (simp add: cstr_def)
  ultimately show ?thesis using set_takeWhileD by fastforce
qed

lemma cstr_take: "take (length (cstr s)) s = cstr s"
  unfolding cstr_def by (metis takeWhile_eq_take)

lemma char_at_Some [simp]: "i < length s \<Longrightarrow> char_at s i = Some (s ! i)"
  by (simp add: char_at_def)

lemma char_at_None [simp]: "length s \<le> i \<Longrightarrow> char_at s i = None"
  by (simp add: char_at_def)

lemma strlen_loop_eq:
  "k \<le> length (cstr s) \<Longrightarrow> strlen_loop s k = (if 0 \<in> set s then Some (length (cstr s)) else None)"
proof (induction s k rule: strlen_loop.induct)
  case (1 s k)
  show ?case
  proof (cases "k < length (cstr s)")
    case True
    then have "s ! k \<noteq> 0" "k < length s" using cstr_before [OF True] length_takeWhile_le [of "\<lambda>c. c \<noteq> 0" s] by (auto simp: cstr_def)
    then show ?thesis using 1 True by (subst strlen_loop.simps) auto
  next
    case False
    then have k: "k = length (cstr s)" using 1 by simp
    show ?thesis
    proof (cases "0 \<in> set s")
      case True
      then show ?thesis using k cstr_length [OF True] cstr_nth by (subst strlen_loop.simps) auto
    next
      case n: False
      then have "cstr s = s" by (auto simp: cstr_def takeWhile_eq_all_conv)
      then show ?thesis using k n by (subst strlen_loop.simps) auto
    qed
  qed
qed

lemma nostr_strlen_eq: "nostr_strlen s = (if 0 \<in> set s then Some (length (cstr s)) else None)"
  by (simp add: nostr_strlen_def strlen_loop_eq)

lemma strnlen_loop_eq:
  assumes "capacity \<le> length s \<or> 0 \<in> set s"
  shows "k \<le> length (cstr s) \<Longrightarrow> k < capacity \<Longrightarrow> strnlen_loop s capacity k = Some (min (length (cstr s)) (capacity - 1))"
  using assms
proof (induction s capacity k rule: strnlen_loop.induct)
  case (1 s capacity k)
  show ?case
  proof (cases "k < length (cstr s)")
    case True
    then have "s ! k \<noteq> 0" "k < length s" using cstr_before [OF True] length_takeWhile_le [of "\<lambda>c. c \<noteq> 0" s] by (auto simp: cstr_def)
    then show ?thesis using 1 True by (subst strnlen_loop.simps) (auto simp: min_def)
  next
    case False
    then have k: "k = length (cstr s)" using 1 by simp
    have "k < length s"
      using 1(3,4) cstr_length [of s] k by linarith
    then have "s ! k = 0" using cstr_nth k by simp
    then show ?thesis using k \<open>k < length s\<close> 1 by (subst strnlen_loop.simps) auto
  qed
qed

lemma nostr_strnlen_eq:
  "0 < capacity \<Longrightarrow> capacity \<le> length s \<or> 0 \<in> set s \<Longrightarrow> nostr_strnlen s capacity = Some (min (length (cstr s)) (capacity - 1))"
  by (simp add: nostr_strnlen_def strnlen_loop_eq)

lemma compare_loop_eq:
  "\<forall>i \<in> set xs. i < length s \<and> i < length t \<Longrightarrow> compare_loop cmp s t xs = Some (\<forall>i \<in> set xs. cmp (s ! i) (t ! i))"
  by (induction xs) auto

lemma list_all2_upt:
  "n \<le> length s \<Longrightarrow> n \<le> length t \<Longrightarrow> (\<forall>i \<in> set [0..<n]. f (s ! i) = f (t ! i)) \<longleftrightarrow> map f (take n s) = map f (take n t)"
  by (auto simp: list_eq_iff_nth_eq)

lemma nostr_strncmp_eq:
  assumes "0 < n" "n \<le> length s" "n \<le> length t"
  shows "nostr_strncmp s t n = Some (map lower (take n s) = map lower (take n t))"
proof -
  have "compare_loop chrcmp s t [0..<n] = Some (\<forall>i \<in> set [0..<n]. chrcmp (s ! i) (t ! i))"
    using assms by (intro compare_loop_eq) auto
  then show ?thesis using assms list_all2_upt [of n s t lower] by (simp add: nostr_strncmp_def chrcmp_def)
qed

abbreviation fold_char :: "bool \<Rightarrow> byte \<Rightarrow> byte" where
  "fold_char case_sensitive \<equiv> (if case_sensitive then id else lower)"

lemma strncmp_sensitive_eq:
  assumes "0 < a" "0 < b" "min a b \<le> length s" "min a b \<le> length t"
  shows "strncmp_sensitive s t a b cs =
    Some (map (fold_char cs) (take (min a b) s) = map (fold_char cs) (take (min a b) t))"
proof -
  have n: "(if a > b then b else a) = min a b" by simp
  have "compare_loop (if cs then chrcmp_sensitive else chrcmp) s t [0..<min a b] =
      Some (\<forall>i \<in> set [0..<min a b]. (if cs then chrcmp_sensitive else chrcmp) (s ! i) (t ! i))"
    using assms by (intro compare_loop_eq) auto
  then show ?thesis
    using assms list_all2_upt [OF assms(3,4), of "fold_char cs"]
    by (cases cs) (simp_all add: strncmp_sensitive_def Let_def n chrcmp_def chrcmp_sensitive_def)
qed

text \<open>The target occurs at position \<open>i\<close>.\<close>

definition occurs :: "bool \<Rightarrow> byte list \<Rightarrow> byte list \<Rightarrow> nat \<Rightarrow> bool" where
  "occurs cs target base i \<longleftrightarrow> map (fold_char cs) (slice base i (length target)) = map (fold_char cs) target"

lemma strpos_loop_eq:
  assumes "0 < tn" "tn \<le> bl" "bl \<le> length base" "tn \<le> length target" "\<forall>i \<in> set xs. i \<le> bl - tn"
  shows "strpos_loop base bl target tn cs xs =
    Some (case List.find (occurs cs (take tn target) base) xs of Some i \<Rightarrow> int i | None \<Rightarrow> -1)"
  using assms(5)
proof (induction xs)
  case (Cons i xs)
  have m: "min bl tn = tn" using assms by simp
  have "strncmp_sensitive (drop i base) target bl tn cs = Some (occurs cs (take tn target) base i)"
    using assms Cons.prems
    by (subst strncmp_sensitive_eq) (auto simp: m occurs_def slice_def)
  then show ?case using Cons by simp
qed simp

lemma strpos_eq:
  assumes "0 < tn" "tn \<le> bl" "bl \<le> length base" "tn \<le> length target"
  shows "strpos_sensitive base bl target tn cs =
    Some (case List.find (occurs cs (take tn target) base) [0..<bl - tn + 1] of Some i \<Rightarrow> int i | None \<Rightarrow> -1)"
  using assms by (subst strpos_sensitive_def) (simp add: strpos_loop_eq del: upt_Suc)

lemma is_lower_hex_str_eq:
  assumes "0 < n" "n \<le> length c"
  shows "is_lower_hex_str c n = Some (\<forall>x \<in> set (take n c). is_lower_hex x)"
proof -
  have "\<forall>i \<in> set xs. i < length c \<Longrightarrow> is_lower_hex_loop c xs = Some (\<forall>i \<in> set xs. is_lower_hex (c ! i))" for xs
    by (induction xs) auto
  from this [of "[0..<n]"] show ?thesis
    using assms by (auto simp: is_lower_hex_str_def nth_image [OF assms(2), symmetric])
qed

lemma skip_token_eq:
  assumes "0 < n" "n \<le> length buf"
  shows "skip_token buf n token = Some (if token \<in> set (take n buf) then int (first_index (\<lambda>c. c = token) buf) else -1)"
proof -
  have *: "skip_token_loop buf token [k..<n] =
     Some (if \<exists>i. k \<le> i \<and> i < n \<and> buf ! i = token then int (LEAST i. k \<le> i \<and> buf ! i = token) else -1)" if "k \<le> n" for k
    using that
  proof (induction "n - k" arbitrary: k)
    case 0
    then show ?case by auto
  next
    case (Suc m)
    then have k: "k < n" by simp
    have u: "[k..<n] = k # [Suc k..<n]" using k by (simp add: upt_conv_Cons)
    show ?case
    proof (cases "buf ! k = token")
      case True
      then have "(LEAST i. k \<le> i \<and> buf ! i = token) = k" by (intro Least_equality) auto
      then show ?thesis using True k assms u by auto
    next
      case False
      then have e: "(k \<le> i \<and> buf ! i = token) = (Suc k \<le> i \<and> buf ! i = token)" for i by (metis Suc_leI le_antisym not_less_eq_eq Suc_leD)
      show ?thesis using Suc.hyps(1) [of "Suc k"] Suc.hyps(2) False k assms u e by auto
    qed
  qed
  have ex: "(\<exists>i < n. buf ! i = token) \<longleftrightarrow> token \<in> set (take n buf)"
    using assms by (auto simp: in_set_conv_nth)
  have "(LEAST i. buf ! i = token) = first_index (\<lambda>c. c = token) buf" if "token \<in> set (take n buf)"
  proof (rule Least_equality)
    have "first_index (\<lambda>c. c = token) buf < length buf" using that by (auto simp: first_index_less_iff dest: in_set_takeD)
    then show "buf ! first_index (\<lambda>c. c = token) buf = token" using first_index_hit by blast
    show "first_index (\<lambda>c. c = token) buf \<le> y" if "buf ! y = token" for y
      using first_index_before [of y "\<lambda>c. c = token" buf] that by linarith
  qed
  then show ?thesis using * [of 0] assms ex by (auto simp: skip_token_def)
qed

text \<open>The decimal digits of a number.\<close>

fun dec :: "nat \<Rightarrow> byte list" where
  "dec n = (if n < 10 then [word_of_nat (48 + n)] else dec (n div 10) @ [word_of_nat (48 + n mod 10)])"

declare dec.simps [simp del]

lemma dec_length: "0 < j \<Longrightarrow> (length (dec n) \<le> j) = (n < 10 ^ j)"
proof (induction j arbitrary: n)
  case (Suc j)
  show ?case
  proof (cases "n < 10")
    case True
    moreover have "(1 :: nat) \<le> 10 ^ j" by simp
    then have "n < 10 * 10 ^ j" using True by linarith
    ultimately show ?thesis by (simp add: dec.simps [of n])
  next
    case False
    show ?thesis
    proof (cases j)
      case 0
      have "0 < length (dec (n div 10))" by (subst dec.simps) simp
      then show ?thesis using False 0 by (subst dec.simps) auto
    next
      case (Suc k)
      have "(n div 10 < 10 ^ j) = (n < 10 ^ Suc j)" by (simp add: less_mult_imp_div_less div_less_iff_less_mult mult.commute)
      then show ?thesis using False Suc.IH [of "n div 10"] Suc by (subst dec.simps) auto
    qed
  qed
qed simp

lemma dec_pos: "0 < length (dec n)" by (subst dec.simps) simp

lemma itoa_loop_eq:
  assumes "length (dec n) \<le> cur + 1" "cur < length buf"
  shows "itoa_loop (int n) (int cur) buf =
    Some (int cur - int (length (dec n)), blit buf (cur + 1 - length (dec n)) (dec n))"
  using assms
proof (induction n arbitrary: cur buf rule: less_induct)
  case (less n)
  have w: "(word_of_int (48 + int n mod 10) :: byte) = word_of_nat (48 + n mod 10)"
    by (metis of_int_of_nat_eq of_nat_add of_nat_numeral zmod_int)
  show ?case
  proof (cases "n < 10")
    case True
    then show ?thesis using less.prems w by (subst itoa_loop.simps) (simp add: dec.simps [of n])
  next
    case False
    have d: "dec n = dec (n div 10) @ [word_of_nat (48 + n mod 10)]" using False by (subst dec.simps) simp
    let ?b = "blit buf cur [word_of_nat (48 + n mod 10)]"
    have L: "length (dec n) = length (dec (n div 10)) + 1" by (simp add: d)
    then have c1: "1 \<le> cur" using less.prems dec_pos [of "n div 10"] by linarith
    have c: "1 \<le> cur" "length (dec (n div 10)) \<le> cur - 1 + 1" "cur - 1 < length ?b"
      using less.prems c1 L by simp_all
    have ih: "itoa_loop (int (n div 10)) (int (cur - 1)) ?b =
        Some (int (cur - 1) - int (length (dec (n div 10))), blit ?b (cur - 1 + 1 - length (dec (n div 10))) (dec (n div 10)))"
      using False by (intro less.IH c) simp
    have "blit ?b (cur - length (dec (n div 10))) (dec (n div 10)) = blit buf (cur - length (dec (n div 10))) (dec n)"
      using less.prems c d by (intro nth_equalityI) (auto simp: nth_blit nth_append)
    moreover have "0 < int n div 10" using False by (simp add: pos_imp_zdiv_pos_iff)
    ultimately show ?thesis using ih False less.prems c w d
      by (subst itoa_loop.simps) (simp add: zdiv_int of_nat_diff)
  qed
qed

lemma calc_digit_loop_eq:
  assumes "0 < j" "j \<le> length (dec n)" "n < 10 ^ 8" "j \<le> 8"
  shows "calc_digit_loop (int n) neg j = length (dec n)"
  using assms
proof (induction "8 - j" arbitrary: j)
  case 0
  then have j: "j = 8" by simp
  then have l: "length (dec n) = 8" using dec_length [of 8 n] 0 by simp
  show ?case using 0 j l by (subst calc_digit_loop.simps) simp
next
  case (Suc k)
  have p: "(10 :: int) ^ j < 1000000000" using power_increasing [of j 8 "10 :: int"] Suc by simp
  have c: "(int n < 10 ^ j) = (length (dec n) \<le> j)"
    using dec_length [OF Suc.prems(1), of n] by (metis of_nat_less_iff of_nat_numeral of_nat_power)
  show ?case
  proof (cases "int n < 10 ^ j")
    case True
    then have "length (dec n) = j" using c Suc.prems by simp
    then show ?thesis using True p by (subst calc_digit_loop.simps) simp
  next
    case False
    then have "j + 1 \<le> length (dec n)" using c by simp
    moreover from this have "j < 8" using dec_length [of 8 n] Suc.prems by simp
    ultimately have "calc_digit_loop (int n) neg (j + 1) = length (dec n)" using Suc by (intro Suc.hyps(1)) auto
    then show ?thesis using False p by (subst calc_digit_loop.simps) simp
  qed
qed

lemma calc_digit_loop_large:
  assumes "10 ^ 8 \<le> n" "j \<le> 9"
  shows "calc_digit_loop (int n) neg j = 10 + neg"
  using assms(2)
proof (induction "9 - j" arbitrary: j)
  case 0
  then show ?case by (subst calc_digit_loop.simps) simp
next
  case (Suc k)
  have p: "(10 :: int) ^ j \<le> 10 ^ 8" using Suc by (intro power_increasing) auto
  moreover have "(10 :: int) ^ 8 \<le> int n" using assms(1) by (metis of_nat_le_iff of_nat_numeral of_nat_power)
  ultimately have "\<not> int n < 10 ^ j" by linarith
  moreover have "(10 :: int) ^ j < 1000000000" using p by simp
  ultimately show ?case using Suc by (subst calc_digit_loop.simps) simp
qed

lemma calc_digit_small: "n < 10 ^ 8 \<Longrightarrow> calc_digit (int n) = length (dec n) \<and> calc_digit (- int n) = length (dec n)"
  using calc_digit_loop_eq [of 1 n] dec_pos [of n] by (auto simp: calc_digit_def Suc_le_eq)

lemma itoa_at:
  assumes "n < 2 ^ 31" "digit = calc_digit (int n)" "length (dec n) \<le> digit" "digit < length buf" "0 < cap"
  shows "itoa (int n) buf cap = Some (length (dec n), blit (blit buf digit [0]) (digit - length (dec n)) (dec n))"
proof -
  have d: "0 < digit" using assms(3) dec_pos [of n] by linarith
  let ?b = "blit buf digit [0]"
  have "itoa_loop (int n) (int (digit - 1)) ?b = Some (int (digit - 1) - int (length (dec n)), blit ?b (digit - 1 + 1 - length (dec n)) (dec n))"
    using assms d by (intro itoa_loop_eq) auto
  then have l: "itoa_loop \<bar>int n\<bar> (int digit - 1) ?b = Some (int digit - 1 - int (length (dec n)), blit ?b (digit - length (dec n)) (dec n))"
    using d by (simp add: of_nat_diff)
  have p: "poke buf digit [0] = Some ?b" using assms(4) by simp
  have k: "nat (int digit - (int digit - 1 - int (length (dec n)) + 1)) = length (dec n)" by simp
  show ?thesis using assms(5) l p k by (simp add: itoa_def assms(2) [symmetric] Let_def)
qed


lemma itoa_nine_digits:
  assumes "10 ^ 8 \<le> n" "n < 10 ^ 9" "10 < length buf" "0 < cap"
  shows "itoa (int n) buf cap = Some (9, blit (blit buf 10 [0]) 1 (dec n))"
proof -
  have "length (dec n) = 9" using dec_length [of 8 n] dec_length [of 9 n] assms by simp
  moreover have "calc_digit (int n) = 10" using calc_digit_loop_large [OF assms(1), of 1] by (simp add: calc_digit_def)
  ultimately show ?thesis using itoa_at [of n 10 buf cap] assms by simp
qed

section \<open>Properties\<close>

text \<open>
  The search finds the first position in the first \<open>bl\<close> bytes of the base at which the
  first \<open>tn\<close> bytes of the target occur, with or without regard to case, and never reads outside
  of the two.
\<close>

theorem strpos_sensitive_first:
  assumes "0 < tn" "tn \<le> bl" "bl \<le> length base" "tn \<le> length target"
  shows "strpos_sensitive base bl target tn cs =
    Some (case List.find (occurs cs (take tn target) base) [0..<bl - tn + 1] of Some i \<Rightarrow> int i | None \<Rightarrow> -1)"
  by (rule strpos_eq [OF assms])

theorem strpos_sensitive_first_witness:
  "strpos_sensitive [120, 65, 98, 67, 121] 5 [97, 66] 2 False = Some 1"
  by (subst strpos_sensitive_first) (simp_all add: occurs_def slice_def lower_def upt_rec)

text \<open>
  \<open>itoa\<close> writes the decimal digits of a number and a terminating 0 to the front of the buffer and
  returns their count, for numbers of up to eight digits and of ten digits.
\<close>

theorem itoa_decimal:
  assumes "n < 10 ^ 8 \<or> 10 ^ 9 \<le> n \<and> n < 2 ^ 31" "length (dec n) < length buf" "0 < cap"
  shows "itoa (int n) buf cap = Some (length (dec n), blit buf 0 (dec n @ [0]))"
proof -
  have c: "calc_digit (int n) = length (dec n)"
  proof (cases "n < 10 ^ 8")
    case True
    then show ?thesis using calc_digit_small by blast
  next
    case False
    then have "10 ^ 8 \<le> n" "10 ^ 9 \<le> n" "n < 10 ^ 10" using assms(1) by auto
    then have "length (dec n) = 10" using dec_length [of 9 n] dec_length [of 10 n] by simp
    moreover have "calc_digit (int n) = 10" using calc_digit_loop_large [of n 1 0] \<open>10 ^ 8 \<le> n\<close> by (simp add: calc_digit_def)
    ultimately show ?thesis by simp
  qed
  have n: "n < 2 ^ 31" using assms(1) by auto
  have "blit (blit buf (length (dec n)) [0]) 0 (dec n) = blit buf 0 (dec n @ [0])"
    using assms(2) by (simp add: blit_def)
  then show ?thesis using itoa_at [OF n c [symmetric] _ assms(2,3)] by simp
qed

theorem itoa_decimal_witness: "itoa 407 [9, 9, 9, 9, 9] 5 = Some (3, [52, 48, 55, 0, 9])"
proof -
  have "dec 407 = [52, 48, 55]" by (simp add: dec.simps)
  then show ?thesis using itoa_decimal [of 407 "[9, 9, 9, 9, 9]" 5] by (simp add: blit_def)
qed

text \<open>
  The sign of a negative number of up to eight digits is lost: its digits fill the space in front
  of the terminator, and the minus is not written.
\<close>

theorem itoa_drops_sign:
  assumes "0 < n" "n < 10 ^ 8" "length (dec n) < length buf" "0 < cap"
  shows "itoa (- int n) buf cap = itoa (int n) buf cap"
proof -
  have c: "calc_digit (int n) = length (dec n)" "calc_digit (- int n) = length (dec n)"
    using calc_digit_small [OF assms(2)] by auto
  let ?b = "blit buf (length (dec n)) [0]"
  have "itoa_loop (int n) (int (length (dec n) - 1)) ?b =
      Some (int (length (dec n) - 1) - int (length (dec n)), blit ?b (length (dec n) - 1 + 1 - length (dec n)) (dec n))"
    using assms dec_pos [of n] by (intro itoa_loop_eq) auto
  then have l: "itoa_loop (int n) (int (length (dec n)) - 1) ?b = Some (-1, blit ?b 0 (dec n))"
    using dec_pos [of n] by (simp add: of_nat_diff Suc_le_eq)
  have p: "poke buf (length (dec n)) [0] = Some ?b" using assms(3) by simp
  show ?thesis using assms(1,2,4) l p by (simp add: itoa_def c Let_def)
qed

theorem itoa_drops_sign_witness: "itoa (-5) [9, 9] 2 = Some (1, [53, 0])"
proof -
  have "dec 5 = [53]" by (simp add: dec.simps)
  moreover have "itoa 5 [9, 9] 2 = Some (1, [53, 0])"
    by (simp add: itoa_def calc_digit_def calc_digit_loop.simps itoa_loop.simps poke_def blit_def)
  ultimately show ?thesis using itoa_drops_sign [of 5 "[9, 9]" 2] by simp
qed

end
