(* ===== verification/EventSerializer.thy ===== *)
theory EventSerializer
  imports CString DiskManager
begin

text \<open>
  Events and their stored form: \<open>src/nostr/nostr_types.h\<close>, \<open>src/nostr/db/record/event_serializer.c\<close>
  and \<open>src/nostr/db/db_tags.c\<close>. The character arrays of an event are byte lists of the size of the
  array; the length of a string is where its first 0 is.
\<close>

section \<open>Data\<close>

abbreviation (input) "NOSTR_EVENT_TAG_LENGTH \<equiv> (2048 :: nat)"
abbreviation (input) "NOSTR_EVENT_TAG_VALUE_COUNT \<equiv> (16 :: nat)"
abbreviation (input) "NOSTR_EVENT_TAG_VALUE_LENGTH \<equiv> (512 :: nat)"
abbreviation (input) "NOSTR_EVENT_CONTENT_LENGTH \<equiv> (1048576 :: nat)"
abbreviation (input) "SIZEOF_EVENT_RECORD \<equiv> (152 :: nat)"

record nostr_tag =
  tag_key :: "byte list"
  tag_values :: "byte list list"
  item_count :: nat

record nostr_event =
  ev_id :: "byte list"
  ev_pubkey :: "byte list"
  ev_kind :: nat
  ev_tag_count :: nat
  ev_created_at :: nat
  ev_tags :: "nostr_tag list"
  ev_content :: "byte list"
  ev_sig :: "byte list"

definition tag_shape :: "nostr_tag \<Rightarrow> bool" where
  "tag_shape t \<longleftrightarrow> length (tag_key t) = 64 \<and> length (tag_values t) = 16 \<and> (\<forall>v \<in> set (tag_values t). length v = 512)"

definition event_shape :: "nostr_event \<Rightarrow> bool" where
  "event_shape e \<longleftrightarrow> length (ev_id e) = 65 \<and> length (ev_pubkey e) = 65 \<and> length (ev_sig e) = 129 \<and>
     length (ev_content e) = NOSTR_EVENT_CONTENT_LENGTH \<and> length (ev_tags e) = NOSTR_EVENT_TAG_LENGTH \<and>
     (\<forall>t \<in> set (ev_tags e). tag_shape t)"

section \<open>Hexadecimal\<close>

definition hex_char_to_val :: "byte \<Rightarrow> int" where
  "hex_char_to_val c =
     (if is_digit c then uint c - 48
      else if is_lower c \<and> c \<le> 102 then uint c - 97 + 10
      else if is_upper c \<and> c \<le> 70 then uint c - 65 + 10
      else -1)"

primrec hex_to_raw_loop :: "byte list \<Rightarrow> nat list \<Rightarrow> byte list \<Rightarrow> (bool \<times> byte list) option" where
  "hex_to_raw_loop hex [] out = Some (True, out)"
| "hex_to_raw_loop hex (i # is) out = do {
     ch \<leftarrow> char_at hex (i * 2);
     cl \<leftarrow> char_at hex (i * 2 + 1);
     let h = hex_char_to_val ch;
     let l = hex_char_to_val cl;
     if h < 0 \<or> l < 0 then Some (False, out)
     else do {
       out \<leftarrow> poke out i [word_of_int (h * 16 + l)];
       hex_to_raw_loop hex is out
     }
   }"

definition hex_to_raw :: "byte list \<Rightarrow> nat \<Rightarrow> byte list \<Rightarrow> nat \<Rightarrow> (bool \<times> byte list) option" where
  "hex_to_raw hex hex_len out out_len =
     (if hex_len \<noteq> out_len * 2 then Some (False, out) else hex_to_raw_loop hex [0..<out_len] out)"

text \<open>The table \<open>hex_chars\<close>.\<close>

definition hex_digit :: "byte \<Rightarrow> byte" where
  "hex_digit v = (if v < 10 then 48 + v else 97 + (v - 10))"

primrec raw_to_hex_loop :: "byte list \<Rightarrow> nat list \<Rightarrow> byte list \<Rightarrow> byte list option" where
  "raw_to_hex_loop bytes [] hex = Some hex"
| "raw_to_hex_loop bytes (i # is) hex = do {
     b \<leftarrow> char_at bytes i;
     hex \<leftarrow> poke hex (i * 2) [hex_digit (and (drop_bit 4 b) 0x0F)];
     hex \<leftarrow> poke hex (i * 2 + 1) [hex_digit (and b 0x0F)];
     raw_to_hex_loop bytes is hex
   }"

definition raw_to_hex :: "byte list \<Rightarrow> nat \<Rightarrow> byte list \<Rightarrow> byte list option" where
  "raw_to_hex bytes len hex = do {
     hex \<leftarrow> raw_to_hex_loop bytes [0..<len] hex;
     poke hex (len * 2) [0]
   }"

section \<open>Tags: db\_tags.c\<close>

text \<open>
  The state of the writer is the position \<open>ptr\<close> and the buffer. The inner option is the early
  return of -1, the outer one an access out of bounds.
\<close>

primrec write_values :: "nostr_tag \<Rightarrow> nat \<Rightarrow> nat list \<Rightarrow> nat \<times> byte list \<Rightarrow> (nat option \<times> byte list) option" where
  "write_values tag fin [] st = Some (Some (fst st), snd st)"
| "write_values tag fin (j # js) st = (let (ptr, buffer) = st in do {
     v \<leftarrow> (if j < length (tag_values tag) then Some (tag_values tag ! j) else None);
     n \<leftarrow> nostr_strlen v;
     let value_len = (if n > 0xFFFF then 0xFFFF else n);
     if \<not> ptr + 2 + value_len \<le> fin then Some (None, buffer)
     else do {
       buffer \<leftarrow> poke buffer ptr (le_bytes 2 value_len);
       bs \<leftarrow> peek v 0 value_len;
       buffer \<leftarrow> poke buffer (ptr + 2) bs;
       write_values tag fin js (ptr + 2 + value_len, buffer)
     }
   })"

definition write_tag :: "nostr_tag \<Rightarrow> nat \<Rightarrow> nat \<times> byte list \<Rightarrow> (nat option \<times> byte list) option" where
  "write_tag tag fin st = (let (ptr, buffer) = st in do {
     let value_count = (if item_count tag > 255 then 255 else item_count tag mod 256);
     n \<leftarrow> nostr_strlen (tag_key tag);
     let name_len = (if n > 255 then 255 else n);
     if \<not> ptr + 2 + name_len \<le> fin then Some (None, buffer)
     else do {
       buffer \<leftarrow> poke buffer ptr [word_of_nat value_count, word_of_nat name_len];
       bs \<leftarrow> peek (tag_key tag) 0 name_len;
       buffer \<leftarrow> poke buffer (ptr + 2) bs;
       write_values tag fin [0..<value_count] (ptr + 2 + name_len, buffer)
     }
   })"

primrec write_tags :: "nostr_tag list \<Rightarrow> nat \<Rightarrow> nat list \<Rightarrow> nat \<times> byte list \<Rightarrow> (nat option \<times> byte list) option" where
  "write_tags tags fin [] st = Some (Some (fst st), snd st)"
| "write_tags tags fin (i # is) st = do {
     tag \<leftarrow> (if i < length tags then Some (tags ! i) else None);
     (r, buffer) \<leftarrow> write_tag tag fin st;
     case r of
       None \<Rightarrow> Some (None, buffer)
     | Some ptr \<Rightarrow> write_tags tags fin is (ptr, buffer)
   }"

definition nostr_db_serialize_tags ::
    "nostr_tag list \<Rightarrow> nat \<Rightarrow> byte list \<Rightarrow> nat \<Rightarrow> (int \<times> byte list) option" where
  "nostr_db_serialize_tags tags tag_count buffer capacity =
     (if \<not> capacity \<ge> 2 then Some (-1, buffer)
      else if \<not> tag_count \<le> 0xFFFF then Some (-1, buffer)
      else do {
        buffer \<leftarrow> poke buffer 0 (le_bytes 2 tag_count);
        (r, buffer) \<leftarrow> write_tags tags capacity [0..<tag_count] (2, buffer);
        Some (case r of Some ptr \<Rightarrow> int ptr | None \<Rightarrow> -1, buffer)
      })"

text \<open>
  The reader: \<open>read_values\<close> returns the tag, and the position behind its values or \<open>None\<close> if the
  buffer ended before.
\<close>

primrec read_values ::
    "byte list \<Rightarrow> nat \<Rightarrow> nat list \<Rightarrow> nat \<Rightarrow> nostr_tag \<Rightarrow> (nostr_tag \<times> nat option) option" where
  "read_values buffer fin [] ptr tag = Some (tag, Some ptr)"
| "read_values buffer fin (j # js) ptr tag =
     (if ptr + 2 > fin then Some (tag\<lparr>item_count := j\<rparr>, None)
      else do {
        lb \<leftarrow> peek buffer ptr 2;
        let value_len = le_val lb;
        if ptr + 2 + value_len > fin then Some (tag\<lparr>item_count := j\<rparr>, None)
        else do {
          let vcopy_len = (if value_len > NOSTR_EVENT_TAG_VALUE_LENGTH - 1 then NOSTR_EVENT_TAG_VALUE_LENGTH - 1 else value_len);
          bs \<leftarrow> peek buffer (ptr + 2) vcopy_len;
          v \<leftarrow> (if j < length (tag_values tag) then Some (tag_values tag ! j) else None);
          v \<leftarrow> poke v 0 bs;
          v \<leftarrow> poke v vcopy_len [0];
          read_values buffer fin js (ptr + 2 + value_len) (tag\<lparr>tag_values := (tag_values tag)[j := v]\<rparr>)
        }
      })"

primrec read_tags ::
    "byte list \<Rightarrow> nat \<Rightarrow> nat \<Rightarrow> nat list \<Rightarrow> nat \<Rightarrow> nostr_tag list \<Rightarrow> (nat \<times> nostr_tag list) option" where
  "read_tags buffer fin tag_count [] ptr tags = Some (tag_count, tags)"
| "read_tags buffer fin tag_count (i # is) ptr tags =
     (if ptr + 2 > fin then Some (i, tags)
      else do {
        vc \<leftarrow> char_at buffer ptr;
        nl \<leftarrow> char_at buffer (ptr + 1);
        let name_len = unat nl;
        if ptr + 2 + name_len > fin then Some (i, tags)
        else do {
          tag \<leftarrow> (if i < length tags then Some (tags ! i) else None);
          let copy_len = (if name_len > 63 then 63 else name_len);
          bs \<leftarrow> peek buffer (ptr + 2) copy_len;
          key \<leftarrow> poke (tag_key tag) 0 bs;
          key \<leftarrow> poke key copy_len [0];
          let value_count = (if unat vc > NOSTR_EVENT_TAG_VALUE_COUNT then NOSTR_EVENT_TAG_VALUE_COUNT else unat vc);
          (tag, r) \<leftarrow> read_values buffer fin [0..<value_count] (ptr + 2 + name_len)
                       (tag\<lparr>tag_key := key, item_count := value_count\<rparr>);
          let tags = tags[i := tag];
          case r of
            None \<Rightarrow> Some (i + 1, tags)
          | Some ptr \<Rightarrow> read_tags buffer fin tag_count is ptr tags
        }
      })"

text \<open>The count is a non-negative \<open>int32_t\<close>; -1 for a buffer shorter than the count.\<close>

definition nostr_db_deserialize_tags ::
    "byte list \<Rightarrow> nat \<Rightarrow> nostr_tag list \<Rightarrow> nat \<Rightarrow> (int \<times> nostr_tag list) option" where
  "nostr_db_deserialize_tags buffer len tags max_tags =
     (if \<not> len \<ge> 2 then Some (-1, tags)
      else do {
        cb \<leftarrow> peek buffer 0 2;
        let tag_count = (if le_val cb > max_tags then max_tags mod 2 ^ 16 else le_val cb);
        (n, tags) \<leftarrow> read_tags buffer len tag_count [0..<tag_count] 2 tags;
        Some (int n, tags)
      })"

section \<open>Events: event\_serializer.c\<close>

text \<open>
  \<open>EventRecord\<close>: id at 0, pubkey at 32, sig at 64, created\_at at 128, kind at 136, flags at 140,
  content\_length at 144, tags\_length at 146; 152 bytes, the last four are padding.
\<close>

definition event_record :: "byte list \<Rightarrow> byte list \<Rightarrow> byte list \<Rightarrow> nat \<Rightarrow> nat \<Rightarrow> nat \<Rightarrow> nat \<Rightarrow> byte list" where
  "event_record rid pubkey sg created_at kind content_length tags_length =
     rid @ pubkey @ sg @ le_bytes 8 created_at @ le_bytes 4 kind @ le_bytes 4 0 @
     le_bytes 2 content_length @ le_bytes 2 tags_length @ replicate 4 0"

text \<open>\<open>tags_buf\<close> is the buffer on the stack, 8192 bytes with the content it happens to have.\<close>

definition event_serialize ::
    "byte list \<Rightarrow> nostr_event \<Rightarrow> byte list \<Rightarrow> nat \<Rightarrow> (int \<times> byte list) option" where
  "event_serialize tags_buf event buffer capacity = do {
     (tags_size, tags_buf) \<leftarrow> nostr_db_serialize_tags (ev_tags event) (ev_tag_count event) tags_buf 8192;
     (tags_size, tags_buf) \<leftarrow>
       (if tags_size < 0 then map_option (\<lambda>b. (2, b)) (poke tags_buf 0 [0, 0]) else Some (tags_size, tags_buf));
     n \<leftarrow> nostr_strlen (ev_content event);
     let content_len = n mod 2 ^ 16;
     let total_size = (SIZEOF_EVENT_RECORD + content_len + nat tags_size mod 2 ^ 16) mod 2 ^ 16;
     if total_size > capacity then Some (-1, buffer)
     else do {
       (ok1, rid) \<leftarrow> hex_to_raw (ev_id event) 64 (replicate 32 0) 32;
       if \<not> ok1 then Some (-1, buffer)
       else do {
         (ok2, pubkey) \<leftarrow> hex_to_raw (ev_pubkey event) 64 (replicate 32 0) 32;
         if \<not> ok2 then Some (-1, buffer)
         else do {
           (ok3, sg) \<leftarrow> hex_to_raw (ev_sig event) 128 (replicate 64 0) 64;
           if \<not> ok3 then Some (-1, buffer)
           else do {
             buffer \<leftarrow> poke buffer 0 (event_record rid pubkey sg (ev_created_at event) (ev_kind event)
                                       content_len (nat tags_size mod 2 ^ 16));
             bs \<leftarrow> peek (ev_content event) 0 content_len;
             buffer \<leftarrow> poke buffer SIZEOF_EVENT_RECORD bs;
             ts \<leftarrow> peek tags_buf 0 (nat tags_size);
             buffer \<leftarrow> poke buffer (SIZEOF_EVENT_RECORD + content_len) ts;
             Some (int total_size, buffer)
           }
         }
       }
     }
   }"

text \<open>The fields that are read before an error are kept in the event.\<close>

definition event_deserialize ::
    "byte list \<Rightarrow> nat \<Rightarrow> nostr_event \<Rightarrow> (nostr_db_error \<times> nostr_event) option" where
  "event_deserialize buffer len event =
     (if \<not> len \<ge> SIZEOF_EVENT_RECORD then Some (NOSTR_DB_ERROR_INVALID_EVENT, event)
      else do {
        hdr \<leftarrow> peek buffer 0 SIZEOF_EVENT_RECORD;
        i \<leftarrow> raw_to_hex (slice hdr 0 32) 32 (ev_id event);
        p \<leftarrow> raw_to_hex (slice hdr 32 32) 32 (ev_pubkey event);
        g \<leftarrow> raw_to_hex (slice hdr 64 64) 64 (ev_sig event);
        let event = event\<lparr>ev_id := i, ev_pubkey := p, ev_sig := g,
                          ev_created_at := get_le 8 128 hdr, ev_kind := get_le 4 136 hdr\<rparr>;
        let content_len = get_le 2 144 hdr;
        if SIZEOF_EVENT_RECORD + content_len > len then Some (NOSTR_DB_ERROR_INVALID_EVENT, event)
        else do {
          let copy_len = (if content_len \<ge> NOSTR_EVENT_CONTENT_LENGTH then NOSTR_EVENT_CONTENT_LENGTH - 1 else content_len);
          bs \<leftarrow> peek buffer SIZEOF_EVENT_RECORD copy_len;
          content \<leftarrow> poke (ev_content event) 0 bs;
          content \<leftarrow> poke content copy_len [0];
          let event = event\<lparr>ev_content := content\<rparr>;
          let tags_len = get_le 2 146 hdr;
          if SIZEOF_EVENT_RECORD + content_len + tags_len > len then Some (NOSTR_DB_ERROR_INVALID_EVENT, event)
          else do {
            (tag_count, tags) \<leftarrow> nostr_db_deserialize_tags (drop (SIZEOF_EVENT_RECORD + content_len) buffer) tags_len
                                   (ev_tags event) NOSTR_EVENT_TAG_LENGTH;
            let event = event\<lparr>ev_tags := tags\<rparr>;
            Some (NOSTR_DB_OK, if tag_count > 0 then event\<lparr>ev_tag_count := nat tag_count\<rparr> else event)
          }
        }
      })"

section \<open>Hexadecimal round trip\<close>

definition is_hex :: "byte \<Rightarrow> bool" where "is_hex c \<longleftrightarrow> hex_char_to_val c \<ge> 0"

lemma word_diff_int: "word_of_int (uint (c :: byte) - n) = c - word_of_int n"
  by simp

lemma hex_char_digit:
  assumes "is_hex c"
  shows "hex_char_to_val c < 16" "hex_digit (word_of_int (hex_char_to_val c)) = lower c" "lower c \<noteq> 0"
proof -
  have le: "e \<le> d \<longleftrightarrow> unat e \<le> unat d" for e d :: byte by (rule word_le_nat_alt)
  have le': "e \<le> d \<longleftrightarrow> uint e \<le> uint d" for e d :: byte by (rule word_le_def)
  consider "is_digit c" | "\<not> is_digit c" "is_lower c" "c \<le> 102" | "\<not> is_digit c" "\<not> (is_lower c \<and> c \<le> 102)" "is_upper c" "c \<le> 70"
    using assms by (cases "is_digit c"; cases "is_lower c \<and> c \<le> 102"; cases "is_upper c \<and> c \<le> 70")
      (auto simp: is_hex_def hex_char_to_val_def)
  then have "hex_char_to_val c < 16 \<and> hex_digit (word_of_int (hex_char_to_val c)) = lower c \<and> lower c \<noteq> 0"
  proof cases
    case 1
    then have ri: "48 \<le> uint c" "uint c \<le> 57" by (simp_all add: is_digit_def le')
    then have r: "48 \<le> unat c" "unat c \<le> 57" unfolding unat_eq_nat_uint by linarith+
    then have "unat (c - 48) = unat c - 48" by (subst unat_sub) (simp_all add: le)
    then have "c - 48 < 10" using r by (simp add: word_less_nat_alt)
    moreover have "c \<noteq> 0" using r by auto
    ultimately show ?thesis using 1 r ri by (simp add: hex_char_to_val_def hex_digit_def lower_def le)
  next
    case 2
    then have ri: "97 \<le> uint c" "uint c \<le> 102" by (simp_all add: is_lower_def le')
    then have r: "97 \<le> unat c" "unat c \<le> 102" unfolding unat_eq_nat_uint by linarith+
    have w: "(word_of_int (uint c - 97 + 10) :: byte) = c - 87" by simp
    have s: "unat (c - 87) = unat c - 87" using r by (subst unat_sub) (simp_all add: le)
    then have "\<not> c - 87 < 10" using r by (simp add: word_less_nat_alt)
    moreover have "c \<noteq> 0" using r by auto
    ultimately show ?thesis using 2 r ri w by (simp add: hex_char_to_val_def hex_digit_def lower_def le)
  next
    case 3
    then have ri: "65 \<le> uint c" "uint c \<le> 70" by (simp_all add: is_upper_def le')
    then have r: "65 \<le> unat c" "unat c \<le> 70" unfolding unat_eq_nat_uint by linarith+
    have nl: "\<not> is_lower c" using r by (simp add: is_lower_def le)
    have w: "(word_of_int (uint c - 65 + 10) :: byte) = c - 55" by simp
    have s: "unat (c - 55) = unat c - 55" using r by (subst unat_sub) (simp_all add: le)
    then have "\<not> c - 55 < 10" using r by (simp add: word_less_nat_alt)
    moreover have "unat (32 + c) = 32 + unat c" using r by (subst unat_add_lem [THEN iffD1]) simp_all
    then have "32 + c \<noteq> 0" using r by auto
    ultimately show ?thesis using 3 r ri w nl by (simp add: hex_char_to_val_def hex_digit_def lower_def le)
  qed
  then show "hex_char_to_val c < 16" "hex_digit (word_of_int (hex_char_to_val c)) = lower c" "lower c \<noteq> 0" by auto
qed

lemma nibbles:
  assumes "0 \<le> h" "h < 16" "0 \<le> l" "l < 16"
  shows "and (drop_bit 4 (word_of_int (h * 16 + l) :: byte)) 0x0F = word_of_int h"
    "and (word_of_int (h * 16 + l) :: byte) 0x0F = word_of_int l"
proof -
  have m: "and w 0x0F = take_bit 4 w" for w :: byte by (simp add: take_bit_eq_mask mask_eq_exp_minus_1)
  define b where "b = (word_of_int (h * 16 + l) :: byte)"
  have x: "0 \<le> h * 16 + l" "h * 16 + l < 256" using assms by simp_all
  have uw: "uint (word_of_int x :: byte) = x" if "0 \<le> x" "x < 256" for x
    using that by (simp add: unsigned_of_int take_bit_int_eq_self)
  have u: "uint b = h * 16 + l" unfolding b_def by (rule uw [OF x])
  have "uint (and (drop_bit 4 b) 0x0F) = take_bit 4 (drop_bit 4 (uint b))"
    unfolding m using x by (simp only: unsigned_take_bit_eq unsigned_drop_bit_eq) (simp add: u take_bit_int_eq_self)
  then have "uint (and (drop_bit 4 b) 0x0F) = h" using assms by (simp add: u take_bit_eq_mod drop_bit_eq_div)
  moreover have "uint (and b 0x0F) = take_bit 4 (uint b)" unfolding m by (simp only: unsigned_take_bit_eq)
  then have "uint (and b 0x0F) = l" using assms by (simp add: u take_bit_eq_mod)
  ultimately show "and (drop_bit 4 (word_of_int (h * 16 + l) :: byte)) 0x0F = word_of_int h"
    "and (word_of_int (h * 16 + l) :: byte) 0x0F = word_of_int l"
    unfolding b_def [symmetric] by (metis word_of_int_uint)+
qed

definition raw_byte :: "byte list \<Rightarrow> nat \<Rightarrow> byte" where
  "raw_byte hex i = word_of_int (hex_char_to_val (hex ! (i * 2)) * 16 + hex_char_to_val (hex ! (i * 2 + 1)))"

lemma hex_to_raw_loop_total:
  assumes "\<forall>i \<in> set is. i * 2 + 1 < length hex \<and> i < length out"
  shows "\<exists>ok out'. hex_to_raw_loop hex is out = Some (ok, out') \<and> length out' = length out"
  using assms
proof (induction "is" arbitrary: out)
  case (Cons i "is")
  have "\<exists>ok out'. hex_to_raw_loop hex is (blit out i [x]) = Some (ok, out') \<and> length out' = length out" for x
    using Cons.IH [of "blit out i [x]"] Cons.prems by simp
  then show ?case using Cons.prems by (auto simp: Let_def)
qed auto

lemma hex_to_raw_loop_ok:
  assumes "k \<le> n" "n * 2 \<le> length hex" "n \<le> length out" "\<forall>i < n * 2. is_hex (hex ! i)"
  shows "hex_to_raw_loop hex [k..<n] out = Some (True, blit out k (map (raw_byte hex) [k..<n]))"
  using assms
proof (induction "n - k" arbitrary: k out)
  case 0
  then show ?case by simp
next
  case (Suc m)
  then have k: "k < n" by simp
  have u: "[k..<n] = k # [Suc k..<n]" using k by (simp add: upt_conv_Cons)
  have v: "0 \<le> hex_char_to_val (hex ! (k * 2))" "0 \<le> hex_char_to_val (hex ! Suc (k * 2))"
    using Suc.prems(4) k by (auto simp: is_hex_def)
  have ih: "hex_to_raw_loop hex [Suc k..<n] (blit out k [raw_byte hex k]) =
      Some (True, blit (blit out k [raw_byte hex k]) (Suc k) (map (raw_byte hex) [Suc k..<n]))"
    using Suc.hyps(2) Suc.prems k by (intro Suc.hyps(1)) auto
  have "blit (blit out k [raw_byte hex k]) (Suc k) (map (raw_byte hex) [Suc k..<n]) = blit out k (map (raw_byte hex) [k..<n])"
    using blit_blit_next [of k "[raw_byte hex k]" "map (raw_byte hex) [Suc k..<n]" out] Suc.prems k u by simp
  then show ?case using ih v Suc.prems k by (simp add: u raw_byte_def)
qed

lemma raw_to_hex_loop_ok:
  assumes "k \<le> n" "n \<le> length bytes" "n * 2 \<le> length hex"
  shows "raw_to_hex_loop bytes [k..<n] hex =
    Some (blit hex (k * 2) (concat (map (\<lambda>i. [hex_digit (and (drop_bit 4 (bytes ! i)) 0x0F), hex_digit (and (bytes ! i) 0x0F)]) [k..<n])))"
  using assms
proof (induction "n - k" arbitrary: k hex)
  case 0
  then show ?case by simp
next
  case (Suc m)
  then have k: "k < n" by simp
  have u: "[k..<n] = k # [Suc k..<n]" using k by (simp add: upt_conv_Cons)
  let ?h = "\<lambda>i. [hex_digit (and (drop_bit 4 (bytes ! i)) 0x0F), hex_digit (and (bytes ! i) 0x0F)]"
  let ?hex = "blit hex (k * 2) (?h k)"
  have two: "blit (blit hex (k * 2) [a]) (k * 2 + 1) [b] = blit hex (k * 2) [a, b]" for a b
    using blit_blit_next [of "k * 2" "[a]" "[b]" hex] k Suc.prems by simp
  have len: "length (concat (map ?h xs)) = 2 * length xs" for xs by (induction xs) auto
  have ih: "raw_to_hex_loop bytes [Suc k..<n] ?hex = Some (blit ?hex (Suc k * 2) (concat (map ?h [Suc k..<n])))"
    using Suc.hyps(2) Suc.prems k by (intro Suc.hyps(1)) auto
  have "blit ?hex (Suc k * 2) (concat (map ?h [Suc k..<n])) = blit hex (k * 2) (concat (map ?h [k..<n]))"
    using blit_blit_next [of "k * 2" "?h k" "concat (map ?h [Suc k..<n])" hex] Suc.prems k len [of "[Suc k..<n]"]
    by (simp add: u)
  then show ?case using ih Suc.prems k two by (simp add: u)
qed

lemma concat_pairs: "concat (map (\<lambda>i. [f (i * 2), f (i * 2 + 1)]) [0..<n]) = map f [0..<n * 2]"
  by (induction n) auto

lemma raw_to_hex_total:
  assumes "n \<le> length bytes" "n * 2 < length hex"
  shows "\<exists>hex'. raw_to_hex bytes n hex = Some hex' \<and> length hex' = length hex"
proof -
  let ?c = "concat (map (\<lambda>i. [hex_digit (and (drop_bit 4 (bytes ! i)) 0x0F), hex_digit (and (bytes ! i) 0x0F)]) [0..<n])"
  have "length (concat (map (\<lambda>i. [hex_digit (and (drop_bit 4 (bytes ! i)) 0x0F), hex_digit (and (bytes ! i) 0x0F)]) xs)) = 2 * length xs" for xs
    by (induction xs) auto
  then have "length ?c = 2 * n" by simp
  then show ?thesis using raw_to_hex_loop_ok [of 0 n bytes hex] assms by (simp add: raw_to_hex_def)
qed

lemma hex_roundtrip:
  assumes "n * 2 \<le> length hex" "\<forall>i < n * 2. is_hex (hex ! i)" "n * 2 < length hex'"
  shows "hex_to_raw hex (n * 2) (replicate n 0) n = Some (True, map (raw_byte hex) [0..<n])"
    "raw_to_hex (map (raw_byte hex) [0..<n]) n hex' = Some (blit hex' 0 (map lower (take (n * 2) hex) @ [0]))"
proof -
  show "hex_to_raw hex (n * 2) (replicate n 0) n = Some (True, map (raw_byte hex) [0..<n])"
    using hex_to_raw_loop_ok [of 0 n hex "replicate n 0"] assms by (simp add: hex_to_raw_def blit_0_full)
  have r: "hex_digit (and (drop_bit 4 (map (raw_byte hex) [0..<n] ! i)) 0x0F) = lower (hex ! (i * 2))"
    "hex_digit (and (map (raw_byte hex) [0..<n] ! i) 0x0F) = lower (hex ! (i * 2 + 1))" if "i < n" for i
  proof -
    have h: "is_hex (hex ! (i * 2))" "is_hex (hex ! (i * 2 + 1))" using assms(2) that by auto
    have "0 \<le> hex_char_to_val (hex ! (i * 2))" "0 \<le> hex_char_to_val (hex ! (i * 2 + 1))"
      using h by (simp_all add: is_hex_def)
    note nb = nibbles [OF this(1) hex_char_digit(1) [OF h(1)] this(2) hex_char_digit(1) [OF h(2)]]
    show "hex_digit (and (drop_bit 4 (map (raw_byte hex) [0..<n] ! i)) 0x0F) = lower (hex ! (i * 2))"
      "hex_digit (and (map (raw_byte hex) [0..<n] ! i) 0x0F) = lower (hex ! (i * 2 + 1))"
      using that nb hex_char_digit(2) [OF h(1)] hex_char_digit(2) [OF h(2)] by (simp_all add: raw_byte_def)
  qed
  have "map (\<lambda>i. [hex_digit (and (drop_bit 4 (map (raw_byte hex) [0..<n] ! i)) 0x0F), hex_digit (and (map (raw_byte hex) [0..<n] ! i) 0x0F)]) [0..<n]
      = map (\<lambda>i. [lower (hex ! (i * 2)), lower (hex ! (i * 2 + 1))]) [0..<n]"
    using r by (intro map_cong) auto
  note me = this
  have c: "concat (map (\<lambda>i. [hex_digit (and (drop_bit 4 (map (raw_byte hex) [0..<n] ! i)) 0x0F), hex_digit (and (map (raw_byte hex) [0..<n] ! i) 0x0F)]) [0..<n])
      = map (\<lambda>i. lower (hex ! i)) [0..<n * 2]"
    unfolding me by (rule concat_pairs [of "\<lambda>i. lower (hex ! i)" n])
  have t: "map (\<lambda>i. lower (hex ! i)) [0..<n * 2] = map lower (take (n * 2) hex)"
    using assms(1) by (intro nth_equalityI) auto
  have "raw_to_hex_loop (map (raw_byte hex) [0..<n]) [0..<n] hex' = Some (blit hex' 0 (map lower (take (n * 2) hex)))"
    using raw_to_hex_loop_ok [of 0 n "map (raw_byte hex) [0..<n]" hex'] assms(3) unfolding c t by simp
  then show "raw_to_hex (map (raw_byte hex) [0..<n]) n hex' = Some (blit hex' 0 (map lower (take (n * 2) hex) @ [0]))"
    using blit_blit_next [of 0 "map lower (take (n * 2) hex)" "[0]" hex'] assms by (simp add: raw_to_hex_def)
qed

section \<open>The format of the tags\<close>

text \<open>A tag as its name and its values, and its encoding.\<close>

definition tag_view :: "nostr_tag \<Rightarrow> byte list \<times> byte list list" where
  "tag_view t = (cstr (tag_key t), map cstr (take (item_count t) (tag_values t)))"

definition enc_value :: "byte list \<Rightarrow> byte list" where
  "enc_value v = le_bytes 2 (length v) @ v"

definition enc_tag :: "byte list \<times> byte list list \<Rightarrow> byte list" where
  "enc_tag = (\<lambda>(k, vs). [word_of_nat (length vs), word_of_nat (length k)] @ k @ concat (map enc_value vs))"

definition enc_tags :: "(byte list \<times> byte list list) list \<Rightarrow> byte list" where
  "enc_tags ts = le_bytes 2 (length ts) @ concat (map enc_tag ts)"

definition str_in :: "nat \<Rightarrow> byte list \<Rightarrow> bool" where
  "str_in n s \<longleftrightarrow> 0 \<in> set s \<and> length s = n"

definition tag_ok :: "nostr_tag \<Rightarrow> bool" where
  "tag_ok t \<longleftrightarrow> tag_shape t \<and> 0 \<in> set (tag_key t) \<and> item_count t \<le> 16 \<and>
     (\<forall>v \<in> set (take (item_count t) (tag_values t)). 0 \<in> set v)"

lemma cstr_peek: "peek s 0 (length (cstr s)) = Some (cstr s)"
  using length_takeWhile_le [of "\<lambda>c. c \<noteq> 0" s] cstr_take [of s] by (simp add: cstr_def peek_def slice_def)

lemma write_values_ok:
  assumes "\<forall>j \<in> set js. j < length (tag_values tag) \<and> 0 \<in> set (tag_values tag ! j) \<and> length (tag_values tag ! j) \<le> 512"
    and "fin \<le> length buffer"
  shows "\<exists>b. length b = length buffer \<and> write_values tag fin js (ptr, buffer) =
    (let e = concat (map (\<lambda>j. enc_value (cstr (tag_values tag ! j))) js)
     in if ptr + length e \<le> fin \<or> js = [] then Some (Some (ptr + length e), if js = [] then buffer else blit buffer ptr e) else Some (None, b))"
  using assms
proof (induction js arbitrary: ptr buffer)
  case Nil
  then show ?case by auto
next
  case (Cons j js)
  let ?v = "tag_values tag ! j"
  let ?n = "length (cstr ?v)"
  let ?e = "concat (map (\<lambda>j. enc_value (cstr (tag_values tag ! j))) js)"
  have v: "j < length (tag_values tag)" "0 \<in> set ?v" "length ?v \<le> 512" using Cons.prems by auto
  have n: "?n < 512" using cstr_length [OF v(2)] v(3) by simp
  have ev: "length (enc_value (cstr ?v)) = 2 + ?n" by (simp add: enc_value_def)
  show ?case
  proof (cases "ptr + 2 + ?n \<le> fin")
    case False
    then have "write_values tag fin (j # js) (ptr, buffer) = Some (None, buffer)"
      using v n by (simp add: nostr_strlen_eq)
    then show ?thesis using False ev by (auto simp: Let_def)
  next
    case True
    let ?b = "blit buffer ptr (enc_value (cstr ?v))"
    have b: "blit (blit buffer ptr (le_bytes 2 ?n)) (ptr + 2) (cstr ?v) = ?b"
      using blit_blit_next [of ptr "le_bytes 2 ?n" "cstr ?v" buffer] True Cons.prems(2) by (simp add: enc_value_def)
    have s: "write_values tag fin (j # js) (ptr, buffer) = write_values tag fin js (ptr + 2 + ?n, ?b)"
      using v n True Cons.prems(2) cstr_peek [of ?v] b by (simp add: nostr_strlen_eq)
    have lb: "length ?b = length buffer" using True Cons.prems(2) ev by simp
    obtain b' where ih: "length b' = length ?b" "write_values tag fin js (ptr + 2 + ?n, ?b) =
        (let e = ?e in if ptr + 2 + ?n + length e \<le> fin \<or> js = []
         then Some (Some (ptr + 2 + ?n + length e), if js = [] then ?b else blit ?b (ptr + 2 + ?n) e) else Some (None, b'))"
      using Cons.IH [of ?b "ptr + 2 + ?n"] Cons.prems lb by auto
    have bb: "blit ?b (ptr + 2 + ?n) ?e = blit buffer ptr (enc_value (cstr ?v) @ ?e)" if "ptr + 2 + ?n + length ?e \<le> fin"
      using blit_blit_next [of ptr "enc_value (cstr ?v)" ?e buffer] that Cons.prems(2) ev by (simp add: add.assoc)
    show ?thesis using s ih lb bb True ev by (intro exI [of _ b']) (auto simp: Let_def)
  qed
qed

lemma concat_values: "n \<le> length vs \<Longrightarrow> map (\<lambda>j. f (vs ! j)) [0..<n] = map f (take n vs)"
  by (intro nth_equalityI) auto

lemma write_tag_ok:
  assumes "tag_ok tag" "fin \<le> length buffer"
  shows "\<exists>b. length b = length buffer \<and> write_tag tag fin (ptr, buffer) =
    (let e = enc_tag (tag_view tag)
     in if ptr + length e \<le> fin then Some (Some (ptr + length e), blit buffer ptr e) else Some (None, b))"
proof -
  let ?k = "cstr (tag_key tag)" and ?ic = "item_count tag"
  have t: "tag_shape tag" "0 \<in> set (tag_key tag)" "?ic \<le> 16" using assms(1) by (simp_all add: tag_ok_def)
  have n: "length ?k < 64" using cstr_length [OF t(2)] t(1) by (simp add: tag_shape_def)
  let ?e = "concat (map (\<lambda>j. enc_value (cstr (tag_values tag ! j))) [0..<?ic])"
  let ?h = "[word_of_nat ?ic, word_of_nat (length ?k)] @ ?k"
  have vs: "?e = concat (map enc_value (map cstr (take ?ic (tag_values tag))))"
    using t by (subst concat_values) (auto simp: tag_shape_def comp_def)
  have lic: "length (take ?ic (tag_values tag)) = ?ic" using t by (simp add: tag_shape_def)
  have e: "enc_tag (tag_view tag) = ?h @ ?e"
    using lic by (simp add: enc_tag_def tag_view_def vs)
  show ?thesis
  proof (cases "ptr + 2 + length ?k \<le> fin")
    case False
    then have "write_tag tag fin (ptr, buffer) = Some (None, buffer)"
      using t n by (simp add: write_tag_def nostr_strlen_eq Let_def)
    then show ?thesis using False e by (auto simp: Let_def)
  next
    case True
    let ?b = "blit buffer ptr ?h"
    have b: "blit (blit buffer ptr [word_of_nat ?ic, word_of_nat (length ?k)]) (ptr + 2) ?k = ?b"
      using blit_blit_next [of ptr "[word_of_nat ?ic, word_of_nat (length ?k)]" ?k buffer] True assms(2) by simp
    have s: "write_tag tag fin (ptr, buffer) = write_values tag fin [0..<?ic] (ptr + 2 + length ?k, ?b)"
      using t n True assms(2) cstr_peek [of "tag_key tag"] b by (simp add: write_tag_def nostr_strlen_eq Let_def)
    have lb: "length ?b = length buffer" using True assms(2) by simp
    have ve: "\<forall>j \<in> set [0..<?ic]. j < length (tag_values tag) \<and> 0 \<in> set (tag_values tag ! j) \<and> length (tag_values tag ! j) \<le> 512"
    proof
      fix j assume "j \<in> set [0..<?ic]"
      then have j: "j < ?ic" "j < length (tag_values tag)" using t by (simp_all add: tag_shape_def)
      then have "tag_values tag ! j \<in> set (take ?ic (tag_values tag))" using lic by (metis in_set_conv_nth nth_take)
      then show "j < length (tag_values tag) \<and> 0 \<in> set (tag_values tag ! j) \<and> length (tag_values tag ! j) \<le> 512"
        using j assms(1) t(1) by (auto simp: tag_ok_def tag_shape_def)
    qed
    obtain b' where ih: "length b' = length ?b" "write_values tag fin [0..<?ic] (ptr + 2 + length ?k, ?b) =
        (let e = ?e in if ptr + 2 + length ?k + length e \<le> fin \<or> [0..<?ic] = []
         then Some (Some (ptr + 2 + length ?k + length e), if [0..<?ic] = [] then ?b else blit ?b (ptr + 2 + length ?k) e)
         else Some (None, b'))"
      using write_values_ok [OF ve, of fin ?b "ptr + 2 + length ?k"] assms(2) lb by metis
    have bb: "blit ?b (ptr + 2 + length ?k) ?e = blit buffer ptr (?h @ ?e)" if "ptr + 2 + length ?k + length ?e \<le> fin"
      using blit_blit_next [of ptr ?h ?e buffer] that assms(2) by (simp add: add.assoc)
    have z: "[0..<?ic] = [] \<Longrightarrow> ?e = []" by simp
    show ?thesis
      using s ih lb bb True z unfolding e Let_def by (intro exI [of _ b']) (auto simp del: upt_eq_Nil_conv)
  qed
qed

lemma write_tags_ok:
  assumes "\<forall>i \<in> set is. i < length tags \<and> tag_ok (tags ! i)" "fin \<le> length buffer" "ptr \<le> fin"
  shows "\<exists>b. length b = length buffer \<and> write_tags tags fin is (ptr, buffer) =
    (let e = concat (map (\<lambda>i. enc_tag (tag_view (tags ! i))) is)
     in if ptr + length e \<le> fin then Some (Some (ptr + length e), blit buffer ptr e) else Some (None, b))"
  using assms
proof (induction "is" arbitrary: ptr buffer)
  case Nil
  then show ?case by auto
next
  case (Cons i "is")
  let ?t = "enc_tag (tag_view (tags ! i))"
  let ?e = "concat (map (\<lambda>i. enc_tag (tag_view (tags ! i))) is)"
  have i: "i < length tags" "tag_ok (tags ! i)" using Cons.prems by auto
  obtain b where w: "length b = length buffer" "write_tag (tags ! i) fin (ptr, buffer) =
      (let e = ?t in if ptr + length e \<le> fin then Some (Some (ptr + length e), blit buffer ptr e) else Some (None, b))"
    using write_tag_ok [OF i(2) Cons.prems(2)] by blast
  show ?case
  proof (cases "ptr + length ?t \<le> fin")
    case False
    then have "write_tags tags fin (i # is) (ptr, buffer) = Some (None, b)" using w(2) i by (simp add: Let_def)
    then show ?thesis using False w(1) by (auto simp: Let_def)
  next
    case True
    let ?b = "blit buffer ptr ?t"
    have s: "write_tags tags fin (i # is) (ptr, buffer) = write_tags tags fin is (ptr + length ?t, ?b)"
      using True w(2) i by (simp add: Let_def)
    have lb: "length ?b = length buffer" using True Cons.prems(2) by simp
    obtain b' where ih: "length b' = length ?b" "write_tags tags fin is (ptr + length ?t, ?b) =
        (let e = ?e in if ptr + length ?t + length e \<le> fin then Some (Some (ptr + length ?t + length e), blit ?b (ptr + length ?t) e)
         else Some (None, b'))"
      using Cons.IH [of ?b "ptr + length ?t"] Cons.prems lb True by auto
    have bb: "blit ?b (ptr + length ?t) ?e = blit buffer ptr (?t @ ?e)" if "ptr + length ?t + length ?e \<le> fin"
      using blit_blit_next [of ptr ?t ?e buffer] that Cons.prems(2) by simp
    show ?thesis using s ih lb bb by (intro exI [of _ b']) (auto simp: Let_def add.assoc)
  qed
qed

lemma serialize_tags_ok:
  assumes "n \<le> length tags" "n \<le> 2048" "\<forall>t \<in> set (take n tags). tag_ok t" "capacity \<le> length buffer" "2 \<le> capacity"
  shows "\<exists>b. length b = length buffer \<and> nostr_db_serialize_tags tags n buffer capacity =
    (let e = enc_tags (map tag_view (take n tags))
     in if length e \<le> capacity then Some (int (length e), blit buffer 0 e) else Some (-1, b))"
proof -
  let ?e = "concat (map (\<lambda>i. enc_tag (tag_view (tags ! i))) [0..<n])"
  let ?b = "blit buffer 0 (le_bytes 2 n)"
  have i: "\<forall>i \<in> set [0..<n]. i < length tags \<and> tag_ok (tags ! i)"
    using assms(1,3) by (auto simp: nth_image [OF assms(1), symmetric])
  have lb: "length ?b = length buffer" using assms by simp
  obtain b where w: "length b = length ?b" "write_tags tags capacity [0..<n] (2, ?b) =
      (let e = ?e in if 2 + length e \<le> capacity then Some (Some (2 + length e), blit ?b 2 e) else Some (None, b))"
    using write_tags_ok [OF i, of capacity ?b 2] assms lb by auto
  have e: "enc_tags (map tag_view (take n tags)) = le_bytes 2 n @ ?e"
    using concat_values [OF assms(1), of "\<lambda>t. enc_tag (tag_view t)"] assms(1) by (simp add: enc_tags_def comp_def min_def)
  have bb: "blit ?b 2 ?e = blit buffer 0 (le_bytes 2 n @ ?e)" if "2 + length ?e \<le> capacity"
    using blit_blit_next [of 0 "le_bytes 2 n" ?e buffer] that assms(4) by (simp add: numeral_2_eq_2)
  show ?thesis
    using w lb bb assms(2,4,5) unfolding e
    by (intro exI [of _ b]) (simp add: nostr_db_serialize_tags_def Let_def)
qed

section \<open>Reading the tags back\<close>

definition view_ok :: "byte list \<times> byte list list \<Rightarrow> bool" where
  "view_ok = (\<lambda>(k, vs). 0 \<notin> set k \<and> length k < 64 \<and> length vs \<le> 16 \<and> (\<forall>v \<in> set vs. 0 \<notin> set v \<and> length v < 512))"

lemma tag_view_ok:
  assumes "tag_ok t"
  shows "view_ok (tag_view t)"
proof -
  have k: "length (cstr (tag_key t)) < 64" using cstr_length [of "tag_key t"] assms by (simp add: tag_ok_def tag_shape_def)
  have v: "length (cstr v) < 512" if "v \<in> set (take (item_count t) (tag_values t))" for v
    using that cstr_length [of v] assms in_set_takeD [OF that] by (auto simp: tag_ok_def tag_shape_def)
  show ?thesis using k v assms cstr_no_0 by (auto simp: view_ok_def tag_view_def tag_ok_def)
qed

lemma slice_append:
  assumes "slice p off (length (a @ b)) = a @ b"
  shows "slice p off (length a) = a" "slice p (off + length a) (length b) = b" "off + length (a @ b) \<le> length p \<or> a @ b = []"
proof -
  have "take (length a) (slice p off (length (a @ b))) = a" unfolding assms by simp
  then show "slice p off (length a) = a" by (simp add: slice_def)
  have "drop (length a) (slice p off (length (a @ b))) = b" unfolding assms by simp
  then show "slice p (off + length a) (length b) = b" by (simp add: slice_def drop_take add.commute)
  have "length (slice p off (length (a @ b))) = length (a @ b)" unfolding assms by simp
  then show "off + length (a @ b) \<le> length p \<or> a @ b = []" by (cases "off \<le> length p") (auto simp: min_def split: if_splits)
qed

lemma cstr_write:
  assumes "0 \<notin> set s" "length s < length v"
  shows "cstr (blit (blit v 0 s) (length s) [0]) = s" "length (blit (blit v 0 s) (length s) [0]) = length v"
    "0 \<in> set (blit (blit v 0 s) (length s) [0])"
proof -
  have "blit (blit v 0 s) (length s) [0] = s @ 0 # drop (length s + 1) v" using assms by (simp add: blit_def)
  then show "cstr (blit (blit v 0 s) (length s) [0]) = s" "0 \<in> set (blit (blit v 0 s) (length s) [0])"
    using cstr_append [OF assms(1)] by simp_all
  show "length (blit (blit v 0 s) (length s) [0]) = length v" using assms by simp
qed

lemma read_values_ok:
  assumes "slice buffer ptr (length e) = e" "e = concat (map enc_value vs)" "ptr + length e \<le> fin" "fin \<le> length buffer"
    and "j + length vs \<le> 16" "tag_shape tag" "\<forall>v \<in> set vs. 0 \<notin> set v \<and> length v < 512"
  shows "\<exists>vals. read_values buffer fin [j..<j + length vs] ptr tag = Some (tag\<lparr>tag_values := vals\<rparr>, Some (ptr + length e)) \<and>
    tag_shape (tag\<lparr>tag_values := vals\<rparr>) \<and> (\<forall>i < j. vals ! i = tag_values tag ! i) \<and>
    (\<forall>i < length vs. cstr (vals ! (j + i)) = vs ! i \<and> 0 \<in> set (vals ! (j + i)))"
  using assms
proof (induction vs arbitrary: j ptr tag e)
  case Nil
  then show ?case by (intro exI [of _ "tag_values tag"]) simp
next
  case (Cons v vs)
  let ?e = "concat (map enc_value vs)"
  have e: "e = enc_value v @ ?e" using Cons.prems(2) by simp
  have v: "0 \<notin> set v" "length v < 512" using Cons.prems(7) by auto
  have sl: "slice buffer ptr (length (enc_value v @ ?e)) = enc_value v @ ?e" using Cons.prems(1) by (simp add: e)
  note s1 = slice_append [OF sl]
  have se: "slice buffer ptr (length (le_bytes 2 (length v) @ v)) = le_bytes 2 (length v) @ v"
    using s1(1) by (simp add: enc_value_def)
  note s2 = slice_append [OF se]
  have le: "length (enc_value v) = 2 + length v" by (simp add: enc_value_def)
  have sz: "ptr + 2 + length v + length ?e \<le> fin" using Cons.prems(3) le by (simp add: e)
  have pk: "peek buffer ptr 2 = Some (le_bytes 2 (length v))" "peek buffer (ptr + 2) (length v) = Some v"
    using s2(1,2) sz Cons.prems(4) by simp_all
  have lv: "le_val (le_bytes 2 (length v)) = length v" using v by (simp add: le_val_le_bytes)
  have j: "j < length (tag_values tag)" "length (tag_values tag ! j) = 512"
    using Cons.prems(5,6) by (simp_all add: tag_shape_def)
  let ?v = "blit (blit (tag_values tag ! j) 0 v) (length v) [0]"
  have cv: "cstr ?v = v" "length ?v = 512" "0 \<in> set ?v" using cstr_write [of v "tag_values tag ! j"] v j by simp_all
  let ?tag = "tag\<lparr>tag_values := (tag_values tag)[j := ?v]\<rparr>"
  have pv: "poke (tag_values tag ! j) 0 v = Some (blit (tag_values tag ! j) 0 v)"
    "poke (blit (tag_values tag ! j) 0 v) (length v) [0] = Some ?v"
    using v j by simp_all
  have u: "[j..<j + length (v # vs)] = j # [Suc j..<Suc j + length vs]"
    using upt_conv_Cons [of j "j + length (v # vs)"] by simp
  have step: "read_values buffer fin [j..<j + length (v # vs)] ptr tag =
      read_values buffer fin [Suc j..<Suc j + length vs] (ptr + 2 + length v) ?tag"
    unfolding u using sz v pk lv pv j by (simp add: Let_def)
  have sh: "tag_shape ?tag" using Cons.prems(6) cv(2) by (auto simp: tag_shape_def dest!: set_update_subset_insert [THEN subsetD])
  have sl': "slice buffer (ptr + 2 + length v) (length ?e) = ?e" using s1(2) le by (simp add: add.assoc)
  obtain vals where ih: "read_values buffer fin [Suc j..<Suc j + length vs] (ptr + 2 + length v) ?tag =
      Some (?tag\<lparr>tag_values := vals\<rparr>, Some (ptr + 2 + length v + length ?e))"
    "tag_shape (?tag\<lparr>tag_values := vals\<rparr>)" "\<forall>i < Suc j. vals ! i = tag_values ?tag ! i"
    "\<forall>i < length vs. cstr (vals ! (Suc j + i)) = vs ! i \<and> 0 \<in> set (vals ! (Suc j + i))"
    using Cons.IH [OF sl' refl, of "Suc j" ?tag] sz Cons.prems(4,5,7) sh by auto
  have vj: "vals ! j = ?v" using ih(3) j by simp
  have "cstr (vals ! (j + i)) = (v # vs) ! i \<and> 0 \<in> set (vals ! (j + i))" if "i < length (v # vs)" for i
    using that ih(4) vj cv by (cases i) auto
  moreover have "\<forall>i < j. vals ! i = tag_values tag ! i" using ih(3) by simp
  moreover have "?tag\<lparr>tag_values := vals\<rparr> = tag\<lparr>tag_values := vals\<rparr>" by simp
  moreover have "ptr + length e = ptr + 2 + length v + length ?e" by (simp add: e le)
  ultimately show ?case using ih(1,2) step by (intro exI [of _ vals]) simp
qed

lemma read_tags_ok:
  assumes "slice buffer ptr (length e) = e" "e = concat (map enc_tag ws)" "ptr + length e \<le> fin" "fin \<le> length buffer"
    and "i + length ws \<le> length tags" "\<forall>t \<in> set tags. tag_shape t" "\<forall>w \<in> set ws. view_ok w"
  shows "\<exists>tags'. read_tags buffer fin n [i..<i + length ws] ptr tags = Some (n, tags') \<and> length tags' = length tags \<and>
    (\<forall>t \<in> set tags'. tag_shape t) \<and> (\<forall>k < i. tags' ! k = tags ! k) \<and>
    (\<forall>k < length ws. tag_view (tags' ! (i + k)) = ws ! k)"
  using assms
proof (induction ws arbitrary: i ptr tags e)
  case Nil
  then show ?case by simp
next
  case (Cons w ws)
  obtain nm vs where w: "w = (nm, vs)" by fastforce
  let ?r = "concat (map enc_tag ws)" and ?ve = "concat (map enc_value vs)"
  let ?h = "[word_of_nat (length vs), word_of_nat (length nm)] :: byte list"
  have vo: "0 \<notin> set nm" "length nm < 64" "length vs \<le> 16" "\<forall>v \<in> set vs. 0 \<notin> set v \<and> length v < 512"
    using Cons.prems(7) by (auto simp: w view_ok_def)
  have e: "e = (?h @ nm @ ?ve) @ ?r" using Cons.prems(2) by (simp add: w enc_tag_def)
  have sl: "slice buffer ptr (length ((?h @ nm @ ?ve) @ ?r)) = (?h @ nm @ ?ve) @ ?r" using Cons.prems(1) by (simp only: e)
  note s1 = slice_append [OF sl]
  note s2 = slice_append [OF s1(1)]
  note s3 = slice_append [OF s2(2)]
  have sz: "ptr + 2 + length nm + length ?ve + length ?r \<le> fin" using Cons.prems(3) by (simp add: e)
  have hd: "char_at buffer ptr = Some (word_of_nat (length vs))" "char_at buffer (ptr + 1) = Some (word_of_nat (length nm))"
  proof -
    have p: "ptr + 1 < length buffer" using sz Cons.prems(4) by simp
    have s: "slice buffer ptr 2 = ?h" using s2(1) by (simp add: numeral_2_eq_2)
    have "buffer ! ptr = ?h ! 0" "buffer ! (ptr + 1) = ?h ! 1"
      using nth_slice [of 0 2 ptr buffer] nth_slice [of 1 2 ptr buffer] p s by simp_all
    then show "char_at buffer ptr = Some (word_of_nat (length vs))" "char_at buffer (ptr + 1) = Some (word_of_nat (length nm))"
      using p by simp_all
  qed
  have pk: "peek buffer (ptr + 2) (length nm) = Some nm" using s3(1) sz Cons.prems(4) by simp
  have i: "i < length tags" "tag_shape (tags ! i)" using Cons.prems(5,6) by auto
  let ?key = "blit (blit (tag_key (tags ! i)) 0 nm) (length nm) [0]"
  have lk: "length nm < length (tag_key (tags ! i))" using i(2) vo(2) by (simp add: tag_shape_def)
  note ck = cstr_write [OF vo(1) lk]
  have pk2: "poke (tag_key (tags ! i)) 0 nm = Some (blit (tag_key (tags ! i)) 0 nm)"
    "poke (blit (tag_key (tags ! i)) 0 nm) (length nm) [0] = Some ?key" using lk by simp_all
  let ?tag = "(tags ! i)\<lparr>tag_key := ?key, item_count := length vs\<rparr>"
  have sh: "tag_shape ?tag" using i(2) ck(2) by (simp add: tag_shape_def)
  have slv: "slice buffer (ptr + 2 + length nm) (length ?ve) = ?ve" using s3(2) by (simp add: add.assoc)
  obtain vals where rv: "read_values buffer fin [0..<length vs] (ptr + 2 + length nm) ?tag =
      Some (?tag\<lparr>tag_values := vals\<rparr>, Some (ptr + 2 + length nm + length ?ve))" "tag_shape (?tag\<lparr>tag_values := vals\<rparr>)"
    "\<forall>i < length vs. cstr (vals ! i) = vs ! i"
    using read_values_ok [OF slv refl, of fin 0 ?tag] sz Cons.prems(4) vo(3,4) sh by auto
  let ?t = "?tag\<lparr>tag_values := vals\<rparr>"
  have tv: "tag_view ?t = w"
  proof -
    have "length vals = 16" using rv(2) by (simp add: tag_shape_def)
    then have "map cstr (take (length vs) vals) = vs" using rv(3) vo(3) by (intro nth_equalityI) auto
    then show ?thesis using ck(1) by (simp add: tag_view_def w)
  qed
  have u: "[i..<i + length (w # ws)] = i # [Suc i..<Suc i + length ws]"
    using upt_conv_Cons [of i "i + length (w # ws)"] by simp
  have n8: "length nm mod 256 = length nm" "length vs mod 256 = length vs" using vo(2,3) by simp_all
  have step: "read_tags buffer fin n [i..<i + length (w # ws)] ptr tags =
      read_tags buffer fin n [Suc i..<Suc i + length ws] (ptr + 2 + length nm + length ?ve) (tags[i := ?t])"
    unfolding u using sz hd pk pk2 i rv(1) vo n8 by (simp add: Let_def)
  have slr: "slice buffer (ptr + 2 + length nm + length ?ve) (length ?r) = ?r" using s1(2) by (simp add: add.assoc)
  have tsh: "\<forall>t \<in> set (tags[i := ?t]). tag_shape t"
    using Cons.prems(6) rv(2) by (auto dest!: set_update_subset_insert [THEN subsetD])
  obtain tags' where ih: "read_tags buffer fin n [Suc i..<Suc i + length ws] (ptr + 2 + length nm + length ?ve) (tags[i := ?t]) = Some (n, tags')"
    "length tags' = length tags" "\<forall>t \<in> set tags'. tag_shape t" "\<forall>k < Suc i. tags' ! k = tags[i := ?t] ! k"
    "\<forall>k < length ws. tag_view (tags' ! (Suc i + k)) = ws ! k"
    using Cons.IH [OF slr refl, of "Suc i" "tags[i := ?t]"] sz Cons.prems(4,5,7) tsh by auto
  have ti: "tags' ! i = ?t" using ih(4) i by simp
  have "tag_view (tags' ! (i + k)) = (w # ws) ! k" if "k < length (w # ws)" for k
    using that ih(5) ti tv by (cases k) auto
  moreover have "\<forall>k < i. tags' ! k = tags ! k" using ih(4) by simp
  ultimately show ?case using ih(1-3) step by (intro exI [of _ tags']) simp
qed

lemma deserialize_tags_ok:
  assumes "slice buffer 0 (length e) = e" "e = enc_tags ws" "length e \<le> length buffer"
    and "length ws \<le> length tags" "length tags = 2048" "\<forall>t \<in> set tags. tag_shape t" "\<forall>w \<in> set ws. view_ok w"
  shows "\<exists>tags'. nostr_db_deserialize_tags buffer (length e) tags 2048 = Some (int (length ws), tags') \<and>
    length tags' = 2048 \<and> (\<forall>t \<in> set tags'. tag_shape t) \<and> map tag_view (take (length ws) tags') = ws"
proof -
  let ?r = "concat (map enc_tag ws)"
  have e: "e = le_bytes 2 (length ws) @ ?r" using assms(2) by (simp add: enc_tags_def)
  have sl: "slice buffer 0 (length (le_bytes 2 (length ws) @ ?r)) = le_bytes 2 (length ws) @ ?r"
    using assms(1) by (simp only: e)
  note s = slice_append [OF sl]
  have le: "length e = 2 + length ?r" by (simp add: e)
  have pk: "peek buffer 0 2 = Some (le_bytes 2 (length ws))" using s(1) assms(3) le by simp
  have lv: "le_val (le_bytes 2 (length ws)) = length ws" using assms(4,5) by (simp add: le_val_le_bytes)
  have s2: "slice buffer 2 (length ?r) = ?r" using s(2) by (simp add: numeral_2_eq_2)
  obtain tags' where "read_tags buffer (length e) (length ws) [0..<0 + length ws] 2 tags = Some (length ws, tags')"
    "length tags' = length tags" "\<forall>t \<in> set tags'. tag_shape t" "\<forall>k < length ws. tag_view (tags' ! (0 + k)) = ws ! k"
    using read_tags_ok [OF s2 refl, of "length e" 0 tags "length ws"] assms le by auto
  then show ?thesis using pk lv assms(4,5) le
    by (auto simp: nostr_db_deserialize_tags_def Let_def intro!: nth_equalityI)
qed

section \<open>Reading stays in bounds\<close>

lemma read_values_total:
  assumes "fin \<le> length buffer" "\<forall>j \<in> set js. j < 16" "tag_shape tag"
  shows "\<exists>tag' r. read_values buffer fin js ptr tag = Some (tag', r) \<and> tag_shape tag'"
  using assms(2,3)
proof (induction js arbitrary: ptr tag)
  case Nil
  then show ?case by simp
next
  case (Cons j js)
  let ?n = "le_val (slice buffer ptr 2)"
  have j: "j < length (tag_values tag)" "length (tag_values tag ! j) = 512" using Cons.prems by (simp_all add: tag_shape_def)
  show ?case
  proof (cases "ptr + 2 > fin \<or> ptr + 2 + ?n > fin")
    case True
    have "tag_shape (tag\<lparr>item_count := j\<rparr>)" using Cons.prems(2) by (simp add: tag_shape_def)
    then show ?thesis using True assms(1) by (auto simp: Let_def)
  next
    case False
    define cl where "cl = (if ?n > 511 then 512 - 1 else ?n)"
    have c: "cl \<le> ?n" "cl \<le> 511" by (auto simp: cl_def)
    let ?v = "blit (blit (tag_values tag ! j) 0 (slice buffer (ptr + 2) cl)) cl [0]"
    have pk: "peek buffer ptr 2 = Some (slice buffer ptr 2)" "peek buffer (ptr + 2) cl = Some (slice buffer (ptr + 2) cl)"
      using False assms(1) c by simp_all
    have "cl \<le> length buffer - (ptr + 2)" using False assms(1) c by linarith
    then have ls: "length (slice buffer (ptr + 2) cl) = cl" by (simp only: length_slice min_absorb1)
    have pv: "poke (tag_values tag ! j) 0 (slice buffer (ptr + 2) cl) = Some (blit (tag_values tag ! j) 0 (slice buffer (ptr + 2) cl))"
      using j c ls by simp
    have l1: "length (blit (tag_values tag ! j) 0 (slice buffer (ptr + 2) cl)) = 512" using j c ls by simp
    have pv2: "poke (blit (tag_values tag ! j) 0 (slice buffer (ptr + 2) cl)) cl [0] = Some ?v" using l1 c by simp
    have l2: "length ?v = 512" using l1 c by simp
    have "tag_shape (tag\<lparr>tag_values := (tag_values tag)[j := ?v]\<rparr>)"
      using Cons.prems(2) l2 by (auto simp: tag_shape_def dest!: set_update_subset_insert [THEN subsetD])
    then obtain tag' r where "read_values buffer fin js (ptr + 2 + ?n) (tag\<lparr>tag_values := (tag_values tag)[j := ?v]\<rparr>) = Some (tag', r)" "tag_shape tag'"
      using Cons.IH Cons.prems(1) by fastforce
    moreover have "read_values buffer fin (j # js) ptr tag =
        read_values buffer fin js (ptr + 2 + ?n) (tag\<lparr>tag_values := (tag_values tag)[j := ?v]\<rparr>)"
      using False pk pv pv2 j(1) by (simp add: Let_def cl_def [symmetric])
    ultimately show ?thesis by simp
  qed
qed

lemma read_tags_total:
  assumes "fin \<le> length buffer" "\<forall>i \<in> set is. i < length tags \<and> i \<le> n" "\<forall>t \<in> set tags. tag_shape t" "n \<le> length tags"
  shows "\<exists>k tags'. read_tags buffer fin n is ptr tags = Some (k, tags') \<and> k \<le> length tags \<and> length tags' = length tags \<and>
    (\<forall>t \<in> set tags'. tag_shape t)"
  using assms(2-4)
proof (induction "is" arbitrary: ptr tags)
  case Nil
  then show ?case by simp
next
  case (Cons i "is")
  let ?nl = "unat (buffer ! Suc ptr)" and ?vc = "unat (buffer ! ptr)"
  show ?case
  proof (cases "ptr + 2 > fin \<or> ptr + 2 + ?nl > fin")
    case True
    then show ?thesis using Cons.prems assms(1) by (auto simp: Let_def)
  next
    case False
    define cl where "cl = (if ?nl > 63 then 63 else ?nl)"
    define vn where "vn = (if ?vc > 16 then 16 else ?vc)"
    have c: "cl \<le> ?nl" "cl \<le> 63" by (auto simp: cl_def)
    have i: "i < length tags" "tag_shape (tags ! i)" using Cons.prems by auto
    let ?key = "blit (blit (tag_key (tags ! i)) 0 (slice buffer (ptr + 2) cl)) cl [0]"
    have ca: "char_at buffer ptr = Some (buffer ! ptr)" "char_at buffer (Suc ptr) = Some (buffer ! Suc ptr)"
      using False assms(1) by simp_all
    have pk: "peek buffer (ptr + 2) cl = Some (slice buffer (ptr + 2) cl)" using False assms(1) c by simp
    have "cl \<le> length buffer - (ptr + 2)" using False assms(1) c by linarith
    then have ls: "length (slice buffer (ptr + 2) cl) = cl" by (simp only: length_slice min_absorb1)
    have lk: "length (tag_key (tags ! i)) = 64" using i(2) by (simp add: tag_shape_def)
    have p1: "poke (tag_key (tags ! i)) 0 (slice buffer (ptr + 2) cl) = Some (blit (tag_key (tags ! i)) 0 (slice buffer (ptr + 2) cl))"
      using lk c ls by simp
    have l1: "length (blit (tag_key (tags ! i)) 0 (slice buffer (ptr + 2) cl)) = 64" using lk c ls by simp
    have p2: "poke (blit (tag_key (tags ! i)) 0 (slice buffer (ptr + 2) cl)) cl [0] = Some ?key" using l1 c by simp
    have l2: "length ?key = 64" using l1 c by simp
    let ?tag = "(tags ! i)\<lparr>tag_key := ?key, item_count := vn\<rparr>"
    have sh: "tag_shape ?tag" using i(2) l2 by (simp add: tag_shape_def)
    have js: "\<forall>j \<in> set [0..<vn]. j < 16" by (auto simp: vn_def)
    obtain tag' r where rv: "read_values buffer fin [0..<vn] (ptr + 2 + ?nl) ?tag = Some (tag', r)" "tag_shape tag'"
      using read_values_total [OF assms(1) js sh, of "ptr + 2 + ?nl"] by blast
    have tsh: "\<forall>t \<in> set (tags[i := tag']). tag_shape t"
      using Cons.prems(2) rv(2) by (auto dest!: set_update_subset_insert [THEN subsetD])
    have step: "read_tags buffer fin n (i # is) ptr tags =
        (case r of None \<Rightarrow> Some (Suc i, tags[i := tag']) | Some ptr \<Rightarrow> read_tags buffer fin n is ptr (tags[i := tag']))"
      using False ca pk p1 p2 i rv(1) by (simp add: Let_def cl_def [symmetric] vn_def [symmetric])
    show ?thesis
    proof (cases r)
      case None
      then show ?thesis using step i tsh by auto
    next
      case (Some ptr')
      then show ?thesis using step Cons.IH [of "tags[i := tag']" ptr'] Cons.prems tsh by auto
    qed
  qed
qed

lemma deserialize_tags_total:
  assumes "len \<le> length buffer" "length tags = 2048" "\<forall>t \<in> set tags. tag_shape t"
  shows "\<exists>k tags'. nostr_db_deserialize_tags buffer len tags 2048 = Some (k, tags') \<and> k \<le> 2048 \<and> length tags' = 2048 \<and>
    (\<forall>t \<in> set tags'. tag_shape t)"
proof (cases "2 \<le> len")
  case True
  let ?v = "le_val (slice buffer 0 2)"
  let ?n = "if ?v > 2048 then 2048 else ?v"
  have n: "?n \<le> 2048" by simp
  have "\<forall>i \<in> set [0..<?n]. i < length tags \<and> i \<le> ?n" using n assms(2) by auto
  then obtain k tags' where "read_tags buffer len ?n [0..<?n] 2 tags = Some (k, tags')" "k \<le> 2048" "length tags' = 2048"
    "\<forall>t \<in> set tags'. tag_shape t"
    using read_tags_total [OF assms(1) _ assms(3) , of "[0..<?n]" ?n 2] n assms(2) by auto
  then show ?thesis using True assms(1)
    by (cases "?v > 2048") (simp_all add: nostr_db_deserialize_tags_def Let_def)
qed (use assms in \<open>simp add: nostr_db_deserialize_tags_def\<close>)

lemma event_deserialize_total:
  assumes "len \<le> length buffer" "event_shape e"
  shows "\<exists>err e'. event_deserialize buffer len e = Some (err, e') \<and> event_shape e'"
proof (cases "152 \<le> len")
  case False
  then show ?thesis using assms(2) by (simp add: event_deserialize_def)
next
  case True
  let ?h = "slice buffer 0 152"
  have lh: "length ?h = 152" "152 \<le> length buffer" using True assms(1) by simp_all
  have E: "length (ev_id e) = 65" "length (ev_pubkey e) = 65" "length (ev_sig e) = 129" "length (ev_content e) = 1048576"
    "length (ev_tags e) = 2048" "\<forall>t \<in> set (ev_tags e). tag_shape t"
    using assms(2) by (simp_all add: event_shape_def)
  obtain i where i: "raw_to_hex (slice ?h 0 32) 32 (ev_id e) = Some i" "length i = 65"
    using raw_to_hex_total [of 32 "slice ?h 0 32" "ev_id e"] lh E(1) by auto
  obtain p where p: "raw_to_hex (slice ?h 32 32) 32 (ev_pubkey e) = Some p" "length p = 65"
    using raw_to_hex_total [of 32 "slice ?h 32 32" "ev_pubkey e"] lh E(2) by auto
  obtain g where g: "raw_to_hex (slice ?h 64 64) 64 (ev_sig e) = Some g" "length g = 129"
    using raw_to_hex_total [of 64 "slice ?h 64 64" "ev_sig e"] lh E(3) by auto
  let ?c = "get_le 2 144 ?h" and ?t = "get_le 2 146 ?h"
  have c: "?c < 65536" using get_le_less [of 144 2 ?h] lh by simp
  have pk: "peek buffer 0 152 = Some ?h" using True assms(1) by simp
  show ?thesis
  proof (cases "152 + ?c > len")
    case True': True
    then show ?thesis using True pk i p g E by (simp add: event_deserialize_def Let_def event_shape_def)
  next
    case False
    have pc: "peek buffer 152 ?c = Some (slice buffer 152 ?c)" using False assms(1) by simp
    have lc: "length (slice buffer 152 ?c) = ?c" using False assms(1) by simp
    let ?b = "blit (blit (ev_content e) 0 (slice buffer 152 ?c)) ?c [0]"
    have p1: "poke (ev_content e) 0 (slice buffer 152 ?c) = Some (blit (ev_content e) 0 (slice buffer 152 ?c))"
      using lc c E(4) by simp
    have l1: "length (blit (ev_content e) 0 (slice buffer 152 ?c)) = 1048576" using lc c E(4) by simp
    have p2: "poke (blit (ev_content e) 0 (slice buffer 152 ?c)) ?c [0] = Some ?b" using l1 c by simp
    have l2: "length ?b = 1048576" using l1 c by simp
    have nc: "\<not> 1048576 \<le> ?c" using c by simp
    show ?thesis
    proof (cases "152 + ?c + ?t > len")
      case True': True
      then show ?thesis using True False pk i p g E pc p1 p2 l2 nc by (simp add: event_deserialize_def Let_def event_shape_def)
    next
      case False': False
      have "?t \<le> length (drop (152 + ?c) buffer)" using False' assms(1) by simp
      then obtain k tags' where "nostr_db_deserialize_tags (drop (152 + ?c) buffer) ?t (ev_tags e) 2048 = Some (k, tags')"
        "length tags' = 2048" "\<forall>t \<in> set tags'. tag_shape t"
        using deserialize_tags_total [OF _ E(5,6)] by blast
      then show ?thesis using True False False' pk i p g E pc p1 p2 l2 nc
        by (simp add: event_deserialize_def Let_def event_shape_def)
    qed
  qed
qed

section \<open>The round trip\<close>

definition event_ok :: "nostr_event \<Rightarrow> bool" where
  "event_ok e \<longleftrightarrow> event_shape e \<and> (\<forall>i < 64. is_hex (ev_id e ! i)) \<and> (\<forall>i < 64. is_hex (ev_pubkey e ! i)) \<and>
     (\<forall>i < 128. is_hex (ev_sig e ! i)) \<and> 0 \<in> set (ev_content e) \<and> ev_tag_count e \<le> 2048 \<and>
     (\<forall>t \<in> set (take (ev_tag_count e) (ev_tags e)). tag_ok t) \<and> ev_created_at e < 2 ^ 64 \<and> ev_kind e < 2 ^ 32"

definition event_tags :: "nostr_event \<Rightarrow> (byte list \<times> byte list list) list" where
  "event_tags e = map tag_view (take (ev_tag_count e) (ev_tags e))"

definition event_bytes :: "nostr_event \<Rightarrow> byte list" where
  "event_bytes e = event_record (map (raw_byte (ev_id e)) [0..<32]) (map (raw_byte (ev_pubkey e)) [0..<32])
     (map (raw_byte (ev_sig e)) [0..<64]) (ev_created_at e) (ev_kind e) (length (cstr (ev_content e)))
     (length (enc_tags (event_tags e))) @ cstr (ev_content e) @ enc_tags (event_tags e)"

lemma event_hex:
  assumes "event_ok e"
  shows "hex_to_raw (ev_id e) 64 (replicate 32 0) 32 = Some (True, map (raw_byte (ev_id e)) [0..<32])"
    "hex_to_raw (ev_pubkey e) 64 (replicate 32 0) 32 = Some (True, map (raw_byte (ev_pubkey e)) [0..<32])"
    "hex_to_raw (ev_sig e) 128 (replicate 64 0) 64 = Some (True, map (raw_byte (ev_sig e)) [0..<64])"
  using hex_roundtrip(1) [of 32 "ev_id e" "ev_id e"] hex_roundtrip(1) [of 32 "ev_pubkey e" "ev_pubkey e"]
    hex_roundtrip(1) [of 64 "ev_sig e" "ev_sig e"] assms
  by (simp_all add: event_ok_def event_shape_def)

lemma event_tags_serialize:
  assumes "event_ok e" "length tags_buf = 8192" "length (enc_tags (event_tags e)) \<le> 8192"
  shows "nostr_db_serialize_tags (ev_tags e) (ev_tag_count e) tags_buf 8192 =
    Some (int (length (enc_tags (event_tags e))), blit tags_buf 0 (enc_tags (event_tags e)))"
  using serialize_tags_ok [of "ev_tag_count e" "ev_tags e" 8192 tags_buf] assms
  by (auto simp: event_ok_def event_shape_def event_tags_def Let_def)

lemma length_event_record [simp]:
  "length a = 32 \<Longrightarrow> length b = 32 \<Longrightarrow> length c = 64 \<Longrightarrow> length (event_record a b c x k n t) = 152"
  by (simp add: event_record_def)

lemma event_serialize_ok:
  assumes ok: "event_ok e" and buf: "length tags_buf = 8192" "length (enc_tags (event_tags e)) \<le> 8192"
    and fits: "length (event_bytes e) \<le> capacity" "capacity \<le> length buffer" "capacity < 2 ^ 16"
  shows "event_serialize tags_buf e buffer capacity = Some (int (length (event_bytes e)), blit buffer 0 (event_bytes e))"
proof -
  let ?et = "enc_tags (event_tags e)" and ?c = "cstr (ev_content e)"
  let ?n = "length ?c"
  have c: "0 \<in> set (ev_content e)" using ok by (simp add: event_ok_def)
  have lb: "length (event_bytes e) = 152 + ?n + length ?et" by (simp add: event_bytes_def)
  let ?r = "event_record (map (raw_byte (ev_id e)) [0..<32]) (map (raw_byte (ev_pubkey e)) [0..<32])
     (map (raw_byte (ev_sig e)) [0..<64]) (ev_created_at e) (ev_kind e) ?n (length ?et)"
  have lr: "length ?r = 152" by simp
  have pt: "peek (blit tags_buf 0 ?et) 0 (length ?et) = Some ?et" using buf by (simp add: slice_blit_same)
  have sz: "152 + ?n + length ?et \<le> length buffer" "152 + ?n + length ?et < 2 ^ 16" using fits lb by simp_all
  let ?b1 = "blit buffer 0 ?r"
  have b2: "blit ?b1 152 ?c = blit buffer 0 (?r @ ?c)" using blit_blit_next [of 0 ?r ?c buffer] sz lr by simp
  have b3: "blit (blit buffer 0 (?r @ ?c)) (152 + ?n) ?et = blit buffer 0 (?r @ ?c @ ?et)"
    using blit_blit_next [of 0 "?r @ ?c" ?et buffer] sz lr by simp
  have p1: "poke buffer 0 ?r = Some ?b1" "poke ?b1 152 ?c = Some (blit buffer 0 (?r @ ?c))"
    "poke (blit buffer 0 (?r @ ?c)) (152 + ?n) ?et = Some (blit buffer 0 (?r @ ?c @ ?et))"
    using sz lr b2 b3 by simp_all
  have m: "?n mod 2 ^ 16 = ?n" "length ?et mod 2 ^ 16 = length ?et" "(152 + ?n + length ?et) mod 2 ^ 16 = 152 + ?n + length ?et"
    using sz by simp_all
  show ?thesis
    using event_tags_serialize [OF ok buf] event_hex [OF ok] c nostr_strlen_eq [of "ev_content e"] cstr_peek [of "ev_content e"]
      fits lb pt p1 m
    by (simp add: event_serialize_def event_bytes_def Let_def)
qed

lemma event_record_fields:
  assumes "length a = 32" "length b = 32" "length c = 64"
  shows "slice (event_record a b c x k n t) 0 32 = a" "slice (event_record a b c x k n t) 32 32 = b"
    "slice (event_record a b c x k n t) 64 64 = c" "get_le 8 128 (event_record a b c x k n t) = x mod 2 ^ 64"
    "get_le 4 136 (event_record a b c x k n t) = k mod 2 ^ 32" "get_le 2 144 (event_record a b c x k n t) = n mod 2 ^ 16"
    "get_le 2 146 (event_record a b c x k n t) = t mod 2 ^ 16"
  using assms by (simp_all add: event_record_def get_le_def slice_append1 slice_append2 le_val_le_bytes)

lemma cstr_hex:
  assumes "\<forall>i < n. is_hex (h ! i)" "n \<le> length h" "n < length v"
  shows "cstr (blit v 0 (map lower (take n h) @ [0])) = map lower (take n h)"
proof -
  have "0 \<notin> set (map lower (take n h))"
  proof
    assume "0 \<in> set (map lower (take n h))"
    then obtain i where "i < n" "lower (h ! i) = 0" using assms(2) by (auto simp: in_set_conv_nth)
    then show False using assms(1) hex_char_digit(3) by blast
  qed
  then show ?thesis using cstr_append [of "map lower (take n h)"] by (simp add: blit_def)
qed

lemma event_deserialize_ok:
  assumes ok: "event_ok e" and fits: "length (event_bytes e) \<le> length buffer" "length (event_bytes e) < 2 ^ 16"
    and e0: "event_shape e0"
  shows "\<exists>e'. event_deserialize (blit buffer 0 (event_bytes e)) (length (event_bytes e)) e0 = Some (NOSTR_DB_OK, e') \<and>
    event_shape e' \<and> cstr (ev_id e') = map lower (take 64 (ev_id e)) \<and> cstr (ev_pubkey e') = map lower (take 64 (ev_pubkey e)) \<and>
    cstr (ev_sig e') = map lower (take 128 (ev_sig e)) \<and> ev_created_at e' = ev_created_at e \<and> ev_kind e' = ev_kind e \<and>
    cstr (ev_content e') = cstr (ev_content e) \<and>
    map tag_view (take (ev_tag_count e) (ev_tags e')) = event_tags e \<and>
    ev_tag_count e' = (if ev_tag_count e = 0 then ev_tag_count e0 else ev_tag_count e)"
proof -
  let ?et = "enc_tags (event_tags e)" and ?c = "cstr (ev_content e)"
  let ?n = "length ?c"
  define r where "r = event_record (map (raw_byte (ev_id e)) [0..<32]) (map (raw_byte (ev_pubkey e)) [0..<32])
     (map (raw_byte (ev_sig e)) [0..<64]) (ev_created_at e) (ev_kind e) ?n (length ?et)"
  have lr: "length r = 152" by (simp add: r_def)
  have eb: "event_bytes e = r @ ?c @ ?et" by (simp add: event_bytes_def r_def)
  have lb: "length (event_bytes e) = 152 + ?n + length ?et" by (simp add: eb lr)
  define buf where "buf = blit buffer 0 (event_bytes e)"
  have bf: "buf = r @ ?c @ ?et @ drop (length (event_bytes e)) buffer" by (simp add: buf_def blit_def eb)
  have pr: "peek buf 0 152 = Some r" by (simp add: bf peek_def slice_def lr)
  have pc: "peek buf 152 ?n = Some ?c" by (simp add: bf peek_def slice_def lr)
  note F = event_record_fields [of "map (raw_byte (ev_id e)) [0..<32]" "map (raw_byte (ev_pubkey e)) [0..<32]" "map (raw_byte (ev_sig e)) [0..<64]"
    "ev_created_at e" "ev_kind e" ?n "length ?et", folded r_def, simplified]
  have sz: "?n < 65536" "length ?et < 65536" using fits lb by simp_all
  have E: "length (ev_id e) = 65" "length (ev_pubkey e) = 65" "length (ev_sig e) = 129"
    "\<forall>i < 64. is_hex (ev_id e ! i)" "\<forall>i < 64. is_hex (ev_pubkey e ! i)" "\<forall>i < 128. is_hex (ev_sig e ! i)"
    "ev_created_at e < 2 ^ 64" "ev_kind e < 2 ^ 32" "ev_tag_count e \<le> 2048" "length (ev_tags e) = 2048"
    using ok by (simp_all add: event_ok_def event_shape_def)
  have E0: "length (ev_id e0) = 65" "length (ev_pubkey e0) = 65" "length (ev_sig e0) = 129" "length (ev_content e0) = 1048576"
    "length (ev_tags e0) = 2048" "\<forall>t \<in> set (ev_tags e0). tag_shape t"
    using e0 by (simp_all add: event_shape_def)
  have hx: "raw_to_hex (map (raw_byte (ev_id e)) [0..<32]) 32 (ev_id e0) = Some (blit (ev_id e0) 0 (map lower (take 64 (ev_id e)) @ [0]))"
    "raw_to_hex (map (raw_byte (ev_pubkey e)) [0..<32]) 32 (ev_pubkey e0) = Some (blit (ev_pubkey e0) 0 (map lower (take 64 (ev_pubkey e)) @ [0]))"
    "raw_to_hex (map (raw_byte (ev_sig e)) [0..<64]) 64 (ev_sig e0) = Some (blit (ev_sig e0) 0 (map lower (take 128 (ev_sig e)) @ [0]))"
    using hex_roundtrip(2) [of 32 "ev_id e" "ev_id e0"] hex_roundtrip(2) [of 32 "ev_pubkey e" "ev_pubkey e0"]
      hex_roundtrip(2) [of 64 "ev_sig e" "ev_sig e0"] E E0 by simp_all
  have lc: "?n < length (ev_content e0)" using sz E0 by simp
  note cw = cstr_write [OF cstr_no_0 lc]
  have pw: "poke (ev_content e0) 0 ?c = Some (blit (ev_content e0) 0 ?c)"
    "poke (blit (ev_content e0) 0 ?c) ?n [0] = Some (blit (blit (ev_content e0) 0 ?c) ?n [0])"
    using lc by simp_all
  have dr: "drop (152 + ?n) buf = ?et @ drop (length (event_bytes e)) buffer" by (simp add: bf lr)
  have lw: "length (event_tags e) = ev_tag_count e" using E by (simp add: event_tags_def)
  have z: "ev_tag_count e = 0 \<Longrightarrow> event_tags e = []" using lw by simp
  have vw: "\<forall>w \<in> set (event_tags e). view_ok w" using ok tag_view_ok by (auto simp: event_tags_def event_ok_def)
  have sl: "slice (drop (152 + ?n) buf) 0 (length ?et) = ?et" by (simp add: dr slice_def)
  obtain tags' where T: "nostr_db_deserialize_tags (drop (152 + ?n) buf) (length ?et) (ev_tags e0) 2048 = Some (int (ev_tag_count e), tags')"
    "length tags' = 2048" "\<forall>t \<in> set tags'. tag_shape t" "map tag_view (take (ev_tag_count e) tags') = event_tags e"
    using deserialize_tags_ok [OF sl refl _ _ E0(5,6) vw] lw E(9) E0(5) by (auto simp: dr)
  show ?thesis
    unfolding buf_def [symmetric]
    using pr pc F sz E(7,8) hx pw T lb cw(1,2) E0 cstr_hex [OF E(4), of "ev_id e0"] cstr_hex [OF E(5), of "ev_pubkey e0"]
      cstr_hex [OF E(6), of "ev_sig e0"] E(1-3) z
    by (simp add: event_deserialize_def Let_def event_shape_def)
qed

text \<open>An event with the content \<open>c\<close> and one tag with one value.\<close>

definition ex_event :: "byte list \<Rightarrow> nostr_event" where
  "ex_event c =
     (let tag = \<lparr>tag_key = replicate 64 0, tag_values = replicate 16 (replicate 512 0), item_count = 0\<rparr>
      in \<lparr>ev_id = replicate 64 65 @ [0], ev_pubkey = replicate 64 49 @ [0], ev_kind = 1, ev_tag_count = 1, ev_created_at = 1700000000,
          ev_tags = tag\<lparr>tag_key := 101 # replicate 63 0, tag_values := (120 # replicate 511 0) # replicate 15 (replicate 512 0),
                        item_count := 1\<rparr> # replicate 2047 tag,
          ev_content = c @ replicate (NOSTR_EVENT_CONTENT_LENGTH - length c) 0, ev_sig = replicate 128 102 @ [0]\<rparr>)"

lemma ex_event_ok: "0 \<notin> set c \<Longrightarrow> length c < NOSTR_EVENT_CONTENT_LENGTH \<Longrightarrow> event_ok (ex_event c)"
  by (auto simp: event_ok_def event_shape_def ex_event_def tag_ok_def tag_shape_def is_hex_def hex_char_to_val_def
      is_digit_def is_lower_def is_upper_def nth_append)

lemma ex_event_content: "0 \<notin> set c \<Longrightarrow> length c < NOSTR_EVENT_CONTENT_LENGTH \<Longrightarrow> cstr (ev_content (ex_event c)) = c"
proof -
  assume c: "0 \<notin> set c" "length c < NOSTR_EVENT_CONTENT_LENGTH"
  then have "replicate (NOSTR_EVENT_CONTENT_LENGTH - length c) (0 :: byte) = 0 # replicate (NOSTR_EVENT_CONTENT_LENGTH - length c - 1) 0"
    by (metis Suc_pred' replicate_Suc zero_less_diff)
  then show ?thesis using cstr_append [OF c(1)] by (simp add: ex_event_def)
qed

lemma ex_event_tags: "event_tags (ex_event c) = [([101], [[120]])]"
  by (simp add: event_tags_def ex_event_def tag_view_def cstr_def takeWhile_tail)

lemma ex_event_enc: "length (enc_tags (event_tags (ex_event c))) = 8"
  by (simp add: ex_event_tags enc_tags_def enc_tag_def enc_value_def)

section \<open>Properties\<close>



text \<open>
  C37: Whatever bytes a stored record has, reading it never leaves the record or the arrays of the
  event, and ends.
\<close>

theorem event_deserialize_in_bounds:
  assumes "len \<le> length buffer" "event_shape e"
  shows "\<exists>err e'. event_deserialize buffer len e = Some (err, e') \<and> event_shape e'"
  by (rule event_deserialize_total [OF assms])

theorem event_deserialize_in_bounds_witness:
  "\<exists>err e'. event_deserialize (replicate 300 255) 300 (ex_event []) = Some (err, e')"
  using event_deserialize_in_bounds [of 300 "replicate 300 255" "ex_event []"] ex_event_ok [of "[]"] by (auto simp: event_ok_def)

text \<open>
  C38: The size of the record is computed with 16 bits: a content of just under 64 KiB makes it wrap
  to a small number that passes the capacity check, and the content is copied past the end of
  the buffer.
\<close>

theorem event_serialize_overflows_buffer:
  assumes "event_ok e" "length tags_buf = 8192" "length (enc_tags (event_tags e)) \<le> 8192" "length buffer = 8192"
    and "length (cstr (ev_content e)) < 2 ^ 16" "2 ^ 16 \<le> 152 + length (cstr (ev_content e)) + length (enc_tags (event_tags e))"
    and "152 + length (cstr (ev_content e)) + length (enc_tags (event_tags e)) \<le> 2 ^ 16 + 8192"
  shows "event_serialize tags_buf e buffer 8192 = None"
proof -
  let ?n = "length (cstr (ev_content e))" and ?t = "length (enc_tags (event_tags e))"
  have c: "0 \<in> set (ev_content e)" using assms(1) by (simp add: event_ok_def)
  have m: "?n mod 2 ^ 16 = ?n" "?t mod 2 ^ 16 = ?t" using assms by simp_all
  have "(152 + ?n + ?t) mod 2 ^ 16 = 152 + ?n + ?t - 2 ^ 16" using assms by (simp add: mod_if)
  then have fit: "\<not> (152 + ?n + ?t) mod 2 ^ 16 > 8192" using assms by simp
  have big: "length buffer < 152 + ?n" using assms by simp
  show ?thesis
    using event_tags_serialize [OF assms(1-3)] event_hex [OF assms(1)] c nostr_strlen_eq [of "ev_content e"] cstr_peek [of "ev_content e"]
      m fit big assms(4) by (simp add: event_serialize_def Let_def poke_def)
qed

theorem event_serialize_overflows_buffer_witness:
  "event_serialize (replicate 8192 0) (ex_event (replicate 65400 97)) (replicate 8192 0) 8192 = None"
proof -
  have c: "0 \<notin> set (replicate 65400 (97 :: byte))" "length (replicate 65400 (97 :: byte)) < 1048576" by (simp_all)
  show ?thesis
    using event_serialize_overflows_buffer [OF ex_event_ok [OF c], of "replicate 8192 0" "replicate 8192 0"]
    by (simp add: ex_event_content [OF c] ex_event_enc)
qed

end
