(* ===== verification/NostrFilter.thy ===== *)
theory NostrFilter
  imports EventSerializer
begin

text \<open>
  Filters and how events are matched against them: \<open>src/nostr/subscription/nostr_filter.c\<close> and
  \<open>nostr_filter_types.h\<close>.
\<close>

section \<open>Data\<close>

abbreviation (input) "NOSTR_FILTER_MAX_IDS \<equiv> (256 :: nat)"
abbreviation (input) "NOSTR_FILTER_MAX_AUTHORS \<equiv> (256 :: nat)"
abbreviation (input) "NOSTR_FILTER_MAX_KINDS \<equiv> (64 :: nat)"
abbreviation (input) "NOSTR_FILTER_MAX_TAGS \<equiv> (26 :: nat)"
abbreviation (input) "NOSTR_FILTER_MAX_TAG_VALUES \<equiv> (256 :: nat)"

text \<open>\<open>NostrFilterId\<close> and \<open>NostrFilterPubkey\<close> have the same fields.\<close>

record filter_id =
  fid_value :: "byte list"
  fid_prefix_len :: nat

text \<open>
  The values of a tag filter lie one behind the other, 32 bytes each; a value that fills its 32 bytes
  is not terminated and runs on into the next one.
\<close>

record filter_tag =
  ft_name :: byte
  ft_values :: "byte list"
  ft_values_count :: nat

record nostr_filter =
  f_ids :: "filter_id list"
  f_ids_count :: nat
  f_authors :: "filter_id list"
  f_authors_count :: nat
  f_kinds :: "nat list"
  f_kinds_count :: nat
  f_tags :: "filter_tag list"
  f_tags_count :: nat
  f_since :: int
  f_until :: int
  f_limit :: nat
  f_has_limit :: bool

definition nostr_filter_init :: nostr_filter where
  "nostr_filter_init =
     \<lparr>f_ids = replicate NOSTR_FILTER_MAX_IDS \<lparr>fid_value = replicate 32 0, fid_prefix_len = 0\<rparr>, f_ids_count = 0,
      f_authors = replicate NOSTR_FILTER_MAX_AUTHORS \<lparr>fid_value = replicate 32 0, fid_prefix_len = 0\<rparr>, f_authors_count = 0,
      f_kinds = replicate NOSTR_FILTER_MAX_KINDS 0, f_kinds_count = 0,
      f_tags = replicate NOSTR_FILTER_MAX_TAGS \<lparr>ft_name = 0, ft_values = replicate 8192 0, ft_values_count = 0\<rparr>,
      f_tags_count = 0, f_since = 0, f_until = 0, f_limit = 0, f_has_limit = False\<rparr>"

definition nostr_filter_clear :: nostr_filter where
  "nostr_filter_clear = nostr_filter_init"

section \<open>Hexadecimal\<close>

definition hex_char_value :: "byte \<Rightarrow> int" where
  "hex_char_value c =
     (if is_digit c then uint c - 48
      else if c \<ge> 97 \<and> c \<le> 102 then uint c - 97 + 10
      else if c \<ge> 65 \<and> c \<le> 70 then uint c - 65 + 10
      else -1)"

primrec hex_to_bytes_loop :: "byte list \<Rightarrow> nat \<Rightarrow> nat list \<Rightarrow> byte list \<Rightarrow> (nat \<times> byte list) option" where
  "hex_to_bytes_loop hex pairs [] out = Some (pairs, out)"
| "hex_to_bytes_loop hex pairs (i # is) out = do {
     ch \<leftarrow> char_at hex (i * 2);
     cl \<leftarrow> char_at hex (i * 2 + 1);
     let h = hex_char_value ch;
     let l = hex_char_value cl;
     if h < 0 \<or> l < 0 then Some (i, out)
     else do {
       out \<leftarrow> poke out i [word_of_int (h * 16 + l)];
       hex_to_bytes_loop hex pairs is out
     }
   }"

definition hex_to_bytes :: "byte list \<Rightarrow> nat \<Rightarrow> byte list \<Rightarrow> nat \<Rightarrow> (nat \<times> byte list) option" where
  "hex_to_bytes hex hex_len out out_capacity =
     (let pairs = hex_len div 2;
          pairs = (if pairs > out_capacity then out_capacity else pairs)
      in hex_to_bytes_loop hex pairs [0..<pairs] out)"

section \<open>Matching\<close>

primrec bytes_match_loop :: "byte list \<Rightarrow> byte list \<Rightarrow> nat list \<Rightarrow> bool option" where
  "bytes_match_loop data prefix [] = Some True"
| "bytes_match_loop data prefix (i # is) = do {
     a \<leftarrow> char_at data i;
     b \<leftarrow> char_at prefix i;
     if a \<noteq> b then Some False else bytes_match_loop data prefix is
   }"

definition bytes_match_prefix :: "byte list \<Rightarrow> byte list \<Rightarrow> nat \<Rightarrow> bool option" where
  "bytes_match_prefix data prefix prefix_len = bytes_match_loop data prefix [0..<prefix_len]"

primrec find_prefix :: "filter_id list \<Rightarrow> byte list \<Rightarrow> nat \<Rightarrow> nat list \<Rightarrow> bool option" where
  "find_prefix entries bin converted [] = Some False"
| "find_prefix entries bin converted (i # is) = do {
     e \<leftarrow> (if i < length entries then Some (entries ! i) else None);
     m \<leftarrow> (if fid_prefix_len e \<le> converted then bytes_match_prefix bin (fid_value e) (fid_prefix_len e) else Some False);
     if m then Some True else find_prefix entries bin converted is
   }"

text \<open>The tests of ids and of authors.\<close>

definition match_prefixes :: "filter_id list \<Rightarrow> nat \<Rightarrow> byte list \<Rightarrow> bool option" where
  "match_prefixes entries count hex =
     (if count > 0 then do {
        (converted, bin) \<leftarrow> hex_to_bytes hex 64 (replicate 32 0) 32;
        if converted > 0 then find_prefix entries bin converted [0..<count] else Some False
      }
      else Some True)"

primrec find_kind :: "nat list \<Rightarrow> nat \<Rightarrow> nat list \<Rightarrow> bool option" where
  "find_kind kinds kind [] = Some False"
| "find_kind kinds kind (i # is) = do {
     k \<leftarrow> (if i < length kinds then Some (kinds ! i) else None);
     if k = kind then Some True else find_kind kinds kind is
   }"

text \<open>101 and 112 are the letters e and p.\<close>

definition match_value :: "filter_tag \<Rightarrow> nat \<Rightarrow> byte list \<Rightarrow> bool option" where
  "match_value ftag fvi eval = do {
     eval_len \<leftarrow> nostr_strlen eval;
     if ft_name ftag = 101 \<or> ft_name ftag = 112 then
       (if eval_len = 64 then do {
          (converted, bin) \<leftarrow> hex_to_bytes eval 64 (replicate 32 0) 32;
          if converted = 32 then do {
            v \<leftarrow> peek (ft_values ftag) (fvi * 32) 32;
            Some (bin = v)
          }
          else Some False
        }
        else Some False)
     else do {
       fval_len \<leftarrow> nostr_strlen (drop (fvi * 32) (ft_values ftag));
       if eval_len = fval_len then nostr_strncmp eval (drop (fvi * 32) (ft_values ftag)) fval_len else Some False
     }
   }"

primrec find_value :: "filter_tag \<Rightarrow> nat \<Rightarrow> nostr_tag \<Rightarrow> nat list \<Rightarrow> bool option" where
  "find_value ftag fvi etag [] = Some False"
| "find_value ftag fvi etag (evi # is) = do {
     eval \<leftarrow> (if evi < length (tag_values etag) then Some (tag_values etag ! evi) else None);
     m \<leftarrow> match_value ftag fvi eval;
     if m then Some True else find_value ftag fvi etag is
   }"

primrec find_values :: "filter_tag \<Rightarrow> nostr_tag \<Rightarrow> nat list \<Rightarrow> bool option" where
  "find_values ftag etag [] = Some False"
| "find_values ftag etag (fvi # is) = do {
     m \<leftarrow> find_value ftag fvi etag [0..<item_count etag];
     if m then Some True else find_values ftag etag is
   }"

text \<open>Other letters than the one of the filter and tags without a value are passed over.\<close>

primrec find_tag :: "filter_tag \<Rightarrow> nostr_event \<Rightarrow> nat list \<Rightarrow> bool option" where
  "find_tag ftag event [] = Some False"
| "find_tag ftag event (ei # is) = do {
     etag \<leftarrow> (if ei < length (ev_tags event) then Some (ev_tags event ! ei) else None);
     k0 \<leftarrow> char_at (tag_key etag) 0;
     k1 \<leftarrow> (if k0 \<noteq> ft_name ftag then Some 0 else char_at (tag_key etag) 1);
     if k0 \<noteq> ft_name ftag \<or> k1 \<noteq> 0 then find_tag ftag event is
     else if item_count etag < 1 then find_tag ftag event is
     else do {
       m \<leftarrow> find_values ftag etag [0..<ft_values_count ftag];
       if m then Some True else find_tag ftag event is
     }
   }"

primrec match_tags :: "nostr_filter \<Rightarrow> nostr_event \<Rightarrow> nat list \<Rightarrow> bool option" where
  "match_tags flt event [] = Some True"
| "match_tags flt event (ti # is) = do {
     ftag \<leftarrow> (if ti < length (f_tags flt) then Some (f_tags flt ! ti) else None);
     found \<leftarrow> find_tag ftag event [0..<ev_tag_count event];
     if \<not> found then Some False else match_tags flt event is
   }"

text \<open>The time of the event is converted to \<open>int64_t\<close>.\<close>

definition to_int64 :: "nat \<Rightarrow> int" where
  "to_int64 n = sint (word_of_nat n :: 64 word)"

definition nostr_filter_matches :: "nostr_filter \<Rightarrow> nostr_event \<Rightarrow> bool option" where
  "nostr_filter_matches flt event = do {
     ids \<leftarrow> match_prefixes (f_ids flt) (f_ids_count flt) (ev_id event);
     if \<not> ids then Some False
     else do {
       authors \<leftarrow> match_prefixes (f_authors flt) (f_authors_count flt) (ev_pubkey event);
       if \<not> authors then Some False
       else do {
         kinds \<leftarrow> (if f_kinds_count flt > 0
                    then find_kind (f_kinds flt) (ev_kind event) [0..<f_kinds_count flt] else Some True);
         if \<not> kinds then Some False
         else if f_since flt > 0 \<and> to_int64 (ev_created_at event) < f_since flt then Some False
         else if f_until flt > 0 \<and> to_int64 (ev_created_at event) > f_until flt then Some False
         else match_tags flt event [0..<f_tags_count flt]
       }
     }
   }"

section \<open>What a filter means\<close>

definition raw_id :: "byte list \<Rightarrow> byte list" where
  "raw_id hex = map (raw_byte hex) [0..<32]"

definition prefix_spec :: "filter_id list \<Rightarrow> byte list \<Rightarrow> bool" where
  "prefix_spec entries hex \<longleftrightarrow> entries = [] \<or>
     (\<exists>e \<in> set entries. take (fid_prefix_len e) (raw_id hex) = take (fid_prefix_len e) (fid_value e))"

definition value_spec :: "filter_tag \<Rightarrow> nat \<Rightarrow> byte list \<Rightarrow> bool" where
  "value_spec ftag fvi s \<longleftrightarrow>
     (if ft_name ftag = 101 \<or> ft_name ftag = 112
      then length s = 64 \<and> (\<forall>c \<in> set s. is_hex c) \<and> raw_id s = slice (ft_values ftag) (fvi * 32) 32
      else s \<noteq> [] \<and> map lower s = map lower (cstr (drop (fvi * 32) (ft_values ftag))))"

definition tag_spec :: "filter_tag \<Rightarrow> nostr_event \<Rightarrow> bool" where
  "tag_spec ftag e \<longleftrightarrow> (\<exists>(k, vs) \<in> set (event_tags e). k = [ft_name ftag] \<and>
     (\<exists>fvi < ft_values_count ftag. \<exists>s \<in> set vs. value_spec ftag fvi s))"

text \<open>
  Each given condition must hold: one of the ids is a prefix of the id, one of the authors of the
  author, the kind is listed, the time lies in the interval, and for each tag filter the event
  has a tag of this name with one of the values.
\<close>

definition filter_spec :: "nostr_filter \<Rightarrow> nostr_event \<Rightarrow> bool" where
  "filter_spec f e \<longleftrightarrow>
     prefix_spec (take (f_ids_count f) (f_ids f)) (ev_id e) \<and>
     prefix_spec (take (f_authors_count f) (f_authors f)) (ev_pubkey e) \<and>
     (f_kinds_count f = 0 \<or> ev_kind e \<in> set (take (f_kinds_count f) (f_kinds f))) \<and>
     (f_since f \<le> 0 \<or> f_since f \<le> to_int64 (ev_created_at e)) \<and>
     (f_until f \<le> 0 \<or> to_int64 (ev_created_at e) \<le> f_until f) \<and>
     (\<forall>t \<in> set (take (f_tags_count f) (f_tags f)). tag_spec t e)"

definition filter_id_ok :: "filter_id \<Rightarrow> bool" where
  "filter_id_ok i \<longleftrightarrow> length (fid_value i) = 32 \<and> fid_prefix_len i \<le> 32"

definition filter_tag_ok :: "filter_tag \<Rightarrow> bool" where
  "filter_tag_ok t \<longleftrightarrow> ft_name t \<noteq> 0 \<and> length (ft_values t) = 8192 \<and> ft_values_count t \<le> 256 \<and>
     (\<forall>i < ft_values_count t. ft_name t = 101 \<or> ft_name t = 112 \<or> 0 \<in> set (drop (i * 32) (ft_values t)))"

definition filter_ok :: "nostr_filter \<Rightarrow> bool" where
  "filter_ok f \<longleftrightarrow> length (f_ids f) = 256 \<and> f_ids_count f \<le> 256 \<and> (\<forall>i \<in> set (f_ids f). filter_id_ok i) \<and>
     length (f_authors f) = 256 \<and> f_authors_count f \<le> 256 \<and> (\<forall>i \<in> set (f_authors f). filter_id_ok i) \<and>
     length (f_kinds f) = 64 \<and> f_kinds_count f \<le> 64 \<and>
     length (f_tags f) = 26 \<and> f_tags_count f \<le> 26 \<and> (\<forall>t \<in> set (take (f_tags_count f) (f_tags f)). filter_tag_ok t)"

section \<open>The loops compute it\<close>

lemma hex_char_value_eq: "hex_char_value c = hex_char_to_val c"
proof -
  have le: "e \<le> d \<longleftrightarrow> uint e \<le> uint d" for e d :: byte by (rule word_le_def)
  show ?thesis by (auto simp: hex_char_value_def hex_char_to_val_def is_lower_def is_upper_def le)
qed

lemma hex_to_bytes_loop_ok:
  assumes "k \<le> n" "n * 2 \<le> length hex" "n \<le> length out"
  shows "\<exists>c bin. hex_to_bytes_loop hex n [k..<n] out = Some (c, bin) \<and> length bin = length out \<and> c \<le> n \<and>
    (if \<forall>i. k * 2 \<le> i \<and> i < n * 2 \<longrightarrow> is_hex (hex ! i) then c = n \<and> bin = blit out k (map (raw_byte hex) [k..<n]) else c < n)"
  using assms
proof (induction "n - k" arbitrary: k out)
  case 0
  then show ?case by simp
next
  case (Suc m)
  then have k: "k < n" by simp
  have u: "[k..<n] = k # [Suc k..<n]" using k by (simp add: upt_conv_Cons)
  have m: "m = n - Suc k" using Suc.hyps(2) by simp
  show ?case
  proof (cases "is_hex (hex ! (k * 2)) \<and> is_hex (hex ! (k * 2 + 1))")
    case False
    then have "hex_to_bytes_loop hex n [k..<n] out = Some (k, out)"
      using Suc.prems k by (auto simp: u hex_char_value_eq is_hex_def Let_def)
    moreover have "\<not> (\<forall>i. k * 2 \<le> i \<and> i < n * 2 \<longrightarrow> is_hex (hex ! i))"
    proof
      assume a: "\<forall>i. k * 2 \<le> i \<and> i < n * 2 \<longrightarrow> is_hex (hex ! i)"
      have "is_hex (hex ! (k * 2))" "is_hex (hex ! (k * 2 + 1))" using a k by simp_all
      then show False using False by blast
    qed
    ultimately show ?thesis using k by auto
  next
    case True
    let ?out = "blit out k [raw_byte hex k]"
    have step: "hex_to_bytes_loop hex n [k..<n] out = hex_to_bytes_loop hex n [Suc k..<n] ?out"
      using Suc.prems k True by (simp add: u hex_char_value_eq is_hex_def raw_byte_def Let_def)
    obtain c bin where ih: "hex_to_bytes_loop hex n [Suc k..<n] ?out = Some (c, bin)" "length bin = length ?out" "c \<le> n"
      "if \<forall>i. Suc k * 2 \<le> i \<and> i < n * 2 \<longrightarrow> is_hex (hex ! i)
       then c = n \<and> bin = blit ?out (Suc k) (map (raw_byte hex) [Suc k..<n]) else c < n"
      using Suc.hyps(1) [of "Suc k" ?out] Suc.hyps(2) Suc.prems k m by auto
    have "(k * 2 \<le> i \<and> i < n * 2 \<longrightarrow> is_hex (hex ! i)) \<longleftrightarrow> (Suc k * 2 \<le> i \<and> i < n * 2 \<longrightarrow> is_hex (hex ! i))" for i
    proof (cases "i = k * 2 \<or> i = k * 2 + 1")
      case True': True
      then show ?thesis using True by auto
    next
      case False
      then have "k * 2 \<le> i \<longleftrightarrow> Suc k * 2 \<le> i" by arith
      then show ?thesis by simp
    qed
    then have all: "(\<forall>i. k * 2 \<le> i \<and> i < n * 2 \<longrightarrow> is_hex (hex ! i)) \<longleftrightarrow> (\<forall>i. Suc k * 2 \<le> i \<and> i < n * 2 \<longrightarrow> is_hex (hex ! i))"
      by (simp only:)
    have "blit ?out (Suc k) (map (raw_byte hex) [Suc k..<n]) = blit out k (map (raw_byte hex) [k..<n])"
      using blit_blit_next [of k "[raw_byte hex k]" "map (raw_byte hex) [Suc k..<n]" out] Suc.prems k u by simp
    then show ?thesis using ih step all Suc.prems k by (intro exI [of _ c] exI [of _ bin]) auto
  qed
qed

lemma hex_to_bytes_32:
  assumes "64 \<le> length hex"
  shows "\<exists>c bin. hex_to_bytes hex 64 (replicate 32 0) 32 = Some (c, bin) \<and> length bin = 32 \<and>
    (if \<forall>i < 64. is_hex (hex ! i) then c = 32 \<and> bin = raw_id hex else c < 32)"
proof -
  obtain c bin where h: "hex_to_bytes_loop hex 32 [0..<32] (replicate 32 0) = Some (c, bin)" "length bin = 32"
    "if \<forall>i. 0 * 2 \<le> i \<and> i < 32 * 2 \<longrightarrow> is_hex (hex ! i) then c = 32 \<and> bin = blit (replicate 32 0) 0 (map (raw_byte hex) [0..<32]) else c < 32"
    using hex_to_bytes_loop_ok [of 0 32 hex "replicate 32 0"] assms by auto
  have "blit (replicate 32 0) 0 (map (raw_byte hex) [0..<32]) = raw_id hex" unfolding raw_id_def by (rule blit_0_full) simp
  then show ?thesis using h by (intro exI [of _ c] exI [of _ bin]) (auto simp: hex_to_bytes_def)
qed

lemma bytes_match_prefix_eq:
  assumes "n \<le> length a" "n \<le> length b"
  shows "bytes_match_prefix a b n = Some (take n a = take n b)"
proof -
  have "\<forall>i \<in> set xs. i < length a \<and> i < length b \<Longrightarrow> bytes_match_loop a b xs = Some (\<forall>i \<in> set xs. a ! i = b ! i)" for xs
    by (induction xs) auto
  from this [of "[0..<n]"] show ?thesis
    using assms list_all2_upt [of n a b id] by (simp add: bytes_match_prefix_def)
qed

lemma length_raw_id [simp]: "length (raw_id h) = 32" by (simp add: raw_id_def)

lemma find_prefix_eq:
  assumes "\<forall>i \<in> set xs. i < length entries \<and> filter_id_ok (entries ! i)" "length bin = 32"
  shows "find_prefix entries bin 32 xs =
    Some (\<exists>i \<in> set xs. take (fid_prefix_len (entries ! i)) bin = take (fid_prefix_len (entries ! i)) (fid_value (entries ! i)))"
  using assms(1) by (induction xs) (auto simp: filter_id_ok_def bytes_match_prefix_eq assms(2))

lemma match_prefixes_eq:
  assumes "count \<le> length entries" "\<forall>e \<in> set entries. filter_id_ok e" "64 \<le> length hex" "\<forall>i < 64. is_hex (hex ! i)"
  shows "match_prefixes entries count hex = Some (prefix_spec (take count entries) hex)"
proof (cases "count = 0")
  case False
  have h: "hex_to_bytes hex 64 (replicate 32 0) 32 = Some (32, raw_id hex)" using hex_to_bytes_32 [OF assms(3)] assms(4) by auto
  have "find_prefix entries (raw_id hex) 32 [0..<count] =
     Some (\<exists>i \<in> set [0..<count]. take (fid_prefix_len (entries ! i)) (raw_id hex) = take (fid_prefix_len (entries ! i)) (fid_value (entries ! i)))"
    using assms(1,2) by (intro find_prefix_eq) auto
  moreover have "take count entries \<noteq> []" using False assms(1) by (cases entries) auto
  ultimately show ?thesis using False h
    by (simp add: match_prefixes_def prefix_spec_def nth_image [OF assms(1), symmetric])
qed (simp add: match_prefixes_def prefix_spec_def)

lemma find_kind_eq: "\<forall>i \<in> set xs. i < length kinds \<Longrightarrow> find_kind kinds k xs = Some (\<exists>i \<in> set xs. kinds ! i = k)"
  by (induction xs) auto

lemma match_value_eq:
  assumes "filter_tag_ok ftag" "fvi < ft_values_count ftag" "0 \<in> set v"
  shows "match_value ftag fvi v = Some (value_spec ftag fvi (cstr v))"
proof (cases "ft_name ftag = 101 \<or> ft_name ftag = 112")
  case True
  show ?thesis
  proof (cases "length (cstr v) = 64")
    case False
    then show ?thesis using True assms(3) by (simp add: match_value_def nostr_strlen_eq value_spec_def)
  next
    case l: True
    then have lv: "64 \<le> length v" using cstr_length [OF assms(3)] by simp
    have n: "v ! i = cstr v ! i" if "i < 64" for i
      using that l takeWhile_nth [of i "\<lambda>c. c \<noteq> 0" v] by (simp add: cstr_def)
    have all: "(\<forall>i < 64. is_hex (v ! i)) \<longleftrightarrow> (\<forall>c \<in> set (cstr v). is_hex c)"
      using n l by (simp add: all_set_conv_all_nth)
    have raw: "raw_id v = raw_id (cstr v)"
      using n by (auto simp: raw_id_def raw_byte_def)
    have pk: "peek (ft_values ftag) (fvi * 32) 32 = Some (slice (ft_values ftag) (fvi * 32) 32)"
      using assms(1,2) by (simp add: filter_tag_ok_def)
    show ?thesis
    proof (cases "\<forall>i < 64. is_hex (v ! i)")
      case h: True
      then have "hex_to_bytes v 64 (replicate 32 0) 32 = Some (32, raw_id v)" using hex_to_bytes_32 [OF lv] by auto
      then show ?thesis using True l assms(3) h all pk raw by (simp add: match_value_def nostr_strlen_eq value_spec_def)
    next
      case h: False
      then obtain c bin where "hex_to_bytes v 64 (replicate 32 0) 32 = Some (c, bin)" "c < 32"
        using hex_to_bytes_32 [OF lv] by (auto split: if_splits)
      then show ?thesis using True l assms(3) h all by (simp add: match_value_def nostr_strlen_eq value_spec_def)
    qed
  qed
next
  case False
  let ?f = "drop (fvi * 32) (ft_values ftag)"
  have f: "0 \<in> set ?f" using assms(1,2) False by (auto simp: filter_tag_ok_def)
  have eq: "length (cstr v) = length (cstr ?f) \<Longrightarrow> cstr v \<noteq> [] \<Longrightarrow>
      nostr_strncmp v ?f (length (cstr ?f)) = Some (map lower (cstr v) = map lower (cstr ?f))"
  proof -
    assume l: "length (cstr v) = length (cstr ?f)" "cstr v \<noteq> []"
    then have n: "0 < length (cstr ?f)" "length (cstr ?f) \<le> length v" "length (cstr ?f) \<le> length ?f"
      using cstr_length [OF assms(3)] cstr_length [OF f] by auto
    have "take (length (cstr ?f)) v = cstr v" using cstr_take [of v] l(1) by simp
    then show "nostr_strncmp v ?f (length (cstr ?f)) = Some (map lower (cstr v) = map lower (cstr ?f))"
      using nostr_strncmp_eq [OF n] cstr_take [of ?f] by simp
  qed
  have ne: "map lower (cstr v) = map lower (cstr ?f) \<Longrightarrow> length (cstr v) = length (cstr ?f)" by (metis length_map)
  have "cstr v = [] \<Longrightarrow> nostr_strncmp v ?f 0 = Some False" by (simp add: nostr_strncmp_def)
  then show ?thesis using False assms(3) f eq ne by (cases "cstr v = []") (auto simp: match_value_def nostr_strlen_eq value_spec_def)
qed

lemma find_value_eq:
  assumes "filter_tag_ok ftag" "fvi < ft_values_count ftag"
    and "\<forall>j \<in> set xs. j < length (tag_values etag) \<and> 0 \<in> set (tag_values etag ! j)"
  shows "find_value ftag fvi etag xs = Some (\<exists>j \<in> set xs. value_spec ftag fvi (cstr (tag_values etag ! j)))"
  using assms(3) by (induction xs) (auto simp: match_value_eq [OF assms(1,2)])

lemma tag_ok_values:
  assumes "tag_ok t" "j < item_count t"
  shows "j < length (tag_values t) \<and> 0 \<in> set (tag_values t ! j)"
proof -
  have l: "length (tag_values t) = 16" "item_count t \<le> 16" using assms(1) by (auto simp: tag_ok_def tag_shape_def)
  then have "tag_values t ! j \<in> set (take (item_count t) (tag_values t))"
    using assms(2) by (simp add: nth_image [symmetric])
  then show ?thesis using assms l by (auto simp: tag_ok_def)
qed

lemma find_values_eq:
  assumes "filter_tag_ok ftag" "tag_ok etag" "\<forall>i \<in> set xs. i < ft_values_count ftag"
  shows "find_values ftag etag xs = Some (\<exists>i \<in> set xs. \<exists>s \<in> set (snd (tag_view etag)). value_spec ftag i s)"
  using assms(3)
proof (induction xs)
  case (Cons i xs)
  have l: "item_count etag \<le> length (tag_values etag)" using assms(2) by (auto simp: tag_ok_def tag_shape_def)
  have "find_value ftag i etag [0..<item_count etag] = Some (\<exists>j \<in> set [0..<item_count etag]. value_spec ftag i (cstr (tag_values etag ! j)))"
    using Cons.prems tag_ok_values [OF assms(2)] by (intro find_value_eq assms(1)) auto
  also have "(\<exists>j \<in> set [0..<item_count etag]. value_spec ftag i (cstr (tag_values etag ! j))) \<longleftrightarrow>
      (\<exists>s \<in> set (snd (tag_view etag)). value_spec ftag i s)"
    by (auto simp: tag_view_def nth_image [OF l, symmetric])
  finally show ?case using Cons by auto
qed simp

lemma find_tag_eq:
  assumes "filter_tag_ok ftag" "\<forall>i \<in> set xs. i < length (ev_tags e) \<and> tag_ok (ev_tags e ! i)"
  shows "find_tag ftag e xs = Some (\<exists>i \<in> set xs. fst (tag_view (ev_tags e ! i)) = [ft_name ftag] \<and>
    (\<exists>fvi < ft_values_count ftag. \<exists>s \<in> set (snd (tag_view (ev_tags e ! i))). value_spec ftag fvi s))"
  using assms(2)
proof (induction xs)
  case (Cons i xs)
  let ?t = "ev_tags e ! i"
  have i: "i < length (ev_tags e)" "tag_ok ?t" using Cons.prems by auto
  have lk: "length (tag_key ?t) = 64" using i(2) by (simp add: tag_ok_def tag_shape_def)
  then obtain a b r where k: "tag_key ?t = a # b # r" by (cases "tag_key ?t"; cases "tl (tag_key ?t)") auto
  have name: "ft_name ftag \<noteq> 0" using assms(1) by (simp add: filter_tag_ok_def)
  have v: "fst (tag_view ?t) = [ft_name ftag] \<longleftrightarrow> a = ft_name ftag \<and> b = 0"
    using name by (auto simp: tag_view_def cstr_def k)
  have none: "item_count ?t < 1 \<Longrightarrow> set (snd (tag_view ?t)) = {}" by (simp add: tag_view_def)
  have fv: "find_values ftag ?t [0..<ft_values_count ftag] =
      Some (\<exists>fvi < ft_values_count ftag. \<exists>s \<in> set (snd (tag_view ?t)). value_spec ftag fvi s)"
    using find_values_eq [OF assms(1) i(2), of "[0..<ft_values_count ftag]"] by auto
  show ?case using Cons i k v none fv by (auto simp: char_at_def)
qed simp

lemma event_tags_nth:
  assumes "event_ok e"
  shows "(\<exists>i \<in> set [0..<ev_tag_count e]. P (tag_view (ev_tags e ! i))) \<longleftrightarrow> (\<exists>x \<in> set (event_tags e). P x)"
proof -
  have l: "ev_tag_count e \<le> length (ev_tags e)" using assms by (simp add: event_ok_def event_shape_def)
  show ?thesis by (auto simp: event_tags_def nth_image [OF l, symmetric])
qed

lemma match_tags_eq:
  assumes "event_ok e" "\<forall>i \<in> set xs. i < length (f_tags f) \<and> filter_tag_ok (f_tags f ! i)"
  shows "match_tags f e xs = Some (\<forall>i \<in> set xs. tag_spec (f_tags f ! i) e)"
  using assms(2)
proof (induction xs)
  case (Cons i xs)
  have l: "ev_tag_count e \<le> length (ev_tags e)" using assms(1) by (simp add: event_ok_def event_shape_def)
  have "\<forall>j \<in> set [0..<ev_tag_count e]. j < length (ev_tags e) \<and> tag_ok (ev_tags e ! j)"
    using assms(1) l by (auto simp: event_ok_def nth_image [OF l, symmetric])
  then have "find_tag (f_tags f ! i) e [0..<ev_tag_count e] = Some (tag_spec (f_tags f ! i) e)"
    using Cons.prems event_tags_nth [OF assms(1), of "\<lambda>w. fst w = [ft_name (f_tags f ! i)] \<and>
      (\<exists>fvi < ft_values_count (f_tags f ! i). \<exists>s \<in> set (snd w). value_spec (f_tags f ! i) fvi s)"]
    by (subst find_tag_eq) (auto simp: tag_spec_def case_prod_beta)
  then show ?case using Cons by auto
qed simp

lemma nostr_filter_matches_eq:
  assumes e: "event_ok e" and f: "filter_ok f"
  shows "nostr_filter_matches f e = Some (filter_spec f e)"
proof -
  have E: "64 \<le> length (ev_id e)" "\<forall>i < 64. is_hex (ev_id e ! i)" "64 \<le> length (ev_pubkey e)" "\<forall>i < 64. is_hex (ev_pubkey e ! i)"
    using e by (simp_all add: event_ok_def event_shape_def)
  have F: "f_ids_count f \<le> length (f_ids f)" "\<forall>i \<in> set (f_ids f). filter_id_ok i"
    "f_authors_count f \<le> length (f_authors f)" "\<forall>i \<in> set (f_authors f). filter_id_ok i"
    "f_kinds_count f \<le> length (f_kinds f)" "f_tags_count f \<le> length (f_tags f)" "\<forall>t \<in> set (take (f_tags_count f) (f_tags f)). filter_tag_ok t"
    using f by (simp_all add: filter_ok_def)
  note ids = match_prefixes_eq [OF F(1,2) E(1,2)] and authors = match_prefixes_eq [OF F(3,4) E(3,4)]
  have kinds: "find_kind (f_kinds f) (ev_kind e) [0..<f_kinds_count f] = Some (ev_kind e \<in> set (take (f_kinds_count f) (f_kinds f)))"
  proof -
    have "(\<exists>i \<in> set [0..<f_kinds_count f]. f_kinds f ! i = ev_kind e) \<longleftrightarrow> ev_kind e \<in> (!) (f_kinds f) ` {0..<f_kinds_count f}"
      unfolding image_iff set_upt by metis
    then show ?thesis
      using find_kind_eq [of "[0..<f_kinds_count f]" "f_kinds f" "ev_kind e"] F(5) unfolding nth_image [OF F(5)] by auto
  qed
  have tags: "match_tags f e [0..<f_tags_count f] = Some (\<forall>t \<in> set (take (f_tags_count f) (f_tags f)). tag_spec t e)"
    using match_tags_eq [OF e, of "[0..<f_tags_count f]" f] F(6,7) by (auto simp: nth_image [OF F(6), symmetric])
  show ?thesis using ids authors kinds tags by (auto simp: nostr_filter_matches_def filter_spec_def)
qed

section \<open>Properties\<close>



end
