(* ===== verification/Subscription.thy ===== *)
theory Subscription
  imports NostrFilter
begin

text \<open>
  The table of subscriptions: \<open>src/nostr/subscription/nostr_subscription.c\<close>. The mapping that holds
  the table is given by a parameter of \<open>nostr_subscription_manager_init\<close>: whether \<open>mmap\<close> succeeds.
\<close>

section \<open>Data\<close>

abbreviation (input) "NOSTR_SUBSCRIPTION_MAX_COUNT \<equiv> (256 :: nat)"
abbreviation (input) "NOSTR_REQ_SUBSCRIPTION_ID_LENGTH \<equiv> (64 :: nat)"
abbreviation (input) "NOSTR_REQ_MAX_FILTERS \<equiv> (16 :: nat)"

record nostr_req =
  req_id :: "byte list"
  req_filters :: "nostr_filter list"
  req_filters_count :: nat

record subscription =
  sub_active :: bool
  sub_client_fd :: int
  sub_id :: "byte list"
  sub_filters :: "nostr_filter list"
  sub_filters_count :: nat

record subscription_manager =
  subs :: "subscription list"
  sub_count :: nat

definition sub_zero :: subscription where
  "sub_zero = \<lparr>sub_active = False, sub_client_fd = 0, sub_id = replicate 65 0,
     sub_filters = replicate NOSTR_REQ_MAX_FILTERS nostr_filter_init, sub_filters_count = 0\<rparr>"

section \<open>Operations\<close>

definition nostr_subscription_manager_init :: "bool \<Rightarrow> bool \<times> subscription_manager" where
  "nostr_subscription_manager_init mapped =
     (if \<not> mapped then (False, \<lparr>subs = [], sub_count = 0\<rparr>)
      else (True, \<lparr>subs = replicate NOSTR_SUBSCRIPTION_MAX_COUNT sub_zero, sub_count = 0\<rparr>))"

definition nostr_subscription_manager_destroy :: "subscription_manager \<Rightarrow> subscription_manager" where
  "nostr_subscription_manager_destroy manager = \<lparr>subs = [], sub_count = 0\<rparr>"

text \<open>The test for client and id that the functions share.\<close>

definition is_sub :: "subscription \<Rightarrow> int \<Rightarrow> byte list \<Rightarrow> bool option" where
  "is_sub sub client_fd subscription_id =
     (if sub_active sub \<and> sub_client_fd sub = client_fd then do {
        sub_id_len \<leftarrow> nostr_strlen (sub_id sub);
        id_len \<leftarrow> nostr_strlen subscription_id;
        if sub_id_len = id_len then nostr_strncmp (sub_id sub) subscription_id sub_id_len else Some False
      }
      else Some False)"

primrec find_sub :: "subscription list \<Rightarrow> int \<Rightarrow> byte list \<Rightarrow> nat list \<Rightarrow> nat option option" where
  "find_sub tbl client_fd subscription_id [] = Some None"
| "find_sub tbl client_fd subscription_id (i # is) = do {
     sub \<leftarrow> (if i < length tbl then Some (tbl ! i) else None);
     m \<leftarrow> is_sub sub client_fd subscription_id;
     if m then Some (Some i) else find_sub tbl client_fd subscription_id is
   }"

primrec find_free :: "subscription list \<Rightarrow> nat list \<Rightarrow> nat option option" where
  "find_free tbl [] = Some None"
| "find_free tbl (i # is) = do {
     sub \<leftarrow> (if i < length tbl then Some (tbl ! i) else None);
     if \<not> sub_active sub then Some (Some i) else find_free tbl is
   }"

text \<open>The result is the index of the subscription, \<open>None\<close> for the null pointer.\<close>

definition nostr_subscription_add ::
    "subscription_manager \<Rightarrow> int \<Rightarrow> nostr_req \<Rightarrow> (nat option \<times> subscription_manager) option" where
  "nostr_subscription_add manager client_fd req = do {
     found \<leftarrow> find_sub (subs manager) client_fd (req_id req) [0..<NOSTR_SUBSCRIPTION_MAX_COUNT];
     case found of
       Some i \<Rightarrow> do {
         let sub = subs manager ! i;
         fs \<leftarrow> peek (req_filters req) 0 (req_filters_count req);
         filters \<leftarrow> poke (sub_filters sub) 0 fs;
         Some (Some i, manager\<lparr>subs := (subs manager)[i := sub\<lparr>sub_filters := filters,
                                  sub_filters_count := req_filters_count req\<rparr>]\<rparr>)
       }
     | None \<Rightarrow> do {
         free \<leftarrow> find_free (subs manager) [0..<NOSTR_SUBSCRIPTION_MAX_COUNT];
         case free of
           None \<Rightarrow> Some (None, manager)
         | Some i \<Rightarrow> do {
             let sub = subs manager ! i;
             n \<leftarrow> nostr_strlen (req_id req);
             bs \<leftarrow> peek (req_id req) 0 (n + 1);
             sid \<leftarrow> poke (sub_id sub) 0 bs;
             fs \<leftarrow> peek (req_filters req) 0 (req_filters_count req);
             filters \<leftarrow> poke (sub_filters sub) 0 fs;
             Some (Some i, manager\<lparr>subs := (subs manager)[i := sub\<lparr>sub_active := True, sub_client_fd := client_fd,
                                      sub_id := sid, sub_filters := filters,
                                      sub_filters_count := req_filters_count req\<rparr>],
                                    sub_count := (sub_count manager + 1) mod 2 ^ 64\<rparr>)
           }
       }
   }"

definition nostr_subscription_remove ::
    "subscription_manager \<Rightarrow> int \<Rightarrow> byte list \<Rightarrow> (bool \<times> subscription_manager) option" where
  "nostr_subscription_remove manager client_fd subscription_id = do {
     found \<leftarrow> find_sub (subs manager) client_fd subscription_id [0..<NOSTR_SUBSCRIPTION_MAX_COUNT];
     case found of
       Some i \<Rightarrow> Some (True, manager\<lparr>subs := (subs manager)[i := sub_zero], sub_count := (sub_count manager + 2 ^ 64 - 1) mod 2 ^ 64\<rparr>)
     | None \<Rightarrow> Some (False, manager)
   }"

primrec remove_client_loop ::
    "int \<Rightarrow> nat list \<Rightarrow> nat \<Rightarrow> subscription_manager \<Rightarrow> (nat \<times> subscription_manager) option" where
  "remove_client_loop client_fd [] removed manager = Some (removed, manager)"
| "remove_client_loop client_fd (i # is) removed manager = do {
     sub \<leftarrow> (if i < length (subs manager) then Some (subs manager ! i) else None);
     if sub_active sub \<and> sub_client_fd sub = client_fd
     then remove_client_loop client_fd is (removed + 1)
            (manager\<lparr>subs := (subs manager)[i := sub_zero], sub_count := (sub_count manager + 2 ^ 64 - 1) mod 2 ^ 64\<rparr>)
     else remove_client_loop client_fd is removed manager
   }"

definition nostr_subscription_remove_client ::
    "subscription_manager \<Rightarrow> int \<Rightarrow> (nat \<times> subscription_manager) option" where
  "nostr_subscription_remove_client manager client_fd =
     remove_client_loop client_fd [0..<NOSTR_SUBSCRIPTION_MAX_COUNT] 0 manager"

definition nostr_subscription_find :: "subscription_manager \<Rightarrow> int \<Rightarrow> byte list \<Rightarrow> nat option option" where
  "nostr_subscription_find manager client_fd subscription_id =
     find_sub (subs manager) client_fd subscription_id [0..<NOSTR_SUBSCRIPTION_MAX_COUNT]"

primrec match_filters :: "nostr_filter list \<Rightarrow> nostr_event \<Rightarrow> nat list \<Rightarrow> bool option" where
  "match_filters filters event [] = Some False"
| "match_filters filters event (i # is) = do {
     f \<leftarrow> (if i < length filters then Some (filters ! i) else None);
     m \<leftarrow> nostr_filter_matches f event;
     if m then Some True else match_filters filters event is
   }"

definition nostr_subscription_matches_event :: "subscription \<Rightarrow> nostr_event \<Rightarrow> bool option" where
  "nostr_subscription_matches_event sub event =
     (if \<not> sub_active sub then Some False
      else match_filters (sub_filters sub) event [0..<sub_filters_count sub])"

text \<open>The result: the subscriptions the callback is called with, in this order, and their number.\<close>

primrec find_matching_loop :: "subscription list \<Rightarrow> nostr_event \<Rightarrow> nat list \<Rightarrow> subscription list \<Rightarrow> subscription list option" where
  "find_matching_loop tbl event [] called = Some called"
| "find_matching_loop tbl event (i # is) called = do {
     sub \<leftarrow> (if i < length tbl then Some (tbl ! i) else None);
     m \<leftarrow> (if sub_active sub then nostr_subscription_matches_event sub event else Some False);
     find_matching_loop tbl event is (if m then called @ [sub] else called)
   }"

definition nostr_subscription_find_matching ::
    "subscription_manager \<Rightarrow> nostr_event \<Rightarrow> (nat \<times> subscription list) option" where
  "nostr_subscription_find_matching manager event = do {
     called \<leftarrow> find_matching_loop (subs manager) event [0..<NOSTR_SUBSCRIPTION_MAX_COUNT] [];
     Some (length called, called)
   }"

section \<open>The table as a map\<close>

text \<open>Ids are compared without regard to case, so the key is the id in lower case.\<close>

definition id_key :: "int \<Rightarrow> byte list \<Rightarrow> int \<times> byte list" where
  "id_key fd sid = (fd, map lower (cstr sid))"

definition sub_key :: "subscription \<Rightarrow> int \<times> byte list" where
  "sub_key s = id_key (sub_client_fd s) (sub_id s)"

definition sub_view :: "subscription \<Rightarrow> nostr_filter list" where
  "sub_view s = take (sub_filters_count s) (sub_filters s)"

definition unique_subs :: "subscription list \<Rightarrow> bool" where
  "unique_subs tbl \<longleftrightarrow> (\<forall>i < length tbl. \<forall>j < length tbl.
     sub_active (tbl ! i) \<longrightarrow> sub_active (tbl ! j) \<longrightarrow> sub_key (tbl ! i) = sub_key (tbl ! j) \<longrightarrow> i = j)"

definition sub_map :: "subscription list \<Rightarrow> int \<times> byte list \<rightharpoonup> nostr_filter list" where
  "sub_map tbl k = map_option sub_view (List.find (\<lambda>s. sub_active s \<and> sub_key s = k) tbl)"

definition id_ok :: "byte list \<Rightarrow> bool" where
  "id_ok sid \<longleftrightarrow> length sid = 65 \<and> 0 \<in> set sid \<and> cstr sid \<noteq> []"

definition sub_ok :: "subscription \<Rightarrow> bool" where
  "sub_ok s \<longleftrightarrow> length (sub_id s) = 65 \<and> length (sub_filters s) = 16 \<and>
     (sub_active s \<longrightarrow> id_ok (sub_id s) \<and> sub_filters_count s \<le> 16 \<and> (\<forall>f \<in> set (sub_view s). filter_ok f))"

definition manager_ok :: "subscription_manager \<Rightarrow> bool" where
  "manager_ok m \<longleftrightarrow> length (subs m) = 256 \<and> (\<forall>s \<in> set (subs m). sub_ok s) \<and> unique_subs (subs m) \<and>
     sub_count m = length (List.filter sub_active (subs m))"

definition req_ok :: "nostr_req \<Rightarrow> bool" where
  "req_ok r \<longleftrightarrow> id_ok (req_id r) \<and> length (req_filters r) = 16 \<and> req_filters_count r \<le> 16 \<and>
     (\<forall>f \<in> set (take (req_filters_count r) (req_filters r)). filter_ok f)"

definition req_view :: "nostr_req \<Rightarrow> nostr_filter list" where
  "req_view r = take (req_filters_count r) (req_filters r)"

lemma sub_map_iff:
  assumes "unique_subs tbl"
  shows "sub_map tbl k = Some fs \<longleftrightarrow> (\<exists>i < length tbl. sub_active (tbl ! i) \<and> sub_key (tbl ! i) = k \<and> fs = sub_view (tbl ! i))"
proof
  assume "sub_map tbl k = Some fs"
  then show "\<exists>i < length tbl. sub_active (tbl ! i) \<and> sub_key (tbl ! i) = k \<and> fs = sub_view (tbl ! i)"
    by (auto simp: sub_map_def find_Some_iff)
next
  assume "\<exists>i < length tbl. sub_active (tbl ! i) \<and> sub_key (tbl ! i) = k \<and> fs = sub_view (tbl ! i)"
  then obtain i where i: "i < length tbl" "sub_active (tbl ! i)" "sub_key (tbl ! i) = k" "fs = sub_view (tbl ! i)" by blast
  then have "List.find (\<lambda>s. sub_active s \<and> sub_key s = k) tbl \<noteq> None" by (auto simp: find_None_iff)
  then obtain s where s: "List.find (\<lambda>s. sub_active s \<and> sub_key s = k) tbl = Some s" by blast
  then obtain j where j: "j < length tbl" "sub_active (tbl ! j)" "sub_key (tbl ! j) = k" "s = tbl ! j"
    by (auto simp: find_Some_iff)
  then have "j = i" using assms i unfolding unique_subs_def by metis
  then show "sub_map tbl k = Some fs" using s j i by (simp add: sub_map_def)
qed

lemma sub_map_None:
  "sub_map tbl k = None \<longleftrightarrow> (\<forall>i < length tbl. sub_active (tbl ! i) \<longrightarrow> sub_key (tbl ! i) \<noteq> k)"
  by (auto simp: sub_map_def find_None_iff in_set_conv_nth)

lemma sub_map_update:
  assumes u: "unique_subs tbl" and i: "i < length tbl"
    and new: "\<And>j. j < length tbl \<Longrightarrow> j \<noteq> i \<Longrightarrow> sub_active s \<Longrightarrow> sub_active (tbl ! j) \<Longrightarrow> sub_key (tbl ! j) \<noteq> sub_key s"
  shows "unique_subs (tbl[i := s])"
    "sub_map (tbl[i := s]) = (\<lambda>k. if sub_active s \<and> k = sub_key s then Some (sub_view s)
       else if sub_active (tbl ! i) \<and> k = sub_key (tbl ! i) then None else sub_map tbl k)"
proof -
  show u': "unique_subs (tbl[i := s])"
    unfolding unique_subs_def
  proof (intro allI impI)
    fix a b
    assume ab: "a < length (tbl[i := s])" "b < length (tbl[i := s])" "sub_active (tbl[i := s] ! a)"
      "sub_active (tbl[i := s] ! b)" "sub_key (tbl[i := s] ! a) = sub_key (tbl[i := s] ! b)"
    consider "a = b" | "a = i" "b \<noteq> i" | "a \<noteq> i" "b = i" | "a \<noteq> i" "b \<noteq> i" by blast
    then show "a = b"
    proof cases
      case 2
      then show ?thesis using ab i new [of b] by simp
    next
      case 3
      then show ?thesis using ab i new [of a] by simp
    next
      case 4
      then show ?thesis using ab u unfolding unique_subs_def by simp
    qed
  qed
  show "sub_map (tbl[i := s]) = (\<lambda>k. if sub_active s \<and> k = sub_key s then Some (sub_view s)
       else if sub_active (tbl ! i) \<and> k = sub_key (tbl ! i) then None else sub_map tbl k)"
  proof
    fix k
    consider "sub_active s \<and> k = sub_key s" | "\<not> (sub_active s \<and> k = sub_key s)" "sub_active (tbl ! i) \<and> k = sub_key (tbl ! i)"
      | "\<not> (sub_active s \<and> k = sub_key s)" "\<not> (sub_active (tbl ! i) \<and> k = sub_key (tbl ! i))" by blast
    then show "sub_map (tbl[i := s]) k = (if sub_active s \<and> k = sub_key s then Some (sub_view s)
       else if sub_active (tbl ! i) \<and> k = sub_key (tbl ! i) then None else sub_map tbl k)"
    proof cases
      case 1
      then have "sub_map (tbl[i := s]) k = Some (sub_view s)"
        using i by (auto simp: sub_map_iff [OF u'] intro!: exI [of _ i])
      then show ?thesis using 1 by simp
    next
      case 2
      have "sub_active (tbl[i := s] ! j) \<longrightarrow> sub_key (tbl[i := s] ! j) \<noteq> k" if j: "j < length tbl" for j
      proof (cases "j = i")
        case True
        then show ?thesis using 2 i by auto
      next
        case False
        then show ?thesis using 2 u i j unfolding unique_subs_def by (metis nth_list_update_neq)
      qed
      then have "sub_map (tbl[i := s]) k = None" by (simp add: sub_map_None)
      then show ?thesis using 2 by simp
    next
      case 3
      have "(sub_active (tbl[i := s] ! j) \<and> sub_key (tbl[i := s] ! j) = k \<and> fs = sub_view (tbl[i := s] ! j)) \<longleftrightarrow>
          (sub_active (tbl ! j) \<and> sub_key (tbl ! j) = k \<and> fs = sub_view (tbl ! j))" if "j < length tbl" for j fs
        using 3 i that by (cases "j = i") auto
      then have "sub_map (tbl[i := s]) k = Some fs \<longleftrightarrow> sub_map tbl k = Some fs" for fs
        unfolding sub_map_iff [OF u'] sub_map_iff [OF u] by auto
      then have "sub_map (tbl[i := s]) k = sub_map tbl k"
        by (cases "sub_map tbl k"; cases "sub_map (tbl[i := s]) k") auto
      then show ?thesis using 3 by (simp only: if_False)
    qed
  qed
qed

lemma length_filter_update:
  assumes "i < length xs"
  shows "length (List.filter P (xs[i := x])) + (if P (xs ! i) then 1 else 0) = length (List.filter P xs) + (if P x then 1 else 0)"
proof -
  have "length (List.filter P xs) = length (List.filter P (take i xs @ xs ! i # drop (Suc i) xs))"
    using id_take_nth_drop [OF assms] by simp
  then show ?thesis using assms by (simp add: upd_conv_take_nth_drop)
qed

section \<open>The loops\<close>

lemma is_sub_eq:
  assumes "sub_ok s" "id_ok sid"
  shows "is_sub s fd sid = Some (sub_active s \<and> sub_key s = id_key fd sid)"
proof (cases "sub_active s \<and> sub_client_fd s = fd")
  case True
  then have o: "id_ok (sub_id s)" using assms(1) by (simp add: sub_ok_def)
  have z: "0 \<in> set (sub_id s)" "0 \<in> set sid" using o assms(2) by (auto simp: id_ok_def)
  have eq: "nostr_strncmp (sub_id s) sid (length (cstr (sub_id s))) = Some (map lower (cstr (sub_id s)) = map lower (cstr sid))"
    if l: "length (cstr (sub_id s)) = length (cstr sid)"
  proof -
    have n: "0 < length (cstr (sub_id s))" "length (cstr (sub_id s)) \<le> length (sub_id s)" "length (cstr (sub_id s)) \<le> length sid"
      using o cstr_length [OF z(1)] cstr_length [OF z(2)] l by (auto simp: id_ok_def)
    have "take (length (cstr (sub_id s))) sid = cstr sid" using cstr_take [of sid] l by simp
    then show ?thesis using nostr_strncmp_eq [OF n] cstr_take [of "sub_id s"] by simp
  qed
  have "map lower (cstr (sub_id s)) = map lower (cstr sid) \<Longrightarrow> length (cstr (sub_id s)) = length (cstr sid)" by (metis length_map)
  then show ?thesis using True eq z by (auto simp: is_sub_def nostr_strlen_eq sub_key_def id_key_def)
qed (auto simp: is_sub_def sub_key_def id_key_def)

lemma find_sub_eq:
  assumes "\<forall>i \<in> set xs. i < length tbl \<and> sub_ok (tbl ! i)" "id_ok sid"
  shows "find_sub tbl fd sid xs = Some (List.find (\<lambda>i. sub_active (tbl ! i) \<and> sub_key (tbl ! i) = id_key fd sid) xs)"
  using assms(1) by (induction xs) (auto simp: is_sub_eq assms(2))

lemma find_free_eq:
  "\<forall>i \<in> set xs. i < length tbl \<Longrightarrow> find_free tbl xs = Some (List.find (\<lambda>i. \<not> sub_active (tbl ! i)) xs)"
  by (induction xs) auto

lemma find_upt_Some: "List.find P [0..<n] = Some i \<Longrightarrow> i < n \<and> P i"
  by (auto simp: find_Some_iff)

lemma find_upt_None: "List.find P [0..<n] = None \<Longrightarrow> i < n \<Longrightarrow> \<not> P i"
  by (auto simp: find_None_iff)

lemma manager_okD:
  assumes "manager_ok m"
  shows "length (subs m) = 256" "unique_subs (subs m)" "sub_count m = length (List.filter sub_active (subs m))"
    "i < 256 \<Longrightarrow> sub_ok (subs m ! i)" "sub_count m \<le> 256"
  using assms length_filter_le [of sub_active "subs m"] by (auto simp: manager_ok_def)

lemma find_sub_manager:
  assumes "manager_ok m" "id_ok sid"
  shows "find_sub (subs m) fd sid [0..<256] =
    Some (List.find (\<lambda>i. sub_active (subs m ! i) \<and> sub_key (subs m ! i) = id_key fd sid) [0..<256])"
  using manager_okD [OF assms(1)] by (intro find_sub_eq assms(2)) simp

lemma manager_ok_update:
  assumes m: "manager_ok m" and i: "i < 256" and s: "sub_ok s"
    and new: "\<And>j. j < 256 \<Longrightarrow> j \<noteq> i \<Longrightarrow> sub_active s \<Longrightarrow> sub_active (subs m ! j) \<Longrightarrow> sub_key (subs m ! j) \<noteq> sub_key s"
    and n: "n + (if sub_active (subs m ! i) then 1 else 0) = sub_count m + (if sub_active s then 1 else 0)"
  shows "manager_ok (m\<lparr>subs := (subs m)[i := s], sub_count := n\<rparr>)"
    "sub_map ((subs m)[i := s]) = (\<lambda>k. if sub_active s \<and> k = sub_key s then Some (sub_view s)
       else if sub_active (subs m ! i) \<and> k = sub_key (subs m ! i) then None else sub_map (subs m) k)"
proof -
  note M = manager_okD [OF m]
  have il: "i < length (subs m)" using i M(1) by simp
  note u = sub_map_update [OF M(2) il, of s]
  have "n = length (List.filter sub_active ((subs m)[i := s]))"
    using length_filter_update [OF il, of sub_active s] n M(3) by (auto split: if_splits)
  moreover have "\<forall>x \<in> set ((subs m)[i := s]). sub_ok x"
    using m s set_update_subset_insert [of "subs m" i s] by (auto simp: manager_ok_def)
  ultimately show "manager_ok (m\<lparr>subs := (subs m)[i := s], sub_count := n\<rparr>)"
    using u(1) new M(1) by (simp add: manager_ok_def)
  show "sub_map ((subs m)[i := s]) = (\<lambda>k. if sub_active s \<and> k = sub_key s then Some (sub_view s)
       else if sub_active (subs m ! i) \<and> k = sub_key (subs m ! i) then None else sub_map (subs m) k)"
    using u(2) new M(1) by simp
qed

lemma sub_zero_ok: "sub_ok sub_zero" "\<not> sub_active sub_zero" by (simp_all add: sub_ok_def sub_zero_def)

lemma take_blit: "length xs \<le> length p \<Longrightarrow> take (length xs) (blit p 0 xs) = xs" by (simp add: blit_def)

lemma add_ok:
  assumes m: "manager_ok m" and r: "req_ok r"
  shows "\<exists>i m'. nostr_subscription_add m fd r = Some (i, m') \<and> manager_ok m' \<and>
    (if i = None then m' = m \<and> sub_map (subs m) (id_key fd (req_id r)) = None \<and> sub_count m = 256
     else sub_map (subs m') = (sub_map (subs m))(id_key fd (req_id r) \<mapsto> req_view r))"
proof -
  note M = manager_okD [OF m]
  have R: "id_ok (req_id r)" "length (req_filters r) = 16" "req_filters_count r \<le> 16" "\<forall>f \<in> set (req_view r). filter_ok f"
    using r by (simp_all add: req_ok_def req_view_def)
  let ?k = "id_key fd (req_id r)"
  let ?P = "\<lambda>i. sub_active (subs m ! i) \<and> sub_key (subs m ! i) = ?k"
  note fs = find_sub_manager [OF m R(1), of fd]
  have pk: "peek (req_filters r) 0 (req_filters_count r) = Some (req_view r)" using R by (simp add: req_view_def slice_def)
  have lv: "length (req_view r) = req_filters_count r" using R by (simp add: req_view_def)
  show ?thesis
  proof (cases "List.find ?P [0..<256]")
    case (Some i)
    then have i: "i < 256" "?P i" using find_upt_Some [OF Some] by auto
    let ?s = "subs m ! i"
    let ?s' = "?s\<lparr>sub_filters := blit (sub_filters ?s) 0 (req_view r), sub_filters_count := req_filters_count r\<rparr>"
    have so: "sub_ok ?s" by (rule M(4) [OF i(1)])
    have po: "poke (sub_filters ?s) 0 (req_view r) = Some (blit (sub_filters ?s) 0 (req_view r))"
      using so lv R by (simp add: sub_ok_def)
    have v: "sub_view ?s' = req_view r" using take_blit [of "req_view r" "sub_filters ?s"] so lv R by (simp add: sub_view_def sub_ok_def)
    have so': "sub_ok ?s'" using so v lv R i by (simp add: sub_ok_def)
    have key: "sub_key ?s' = ?k" "sub_active ?s'" using i by (simp_all add: sub_key_def)
    have new: "j < 256 \<Longrightarrow> j \<noteq> i \<Longrightarrow> sub_active ?s' \<Longrightarrow> sub_active (subs m ! j) \<Longrightarrow> sub_key (subs m ! j) \<noteq> sub_key ?s'" for j
      using M(1,2) i key unfolding unique_subs_def by metis
    have n: "sub_count m + (if sub_active ?s then 1 else 0) = sub_count m + (if sub_active ?s' then 1 else 0)" by simp
    note up = manager_ok_update [OF m i(1) so' new n]
    have "nostr_subscription_add m fd r = Some (Some i, m\<lparr>subs := (subs m)[i := ?s']\<rparr>)"
      using fs Some pk po by (simp add: nostr_subscription_add_def Let_def)
    moreover have "sub_map ((subs m)[i := ?s']) = (sub_map (subs m))(?k \<mapsto> req_view r)"
      using up(2) key v i by (auto simp: fun_eq_iff)
    ultimately show ?thesis using up(1) by simp
  next
    case None
    then have none: "sub_map (subs m) ?k = None" using find_upt_None [OF None] M(1) by (simp add: sub_map_None)
    have ff: "find_free (subs m) [0..<256] = Some (List.find (\<lambda>i. \<not> sub_active (subs m ! i)) [0..<256])"
      using M(1) by (intro find_free_eq) simp
    show ?thesis
    proof (cases "List.find (\<lambda>i. \<not> sub_active (subs m ! i)) [0..<256]")
      case None': None
      have "\<forall>s \<in> set (subs m). sub_active s" using find_upt_None [OF None'] M(1) by (auto simp: in_set_conv_nth)
      then have "sub_count m = 256" using M(1,3) by (simp add: filter_True)
      then show ?thesis using fs None ff None' none m by (simp add: nostr_subscription_add_def)
    next
      case (Some i)
      then have i: "i < 256" "\<not> sub_active (subs m ! i)" using find_upt_Some [OF Some] by auto
      let ?s = "subs m ! i" and ?n = "length (cstr (req_id r))"
      have z: "0 \<in> set (req_id r)" "length (req_id r) = 65" "cstr (req_id r) \<noteq> []" using R(1) by (auto simp: id_ok_def)
      let ?b = "take (?n + 1) (req_id r)"
      have n65: "?n + 1 \<le> 65" using cstr_length [OF z(1)] z(2) by simp
      have b: "?b = cstr (req_id r) @ [0]"
        using cstr_length [OF z(1)] cstr_nth [of "req_id r"] cstr_take [of "req_id r"] by (simp add: take_Suc_conv_app_nth)
      let ?id = "blit (sub_id ?s) 0 ?b"
      have so: "sub_ok ?s" by (rule M(4) [OF i(1)])
      have lid: "length (sub_id ?s) = 65" using so by (simp add: sub_ok_def)
      have idb: "?id = cstr (req_id r) @ 0 # drop (?n + 1) (sub_id ?s)" 
      proof -
        have "length ?b = ?n + 1" using n65 z(2) by simp
        then show ?thesis unfolding blit_def by (simp only: b) simp
      qed
      have ci: "cstr ?id = cstr (req_id r)" unfolding idb by (rule cstr_append [OF cstr_no_0])
      have ido: "id_ok ?id" 
      proof -
        have "0 \<in> set ?id" unfolding idb by simp
        then show ?thesis using n65 lid ci z(3) z(2) unfolding id_ok_def by simp
      qed
      have pb: "peek (req_id r) 0 (Suc ?n) = Some ?b" "poke (sub_id ?s) 0 ?b = Some ?id"
        using n65 z(2) lid by (simp_all add: slice_def)
      have po: "poke (sub_filters ?s) 0 (req_view r) = Some (blit (sub_filters ?s) 0 (req_view r))"
        using so lv R by (simp add: sub_ok_def)
      let ?s' = "?s\<lparr>sub_active := True, sub_client_fd := fd, sub_id := ?id, sub_filters := blit (sub_filters ?s) 0 (req_view r),
        sub_filters_count := req_filters_count r\<rparr>"
      have v: "sub_view ?s' = req_view r" using take_blit [of "req_view r" "sub_filters ?s"] so lv R by (simp add: sub_view_def sub_ok_def)
      have so': "sub_ok ?s'" using so v lv R ido by (simp add: sub_ok_def id_ok_def)
      have key: "sub_key ?s' = ?k" "sub_active ?s'" using ci by (simp_all add: sub_key_def id_key_def)
      have new: "j < 256 \<Longrightarrow> j \<noteq> i \<Longrightarrow> sub_active ?s' \<Longrightarrow> sub_active (subs m ! j) \<Longrightarrow> sub_key (subs m ! j) \<noteq> sub_key ?s'" for j
        using none M(1) key by (auto simp: sub_map_None)
      have n: "sub_count m + 1 + (if sub_active ?s then 1 else 0) = sub_count m + (if sub_active ?s' then 1 else 0)" using i by simp
      note up = manager_ok_update [OF m i(1) so' new n]
      have cm: "(sub_count m + 1) mod 2 ^ 64 = sub_count m + 1" using M(5) by simp
      have "nostr_subscription_add m fd r = Some (Some i, m\<lparr>subs := (subs m)[i := ?s'], sub_count := sub_count m + 1\<rparr>)"
        using fs None ff Some pk po z(1) pb cm by (simp add: nostr_subscription_add_def Let_def nostr_strlen_eq)
      moreover have "sub_map ((subs m)[i := ?s']) = (sub_map (subs m))(?k \<mapsto> req_view r)"
        using up(2) key v i by (auto simp: fun_eq_iff)
      ultimately show ?thesis using up(1) by simp
    qed
  qed
qed

lemma remove_ok:
  assumes m: "manager_ok m" and sid: "id_ok sid"
  shows "\<exists>m'. nostr_subscription_remove m fd sid = Some (sub_map (subs m) (id_key fd sid) \<noteq> None, m') \<and> manager_ok m' \<and>
    sub_map (subs m') = (sub_map (subs m))(id_key fd sid := None)"
proof -
  note M = manager_okD [OF m]
  let ?k = "id_key fd sid"
  let ?P = "\<lambda>i. sub_active (subs m ! i) \<and> sub_key (subs m ! i) = ?k"
  note fs = find_sub_manager [OF m sid, of fd]
  show ?thesis
  proof (cases "List.find ?P [0..<256]")
    case None
    then have none: "sub_map (subs m) ?k = None" using find_upt_None [OF None] M(1) by (simp add: sub_map_None)
    then have "(sub_map (subs m))(?k := None) = sub_map (subs m)" by auto
    then show ?thesis using fs None none m by (simp add: nostr_subscription_remove_def)
  next
    case (Some i)
    then have i: "i < 256" "?P i" using find_upt_Some [OF Some] by auto
    have pos: "0 < sub_count m"
      using i M(1,3) by (auto simp: length_greater_0_conv [symmetric] filter_empty_conv simp del: length_greater_0_conv intro: nth_mem)
    have n: "sub_count m - 1 + (if sub_active (subs m ! i) then 1 else 0) = sub_count m + (if sub_active sub_zero then 1 else 0)"
      using i pos sub_zero_ok by simp
    have up: "manager_ok (m\<lparr>subs := (subs m)[i := sub_zero], sub_count := sub_count m - 1\<rparr>)"
      "sub_map ((subs m)[i := sub_zero]) = (\<lambda>k. if sub_active sub_zero \<and> k = sub_key sub_zero then Some (sub_view sub_zero)
       else if sub_active (subs m ! i) \<and> k = sub_key (subs m ! i) then None else sub_map (subs m) k)"
      using manager_ok_update [OF m i(1) sub_zero_ok(1) _ n] sub_zero_ok(2) by auto
    have "sub_map (subs m) ?k \<noteq> None" using i M(1) by (auto simp: sub_map_None)
    moreover have "(sub_count m + 2 ^ 64 - 1) mod 2 ^ 64 = sub_count m - 1" using pos M(5) by (simp add: mod_if)
    moreover have "sub_map ((subs m)[i := sub_zero]) = (sub_map (subs m))(?k := None)"
      using up(2) i sub_zero_ok(2) by (auto simp: fun_eq_iff)
    ultimately show ?thesis using fs Some up(1) by (simp add: nostr_subscription_remove_def)
  qed
qed

lemma remove_client_loop_ok:
  assumes "manager_ok m" "\<forall>i \<in> set xs. i < 256"
  shows "\<exists>r' m'. remove_client_loop fd xs r m = Some (r', m') \<and> manager_ok m' \<and> r' + sub_count m' = r + sub_count m \<and>
    sub_map (subs m') = (\<lambda>k. if fst k = fd \<and> (\<exists>i \<in> set xs. sub_active (subs m ! i) \<and> sub_key (subs m ! i) = k) then None
      else sub_map (subs m) k)"
  using assms
proof (induction xs arbitrary: r m)
  case (Cons i xs)
  note M = manager_okD [OF Cons.prems(1)]
  have i: "i < 256" "\<forall>j \<in> set xs. j < 256" using Cons.prems(2) by simp_all
  have key: "fst (sub_key s) = sub_client_fd s" for s by (simp add: sub_key_def id_key_def)
  show ?case
  proof (cases "sub_active (subs m ! i) \<and> sub_client_fd (subs m ! i) = fd")
    case False
    then have "\<not> (fst k = fd \<and> sub_active (subs m ! i) \<and> sub_key (subs m ! i) = k)" for k using key [of "subs m ! i"] by auto
    then have eq: "(fst k = fd \<and> (\<exists>j \<in> set (i # xs). sub_active (subs m ! j) \<and> sub_key (subs m ! j) = k)) \<longleftrightarrow>
        (fst k = fd \<and> (\<exists>j \<in> set xs. sub_active (subs m ! j) \<and> sub_key (subs m ! j) = k))" for k
      by (metis list.set_intros(2) set_ConsD)
    have "remove_client_loop fd (i # xs) r m = remove_client_loop fd xs r m"
      using i(1) M(1) False by (cases "sub_active (subs m ! i)") simp_all
    then show ?thesis unfolding eq using Cons.IH [OF Cons.prems(1) i(2), of r] by simp
  next
    case True
    let ?m = "m\<lparr>subs := (subs m)[i := sub_zero], sub_count := sub_count m - 1\<rparr>"
    have pos: "0 < sub_count m"
      using i True M(1,3) by (auto simp: length_greater_0_conv [symmetric] filter_empty_conv simp del: length_greater_0_conv intro: nth_mem)
    have n: "sub_count m - 1 + (if sub_active (subs m ! i) then 1 else 0) = sub_count m + (if sub_active sub_zero then 1 else 0)"
      using True pos sub_zero_ok by simp
    have up: "manager_ok ?m"
      "sub_map (subs ?m) = (\<lambda>k. if sub_active (subs m ! i) \<and> k = sub_key (subs m ! i) then None else sub_map (subs m) k)"
      using manager_ok_update [OF Cons.prems(1) i(1) sub_zero_ok(1) _ n] sub_zero_ok(2) by auto
    have c: "(sub_count m + 2 ^ 64 - 1) mod 2 ^ 64 = sub_count m - 1" using pos M(5) by (simp add: mod_if)
    obtain r' m' where ih: "remove_client_loop fd xs (r + 1) ?m = Some (r', m')" "manager_ok m'"
      "r' + sub_count m' = r + 1 + sub_count ?m"
      "sub_map (subs m') = (\<lambda>k. if fst k = fd \<and> (\<exists>j \<in> set xs. sub_active (subs ?m ! j) \<and> sub_key (subs ?m ! j) = k) then None
        else sub_map (subs ?m) k)"
      using Cons.IH [OF up(1) i(2), of "r + 1"] by blast
    have "sub_map (subs m') k = (if fst k = fd \<and> (\<exists>j \<in> set (i # xs). sub_active (subs m ! j) \<and> sub_key (subs m ! j) = k) then None
        else sub_map (subs m) k)" for k
    proof (cases "k = sub_key (subs m ! i)")
      case k: True
      then have "fst k = fd \<and> (\<exists>j \<in> set (i # xs). sub_active (subs m ! j) \<and> sub_key (subs m ! j) = k)"
        using True key [of "subs m ! i"] by auto
      moreover have "sub_map (subs m') k = None" using k True unfolding ih(4) up(2) by simp
      ultimately show ?thesis by simp
    next
      case False
      then have "(sub_active (subs ?m ! j) \<and> sub_key (subs ?m ! j) = k) \<longleftrightarrow> (sub_active (subs m ! j) \<and> sub_key (subs m ! j) = k)"
        if "j \<in> set xs" "j \<noteq> i" for j using that by simp
      moreover have "\<not> sub_active (subs ?m ! i)" using i(1) M(1) sub_zero_ok(2) by simp
      ultimately have eq: "(\<exists>j \<in> set xs. sub_active (subs ?m ! j) \<and> sub_key (subs ?m ! j) = k) \<longleftrightarrow>
          (\<exists>j \<in> set (i # xs). sub_active (subs m ! j) \<and> sub_key (subs m ! j) = k)" using False by (metis set_ConsD list.set_intros(2))
      show ?thesis unfolding ih(4) up(2) eq by (simp only: False simp_thms if_False)
    qed
    then show ?thesis using ih(1,2,3) True i(1) M(1) c pos by auto
  qed
qed simp

lemma remove_client_ok:
  assumes m: "manager_ok m"
  shows "\<exists>r m'. nostr_subscription_remove_client m fd = Some (r, m') \<and> manager_ok m' \<and> r + sub_count m' = sub_count m \<and>
    sub_map (subs m') = (\<lambda>k. if fst k = fd then None else sub_map (subs m) k)"
proof -
  obtain r m' where e: "remove_client_loop fd [0..<256] 0 m = Some (r, m')" "manager_ok m'" "r + sub_count m' = 0 + sub_count m"
    "sub_map (subs m') = (\<lambda>k. if fst k = fd \<and> (\<exists>i \<in> set [0..<256]. sub_active (subs m ! i) \<and> sub_key (subs m ! i) = k) then None
      else sub_map (subs m) k)"
    using remove_client_loop_ok [OF m, of "[0..<256]" fd 0] by auto
  have "\<not> (\<exists>i \<in> set [0..<256]. sub_active (subs m ! i) \<and> sub_key (subs m ! i) = k) \<Longrightarrow> sub_map (subs m) k = None" for k
    using manager_okD(1) [OF m] by (auto simp: sub_map_None)
  then have "sub_map (subs m') = (\<lambda>k. if fst k = fd then None else sub_map (subs m) k)" unfolding e(4) by (auto simp: fun_eq_iff)
  then show ?thesis using e by (simp add: nostr_subscription_remove_client_def)
qed

lemma find_ok:
  assumes m: "manager_ok m" and sid: "id_ok sid"
  shows "\<exists>r. nostr_subscription_find m fd sid = Some r \<and>
    sub_map (subs m) (id_key fd sid) = map_option (\<lambda>i. sub_view (subs m ! i)) r"
proof -
  note M = manager_okD [OF m]
  let ?P = "\<lambda>i. sub_active (subs m ! i) \<and> sub_key (subs m ! i) = id_key fd sid"
  note fs = find_sub_manager [OF m sid, of fd]
  show ?thesis
  proof (cases "List.find ?P [0..<256]")
    case None
    then have "sub_map (subs m) (id_key fd sid) = None" using find_upt_None [OF None] M(1) by (simp add: sub_map_None)
    then show ?thesis using fs None by (simp add: nostr_subscription_find_def)
  next
    case (Some i)
    then have "i < 256" "?P i" using find_upt_Some [OF Some] by auto
    then have "sub_map (subs m) (id_key fd sid) = Some (sub_view (subs m ! i))"
      using M(1) by (auto simp: sub_map_iff [OF M(2)])
    then show ?thesis using fs Some by (simp add: nostr_subscription_find_def)
  qed
qed

section \<open>Matching\<close>

definition sub_wants :: "nostr_event \<Rightarrow> subscription \<Rightarrow> bool" where
  "sub_wants e s \<longleftrightarrow> sub_active s \<and> (\<exists>f \<in> set (sub_view s). filter_spec f e)"

lemma match_filters_eq:
  assumes "event_ok e" "\<forall>i \<in> set xs. i < length fs \<and> filter_ok (fs ! i)"
  shows "match_filters fs e xs = Some (\<exists>i \<in> set xs. filter_spec (fs ! i) e)"
  using assms(2) by (induction xs) (auto simp: nostr_filter_matches_eq [OF assms(1)])

lemma matches_event_eq:
  assumes e: "event_ok e" and s: "sub_ok s"
  shows "nostr_subscription_matches_event s e = Some (sub_wants e s)"
proof (cases "sub_active s")
  case True
  then have l: "sub_filters_count s \<le> length (sub_filters s)" and ok: "\<forall>f \<in> set (sub_view s). filter_ok f"
    using s by (simp_all add: sub_ok_def)
  have "match_filters (sub_filters s) e [0..<sub_filters_count s] = Some (\<exists>f \<in> set (sub_view s). filter_spec f e)"
    using match_filters_eq [OF e, of "[0..<sub_filters_count s]" "sub_filters s"] l ok
    by (auto simp: sub_view_def nth_image [OF l, symmetric])
  then show ?thesis using True by (simp add: nostr_subscription_matches_event_def sub_wants_def)
qed (simp add: nostr_subscription_matches_event_def sub_wants_def)

lemma find_matching_loop_eq:
  assumes "event_ok e" "\<forall>i \<in> set xs. i < length tbl \<and> sub_ok (tbl ! i)"
  shows "find_matching_loop tbl e xs called = Some (called @ List.filter (sub_wants e) (map ((!) tbl) xs))"
  using assms(2) by (induction xs arbitrary: called) (auto simp: matches_event_eq [OF assms(1)] sub_wants_def)

lemma find_matching_eq:
  assumes "event_ok e" and m: "manager_ok m"
  shows "nostr_subscription_find_matching m e =
    Some (length (List.filter (sub_wants e) (subs m)), List.filter (sub_wants e) (subs m))"
proof -
  have "map ((!) (subs m)) [0..<256] = subs m" using manager_okD(1) [OF m] map_nth [of "subs m"] by simp
  then show ?thesis
    using find_matching_loop_eq [OF assms(1), of "[0..<256]" "subs m" "[]"] manager_okD [OF m]
    by (simp add: nostr_subscription_find_matching_def)
qed

lemma manager_init_ok: "manager_ok (snd (nostr_subscription_manager_init True))"
  "sub_map (subs (snd (nostr_subscription_manager_init True))) = Map.empty"
  using sub_zero_ok by (auto simp: nostr_subscription_manager_init_def manager_ok_def unique_subs_def filter_False fun_eq_iff sub_map_None)

section \<open>Properties\<close>

text \<open>
  C25: Adding a subscription is the update of a map from pairs of client and id, in lower case, to
  lists of filters, and keeps the table well-formed; it is refused only when all 256 places are taken.
\<close>

theorem nostr_subscription_add_refines:
  assumes "manager_ok m" "req_ok r"
  shows "\<exists>i m'. nostr_subscription_add m fd r = Some (i, m') \<and> manager_ok m' \<and>
    (if i = None then m' = m \<and> sub_map (subs m) (id_key fd (req_id r)) = None \<and> sub_count m = 256
     else sub_map (subs m') = (sub_map (subs m))(id_key fd (req_id r) \<mapsto> req_view r))"
  by (rule add_ok [OF assms])

text \<open>
  C26: CLOSE removes exactly the named subscription of the client and reports whether it was there; the
  end of a connection removes all subscriptions of the client and no others and returns how
  many they were.
\<close>

theorem nostr_subscription_remove_refines:
  assumes "manager_ok m" "id_ok sid"
  shows "(\<exists>m'. nostr_subscription_remove m fd sid = Some (sub_map (subs m) (id_key fd sid) \<noteq> None, m') \<and> manager_ok m' \<and>
      sub_map (subs m') = (sub_map (subs m))(id_key fd sid := None)) \<and>
    (\<exists>r m'. nostr_subscription_remove_client m fd = Some (r, m') \<and> manager_ok m' \<and> r + sub_count m' = sub_count m \<and>
      sub_map (subs m') = (\<lambda>k. if fst k = fd then None else sub_map (subs m) k))"
  using remove_ok [OF assms] remove_client_ok [OF assms(1)] by blast

text \<open>
  C27: A new event is handed to exactly the subscriptions with a filter it satisfies, in the order
  of the table and each once.
\<close>

theorem nostr_subscription_find_matching_exact:
  assumes "event_ok e" "manager_ok m"
  shows "nostr_subscription_find_matching m e =
    Some (length (List.filter (sub_wants e) (subs m)), List.filter (sub_wants e) (subs m))"
  by (rule find_matching_eq [OF assms])

definition ex_req :: nostr_req where
  "ex_req = \<lparr>req_id = [65] @ replicate 64 0, req_filters = replicate 16 nostr_filter_init, req_filters_count = 1\<rparr>"

lemma ex_req_ok: "req_ok ex_req" "id_ok (req_id ex_req)"
  by (simp_all add: req_ok_def ex_req_def id_ok_def cstr_def filter_ok_def nostr_filter_init_def filter_id_ok_def)

definition ex_manager :: subscription_manager where
  "ex_manager = snd (nostr_subscription_manager_init True)"

theorem nostr_subscription_add_refines_witness:
  "\<exists>i m'. nostr_subscription_add ex_manager 5 ex_req = Some (i, m') \<and> sub_map (subs m') (5, [97]) \<noteq> None"
proof -
  have m: "manager_ok ex_manager" "sub_map (subs ex_manager) = Map.empty" "sub_count ex_manager = 0"
    using manager_init_ok by (simp_all add: ex_manager_def nostr_subscription_manager_init_def)
  have k: "id_key 5 (req_id ex_req) = (5, [97])" by (simp add: id_key_def ex_req_def cstr_def lower_def is_upper_def)
  show ?thesis using nostr_subscription_add_refines [OF m(1) ex_req_ok(1), of 5] m(2,3) k by (auto split: if_splits)
qed

theorem nostr_subscription_remove_refines_witness:
  "\<exists>m'. nostr_subscription_remove ex_manager 5 (req_id ex_req) = Some (False, m')"
proof -
  have m: "manager_ok ex_manager" "sub_map (subs ex_manager) = Map.empty"
    using manager_init_ok by (simp_all add: ex_manager_def)
  show ?thesis using nostr_subscription_remove_refines [OF m(1) ex_req_ok(2), of 5] m(2) by auto
qed

theorem nostr_subscription_find_matching_exact_witness:
  "nostr_subscription_find_matching ex_manager (ex_event []) = Some (0, [])"
proof -
  have e: "event_ok (ex_event [])" by (rule ex_event_ok) simp_all
  have m: "manager_ok ex_manager" using manager_init_ok by (simp add: ex_manager_def)
  have "List.filter (sub_wants (ex_event [])) (subs ex_manager) = []"
    using sub_zero_ok(2) by (auto simp: filter_empty_conv ex_manager_def nostr_subscription_manager_init_def sub_wants_def)
  then show ?thesis using nostr_subscription_find_matching_exact [OF e m] by simp
qed

end
