(* ===== verification/Json.thy ===== *)
theory Json
  imports CString
begin

text \<open>
  The JSON tokenizer \<open>src/json/jsmn.h\<close> and its wrapper \<open>src/json/json_wrapper.c\<close>.
  The macros \<open>JSMN_STRICT\<close> and \<open>JSMN_PARENT_LINKS\<close> are not set in this repository and the
  wrapper passes a token array, so this is the code that is translated. The tokens lie in
  an array of fixed length; the pointer to a token is its index. The text has at most
  \<open>2 ^ 31\<close> bytes (its length comes from \<open>strlen\<close>, an \<open>int32_t\<close>), so positions and
  counters do not wrap. A read or write outside of the text or the token array is \<open>None\<close>.
\<close>

section \<open>Data\<close>

datatype jsmntype = JSMN_UNDEFINED | JSMN_OBJECT | JSMN_ARRAY | JSMN_STRING | JSMN_PRIMITIVE

record jsmntok =
  tok_type :: jsmntype
  tok_start :: int
  tok_end :: int
  tok_size :: int

record jsmn_parser =
  jp_pos :: nat
  jp_toknext :: nat
  jp_toksuper :: int

abbreviation (input) "JSMN_ERROR_NOMEM \<equiv> (-1 :: int)"
abbreviation (input) "JSMN_ERROR_INVAL \<equiv> (-2 :: int)"
abbreviation (input) "JSMN_ERROR_PART \<equiv> (-3 :: int)"
abbreviation (input) "JSON_TOKEN_CAPACITY \<equiv> (4096 :: nat)"

definition token_at :: "jsmntok list \<Rightarrow> int \<Rightarrow> jsmntok option" where
  "token_at tokens i = (if 0 \<le> i \<and> nat i < length tokens then Some (tokens ! nat i) else None)"

section \<open>The tokenizer\<close>

definition jsmn_init :: jsmn_parser where
  "jsmn_init = \<lparr>jp_pos = 0, jp_toknext = 0, jp_toksuper = -1\<rparr>"

text \<open>The index of the new token, or \<open>None\<close> for the null pointer.\<close>

definition jsmn_alloc_token ::
    "jsmn_parser \<Rightarrow> jsmntok list \<Rightarrow> nat \<Rightarrow> (nat option \<times> jsmn_parser \<times> jsmntok list) option" where
  "jsmn_alloc_token parser tokens num_tokens =
     (if jp_toknext parser \<ge> num_tokens then Some (None, parser, tokens)
      else do {
        tok \<leftarrow> token_at tokens (int (jp_toknext parser));
        Some (Some (jp_toknext parser), parser\<lparr>jp_toknext := jp_toknext parser + 1\<rparr>,
              tokens[jp_toknext parser := tok\<lparr>tok_start := -1, tok_end := -1, tok_size := 0\<rparr>])
      })"

definition jsmn_fill_token :: "jsmntok \<Rightarrow> jsmntype \<Rightarrow> int \<Rightarrow> int \<Rightarrow> jsmntok" where
  "jsmn_fill_token token type start end1 =
     token\<lparr>tok_type := type, tok_start := start, tok_end := end1, tok_size := 0\<rparr>"

text \<open>
  The characters that end a primitive: colon, tab, carriage return, line feed, space, comma, closing
  brackets. \<open>char\<close> is signed, so bytes from 128 on are less than 32.
\<close>

definition ends_primitive :: "byte \<Rightarrow> bool" where
  "ends_primitive c \<longleftrightarrow> c \<in> {58, 9, 13, 10, 32, 44, 93, 125}"

text \<open>The result: whether the label \<open>found\<close> is reached, and the position.\<close>

function primitive_loop :: "byte list \<Rightarrow> nat \<Rightarrow> nat \<Rightarrow> (bool \<times> nat) option" where
  "primitive_loop js len pos =
     (if pos < len then do {
        c \<leftarrow> char_at js pos;
        if c = 0 then Some (True, pos)
        else if ends_primitive c then Some (True, pos)
        else if c < 32 \<or> c \<ge> 127 then Some (False, pos)
        else primitive_loop js len (pos + 1)
      }
      else Some (True, pos))"
  by pat_completeness auto
termination by (relation "measure (\<lambda>(js, len, pos). len - pos)") auto

declare primitive_loop.simps [simp del]

definition jsmn_parse_primitive ::
    "jsmn_parser \<Rightarrow> byte list \<Rightarrow> nat \<Rightarrow> jsmntok list \<Rightarrow> nat \<Rightarrow> (int \<times> jsmn_parser \<times> jsmntok list) option" where
  "jsmn_parse_primitive parser js len tokens num_tokens = do {
     let start = jp_pos parser;
     (found, pos) \<leftarrow> primitive_loop js len start;
     if \<not> found then Some (JSMN_ERROR_INVAL, parser, tokens)
     else do {
       (token, parser, tokens) \<leftarrow> jsmn_alloc_token (parser\<lparr>jp_pos := pos\<rparr>) tokens num_tokens;
       case token of
         None \<Rightarrow> Some (JSMN_ERROR_NOMEM, parser\<lparr>jp_pos := start\<rparr>, tokens)
       | Some t \<Rightarrow> Some (0, parser\<lparr>jp_pos := pos - 1\<rparr>,
                      tokens[t := jsmn_fill_token (tokens ! t) JSMN_PRIMITIVE (int start) (int pos)])
     }
   }"

definition is_hex_digit :: "byte \<Rightarrow> bool" where
  "is_hex_digit c \<longleftrightarrow> (c \<ge> 48 \<and> c \<le> 57) \<or> (c \<ge> 65 \<and> c \<le> 70) \<or> (c \<ge> 97 \<and> c \<le> 102)"

text \<open>The four digits of a Unicode escape; \<open>None\<close> for a character that is no digit.\<close>

primrec unicode_loop :: "byte list \<Rightarrow> nat \<Rightarrow> nat list \<Rightarrow> nat \<Rightarrow> nat option option" where
  "unicode_loop js len [] pos = Some (Some pos)"
| "unicode_loop js len (i # is) pos =
     (if pos < len then do {
        c \<leftarrow> char_at js pos;
        if c = 0 then Some (Some pos)
        else if \<not> is_hex_digit c then Some None
        else unicode_loop js len is (pos + 1)
      }
      else Some (Some pos))"

lemma unicode_loop_ge: "unicode_loop js len xs pos = Some (Some p) \<Longrightarrow> pos \<le> p"
  by (induction xs arbitrary: pos) (auto simp: Option.bind_eq_Some_conv split: if_splits dest: Suc_leD)

text \<open>
  34, 92 and 117 are the quote, the backslash and u; the letters that may follow a backslash are
  the quote, slash, backslash, b, f, r, n and t. The result is 0 at the closing quote, or an error.
\<close>

function string_loop :: "byte list \<Rightarrow> nat \<Rightarrow> nat \<Rightarrow> (int \<times> nat) option" where
  "string_loop js len pos =
     (if pos < len then
        (case char_at js pos of
           None \<Rightarrow> None
         | Some c \<Rightarrow>
             if c = 0 then Some (JSMN_ERROR_PART, pos)
             else if c = 34 then Some (0, pos)
             else if c = 92 \<and> pos + 1 < len then
               (case char_at js (pos + 1) of
                  None \<Rightarrow> None
                | Some d \<Rightarrow>
                    if d \<in> {34, 47, 92, 98, 102, 114, 110, 116} then string_loop js len (pos + 2)
                    else if d = 117 then
                      (case unicode_loop js len [0..<4] (pos + 2) of
                         None \<Rightarrow> None
                       | Some None \<Rightarrow> Some (JSMN_ERROR_INVAL, pos)
                       | Some (Some p) \<Rightarrow> string_loop js len p)
                    else Some (JSMN_ERROR_INVAL, pos))
             else string_loop js len (pos + 1))
      else Some (JSMN_ERROR_PART, pos))"
  by pat_completeness auto
termination
  by (relation "measure (\<lambda>(js, len, pos). len - pos)") (auto dest!: unicode_loop_ge)

declare string_loop.simps [simp del]

definition jsmn_parse_string ::
    "jsmn_parser \<Rightarrow> byte list \<Rightarrow> nat \<Rightarrow> jsmntok list \<Rightarrow> nat \<Rightarrow> (int \<times> jsmn_parser \<times> jsmntok list) option" where
  "jsmn_parse_string parser js len tokens num_tokens = do {
     let start = jp_pos parser;
     (r, pos) \<leftarrow> string_loop js len (start + 1);
     if r < 0 then Some (r, parser, tokens)
     else do {
       (token, parser, tokens) \<leftarrow> jsmn_alloc_token (parser\<lparr>jp_pos := pos\<rparr>) tokens num_tokens;
       case token of
         None \<Rightarrow> Some (JSMN_ERROR_NOMEM, parser\<lparr>jp_pos := start\<rparr>, tokens)
       | Some t \<Rightarrow> Some (0, parser,
                      tokens[t := jsmn_fill_token (tokens ! t) JSMN_STRING (int start + 1) (int pos)])
     }
   }"

text \<open>The token to count in: \<open>size++\<close> of the superior token.\<close>

definition size_inc :: "jsmn_parser \<Rightarrow> jsmntok list \<Rightarrow> jsmntok list option" where
  "size_inc parser tokens =
     (if jp_toksuper parser \<noteq> -1 then do {
        t \<leftarrow> token_at tokens (jp_toksuper parser);
        Some (tokens[nat (jp_toksuper parser) := t\<lparr>tok_size := tok_size t + 1\<rparr>])
      }
      else Some tokens)"

definition tok_open :: "jsmntok \<Rightarrow> bool" where
  "tok_open t \<longleftrightarrow> tok_start t \<noteq> -1 \<and> tok_end t = -1"

definition tok_container :: "jsmntok \<Rightarrow> bool" where
  "tok_container t \<longleftrightarrow> tok_type t = JSMN_ARRAY \<or> tok_type t = JSMN_OBJECT"

text \<open>The loops over the tokens from the last one down.\<close>

primrec find_down :: "(jsmntok \<Rightarrow> bool) \<Rightarrow> jsmntok list \<Rightarrow> nat list \<Rightarrow> nat option option" where
  "find_down P tokens [] = Some None"
| "find_down P tokens (i # is) = do {
     t \<leftarrow> token_at tokens (int i);
     if P t then Some (Some i) else find_down P tokens is
   }"

text \<open>
  One round of the loop in \<open>jsmn_parse\<close> for the character \<open>c\<close>: the value to return at once,
  or 0 to go on.
\<close>

definition jsmn_open :: "byte \<Rightarrow> jsmn_parser \<Rightarrow> jsmntok list \<Rightarrow> nat \<Rightarrow> (int \<times> jsmn_parser \<times> jsmntok list) option" where
  "jsmn_open c parser tokens num_tokens = do {
     (token, parser, tokens) \<leftarrow> jsmn_alloc_token parser tokens num_tokens;
     case token of
       None \<Rightarrow> Some (JSMN_ERROR_NOMEM, parser, tokens)
     | Some t \<Rightarrow> do {
         tokens \<leftarrow> size_inc parser tokens;
         let tokens = tokens[t := (tokens ! t)\<lparr>tok_type := (if c = 123 then JSMN_OBJECT else JSMN_ARRAY),
                                             tok_start := int (jp_pos parser)\<rparr>];
         Some (0, parser\<lparr>jp_toksuper := int (jp_toknext parser) - 1\<rparr>, tokens)
       }
   }"

definition jsmn_close :: "byte \<Rightarrow> jsmn_parser \<Rightarrow> jsmntok list \<Rightarrow> (int \<times> jsmn_parser \<times> jsmntok list) option" where
  "jsmn_close c parser tokens = do {
     let type = (if c = 125 then JSMN_OBJECT else JSMN_ARRAY);
     r \<leftarrow> find_down tok_open tokens (rev [0..<jp_toknext parser]);
     case r of
       None \<Rightarrow> Some (JSMN_ERROR_INVAL, parser, tokens)
     | Some i \<Rightarrow>
         if tok_type (tokens ! i) \<noteq> type then Some (JSMN_ERROR_INVAL, parser, tokens)
         else do {
           let tokens = tokens[i := (tokens ! i)\<lparr>tok_end := int (jp_pos parser) + 1\<rparr>];
           r \<leftarrow> find_down tok_open tokens (rev [0..<i + 1]);
           Some (0, parser\<lparr>jp_toksuper := (case r of None \<Rightarrow> -1 | Some j \<Rightarrow> int j)\<rparr>, tokens)
         }
   }"

definition jsmn_comma :: "jsmn_parser \<Rightarrow> jsmntok list \<Rightarrow> (int \<times> jsmn_parser \<times> jsmntok list) option" where
  "jsmn_comma parser tokens =
     (if jp_toksuper parser \<noteq> -1 then do {
        t \<leftarrow> token_at tokens (jp_toksuper parser);
        if \<not> tok_container t then do {
          r \<leftarrow> find_down (\<lambda>t. tok_container t \<and> tok_open t) tokens (rev [0..<jp_toknext parser]);
          Some (0, (case r of None \<Rightarrow> parser | Some i \<Rightarrow> parser\<lparr>jp_toksuper := int i\<rparr>), tokens)
        }
        else Some (0, parser, tokens)
      }
      else Some (0, parser, tokens))"

definition jsmn_step ::
    "byte \<Rightarrow> byte list \<Rightarrow> nat \<Rightarrow> nat \<Rightarrow> int \<times> jsmn_parser \<times> jsmntok list \<Rightarrow> (int \<times> int \<times> jsmn_parser \<times> jsmntok list) option" where
  "jsmn_step c js len num_tokens = (\<lambda>(count, parser, tokens).
     if c = 123 \<or> c = 91 then do {
       (r, parser, tokens) \<leftarrow> jsmn_open c parser tokens num_tokens;
       Some (r, count + 1, parser, tokens)
     }
     else if c = 125 \<or> c = 93 then do {
       (r, parser, tokens) \<leftarrow> jsmn_close c parser tokens;
       Some (r, count, parser, tokens)
     }
     else if c = 34 then do {
       (r, parser, tokens) \<leftarrow> jsmn_parse_string parser js len tokens num_tokens;
       if r < 0 then Some (r, count, parser, tokens)
       else do {
         tokens \<leftarrow> size_inc parser tokens;
         Some (0, count + 1, parser, tokens)
       }
     }
     else if c = 9 \<or> c = 13 \<or> c = 10 \<or> c = 32 then Some (0, count, parser, tokens)
     else if c = 58 then Some (0, count, parser\<lparr>jp_toksuper := int (jp_toknext parser) - 1\<rparr>, tokens)
     else if c = 44 then do {
       (r, parser, tokens) \<leftarrow> jsmn_comma parser tokens;
       Some (r, count, parser, tokens)
     }
     else do {
       (r, parser, tokens) \<leftarrow> jsmn_parse_primitive parser js len tokens num_tokens;
       if r < 0 then Some (r, count, parser, tokens)
       else do {
         tokens \<leftarrow> size_inc parser tokens;
         Some (0, count + 1, parser, tokens)
       }
     })"

partial_function (option) jsmn_parse_loop ::
    "byte list \<Rightarrow> nat \<Rightarrow> nat \<Rightarrow> int \<Rightarrow> jsmn_parser \<Rightarrow> jsmntok list \<Rightarrow> (int \<times> int \<times> jsmn_parser \<times> jsmntok list) option" where
  "jsmn_parse_loop js len num_tokens count parser tokens =
     (if jp_pos parser < len then do {
        c \<leftarrow> char_at js (jp_pos parser);
        if c = 0 then Some (0, count, parser, tokens)
        else do {
          (r, count, parser, tokens) \<leftarrow> jsmn_step c js len num_tokens (count, parser, tokens);
          if r < 0 then Some (r, count, parser, tokens)
          else jsmn_parse_loop js len num_tokens count (parser\<lparr>jp_pos := jp_pos parser + 1\<rparr>) tokens
        }
      }
      else Some (0, count, parser, tokens))"

declare jsmn_parse_loop.simps [code]

definition jsmn_parse ::
    "jsmn_parser \<Rightarrow> byte list \<Rightarrow> nat \<Rightarrow> jsmntok list \<Rightarrow> nat \<Rightarrow> (int \<times> jsmn_parser \<times> jsmntok list) option" where
  "jsmn_parse parser js len tokens num_tokens = do {
     (r, count, parser, tokens) \<leftarrow> jsmn_parse_loop js len num_tokens (int (jp_toknext parser)) parser tokens;
     if r < 0 then Some (r, parser, tokens)
     else do {
       r \<leftarrow> find_down tok_open tokens (rev [0..<jp_toknext parser]);
       case r of
         Some i \<Rightarrow> Some (JSMN_ERROR_PART, parser, tokens)
       | None \<Rightarrow> Some (count, parser, tokens)
     }
   }"

section \<open>The wrapper\<close>

definition json_wrapper_parse ::
    "jsmn_parser \<Rightarrow> byte list \<Rightarrow> nat \<Rightarrow> jsmntok list \<Rightarrow> nat \<Rightarrow> (int \<times> jsmn_parser \<times> jsmntok list) option" where
  "json_wrapper_parse parser json json_len tokens num_tokens =
     (if json_len \<le> 0 then Some (0, parser, tokens)
      else if num_tokens \<le> 0 then Some (0, parser, tokens)
      else jsmn_parse parser json json_len tokens num_tokens)"

definition json_wrapper_is_primitive :: "jsmntok \<Rightarrow> bool" where
  "json_wrapper_is_primitive token \<longleftrightarrow> tok_type token = JSMN_PRIMITIVE"

definition json_wrapper_is_string :: "jsmntok \<Rightarrow> bool" where
  "json_wrapper_is_string token \<longleftrightarrow> tok_type token = JSMN_STRING"

definition json_wrapper_is_array :: "jsmntok \<Rightarrow> bool" where
  "json_wrapper_is_array token \<longleftrightarrow> tok_type token = JSMN_ARRAY"

definition json_wrapper_is_object :: "jsmntok \<Rightarrow> bool" where
  "json_wrapper_is_object token \<longleftrightarrow> tok_type token = JSMN_OBJECT"

text \<open>The pointer to the byte at position \<open>i\<close>, \<open>None\<close> outside of the text.\<close>

definition json_from :: "byte list \<Rightarrow> int \<Rightarrow> byte list option" where
  "json_from json i = (if 0 \<le> i \<and> nat i \<le> length json then Some (drop (nat i) json) else None)"

definition json_wrapper_strncmp :: "byte list \<Rightarrow> jsmntok \<Rightarrow> byte list \<Rightarrow> nat \<Rightarrow> bool option" where
  "json_wrapper_strncmp json token str str_len =
     (if str_len \<le> 0 then Some False
      else if \<not> json_wrapper_is_string token then Some False
      else do {
        s \<leftarrow> json_from json (tok_start token);
        eq \<leftarrow> nostr_strncmp s str str_len;
        if \<not> eq then Some False else Some True
      })"

text \<open>The difference is converted to \<open>size_t\<close>.\<close>

definition json_wrapper_get_token_length :: "jsmntok \<Rightarrow> nat" where
  "json_wrapper_get_token_length token = nat ((tok_end token - tok_start token) mod 2 ^ 64)"

section \<open>What the loops do\<close>

lemma find_down_eq:
  "\<forall>i \<in> set xs. i < length tokens \<Longrightarrow> find_down P tokens xs = Some (List.find (\<lambda>i. P (tokens ! i)) xs)"
  by (induction xs) (auto simp: token_at_def)

lemma find_rev_upt: "List.find P (rev [0..<n]) = Some i \<Longrightarrow> i < n \<and> P i"
  using find_Some_iff [of P "rev [0..<n]"] by (force simp: rev_nth)

lemma find_rev_upt_None: "List.find P (rev [0..<n]) = None \<Longrightarrow> i < n \<Longrightarrow> \<not> P i"
  by (auto simp: find_None_iff)

lemma primitive_loop_ok:
  assumes "len \<le> length js" "pos \<le> len"
  shows "\<exists>b p. primitive_loop js len pos = Some (b, p) \<and> pos \<le> p \<and> p \<le> len \<and>
    (pos < len \<longrightarrow> js ! pos \<noteq> 0 \<longrightarrow> \<not> ends_primitive (js ! pos) \<longrightarrow> b \<longrightarrow> pos < p)"
  using assms
proof (induction js len pos rule: primitive_loop.induct)
  case (1 js len pos)
  show ?case
  proof (cases "pos < len \<and> js ! pos \<noteq> 0 \<and> \<not> ends_primitive (js ! pos) \<and> \<not> (js ! pos < 32 \<or> js ! pos \<ge> 127)")
    case True
    then have e: "primitive_loop js len pos = primitive_loop js len (pos + 1)"
      using "1.prems" by (subst primitive_loop.simps) simp
    have "\<exists>b p. primitive_loop js len (pos + 1) = Some (b, p) \<and> pos + 1 \<le> p \<and> p \<le> len \<and>
      (pos + 1 < len \<longrightarrow> js ! (pos + 1) \<noteq> 0 \<longrightarrow> \<not> ends_primitive (js ! (pos + 1)) \<longrightarrow> b \<longrightarrow> pos + 1 < p)"
      using True "1.prems" by (intro "1.IH") auto
    then show ?thesis unfolding e by auto
  next
    case False
    then show ?thesis using "1.prems" by (subst (1) primitive_loop.simps) auto
  qed
qed

lemma unicode_loop_ok:
  "len \<le> length js \<Longrightarrow> pos \<le> len \<Longrightarrow>
   \<exists>r. unicode_loop js len xs pos = Some r \<and> (\<forall>p. r = Some p \<longrightarrow> pos \<le> p \<and> p \<le> len)"
proof (induction xs arbitrary: pos)
  case (Cons i xs)
  show ?case
  proof (cases "pos < len \<and> js ! pos \<noteq> 0 \<and> is_hex_digit (js ! pos)")
    case True
    then have "\<exists>r. unicode_loop js len xs (pos + 1) = Some r \<and> (\<forall>p. r = Some p \<longrightarrow> pos + 1 \<le> p \<and> p \<le> len)"
      using Cons by (intro Cons.IH) auto
    then show ?thesis using True Cons.prems by auto
  next
    case False
    then show ?thesis using Cons.prems by auto
  qed
qed simp

lemma string_loop_ok:
  assumes "len \<le> length js" "pos \<le> len"
  shows "\<exists>r p. string_loop js len pos = Some (r, p) \<and> r \<le> 0 \<and> (r = 0 \<longrightarrow> pos \<le> p \<and> p < len \<and> js ! p = 34)"
  using assms
proof (induction "len - pos" arbitrary: pos rule: less_induct)
  case less
  let ?go = "\<lambda>p. \<exists>r p'. string_loop js len p = Some (r, p') \<and> r \<le> 0 \<and> (r = 0 \<longrightarrow> pos \<le> p' \<and> p' < len \<and> js ! p' = 34)"
  have go: "?go p" if "pos < p" "p \<le> len" for p
  proof -
    have "\<exists>r p'. string_loop js len p = Some (r, p') \<and> r \<le> 0 \<and> (r = 0 \<longrightarrow> p \<le> p' \<and> p' < len \<and> js ! p' = 34)"
      using less(1) [of p] less(2) that by simp
    then show ?thesis using that by (metis le_trans less_imp_le_nat)
  qed
  consider "\<not> pos < len" | "pos < len" "js ! pos = 0" | "pos < len" "js ! pos = 34"
    | "pos < len" "js ! pos \<noteq> 0" "js ! pos \<noteq> 34" "\<not> (js ! pos = 92 \<and> pos + 1 < len)"
    | "js ! pos = 92" "pos + 1 < len" by linarith
  then show ?case
  proof cases
    case 4
    then have "string_loop js len pos = string_loop js len (pos + 1)"
      using less(2) by (subst string_loop.simps) auto
    then show ?thesis using go [of "pos + 1"] 4 by simp
  next
    case 5
    let ?d = "js ! (pos + 1)"
    obtain r where u: "unicode_loop js len [0..<4] (pos + 2) = Some r" "\<forall>p. r = Some p \<longrightarrow> pos + 2 \<le> p \<and> p \<le> len"
      using unicode_loop_ok [OF less(2), of "pos + 2" "[0..<4]"] 5 by auto
    have e: "string_loop js len pos =
      (if ?d \<in> {34, 47, 92, 98, 102, 114, 110, 116} then string_loop js len (pos + 2)
       else if ?d = 117 then
         (case r of None \<Rightarrow> Some (JSMN_ERROR_INVAL, pos) | Some p \<Rightarrow> string_loop js len p)
       else Some (JSMN_ERROR_INVAL, pos))"
      using 5 less(2) u(1) by (subst string_loop.simps) (simp add: option.case_distrib)
    show ?thesis
    proof (cases "?d \<in> {34, 47, 92, 98, 102, 114, 110, 116}")
      case True
      then show ?thesis using go [of "pos + 2"] 5 unfolding e by simp
    next
      case False
      then show ?thesis using u(2) go unfolding e by (cases r) auto
    qed
  qed (use less(2,3) in \<open>subst (1) string_loop.simps; simp\<close>)+
qed

section \<open>The invariant of the tokenizer\<close>

text \<open>
  Each token but the first is counted in the size of at most one token, which stands before it: the
  sizes of the tokens from the \<open>k\<close>-th on add up to less than their number.
\<close>

definition sizes_ok :: "int list \<Rightarrow> bool" where
  "sizes_ok zs \<longleftrightarrow> (\<forall>z \<in> set zs. 0 \<le> z) \<and> (\<forall>k < length zs. sum_list (drop k zs) < int (length zs) - int k)"

lemma sum_list_update_int: "k < length zs \<Longrightarrow> sum_list (zs[k := z]) = sum_list zs + z - zs ! k" for z :: int
proof (induction zs arbitrary: k)
  case (Cons x zs)
  then show ?case by (cases k) auto
qed simp

lemma sum_list_drop_update:
  fixes zs :: "int list"
  assumes "s < length zs"
  shows "sum_list (drop k (zs[s := z])) = sum_list (drop k zs) + (if k \<le> s then z - zs ! s else 0)"
proof (cases "k \<le> s")
  case True
  then have "s - k < length (drop k zs)" using assms by simp
  moreover have "drop k (zs[s := z]) = (drop k zs)[s - k := z]" using True by (simp add: drop_update_swap)
  ultimately show ?thesis using True assms by (simp add: sum_list_update_int)
qed (simp add: drop_update_cancel)

lemma sizes_ok_snoc: "sizes_ok zs \<Longrightarrow> sizes_ok (zs @ [0])"
  unfolding sizes_ok_def by (force simp: less_Suc_eq)

lemma sizes_ok_inc:
  assumes "sizes_ok zs" "s < length zs"
  shows "sizes_ok (zs[s := zs ! s + 1] @ [0])"
proof -
  have "0 \<le> zs ! s" using assms by (simp add: sizes_ok_def)
  then have "\<forall>z \<in> set (zs[s := zs ! s + 1]). 0 \<le> z"
    using assms set_update_subset_insert [of zs s "zs ! s + 1"] by (auto simp: sizes_ok_def)
  moreover have "sum_list (drop k (zs[s := zs ! s + 1] @ [0])) < 1 + int (length zs) - int k" if "k < Suc (length zs)" for k
  proof (cases "k = length zs")
    case False
    then have "sum_list (drop k zs) < int (length zs) - int k" using that assms(1) by (simp add: sizes_ok_def)
    then show ?thesis using that False by (simp add: sum_list_drop_update [OF assms(2)])
  qed simp
  ultimately show ?thesis by (simp add: sizes_ok_def)
qed

definition tok_inv :: "nat \<Rightarrow> nat \<Rightarrow> jsmntok \<Rightarrow> bool" where
  "tok_inv pos len t \<longleftrightarrow> tok_type t \<noteq> JSMN_UNDEFINED \<and> 0 \<le> tok_start t \<and> tok_start t \<le> int pos \<and>
     (tok_end t = -1 \<or> tok_start t \<le> tok_end t \<and> tok_end t \<le> int len)"

definition parser_inv :: "nat \<Rightarrow> nat \<Rightarrow> jsmn_parser \<Rightarrow> jsmntok list \<Rightarrow> bool" where
  "parser_inv len num_tokens p tokens \<longleftrightarrow>
     jp_toknext p \<le> num_tokens \<and> num_tokens \<le> length tokens \<and>
     (jp_toksuper p = -1 \<or> 0 \<le> jp_toksuper p \<and> jp_toksuper p < int (jp_toknext p)) \<and>
     sizes_ok (map tok_size (take (jp_toknext p) tokens)) \<and>
     (\<forall>t \<in> set (take (jp_toknext p) tokens). tok_inv (jp_pos p) len t)"

lemma tok_inv_mono: "tok_inv pos len t \<Longrightarrow> pos \<le> pos' \<Longrightarrow> tok_inv pos' len t"
  by (auto simp: tok_inv_def)

lemma parser_inv_pos: "parser_inv len num p tokens \<Longrightarrow> jp_pos p \<le> pos \<Longrightarrow> parser_inv len num (p\<lparr>jp_pos := pos\<rparr>) tokens"
  by (auto simp: parser_inv_def elim: tok_inv_mono)

lemma parser_inv_super:
  "parser_inv len num p tokens \<Longrightarrow> x = -1 \<or> 0 \<le> x \<and> x < int (jp_toknext p) \<Longrightarrow> parser_inv len num (p\<lparr>jp_toksuper := x\<rparr>) tokens"
  by (auto simp: parser_inv_def)

text \<open>The token array after a new token has been taken and counted.\<close>

definition add_tok :: "jsmn_parser \<Rightarrow> jsmntok list \<Rightarrow> jsmntok \<Rightarrow> jsmntok list" where
  "add_tok p tokens t =
     (let tokens = tokens[jp_toknext p := t]
      in if jp_toksuper p = -1 then tokens
         else tokens[nat (jp_toksuper p) := (tokens ! nat (jp_toksuper p))\<lparr>tok_size := tok_size (tokens ! nat (jp_toksuper p)) + 1\<rparr>])"

lemma parser_inv_add:
  assumes p: "parser_inv len num p tokens" and n: "jp_toknext p < num"
    and t: "tok_inv pos len t" "tok_size t = 0" and pos: "jp_pos p \<le> pos"
  shows "parser_inv len num (p\<lparr>jp_toknext := jp_toknext p + 1, jp_pos := pos\<rparr>) (add_tok p tokens t)"
    "length (add_tok p tokens t) = length tokens"
proof -
  let ?n = "jp_toknext p" and ?s = "nat (jp_toksuper p)"
  have l: "?n < length tokens" "num \<le> length tokens" using p n by (simp_all add: parser_inv_def)
  have old: "\<forall>u \<in> set (take ?n tokens). tok_inv pos len u" using p pos tok_inv_mono by (auto simp: parser_inv_def)
  have sz: "sizes_ok (map tok_size (take ?n tokens))" using p by (simp add: parser_inv_def)
  have tk: "take (?n + 1) (tokens[?n := t]) = take ?n tokens @ [t]" using l by (simp add: take_Suc_conv_app_nth)
  show "length (add_tok p tokens t) = length tokens" by (simp add: add_tok_def Let_def)
  show "parser_inv len num (p\<lparr>jp_toknext := ?n + 1, jp_pos := pos\<rparr>) (add_tok p tokens t)"
  proof (cases "jp_toksuper p = -1")
    case True
    then show ?thesis
      using l n old t sizes_ok_snoc [OF sz] tk by (auto simp: parser_inv_def add_tok_def)
  next
    case False
    then have s: "?s < ?n" "0 \<le> jp_toksuper p" "jp_toksuper p < int ?n" using p by (auto simp: parser_inv_def)
    let ?u = "(tokens ! ?s)\<lparr>tok_size := tok_size (tokens ! ?s) + 1\<rparr>"
    have sl: "?s < length (take ?n tokens)" using s l by simp
    have a: "add_tok p tokens t = tokens[?n := t, ?s := ?u]" using False s by (simp add: add_tok_def)
    have tk': "take (?n + 1) (tokens[?n := t, ?s := ?u]) = (take ?n tokens)[?s := ?u] @ [t]"
      by (subst take_update_swap, subst tk, rule list_update_append1 [OF sl])
    have "tok_inv pos len (take ?n tokens ! ?s)" using old sl nth_mem by blast
    then have "tok_inv pos len ?u" using s by (simp add: tok_inv_def)
    then have "\<forall>x \<in> set ((take ?n tokens)[?s := ?u] @ [t]). tok_inv pos len x"
      using old t(1) set_update_subset_insert [of "take ?n tokens" ?s ?u] by auto
    moreover have "sizes_ok (map tok_size ((take ?n tokens)[?s := ?u] @ [t]))"
      using sizes_ok_inc [OF sz, of ?s] sl s t(2) by (simp add: map_update)
    ultimately show ?thesis using s l n unfolding parser_inv_def a by (simp add: tk' [simplified])
  qed
qed

lemma jsmn_alloc_token_full: "num \<le> jp_toknext p \<Longrightarrow> jsmn_alloc_token p tokens num = Some (None, p, tokens)"
  by (simp add: jsmn_alloc_token_def)

lemma jsmn_alloc_token_eq:
  "jp_toknext p < num \<Longrightarrow> num \<le> length tokens \<Longrightarrow> jsmn_alloc_token p tokens num =
     Some (Some (jp_toknext p), p\<lparr>jp_toknext := jp_toknext p + 1\<rparr>,
       tokens[jp_toknext p := (tokens ! jp_toknext p)\<lparr>tok_start := -1, tok_end := -1, tok_size := 0\<rparr>])"
  by (simp add: jsmn_alloc_token_def token_at_def)

lemma size_inc_eq:
  assumes "parser_inv len num p tokens" "jp_toknext p < num"
    and "jp_toksuper q = jp_toksuper p" "jp_toknext q = jp_toknext p + 1"
  shows "size_inc q (tokens[jp_toknext p := t]) = Some (add_tok p tokens t)"
  using assms by (auto simp: size_inc_def token_at_def add_tok_def parser_inv_def)

lemma add_tok_update:
  assumes "parser_inv len num p tokens" "jp_toknext p < num"
  shows "(add_tok p tokens a)[jp_toknext p := f (add_tok p tokens a ! jp_toknext p)] = add_tok p tokens (f a)"
proof -
  have l: "jp_toknext p < length tokens" using assms by (simp add: parser_inv_def)
  have "jp_toksuper p \<noteq> -1 \<Longrightarrow> nat (jp_toksuper p) \<noteq> jp_toknext p" using assms(1) by (auto simp: parser_inv_def)
  then show ?thesis using l
    by (cases "jp_toksuper p = -1") (simp_all add: add_tok_def Let_def list_update_swap [of "jp_toknext p"])
qed

text \<open>What a step keeps: the invariant, the counter, the length of the token array.\<close>

definition step_post :: "nat \<Rightarrow> nat \<Rightarrow> int \<Rightarrow> jsmn_parser \<Rightarrow> jsmntok list \<Rightarrow> int \<Rightarrow> int \<Rightarrow> jsmn_parser \<Rightarrow> jsmntok list \<Rightarrow> bool" where
  "step_post len num c p tokens r c' p' tokens' \<longleftrightarrow> r \<le> 0 \<and> length tokens' = length tokens \<and>
     (r = 0 \<longrightarrow> parser_inv len num p' tokens' \<and> jp_pos p \<le> jp_pos p' \<and> jp_pos p' < len \<and>
        jp_toknext p \<le> jp_toknext p' \<and> c' - c = int (jp_toknext p') - int (jp_toknext p))"

lemma jsmn_open_ok:
  assumes p: "parser_inv len num p tokens" and len: "jp_pos p < len"
  shows "\<exists>r p' tokens'. jsmn_open ch p tokens num = Some (r, p', tokens') \<and> step_post len num c p tokens r (c + 1) p' tokens'"
proof (cases "jp_toknext p < num")
  case False
  then show ?thesis by (simp add: jsmn_open_def jsmn_alloc_token_full step_post_def)
next
  case True
  have l: "num \<le> length tokens" using p by (simp add: parser_inv_def)
  let ?a = "(tokens ! jp_toknext p)\<lparr>tok_start := -1, tok_end := -1, tok_size := 0\<rparr>"
  define ty where "ty = (if ch = 123 then JSMN_OBJECT else JSMN_ARRAY)"
  have ty: "ty \<noteq> JSMN_UNDEFINED" by (simp add: ty_def)
  let ?f = "\<lambda>t. t\<lparr>tok_type := ty, tok_start := int (jp_pos p)\<rparr>"
  let ?p = "p\<lparr>jp_toknext := jp_toknext p + 1\<rparr>"
  have e: "jsmn_open ch p tokens num = Some (0, ?p\<lparr>jp_toksuper := int (jp_toknext p)\<rparr>, add_tok p tokens (?f ?a))"
    using size_inc_eq [OF p True, of ?p ?a] add_tok_update [OF p True, of ?a ?f]
    by (simp add: jsmn_open_def jsmn_alloc_token_eq [OF True l] Let_def ty_def [symmetric])
  have "tok_inv (jp_pos p) len (?f ?a)" by (simp add: tok_inv_def ty)
  then have "parser_inv len num (?p\<lparr>jp_pos := jp_pos p\<rparr>) (add_tok p tokens (?f ?a))"
    "length (add_tok p tokens (?f ?a)) = length tokens"
    using parser_inv_add [OF p True, of "jp_pos p" "?f ?a"] by simp_all
  then show ?thesis using len e parser_inv_super [of len num ?p _ "int (jp_toknext p)"] by (simp add: step_post_def)
qed

lemma jsmn_leaf_ok:
  assumes p: "parser_inv len num p tokens" and n: "jp_toknext p < num"
    and t: "tok_inv pos len t" "tok_size t = 0" and pos: "jp_pos p \<le> pos" "jp_pos p \<le> pos'" "pos \<le> Suc pos'" "pos' < len"
    and q: "q = p\<lparr>jp_toknext := jp_toknext p + 1, jp_pos := pos'\<rparr>" and t': "tok_start t \<le> int pos'"
  shows "\<exists>tokens'. size_inc q (tokens[jp_toknext p := t]) = Some tokens' \<and> step_post len num c p tokens 0 (c + 1) q tokens'"
proof -
  have "tok_inv pos' len t" using t(1) t' by (auto simp: tok_inv_def)
  then show ?thesis
    using parser_inv_add [OF p n _ t(2) pos(2)] size_inc_eq [OF p n, of q t] pos q by (auto simp: step_post_def)
qed

lemma jsmn_string_step_ok:
  assumes p: "parser_inv len num p tokens" and len: "jp_pos p < len" "len \<le> length js"
  shows "\<exists>r c' p' tokens'. jsmn_step 34 js len num (c, p, tokens) = Some (r, c', p', tokens') \<and> step_post len num c p tokens r c' p' tokens'"
proof -
  have l: "num \<le> length tokens" using p by (simp add: parser_inv_def)
  obtain r pos where s: "string_loop js len (jp_pos p + 1) = Some (r, pos)" "r \<le> 0" "r = 0 \<longrightarrow> jp_pos p + 1 \<le> pos \<and> pos < len"
    using string_loop_ok [OF len(2), of "jp_pos p + 1"] len(1) by auto
  show ?thesis
  proof (cases "r < 0")
    case True
    then show ?thesis using s by (simp add: jsmn_step_def jsmn_parse_string_def Let_def step_post_def)
  next
    case False
    then have r: "r = 0" "jp_pos p + 1 \<le> pos" "pos < len" using s by auto
    show ?thesis
    proof (cases "jp_toknext p < num")
      case False
      then show ?thesis using s r
        by (simp add: jsmn_step_def jsmn_parse_string_def Let_def jsmn_alloc_token_full step_post_def)
    next
      case True
      let ?q = "p\<lparr>jp_toknext := jp_toknext p + 1, jp_pos := pos\<rparr>"
      let ?t = "\<lparr>tok_type = JSMN_STRING, tok_start = int (jp_pos p) + 1, tok_end = int pos, tok_size = 0\<rparr>"
      obtain tokens' where a: "size_inc ?q (tokens[jp_toknext p := ?t]) = Some tokens'" "step_post len num c p tokens 0 (c + 1) ?q tokens'"
        using jsmn_leaf_ok [OF p True, of pos ?t pos ?q c] r by (auto simp: tok_inv_def)
      have f: "jsmn_fill_token u JSMN_STRING (int (jp_pos p) + 1) (int pos) = ?t" for u by (simp add: jsmn_fill_token_def)
      have al: "jsmn_alloc_token (p\<lparr>jp_pos := pos\<rparr>) tokens num = Some (Some (jp_toknext p), ?q,
          tokens[jp_toknext p := (tokens ! jp_toknext p)\<lparr>tok_start := -1, tok_end := -1, tok_size := 0\<rparr>])"
        using jsmn_alloc_token_eq [of "p\<lparr>jp_pos := pos\<rparr>" num tokens] True l by simp
      have "jsmn_step 34 js len num (c, p, tokens) = Some (0, c + 1, ?q, tokens')"
        using s r al a(1) f by (simp add: jsmn_step_def jsmn_parse_string_def Let_def)
      then show ?thesis using a(2) by blast
    qed
  qed
qed

lemma jsmn_primitive_step_ok:
  assumes p: "parser_inv len num p tokens" and len: "jp_pos p < len" "len \<le> length js"
    and ch: "ch = js ! jp_pos p" "ch \<noteq> 0" "ch \<notin> {123, 91, 125, 93, 34, 9, 13, 10, 32, 58, 44}"
  shows "\<exists>r c' p' tokens'. jsmn_step ch js len num (c, p, tokens) = Some (r, c', p', tokens') \<and> step_post len num c p tokens r c' p' tokens'"
proof -
  have l: "num \<le> length tokens" using p by (simp add: parser_inv_def)
  have ne: "\<not> ends_primitive (js ! jp_pos p)" using ch by (simp add: ends_primitive_def)
  obtain b pos where s: "primitive_loop js len (jp_pos p) = Some (b, pos)" "pos \<le> len" "b \<longrightarrow> jp_pos p < pos"
    using primitive_loop_ok [OF len(2), of "jp_pos p"] len(1) ch(1,2) ne by auto
  have step: "jsmn_step ch js len num (c, p, tokens) = do {
       (r, parser, tokens) \<leftarrow> jsmn_parse_primitive p js len tokens num;
       if r < 0 then Some (r, c, parser, tokens)
       else do { tokens \<leftarrow> size_inc parser tokens; Some (0, c + 1, parser, tokens) }
     }"
    using ch(3) by (simp add: jsmn_step_def)
  show ?thesis
  proof (cases b)
    case False
    then show ?thesis using s unfolding step by (simp add: jsmn_parse_primitive_def Let_def step_post_def)
  next
    case b: True
    show ?thesis
    proof (cases "jp_toknext p < num")
      case False
      then show ?thesis using s b unfolding step
        by (simp add: jsmn_parse_primitive_def Let_def jsmn_alloc_token_full step_post_def)
    next
      case True
      let ?q = "p\<lparr>jp_toknext := jp_toknext p + 1, jp_pos := pos - 1\<rparr>"
      let ?t = "\<lparr>tok_type = JSMN_PRIMITIVE, tok_start = int (jp_pos p), tok_end = int pos, tok_size = 0\<rparr>"
      have pos: "jp_pos p < pos" "jp_pos p \<le> pos - 1" "pos - 1 < len" using s b by auto
      obtain tokens' where a: "size_inc ?q (tokens[jp_toknext p := ?t]) = Some tokens'" "step_post len num c p tokens 0 (c + 1) ?q tokens'"
        using jsmn_leaf_ok [OF p True, of pos ?t "pos - 1" ?q c] pos s(2) by (auto simp: tok_inv_def)
      have f: "jsmn_fill_token u JSMN_PRIMITIVE (int (jp_pos p)) (int pos) = ?t" for u by (simp add: jsmn_fill_token_def)
      have al: "jsmn_alloc_token (p\<lparr>jp_pos := pos\<rparr>) tokens num = Some (Some (jp_toknext p), p\<lparr>jp_toknext := jp_toknext p + 1, jp_pos := pos\<rparr>,
          tokens[jp_toknext p := (tokens ! jp_toknext p)\<lparr>tok_start := -1, tok_end := -1, tok_size := 0\<rparr>])"
        using jsmn_alloc_token_eq [of "p\<lparr>jp_pos := pos\<rparr>" num tokens] True l by simp
      have "jsmn_step ch js len num (c, p, tokens) = Some (0, c + 1, ?q, tokens')"
        using s(1) b al a(1) f unfolding step by (simp add: jsmn_parse_primitive_def Let_def)
      then show ?thesis using a(2) by blast
    qed
  qed
qed

lemma jsmn_close_ok:
  assumes p: "parser_inv len num p tokens" and len: "jp_pos p < len"
  shows "\<exists>r p' tokens'. jsmn_close ch p tokens = Some (r, p', tokens') \<and> step_post len num c p tokens r c p' tokens'"
proof -
  let ?n = "jp_toknext p"
  have l: "?n \<le> length tokens" using p by (simp add: parser_inv_def)
  have f1: "find_down tok_open tokens (rev [0..<?n]) = Some (List.find (\<lambda>i. tok_open (tokens ! i)) (rev [0..<?n]))"
    using l by (intro find_down_eq) auto
  show ?thesis
  proof (cases "List.find (\<lambda>i. tok_open (tokens ! i)) (rev [0..<?n])")
    case None
    then show ?thesis using f1 by (simp add: jsmn_close_def step_post_def)
  next
    case (Some i)
    then have i: "i < ?n" "tok_open (tokens ! i)" using find_rev_upt [OF Some] by auto
    show ?thesis
    proof (cases "tok_type (tokens ! i) = (if ch = 125 then JSMN_OBJECT else JSMN_ARRAY)")
      case False
      then show ?thesis using f1 Some by (simp add: jsmn_close_def Let_def step_post_def)
    next
      case True
      define t where "t = (tokens ! i)\<lparr>tok_end := int (jp_pos p) + 1\<rparr>"
      define tokens2 where "tokens2 = tokens[i := t]"
      define r where "r = List.find (\<lambda>i. tok_open (tokens2 ! i)) (rev [0..<i + 1])"
      have f2: "find_down tok_open tokens2 (rev [0..<i + 1]) = Some r"
        unfolding r_def tokens2_def using l i by (intro find_down_eq) auto
      let ?x = "case r of None \<Rightarrow> -1 | Some j \<Rightarrow> int j"
      have e: "jsmn_close ch p tokens = Some (0, p\<lparr>jp_toksuper := ?x\<rparr>, tokens2)"
        unfolding jsmn_close_def Let_def f1 Some Option.bind.bind_lunit option.case if_not_P [OF not_not [THEN iffD2, OF True]]
          t_def [symmetric] tokens2_def [symmetric] f2 by simp
      have x: "?x = -1 \<or> 0 \<le> ?x \<and> ?x < int ?n"
        using i(1) find_rev_upt [of "\<lambda>i. tok_open (tokens2 ! i)" "i + 1"] unfolding r_def
        by (auto split: option.split simp del: upt_Suc)
      have il: "i < length (take ?n tokens)" using i l by simp
      then have "tok_inv (jp_pos p) len (take ?n tokens ! i)" using p nth_mem unfolding parser_inv_def by blast
      then have t: "tok_inv (jp_pos p) len t" using i(1) il len by (auto simp: tok_inv_def t_def)
      have tk: "take ?n tokens2 = (take ?n tokens)[i := t]" unfolding tokens2_def by (rule take_update_swap)
      have "\<forall>u \<in> set (take ?n tokens2). tok_inv (jp_pos p) len u"
        using p t set_update_subset_insert [of "take ?n tokens" i t] unfolding tk by (auto simp: parser_inv_def)
      moreover have "map tok_size (take ?n tokens2) = map tok_size (take ?n tokens)"
        unfolding tk map_update using il i(1) by (simp add: list_update_same_conv t_def)
      ultimately have "parser_inv len num p tokens2" using p by (simp add: parser_inv_def tokens2_def)
      then have "parser_inv len num (p\<lparr>jp_toksuper := ?x\<rparr>) tokens2" using x by (rule parser_inv_super)
      then show ?thesis using e len by (simp add: step_post_def tokens2_def)
    qed
  qed
qed

lemma jsmn_comma_ok:
  assumes p: "parser_inv len num p tokens" and len: "jp_pos p < len"
  shows "\<exists>r p' tokens'. jsmn_comma p tokens = Some (r, p', tokens') \<and> step_post len num c p tokens r c p' tokens'"
proof (cases "jp_toksuper p = -1")
  case True
  then show ?thesis using p len by (simp add: jsmn_comma_def step_post_def)
next
  case False
  then have s: "token_at tokens (jp_toksuper p) = Some (tokens ! nat (jp_toksuper p))"
    using p by (auto simp: parser_inv_def token_at_def)
  let ?P = "\<lambda>t. tok_container t \<and> tok_open t"
  let ?r = "List.find (\<lambda>i. ?P (tokens ! i)) (rev [0..<jp_toknext p])"
  have f: "find_down ?P tokens (rev [0..<jp_toknext p]) = Some ?r"
    using p by (intro find_down_eq) (auto simp: parser_inv_def)
  show ?thesis
  proof (cases "tok_container (tokens ! nat (jp_toksuper p))")
    case True
    then show ?thesis using p len s False by (simp add: jsmn_comma_def step_post_def)
  next
    case nc: False
    have e: "jsmn_comma p tokens = Some (0, (case ?r of None \<Rightarrow> p | Some i \<Rightarrow> p\<lparr>jp_toksuper := int i\<rparr>), tokens)"
      using False nc s f by (simp add: jsmn_comma_def)
    show ?thesis
    proof (cases ?r)
      case None
      then show ?thesis using e p len by (simp add: step_post_def)
    next
      case (Some i)
      then have "i < jp_toknext p" using find_rev_upt [OF Some] by simp
      then show ?thesis using e Some p len parser_inv_super [OF p, of "int i"] by (simp add: step_post_def)
    qed
  qed
qed

lemma jsmn_step_ok:
  assumes p: "parser_inv len num p tokens" and len: "jp_pos p < len" "len \<le> length js"
    and ch: "ch = js ! jp_pos p" "ch \<noteq> 0"
  shows "\<exists>r c' p' tokens'. jsmn_step ch js len num (c, p, tokens) = Some (r, c', p', tokens') \<and> step_post len num c p tokens r c' p' tokens'"
proof -
  consider "ch = 123 \<or> ch = 91" | "ch = 125 \<or> ch = 93" | "ch = 34" | "ch = 9 \<or> ch = 13 \<or> ch = 10 \<or> ch = 32" | "ch = 58" | "ch = 44"
    | "ch \<notin> {123, 91, 125, 93, 34, 9, 13, 10, 32, 58, 44}" by auto
  then show ?thesis
  proof cases
    case 1
    obtain r p' tokens' where "jsmn_open ch p tokens num = Some (r, p', tokens')" "step_post len num c p tokens r (c + 1) p' tokens'"
      using jsmn_open_ok [OF p len(1)] by blast
    then show ?thesis using 1 by (auto simp: jsmn_step_def)
  next
    case 2
    obtain r p' tokens' where "jsmn_close ch p tokens = Some (r, p', tokens')" "step_post len num c p tokens r c p' tokens'"
      using jsmn_close_ok [OF p len(1)] by blast
    then show ?thesis using 2 by (auto simp: jsmn_step_def)
  next
    case 3
    then show ?thesis using jsmn_string_step_ok [OF p len] by simp
  next
    case 4
    then show ?thesis using p len by (auto simp: jsmn_step_def step_post_def)
  next
    case 5
    have "parser_inv len num (p\<lparr>jp_toksuper := int (jp_toknext p) - 1\<rparr>) tokens"
      by (rule parser_inv_super [OF p]) auto
    then show ?thesis using 5 len by (simp add: jsmn_step_def step_post_def)
  next
    case 6
    obtain r p' tokens' where "jsmn_comma p tokens = Some (r, p', tokens')" "step_post len num c p tokens r c p' tokens'"
      using jsmn_comma_ok [OF p len(1)] by blast
    then show ?thesis using 6 by (auto simp: jsmn_step_def)
  next
    case 7
    then show ?thesis using jsmn_primitive_step_ok [OF p len ch] by blast
  qed
qed

lemma jsmn_parse_loop_ok:
  assumes "parser_inv len num p tokens" "len \<le> length js" "jp_pos p \<le> len"
  shows "\<exists>r c' p' tokens'. jsmn_parse_loop js len num c p tokens = Some (r, c', p', tokens') \<and>
    r \<le> 0 \<and> length tokens' = length tokens \<and>
    (r = 0 \<longrightarrow> parser_inv len num p' tokens' \<and> jp_toknext p \<le> jp_toknext p' \<and> c' - c = int (jp_toknext p') - int (jp_toknext p))"
  using assms
proof (induction "len - jp_pos p" arbitrary: c p tokens rule: less_induct)
  case less
  show ?case
  proof (cases "jp_pos p < len \<and> js ! jp_pos p \<noteq> 0")
    case False
    then show ?thesis using less.prems by (subst jsmn_parse_loop.simps) auto
  next
    case True
    obtain r c' p' tokens' where s: "jsmn_step (js ! jp_pos p) js len num (c, p, tokens) = Some (r, c', p', tokens')"
      "step_post len num c p tokens r c' p' tokens'"
      using jsmn_step_ok [OF less.prems(1) _ less.prems(2), of "js ! jp_pos p" c] True by blast
    have e: "jsmn_parse_loop js len num c p tokens =
        (if r < 0 then Some (r, c', p', tokens') else jsmn_parse_loop js len num c' (p'\<lparr>jp_pos := jp_pos p' + 1\<rparr>) tokens')"
      using True s(1) less.prems by (subst jsmn_parse_loop.simps) simp
    show ?thesis
    proof (cases "r < 0")
      case True
      then show ?thesis using e s(2) by (simp add: step_post_def)
    next
      case False
      let ?p = "p'\<lparr>jp_pos := jp_pos p' + 1\<rparr>"
      have q: "parser_inv len num p' tokens'" "jp_pos p \<le> jp_pos p'" "jp_pos p' < len" "length tokens' = length tokens"
        "jp_toknext p \<le> jp_toknext p'" "c' - c = int (jp_toknext p') - int (jp_toknext p)"
        using False s(2) by (auto simp: step_post_def)
      have inv: "parser_inv len num ?p tokens'" by (rule parser_inv_pos [OF q(1)]) simp
      have m: "len - jp_pos ?p < len - jp_pos p" "jp_pos ?p \<le> len" using q(2,3) by simp_all
      obtain r2 c2 p2 tokens2 where "jsmn_parse_loop js len num c' ?p tokens' = Some (r2, c2, p2, tokens2)"
        "r2 \<le> 0" "length tokens2 = length tokens'"
        "r2 = 0 \<longrightarrow> parser_inv len num p2 tokens2 \<and> jp_toknext p' \<le> jp_toknext p2 \<and> c2 - c' = int (jp_toknext p2) - int (jp_toknext p')"
        using less(1) [OF m(1) inv less.prems(2) m(2), of c'] by (elim exE conjE) (rule that, simp_all)
      then show ?thesis using e False q(4-6) by auto
    qed
  qed
qed

section \<open>The tokens of a text\<close>

definition tok_ok :: "nat \<Rightarrow> jsmntok \<Rightarrow> bool" where
  "tok_ok len t \<longleftrightarrow> tok_type t \<noteq> JSMN_UNDEFINED \<and> 0 \<le> tok_start t \<and> tok_start t \<le> tok_end t \<and> tok_end t \<le> int len"

definition tokens_ok :: "nat \<Rightarrow> jsmntok list \<Rightarrow> bool" where
  "tokens_ok len ts \<longleftrightarrow> (\<forall>t \<in> set ts. tok_ok len t) \<and> sizes_ok (map tok_size ts)"

lemma json_wrapper_parse_ok:
  assumes "len \<le> length js" "num \<le> length tokens"
  shows "\<exists>r p tokens'. json_wrapper_parse jsmn_init js len tokens num = Some (r, p, tokens') \<and> length tokens' = length tokens \<and>
    r \<le> int num \<and> (0 \<le> r \<longrightarrow> tokens_ok len (take (nat r) tokens'))"
proof (cases "len = 0 \<or> num = 0")
  case True
  then show ?thesis by (auto simp: json_wrapper_parse_def tokens_ok_def sizes_ok_def)
next
  case False
  have "parser_inv len num jsmn_init tokens" using assms by (simp add: parser_inv_def jsmn_init_def sizes_ok_def)
  then obtain r c p tokens' where l: "jsmn_parse_loop js len num 0 jsmn_init tokens = Some (r, c, p, tokens')" "r \<le> 0"
    "length tokens' = length tokens" "r = 0 \<longrightarrow> parser_inv len num p tokens' \<and> c = int (jp_toknext p)"
    using jsmn_parse_loop_ok [of len num jsmn_init tokens js 0] assms(1) by (auto simp: jsmn_init_def)
  have n0: "int (jp_toknext jsmn_init) = 0" by (simp add: jsmn_init_def)
  show ?thesis
  proof (cases "r < 0")
    case True
    then show ?thesis using False l(1,3) n0 by (simp add: json_wrapper_parse_def jsmn_parse_def)
  next
    case r: False
    then have q: "parser_inv len num p tokens'" "c = int (jp_toknext p)" using l by auto
    let ?f = "List.find (\<lambda>i. tok_open (tokens' ! i)) (rev [0..<jp_toknext p])"
    have f: "find_down tok_open tokens' (rev [0..<jp_toknext p]) = Some ?f"
      using q by (intro find_down_eq) (auto simp: parser_inv_def)
    show ?thesis
    proof (cases ?f)
      case (Some i)
      then show ?thesis using False l(1,3) n0 r f by (simp add: json_wrapper_parse_def jsmn_parse_def)
    next
      case None
      have "\<not> tok_open t" if t: "t \<in> set (take (jp_toknext p) tokens')" for t
      proof -
        obtain i where "i < jp_toknext p" "t = tokens' ! i" using t by (auto simp: in_set_conv_nth)
        then show ?thesis using find_rev_upt_None [OF None] by simp
      qed
      then have "tokens_ok len (take (jp_toknext p) tokens')"
        using q(1) by (force simp: tokens_ok_def parser_inv_def tok_ok_def tok_inv_def tok_open_def)
      then show ?thesis using False l(1,3) n0 r f None q
        by (auto simp: json_wrapper_parse_def jsmn_parse_def parser_inv_def)
    qed
  qed
qed

end
