(* ===== verification/NostrRequest.thy ===== *)
theory NostrRequest
  imports Subscription Json
begin

text \<open>
  Parsing of REQ and CLOSE messages: \<open>src/nostr/subscription/nostr_req.c\<close>, \<open>nostr_close.c\<close>,
  \<open>nostr_filter_parse\<close> of \<open>nostr_filter.c\<close> and the extractors of the fields in
  \<open>nostr_filter_ids.c\<close> (whose code \<open>nostr_filter_authors.c\<close> repeats), \<open>_kinds\<close>, \<open>_since\<close> (and
  \<open>_until\<close>), \<open>_limit\<close> and \<open>_tags\<close>. A pointer to a token is the token array and an index. The
  structures are cleared by a \<open>memset\<close> before they are filled.
\<close>

section \<open>Fields of a filter\<close>

definition ascii :: "string \<Rightarrow> byte list" where
  "ascii s = map of_char s"

definition is_valid_hex :: "byte list \<Rightarrow> nat \<Rightarrow> bool option" where
  "is_valid_hex str len = do {
     bs \<leftarrow> peek str 0 len;
     Some (\<forall>c \<in> set bs. \<not> hex_char_value c < 0)
   }"

text \<open>
  The loop over the elements of the array; the condition on the number of entries ends it. One byte
  too few or an invalid digit leaves \<open>bytes_written\<close> smaller.
\<close>

primrec ids_loop ::
    "byte list \<Rightarrow> jsmntok list \<Rightarrow> nat list \<Rightarrow> filter_id list \<Rightarrow> nat \<Rightarrow> (filter_id list \<times> nat) option" where
  "ids_loop json tokens [] ids ids_count = Some (ids, ids_count)"
| "ids_loop json tokens (token_idx # is) ids ids_count =
     (if \<not> ids_count < NOSTR_FILTER_MAX_IDS then Some (ids, ids_count)
      else do {
        id_token \<leftarrow> token_at tokens (int token_idx);
        let hex_len = json_wrapper_get_token_length id_token;
        if \<not> json_wrapper_is_string id_token then ids_loop json tokens is ids ids_count
        else if hex_len = 0 then ids_loop json tokens is ids ids_count
        else if hex_len > 64 then ids_loop json tokens is ids ids_count
        else do {
          hex \<leftarrow> json_from json (tok_start id_token);
          (bytes_written, val) \<leftarrow> hex_to_bytes hex hex_len (replicate 32 0) 32;
          ids \<leftarrow> poke ids ids_count [\<lparr>fid_value = val, fid_prefix_len = (if bytes_written > 0 then bytes_written else 0)\<rparr>];
          ids_loop json tokens is ids (if bytes_written > 0 then ids_count + 1 else ids_count)
        }
      })"

definition extract_nostr_filter_ids ::
    "byte list \<Rightarrow> jsmntok list \<Rightarrow> nat \<Rightarrow> filter_id list \<Rightarrow> nat \<Rightarrow> (bool \<times> filter_id list \<times> nat) option" where
  "extract_nostr_filter_ids json tokens base ids ids_count = do {
     token \<leftarrow> token_at tokens (int base);
     if \<not> json_wrapper_is_array token then Some (False, ids, ids_count)
     else if tok_size token < 0 then Some (False, ids, ids_count)
     else if tok_size token = 0 then Some (True, ids, 0)
     else do {
       (ids, ids_count) \<leftarrow> ids_loop json tokens [base + 1..<base + 1 + nat (tok_size token)] ids 0;
       Some (True, ids, ids_count)
     }
   }"

text \<open>The code for the authors is the same as the one for the ids.\<close>

definition extract_nostr_filter_authors ::
    "byte list \<Rightarrow> jsmntok list \<Rightarrow> nat \<Rightarrow> filter_id list \<Rightarrow> nat \<Rightarrow> (bool \<times> filter_id list \<times> nat) option" where
  "extract_nostr_filter_authors = extract_nostr_filter_ids"

text \<open>
  The decimal number of the digits from \<open>s\<close> on, reduced by \<open>wrap\<close> after each digit; \<open>None\<close>
  inside for a character that is no digit.
\<close>

primrec digits_loop :: "(int \<Rightarrow> int) \<Rightarrow> byte list \<Rightarrow> nat list \<Rightarrow> int \<Rightarrow> int option option" where
  "digits_loop wrap s [] val = Some (Some val)"
| "digits_loop wrap s (j # js) val = do {
     c \<leftarrow> char_at s j;
     if \<not> is_digit c then Some None
     else digits_loop wrap s js (wrap (val * 10 + (uint c - 48)))
   }"

definition wrap_uint32 :: "int \<Rightarrow> int" where
  "wrap_uint32 v = v mod 2 ^ 32"

text \<open>Overflow of \<open>int64_t\<close> is undefined in C; this is what the multiplication of the machine does.\<close>

definition wrap_int64 :: "int \<Rightarrow> int" where
  "wrap_int64 v = sint (word_of_int v :: 64 word)"

primrec kinds_loop ::
    "byte list \<Rightarrow> jsmntok list \<Rightarrow> nat list \<Rightarrow> nat list \<Rightarrow> nat \<Rightarrow> (nat list \<times> nat) option" where
  "kinds_loop json tokens [] kinds kinds_count = Some (kinds, kinds_count)"
| "kinds_loop json tokens (token_idx # is) kinds kinds_count =
     (if \<not> kinds_count < NOSTR_FILTER_MAX_KINDS then Some (kinds, kinds_count)
      else do {
        kind_token \<leftarrow> token_at tokens (int token_idx);
        let len = json_wrapper_get_token_length kind_token;
        if \<not> json_wrapper_is_primitive kind_token then kinds_loop json tokens is kinds kinds_count
        else if len = 0 \<or> len > 10 then kinds_loop json tokens is kinds kinds_count
        else do {
          s \<leftarrow> json_from json (tok_start kind_token);
          r \<leftarrow> digits_loop wrap_uint32 s [0..<len] 0;
          case r of
            None \<Rightarrow> kinds_loop json tokens is kinds kinds_count
          | Some v \<Rightarrow> do {
              kinds \<leftarrow> poke kinds kinds_count [nat v];
              kinds_loop json tokens is kinds (kinds_count + 1)
            }
        }
      })"

definition extract_nostr_filter_kinds ::
    "byte list \<Rightarrow> jsmntok list \<Rightarrow> nat \<Rightarrow> nat list \<Rightarrow> nat \<Rightarrow> (bool \<times> nat list \<times> nat) option" where
  "extract_nostr_filter_kinds json tokens base kinds kinds_count = do {
     token \<leftarrow> token_at tokens (int base);
     if \<not> json_wrapper_is_array token then Some (False, kinds, kinds_count)
     else if tok_size token < 0 then Some (False, kinds, kinds_count)
     else if tok_size token = 0 then Some (True, kinds, 0)
     else do {
       (kinds, kinds_count) \<leftarrow> kinds_loop json tokens [base + 1..<base + 1 + nat (tok_size token)] kinds 0;
       Some (True, kinds, kinds_count)
     }
   }"

text \<open>The extractors of single numbers: the new value, or \<open>None\<close> for the result \<open>false\<close>.\<close>

definition extract_number ::
    "(int \<Rightarrow> int) \<Rightarrow> nat \<Rightarrow> byte list \<Rightarrow> jsmntok list \<Rightarrow> nat \<Rightarrow> int option option" where
  "extract_number wrap max_len json tokens base = do {
     token \<leftarrow> token_at tokens (int base);
     let len = json_wrapper_get_token_length token;
     if \<not> json_wrapper_is_primitive token then Some None
     else if len = 0 \<or> len > max_len then Some None
     else do {
       s \<leftarrow> json_from json (tok_start token);
       digits_loop wrap s [0..<len] 0
     }
   }"

definition extract_nostr_filter_since :: "byte list \<Rightarrow> jsmntok list \<Rightarrow> nat \<Rightarrow> int option option" where
  "extract_nostr_filter_since = extract_number wrap_int64 20"

definition extract_nostr_filter_until :: "byte list \<Rightarrow> jsmntok list \<Rightarrow> nat \<Rightarrow> int option option" where
  "extract_nostr_filter_until = extract_number wrap_int64 20"

definition extract_nostr_filter_limit :: "byte list \<Rightarrow> jsmntok list \<Rightarrow> nat \<Rightarrow> int option option" where
  "extract_nostr_filter_limit = extract_number wrap_uint32 10"

primrec tag_loop ::
    "byte list \<Rightarrow> jsmntok list \<Rightarrow> nat list \<Rightarrow> filter_tag \<Rightarrow> filter_tag option" where
  "tag_loop json tokens [] tag = Some tag"
| "tag_loop json tokens (token_idx # is) tag =
     (if \<not> ft_values_count tag < NOSTR_FILTER_MAX_TAG_VALUES then Some tag
      else do {
        val_token \<leftarrow> token_at tokens (int token_idx);
        let val_len = json_wrapper_get_token_length val_token;
        if \<not> json_wrapper_is_string val_token then tag_loop json tokens is tag
        else if val_len = 0 then tag_loop json tokens is tag
        else if val_len > 64 then tag_loop json tokens is tag
        else do {
          val_str \<leftarrow> json_from json (tok_start val_token);
          if ft_name tag = 101 \<or> ft_name tag = 112 then do {
            valid \<leftarrow> (if val_len = 64 then is_valid_hex val_str val_len else Some False);
            if valid then do {
              out \<leftarrow> peek (ft_values tag) (ft_values_count tag * 32) 32;
              (n, out) \<leftarrow> hex_to_bytes val_str val_len out 32;
              values \<leftarrow> poke (ft_values tag) (ft_values_count tag * 32) out;
              tag_loop json tokens is (tag\<lparr>ft_values := values, ft_values_count := ft_values_count tag + 1\<rparr>)
            }
            else tag_loop json tokens is tag
          }
          else do {
            bs \<leftarrow> peek val_str 0 (if val_len < 32 then val_len else 32);
            values \<leftarrow> poke (ft_values tag) (ft_values_count tag * 32) bs;
            tag_loop json tokens is (tag\<lparr>ft_values := values, ft_values_count := ft_values_count tag + 1\<rparr>)
          }
        }
      })"

definition extract_nostr_filter_tag ::
    "byte list \<Rightarrow> jsmntok list \<Rightarrow> nat \<Rightarrow> byte \<Rightarrow> filter_tag \<Rightarrow> (bool \<times> filter_tag) option" where
  "extract_nostr_filter_tag json tokens base tag_name tag = do {
     token \<leftarrow> token_at tokens (int base);
     if \<not> json_wrapper_is_array token then Some (False, tag)
     else if tok_size token < 0 then Some (False, tag)
     else do {
       let tag = \<lparr>ft_name = tag_name, ft_values = replicate 8192 0, ft_values_count = 0\<rparr>;
       if tok_size token = 0 then Some (True, tag)
       else do {
         tag \<leftarrow> tag_loop json tokens [base + 1..<base + 1 + nat (tok_size token)] tag;
         Some (True, tag)
       }
     }
   }"

section \<open>Filters\<close>

text \<open>
  The number of tokens of a value; \<open>count_children\<close> is the loop over the children, its result
  what the loop adds to \<open>idx\<close>.
\<close>

function count_tokens_in_value :: "jsmntok list \<Rightarrow> nat \<Rightarrow> nat \<Rightarrow> nat option"
  and count_children :: "bool \<Rightarrow> jsmntok list \<Rightarrow> nat \<Rightarrow> nat \<Rightarrow> nat \<Rightarrow> nat option" where
  "count_tokens_in_value tokens base remaining_tokens =
     (if remaining_tokens = 0 then Some 0
      else
        (case token_at tokens (int base) of
           None \<Rightarrow> None
         | Some token \<Rightarrow>
             if tok_type token = JSMN_OBJECT
             then map_option Suc (count_children True tokens (base + 1) (remaining_tokens - 1) (nat (tok_size token)))
             else if tok_type token = JSMN_ARRAY
             then map_option Suc (count_children False tokens (base + 1) (remaining_tokens - 1) (nat (tok_size token)))
             else Some 1))"
| "count_children pairs tokens base remaining_tokens n =
     (if n = 0 \<or> remaining_tokens = 0 then Some 0
      else
        (case count_tokens_in_value tokens base remaining_tokens of
           None \<Rightarrow> None
         | Some k \<Rightarrow>
             if pairs \<and> k < remaining_tokens then
               (case count_tokens_in_value tokens (base + k) (remaining_tokens - k) of
                  None \<Rightarrow> None
                | Some l \<Rightarrow> map_option ((+) (k + l)) (count_children pairs tokens (base + (k + l)) (remaining_tokens - (k + l)) (n - 1)))
             else map_option ((+) k) (count_children pairs tokens (base + k) (remaining_tokens - k) (n - 1))))"
  by pat_completeness auto
termination
  by (relation "measures [\<lambda>x. case x of Inl (t, b, r) \<Rightarrow> r | Inr (p, t, b, r, n) \<Rightarrow> r,
      \<lambda>x. case x of Inl y \<Rightarrow> 0 | Inr (p, t, b, r, n) \<Rightarrow> n + 1]") auto

declare count_tokens_in_value.simps [simp del] count_children.simps [simp del]

text \<open>The comparison of a key: its length, then its characters.\<close>

definition key_is :: "byte list \<Rightarrow> jsmntok \<Rightarrow> byte list \<Rightarrow> bool option" where
  "key_is json key_token name =
     (if json_wrapper_get_token_length key_token = length name then do {
        key_str \<leftarrow> json_from json (tok_start key_token);
        nostr_strncmp key_str (name @ [0]) (length name)
      }
      else Some False)"

text \<open>The field of a tag filter, as \<open>#e\<close>; 35 is the number sign. The value of the field is the token at \<open>base\<close>.\<close>

definition filter_tag_field :: "byte list \<Rightarrow> jsmntok list \<Rightarrow> jsmntok \<Rightarrow> nat \<Rightarrow> nostr_filter \<Rightarrow> nostr_filter option" where
  "filter_tag_field json tokens key_token base flt =
     (if json_wrapper_get_token_length key_token = 2 then do {
        key_str \<leftarrow> json_from json (tok_start key_token);
        c \<leftarrow> char_at key_str 0;
        if c = 35 \<and> f_tags_count flt < NOSTR_FILTER_MAX_TAGS then do {
          tag_name \<leftarrow> char_at key_str 1;
          old \<leftarrow> (if f_tags_count flt < length (f_tags flt) then Some (f_tags flt ! f_tags_count flt) else None);
          (r, tag) \<leftarrow> extract_nostr_filter_tag json tokens base tag_name old;
          Some (flt\<lparr>f_tags := (f_tags flt)[f_tags_count flt := tag],
                    f_tags_count := (if ft_values_count tag > 0 then f_tags_count flt + 1 else f_tags_count flt)\<rparr>)
        }
        else Some flt
      }
      else Some flt)"


definition filter_field :: "byte list \<Rightarrow> jsmntok list \<Rightarrow> jsmntok \<Rightarrow> nat \<Rightarrow> nostr_filter \<Rightarrow> nostr_filter option" where
  "filter_field json tokens key_token base flt = do {
     ids \<leftarrow> key_is json key_token (ascii ''ids'');
     if ids then do {
       (r, ids, n) \<leftarrow> extract_nostr_filter_ids json tokens base (f_ids flt) (f_ids_count flt);
       Some (flt\<lparr>f_ids := ids, f_ids_count := n\<rparr>)
     } else do {
     authors \<leftarrow> key_is json key_token (ascii ''authors'');
     if authors then do {
       (r, authors, n) \<leftarrow> extract_nostr_filter_authors json tokens base (f_authors flt) (f_authors_count flt);
       Some (flt\<lparr>f_authors := authors, f_authors_count := n\<rparr>)
     } else do {
     kinds \<leftarrow> key_is json key_token (ascii ''kinds'');
     if kinds then do {
       (r, kinds, n) \<leftarrow> extract_nostr_filter_kinds json tokens base (f_kinds flt) (f_kinds_count flt);
       Some (flt\<lparr>f_kinds := kinds, f_kinds_count := n\<rparr>)
     } else do {
     since \<leftarrow> key_is json key_token (ascii ''since'');
     if since then do {
       r \<leftarrow> extract_nostr_filter_since json tokens base;
       Some (case r of None \<Rightarrow> flt | Some v \<Rightarrow> flt\<lparr>f_since := v\<rparr>)
     } else do {
     until \<leftarrow> key_is json key_token (ascii ''until'');
     if until then do {
       r \<leftarrow> extract_nostr_filter_until json tokens base;
       Some (case r of None \<Rightarrow> flt | Some v \<Rightarrow> flt\<lparr>f_until := v\<rparr>)
     } else do {
     limit \<leftarrow> key_is json key_token (ascii ''limit'');
     if limit then do {
       r \<leftarrow> extract_nostr_filter_limit json tokens base;
       Some (case r of None \<Rightarrow> flt | Some v \<Rightarrow> flt\<lparr>f_limit := nat v, f_has_limit := True\<rparr>)
     } else do {
     filter_tag_field json tokens key_token base flt }}}}}}
   }"

text \<open>The loop over the fields; the result is the value returned and the filter.\<close>

primrec filter_loop ::
    "byte list \<Rightarrow> jsmntok list \<Rightarrow> nat \<Rightarrow> nat \<Rightarrow> nat list \<Rightarrow> nat \<Rightarrow> nostr_filter \<Rightarrow> (bool \<times> nostr_filter) option" where
  "filter_loop json tokens base token_count [] token_idx flt = Some (True, flt)"
| "filter_loop json tokens base token_count (i # is) token_idx flt =
     (if \<not> token_idx < token_count then Some (True, flt)
      else do {
        key_token \<leftarrow> token_at tokens (int (base + token_idx));
        if \<not> json_wrapper_is_string key_token then Some (False, flt)
        else if token_idx + 1 \<ge> token_count then Some (True, flt)
        else do {
          flt \<leftarrow> filter_field json tokens key_token (base + (token_idx + 1)) flt;
          n \<leftarrow> count_tokens_in_value tokens (base + (token_idx + 1)) (token_count - (token_idx + 1));
          filter_loop json tokens base token_count is (token_idx + 1 + n) flt
        }
      })"

definition nostr_filter_parse ::
    "byte list \<Rightarrow> jsmntok list \<Rightarrow> nat \<Rightarrow> nat \<Rightarrow> nostr_filter \<Rightarrow> (bool \<times> nostr_filter) option" where
  "nostr_filter_parse json tokens base token_count flt = do {
     token \<leftarrow> token_at tokens (int base);
     if \<not> json_wrapper_is_object token then Some (False, flt)
     else if tok_size token < 0 then Some (False, nostr_filter_init)
     else if tok_size token = 0 then Some (True, nostr_filter_init)
     else filter_loop json tokens base token_count [0..<nat (tok_size token)] 1 nostr_filter_init
   }"

section \<open>Messages\<close>

definition nostr_req_init :: nostr_req where
  "nostr_req_init = \<lparr>req_id = replicate 65 0, req_filters = replicate NOSTR_REQ_MAX_FILTERS nostr_filter_init, req_filters_count = 0\<rparr>"

primrec req_loop ::
    "byte list \<Rightarrow> jsmntok list \<Rightarrow> nat \<Rightarrow> nat list \<Rightarrow> nat \<Rightarrow> nostr_req \<Rightarrow> nostr_req option" where
  "req_loop json tokens token_count [] token_idx req = Some req"
| "req_loop json tokens token_count (i # is) token_idx req =
     (if \<not> req_filters_count req < NOSTR_REQ_MAX_FILTERS then Some req
      else if token_idx \<ge> token_count then Some req
      else do {
        filter_token \<leftarrow> token_at tokens (int token_idx);
        if \<not> json_wrapper_is_object filter_token then do {
          n \<leftarrow> count_tokens_in_value tokens token_idx (token_count - token_idx);
          req_loop json tokens token_count is (token_idx + n) req
        }
        else do {
          old \<leftarrow> (if req_filters_count req < length (req_filters req) then Some (req_filters req ! req_filters_count req) else None);
          (ok, flt) \<leftarrow> nostr_filter_parse json tokens token_idx (token_count - token_idx) old;
          n \<leftarrow> count_tokens_in_value tokens token_idx (token_count - token_idx);
          req_loop json tokens token_count is (token_idx + n)
            (req\<lparr>req_filters := (req_filters req)[req_filters_count req := flt],
                 req_filters_count := (if ok then req_filters_count req + 1 else req_filters_count req)\<rparr>)
        }
      })"

text \<open>The id of REQ and CLOSE: 64 bytes at most, copied and terminated; \<open>None\<close> inside if it is refused.\<close>

definition extract_subscription_id :: "byte list \<Rightarrow> jsmntok \<Rightarrow> byte list \<Rightarrow> byte list option option" where
  "extract_subscription_id json sub_token buffer =
     (let sub_len = json_wrapper_get_token_length sub_token
      in if \<not> json_wrapper_is_string sub_token then Some None
         else if sub_len = 0 then Some None
         else if sub_len > NOSTR_REQ_SUBSCRIPTION_ID_LENGTH then Some None
         else do {
           s \<leftarrow> json_from json (tok_start sub_token);
           bs \<leftarrow> peek s 0 sub_len;
           buffer \<leftarrow> poke buffer 0 bs;
           buffer \<leftarrow> poke buffer sub_len [0];
           Some (Some buffer)
         })"

definition nostr_req_parse :: "byte list \<Rightarrow> jsmntok list \<Rightarrow> nat \<Rightarrow> (bool \<times> nostr_req) option" where
  "nostr_req_parse json tokens token_count = do {
     let req = nostr_req_init;
     token0 \<leftarrow> token_at tokens 0;
     if \<not> json_wrapper_is_array token0 then Some (False, req)
     else if tok_size token0 < 3 then Some (False, req)
     else do {
       req_token \<leftarrow> token_at tokens 1;
       is_req \<leftarrow> (if json_wrapper_is_string req_token then key_is json req_token (ascii ''REQ'') else Some False);
       if \<not> is_req then Some (False, req)
       else do {
         sub_token \<leftarrow> token_at tokens 2;
         r \<leftarrow> extract_subscription_id json sub_token (req_id req);
         case r of
           None \<Rightarrow> Some (False, req)
         | Some sid \<Rightarrow> do {
             req \<leftarrow> req_loop json tokens token_count [2..<nat (tok_size token0)] 3 (req\<lparr>req_id := sid\<rparr>);
             Some (req_filters_count req > 0, req)
           }
       }
     }
   }"

text \<open>The CLOSE message has the id as its only field.\<close>

definition nostr_close_parse :: "byte list \<Rightarrow> jsmntok list \<Rightarrow> nat \<Rightarrow> (bool \<times> byte list) option" where
  "nostr_close_parse json tokens token_count = do {
     let close_msg = replicate 65 0;
     token0 \<leftarrow> token_at tokens 0;
     if \<not> json_wrapper_is_array token0 then Some (False, close_msg)
     else if tok_size token0 < 2 then Some (False, close_msg)
     else if token_count < 3 then Some (False, close_msg)
     else do {
       close_token \<leftarrow> token_at tokens 1;
       is_close \<leftarrow> (if json_wrapper_is_string close_token then key_is json close_token (ascii ''CLOSE'') else Some False);
       if \<not> is_close then Some (False, close_msg)
       else do {
         sub_token \<leftarrow> token_at tokens 2;
         r \<leftarrow> extract_subscription_id json sub_token close_msg;
         case r of
           None \<Rightarrow> Some (False, close_msg)
         | Some sid \<Rightarrow> Some (True, sid)
       }
     }
   }"

section \<open>Tokens in their text\<close>

lemma tokens_okD:
  assumes "tokens_ok len tokens" "i < length tokens"
  shows "tok_ok len (tokens ! i)" "0 \<le> tok_size (tokens ! i)" "i + 1 + nat (tok_size (tokens ! i)) \<le> length tokens"
proof -
  show "tok_ok len (tokens ! i)" using assms by (simp add: tokens_ok_def)
  have s: "sizes_ok (map tok_size tokens)" using assms(1) by (simp add: tokens_ok_def)
  show nn: "0 \<le> tok_size (tokens ! i)" using s assms(2) by (simp add: sizes_ok_def)
  have "drop i (map tok_size tokens) = tok_size (tokens ! i) # drop (Suc i) (map tok_size tokens)"
    using assms(2) by (simp add: Cons_nth_drop_Suc [symmetric] drop_map)
  moreover have "0 \<le> sum_list (drop (Suc i) (map tok_size tokens))"
    using s by (intro sum_list_nonneg) (meson in_set_dropD sizes_ok_def)
  moreover have "sum_list (drop i (map tok_size tokens)) < int (length tokens) - int i"
    using s assms(2) by (simp add: sizes_ok_def)
  ultimately show "i + 1 + nat (tok_size (tokens ! i)) \<le> length tokens" using nn by simp
qed

lemma token_at_Some [simp]: "i < length tokens \<Longrightarrow> token_at tokens (int i) = Some (tokens ! i)"
  by (simp add: token_at_def)

lemma token_at_add [simp]: "i + j < length tokens \<Longrightarrow> token_at tokens (int i + int j) = Some (tokens ! (i + j))"
  using token_at_Some [of "i + j" tokens] by simp

lemma token_at_0 [simp]: "0 < length tokens \<Longrightarrow> token_at tokens 0 = Some (tokens ! 0)"
  by (simp add: token_at_def)

lemma token_at_1 [simp]: "1 < length tokens \<Longrightarrow> token_at tokens 1 = Some (tokens ! 1)"
  by (simp add: token_at_def)

lemma token_at_numeral [simp]: "numeral k < length tokens \<Longrightarrow> token_at tokens (numeral k) = Some (tokens ! numeral k)"
  by (simp add: token_at_def)

lemma tok_ok_text:
  assumes "tok_ok len t" "len \<le> length json" "len < 2 ^ 31"
  shows "json_from json (tok_start t) = Some (drop (nat (tok_start t)) json)"
    "nat (tok_start t) + json_wrapper_get_token_length t \<le> len"
    "json_wrapper_get_token_length t = nat (tok_end t - tok_start t)"
proof -
  have t: "0 \<le> tok_start t" "tok_start t \<le> tok_end t" "tok_end t \<le> int len" using assms(1) by (auto simp: tok_ok_def)
  then show "json_from json (tok_start t) = Some (drop (nat (tok_start t)) json)"
    using assms(2) by (simp add: json_from_def)
  have "(tok_end t - tok_start t) mod 2 ^ 64 = tok_end t - tok_start t" using t assms(3) by (intro mod_pos_pos_trivial) auto
  then show "json_wrapper_get_token_length t = nat (tok_end t - tok_start t)" by (simp add: json_wrapper_get_token_length_def)
  then show "nat (tok_start t) + json_wrapper_get_token_length t \<le> len" using t by simp
qed

text \<open>A text and its tokens, as the tokenizer leaves them.\<close>

definition parsed :: "byte list \<Rightarrow> nat \<Rightarrow> jsmntok list \<Rightarrow> bool" where
  "parsed json len tokens \<longleftrightarrow> len \<le> length json \<and> len < 2 ^ 31 \<and> (\<forall>i < len. json ! i \<noteq> 0) \<and> tokens_ok len tokens"

text \<open>The bytes of a token.\<close>

definition tok_text :: "byte list \<Rightarrow> jsmntok \<Rightarrow> byte list" where
  "tok_text json t = slice json (nat (tok_start t)) (json_wrapper_get_token_length t)"

lemma parsed_tok:
  assumes "parsed json len tokens" "t \<in> set tokens"
  shows "json_from json (tok_start t) = Some (drop (nat (tok_start t)) json)"
    "json_wrapper_get_token_length t \<le> length (drop (nat (tok_start t)) json)"
    "take (json_wrapper_get_token_length t) (drop (nat (tok_start t)) json) = tok_text json t"
    "length (tok_text json t) = json_wrapper_get_token_length t" "0 \<notin> set (tok_text json t)"
proof -
  have t: "tok_ok len t" "len \<le> length json" "len < 2 ^ 31" using assms by (auto simp: parsed_def tokens_ok_def)
  note T = tok_ok_text [OF t]
  show "json_from json (tok_start t) = Some (drop (nat (tok_start t)) json)" by (rule T(1))
  show "json_wrapper_get_token_length t \<le> length (drop (nat (tok_start t)) json)" using T(2) t(2) by simp
  show "take (json_wrapper_get_token_length t) (drop (nat (tok_start t)) json) = tok_text json t"
    by (simp add: tok_text_def slice_def)
  show l: "length (tok_text json t) = json_wrapper_get_token_length t" using T(2) t(2) by (simp add: tok_text_def)
  show "0 \<notin> set (tok_text json t)"
  proof
    assume "0 \<in> set (tok_text json t)"
    then obtain i where i: "i < json_wrapper_get_token_length t" "tok_text json t ! i = 0" using l by (auto simp: in_set_conv_nth)
    then have "tok_text json t ! i = json ! (nat (tok_start t) + i)" using T(2) t(2) by (simp add: tok_text_def nth_slice)
    then show False using i assms(1) T(2) by (auto simp: parsed_def)
  qed
qed

lemma key_is_eq:
  assumes "parsed json len tokens" "t \<in> set tokens" "name \<noteq> []"
  shows "key_is json t name = Some (map lower (tok_text json t) = map lower name)"
proof (cases "json_wrapper_get_token_length t = length name")
  case True
  note P = parsed_tok [OF assms(1,2)]
  have "nostr_strncmp (drop (nat (tok_start t)) json) (name @ [0]) (length name) =
      Some (map lower (tok_text json t) = map lower name)"
    using P(2,3) True assms(3) by (subst nostr_strncmp_eq) auto
  then show ?thesis using True P(1) by (simp add: key_is_def)
next
  case False
  then have "map lower (tok_text json t) \<noteq> map lower name"
    using parsed_tok(4) [OF assms(1,2)] by (metis length_map)
  then show ?thesis using False by (simp add: key_is_def)
qed

lemma extract_subscription_id_eq:
  assumes "parsed json len tokens" "t \<in> set tokens" "buffer = replicate 65 0"
  shows "extract_subscription_id json t buffer = Some
    (if tok_type t = JSMN_STRING \<and> tok_text json t \<noteq> [] \<and> length (tok_text json t) \<le> 64
     then Some (tok_text json t @ replicate (65 - length (tok_text json t)) 0) else None)"
proof -
  note P = parsed_tok [OF assms(1,2)]
  let ?n = "json_wrapper_get_token_length t"
  have e: "tok_text json t = [] \<longleftrightarrow> ?n = 0" using P(4) by (metis length_0_conv)
  have p: "peek (drop (nat (tok_start t)) json) 0 ?n = Some (tok_text json t)" using P(2,3) by (simp add: slice_def)
  have b: "blit (blit buffer 0 (tok_text json t)) ?n [0] = tok_text json t @ replicate (65 - length (tok_text json t)) 0" if "?n \<le> 64"
  proof -
    have "blit buffer 0 (tok_text json t) = tok_text json t @ replicate (65 - ?n) 0" using that assms(3) P(4) by (simp add: blit_def)
    moreover have "replicate (65 - ?n) (0 :: byte) = 0 # replicate (64 - ?n) 0" using that by (simp add: Suc_diff_le [symmetric] replicate_Suc [symmetric] del: replicate_Suc)
    ultimately show ?thesis using P(4) by (simp add: blit_def)
  qed
  show ?thesis
    using P(1,4) p b e assms(3) by (auto simp: extract_subscription_id_def json_wrapper_is_string_def Let_def not_le)
qed

section \<open>The number of tokens of a value\<close>

lemma count_tokens_ok:
  "base + r \<le> length tokens \<Longrightarrow> \<exists>k. count_tokens_in_value tokens base r = Some k \<and> k \<le> r \<and> (0 < r \<longrightarrow> 0 < k)"
  "base + r \<le> length tokens \<Longrightarrow> \<exists>k. count_children pairs tokens base r n = Some k \<and> k \<le> r"
proof (induction tokens base r and pairs tokens base r n rule: count_tokens_in_value_count_children.induct)
  case (1 tokens base r)
  show ?case
  proof (cases "r = 0")
    case True
    then show ?thesis by (simp add: count_tokens_in_value.simps)
  next
    case False
    then have b: "base < length tokens" "base + 1 + (r - 1) \<le> length tokens" using "1.prems" by auto
    have t: "token_at tokens (int base) = Some (tokens ! base)" using b by simp
    let ?z = "nat (tok_size (tokens ! base))"
    consider (obj) "tok_type (tokens ! base) = JSMN_OBJECT" | (arr) "tok_type (tokens ! base) = JSMN_ARRAY"
      | (leaf) "tok_type (tokens ! base) \<noteq> JSMN_OBJECT" "tok_type (tokens ! base) \<noteq> JSMN_ARRAY" by blast
    then show ?thesis
    proof cases
      case obj
      then obtain k where "count_children True tokens (base + 1) (r - 1) ?z = Some k" "k \<le> r - 1"
        using "1.IH"(1) [OF False t obj b(2)] by blast
      then show ?thesis using False t obj by (simp add: count_tokens_in_value.simps)
    next
      case arr
      have "tok_type (tokens ! base) \<noteq> JSMN_OBJECT" using arr by simp
      then obtain k where "count_children False tokens (base + 1) (r - 1) ?z = Some k" "k \<le> r - 1"
        using "1.IH"(2) [OF False t _ arr b(2)] by blast
      then show ?thesis using False t arr by (simp add: count_tokens_in_value.simps)
    next
      case leaf
      then show ?thesis using False t by (simp add: count_tokens_in_value.simps)
    qed
  qed
next
  case (2 pairs tokens base r n)
  show ?case
  proof (cases "n = 0 \<or> r = 0")
    case True
    then show ?thesis by (auto simp: count_children.simps)
  next
    case False
    obtain k where k: "count_tokens_in_value tokens base r = Some k" "k \<le> r" using "2.IH"(1) [OF False "2.prems"] by blast
    show ?thesis
    proof (cases "pairs \<and> k < r")
      case True
      have "base + k + (r - k) \<le> length tokens" using "2.prems" k by simp
      then obtain l where l: "count_tokens_in_value tokens (base + k) (r - k) = Some l" "l \<le> r - k"
        using "2.IH"(2) [OF False k(1) True] by blast
      have "base + (k + l) + (r - (k + l)) \<le> length tokens" using "2.prems" k l by simp
      then obtain m where "count_children pairs tokens (base + (k + l)) (r - (k + l)) (n - 1) = Some m" "m \<le> r - (k + l)"
        using "2.IH"(3) [OF False k(1) True l(1)] by blast
      moreover have "k + l + m \<le> r" if "m \<le> r - (k + l)" for m using that l(2) True by linarith
      ultimately show ?thesis using False k l True by (subst count_children.simps) simp
    next
      case np: False
      have "base + k + (r - k) \<le> length tokens" using "2.prems" k by simp
      then obtain m where "count_children pairs tokens (base + k) (r - k) (n - 1) = Some m" "m \<le> r - k"
        using "2.IH"(4) [OF False k(1) np] by blast
      then show ?thesis using False k np by (subst count_children.simps) auto
    qed
  qed
qed

section \<open>Well-formed filters\<close>

text \<open>
  The values of a tag filter are followed by zeros; only when all 256 places are taken can the last
  one be without a terminator.
\<close>

definition filter_tag_wf :: "filter_tag \<Rightarrow> bool" where
  "filter_tag_wf t \<longleftrightarrow> ft_name t \<noteq> 0 \<and> length (ft_values t) = 8192 \<and> ft_values_count t \<le> 256 \<and>
     (\<forall>i < 8192. ft_values_count t * 32 \<le> i \<longrightarrow> ft_values t ! i = 0)"

definition filter_wf :: "nostr_filter \<Rightarrow> bool" where
  "filter_wf f \<longleftrightarrow> length (f_ids f) = 256 \<and> f_ids_count f \<le> 256 \<and> (\<forall>i \<in> set (f_ids f). filter_id_ok i) \<and>
     length (f_authors f) = 256 \<and> f_authors_count f \<le> 256 \<and> (\<forall>i \<in> set (f_authors f). filter_id_ok i) \<and>
     length (f_kinds f) = 64 \<and> f_kinds_count f \<le> 64 \<and> length (f_tags f) = 26 \<and> f_tags_count f \<le> 26 \<and>
     (\<forall>i < 26. if i < f_tags_count f then filter_tag_wf (f_tags f ! i) else ft_values_count (f_tags f ! i) = 0)"

lemma filter_wf_ok:
  assumes f: "filter_wf f"
    and t: "\<forall>t \<in> set (take (f_tags_count f) (f_tags f)). ft_values_count t < 256 \<or> ft_name t = 101 \<or> ft_name t = 112"
  shows "filter_ok f"
proof -
  have "filter_tag_ok u" if u: "u \<in> set (take (f_tags_count f) (f_tags f))" for u
  proof -
    obtain i where i: "i < f_tags_count f" "i < 26" "u = f_tags f ! i" using u f by (auto simp: in_set_conv_nth filter_wf_def)
    then have w: "filter_tag_wf u" using f by (auto simp: filter_wf_def)
    have "0 \<in> set (drop (j * 32) (ft_values u))" if "ft_values_count u < 256" "j < ft_values_count u" for j
    proof -
      have "ft_values u ! 8191 = 0" "length (ft_values u) = 8192" using w that by (auto simp: filter_tag_wf_def)
      then have "drop (j * 32) (ft_values u) ! (8191 - j * 32) = 0" "8191 - j * 32 < length (drop (j * 32) (ft_values u))"
        using that by simp_all
      then show ?thesis by (metis nth_mem)
    qed
    then show ?thesis using w t u by (auto simp: filter_tag_ok_def filter_tag_wf_def)
  qed
  then show ?thesis using f by (simp add: filter_ok_def filter_wf_def)
qed

lemma filter_init_wf: "filter_wf nostr_filter_init"
  by (simp add: filter_wf_def nostr_filter_init_def filter_id_ok_def)

lemma hex_to_bytes_ok:
  assumes "n \<le> length hex" "length out = 32"
  shows "\<exists>k out'. hex_to_bytes hex n out 32 = Some (k, out') \<and> k \<le> 32 \<and> length out' = 32"
proof -
  define m where "m = (if n div 2 > 32 then 32 else n div 2)"
  have m: "m * 2 \<le> length hex" "m \<le> 32" using assms(1) unfolding m_def by auto
  obtain c bin where "hex_to_bytes_loop hex m [0..<m] out = Some (c, bin)" "length bin = length out" "c \<le> m"
    using hex_to_bytes_loop_ok [of 0 m hex out] m assms(2) by auto
  then show ?thesis using m assms(2) by (simp add: hex_to_bytes_def Let_def m_def [symmetric])
qed

lemma ids_loop_ok:
  assumes P: "parsed json len tokens"
  shows "\<lbrakk> \<forall>i \<in> set xs. i < length tokens; length ids = 256; n \<le> 256; \<forall>i \<in> set ids. filter_id_ok i \<rbrakk> \<Longrightarrow>
    \<exists>ids' n'. ids_loop json tokens xs ids n = Some (ids', n') \<and> length ids' = 256 \<and> n' \<le> 256 \<and> (\<forall>i \<in> set ids'. filter_id_ok i)"
proof (induction xs arbitrary: ids n)
  case (Cons i xs)
  let ?t = "tokens ! i"
  let ?l = "json_wrapper_get_token_length ?t"
  have i: "i < length tokens" "?t \<in> set tokens" using Cons.prems(1) by auto
  note T = parsed_tok [OF P i(2)]
  have skip: "\<exists>ids' n'. ids_loop json tokens xs ids n = Some (ids', n') \<and> length ids' = 256 \<and> n' \<le> 256 \<and> (\<forall>i \<in> set ids'. filter_id_ok i)"
    using Cons.prems by (intro Cons.IH) auto
  show ?case
  proof (cases "n < 256 \<and> json_wrapper_is_string ?t \<and> ?l \<noteq> 0 \<and> \<not> ?l > 64")
    case False
    then show ?thesis using skip Cons.prems i(1) by (auto simp: Let_def)
  next
    case True
    obtain k out where h: "hex_to_bytes (drop (nat (tok_start ?t)) json) ?l (replicate 32 0) 32 = Some (k, out)" "k \<le> 32" "length out = 32"
      using hex_to_bytes_ok [OF T(2), of "replicate 32 0"] by auto
    define e where "e = \<lparr>fid_value = out, fid_prefix_len = (if k > 0 then k else 0)\<rparr>"
    define n' where "n' = (if k > 0 then n + 1 else n)"
    have po: "poke ids n [e] = Some (blit ids n [e])" using True Cons.prems by simp
    have step: "ids_loop json tokens (i # xs) ids n = ids_loop json tokens xs (blit ids n [e]) n'"
      using True i(1) T(1) h(1) po by (simp add: Let_def e_def n'_def)
    have "blit ids n [e] = ids[n := e]" using True Cons.prems by (simp add: blit_def upd_conv_take_nth_drop)
    then have "\<forall>i \<in> set (blit ids n [e]). filter_id_ok i"
      using Cons.prems(4) h set_update_subset_insert [of ids n e] by (auto simp: filter_id_ok_def e_def)
    moreover have "length (blit ids n [e]) = 256" "n' \<le> 256" using Cons.prems True by (simp_all add: n'_def)
    ultimately show ?thesis unfolding step using Cons.prems(1) by (intro Cons.IH) auto
  qed
qed simp

lemma child_range:
  assumes "tokens_ok len tokens" "base < length tokens"
  shows "\<forall>i \<in> set [base + 1..<base + 1 + nat (tok_size (tokens ! base))]. i < length tokens"
  using tokens_okD(3) [OF assms] by auto

lemma extract_ids_ok:
  assumes P: "parsed json len tokens" and b: "base < length tokens"
    and w: "length ids = 256" "n \<le> 256" "\<forall>i \<in> set ids. filter_id_ok i"
  shows "\<exists>r ids' n'. extract_nostr_filter_ids json tokens base ids n = Some (r, ids', n') \<and> length ids' = 256 \<and> n' \<le> 256 \<and>
    (\<forall>i \<in> set ids'. filter_id_ok i)"
proof -
  have t: "tokens_ok len tokens" using P by (simp add: parsed_def)
  obtain ids' n' where "ids_loop json tokens [base + 1..<base + 1 + nat (tok_size (tokens ! base))] ids 0 = Some (ids', n')"
    "length ids' = 256" "n' \<le> 256" "\<forall>i \<in> set ids'. filter_id_ok i"
    using ids_loop_ok [OF P child_range [OF t b] w(1) _ w(3), of 0] by auto
  then show ?thesis using b w by (auto simp: extract_nostr_filter_ids_def)
qed

lemma digits_loop_ok: "\<forall>j \<in> set xs. j < length s \<Longrightarrow> \<exists>r. digits_loop wrap s xs v = Some r"
  by (induction xs arbitrary: v) auto

lemma digits_token_ok:
  assumes P: "parsed json len tokens" and t: "t \<in> set tokens"
  shows "\<exists>r. digits_loop wrap (drop (nat (tok_start t)) json) [0..<json_wrapper_get_token_length t] v = Some r"
  using parsed_tok(2) [OF P t] by (intro digits_loop_ok) auto

lemma extract_number_ok:
  assumes P: "parsed json len tokens" and b: "base < length tokens"
  shows "\<exists>r. extract_number wrap m json tokens base = Some r"
proof -
  have t: "tokens ! base \<in> set tokens" using b by simp
  obtain r where "digits_loop wrap (drop (nat (tok_start (tokens ! base))) json) [0..<json_wrapper_get_token_length (tokens ! base)] 0 = Some r"
    using digits_token_ok [OF P t] by blast
  then show ?thesis using b parsed_tok(1) [OF P t] by (simp add: extract_number_def Let_def)
qed

lemma kinds_loop_ok:
  assumes P: "parsed json len tokens"
  shows "\<lbrakk> \<forall>i \<in> set xs. i < length tokens; length kinds = 64; n \<le> 64 \<rbrakk> \<Longrightarrow>
    \<exists>kinds' n'. kinds_loop json tokens xs kinds n = Some (kinds', n') \<and> length kinds' = 64 \<and> n' \<le> 64"
proof (induction xs arbitrary: kinds n)
  case (Cons i xs)
  let ?t = "tokens ! i"
  have i: "i < length tokens" "?t \<in> set tokens" using Cons.prems(1) by auto
  have skip: "\<exists>kinds' n'. kinds_loop json tokens xs kinds n = Some (kinds', n') \<and> length kinds' = 64 \<and> n' \<le> 64"
    using Cons.prems by (intro Cons.IH) auto
  obtain r where r: "digits_loop wrap_uint32 (drop (nat (tok_start ?t)) json) [0..<json_wrapper_get_token_length ?t] 0 = Some r"
    using digits_token_ok [OF P i(2)] by blast
  show ?case
  proof (cases "n < 64 \<and> json_wrapper_is_primitive ?t \<and> \<not> (json_wrapper_get_token_length ?t = 0 \<or> json_wrapper_get_token_length ?t > 10) \<and> r \<noteq> None")
    case False
    then show ?thesis using skip Cons.prems i(1) r parsed_tok(1) [OF P i(2)] by (auto simp: Let_def)
  next
    case True
    then obtain v where v: "r = Some v" by blast
    have "kinds_loop json tokens (i # xs) kinds n = kinds_loop json tokens xs (blit kinds n [nat v]) (n + 1)"
      using True v Cons.prems i(1) r parsed_tok(1) [OF P i(2)] by (simp add: Let_def)
    moreover have "\<exists>kinds' n'. kinds_loop json tokens xs (blit kinds n [nat v]) (n + 1) = Some (kinds', n') \<and> length kinds' = 64 \<and> n' \<le> 64"
      using Cons.prems True by (intro Cons.IH) auto
    ultimately show ?thesis by simp
  qed
qed simp

lemma extract_kinds_ok:
  assumes P: "parsed json len tokens" and b: "base < length tokens" and w: "length kinds = 64" "n \<le> 64"
  shows "\<exists>r kinds' n'. extract_nostr_filter_kinds json tokens base kinds n = Some (r, kinds', n') \<and> length kinds' = 64 \<and> n' \<le> 64"
proof -
  have t: "tokens_ok len tokens" using P by (simp add: parsed_def)
  obtain kinds' n' where "kinds_loop json tokens [base + 1..<base + 1 + nat (tok_size (tokens ! base))] kinds 0 = Some (kinds', n')"
    "length kinds' = 64" "n' \<le> 64"
    using kinds_loop_ok [OF P child_range [OF t b] w(1), of 0] by auto
  then show ?thesis using b w by (auto simp: extract_nostr_filter_kinds_def)
qed

lemma filter_tag_wf_push:
  assumes t: "filter_tag_wf t" "ft_values_count t < 256" and bs: "length bs \<le> 32"
  shows "filter_tag_wf (t\<lparr>ft_values := blit (ft_values t) (ft_values_count t * 32) bs, ft_values_count := ft_values_count t + 1\<rparr>)"
    "poke (ft_values t) (ft_values_count t * 32) bs = Some (blit (ft_values t) (ft_values_count t * 32) bs)"
proof -
  have l: "ft_values_count t * 32 + length bs \<le> length (ft_values t)" using assms by (simp add: filter_tag_wf_def)
  then show "poke (ft_values t) (ft_values_count t * 32) bs = Some (blit (ft_values t) (ft_values_count t * 32) bs)" by simp
  have "blit (ft_values t) (ft_values_count t * 32) bs ! i = 0" if "i < 8192" "(ft_values_count t + 1) * 32 \<le> i" for i
    using that t bs l by (subst nth_blit) (auto simp: filter_tag_wf_def)
  then show "filter_tag_wf (t\<lparr>ft_values := blit (ft_values t) (ft_values_count t * 32) bs, ft_values_count := ft_values_count t + 1\<rparr>)"
    using t l by (simp add: filter_tag_wf_def)
qed

lemma tag_loop_ok:
  assumes P: "parsed json len tokens"
  shows "\<lbrakk> \<forall>i \<in> set xs. i < length tokens; filter_tag_wf t \<rbrakk> \<Longrightarrow>
    \<exists>t'. tag_loop json tokens xs t = Some t' \<and> filter_tag_wf t'"
proof (induction xs arbitrary: t)
  case (Cons i xs)
  let ?k = "tokens ! i" and ?c = "ft_values_count t"
  let ?l = "json_wrapper_get_token_length ?k" and ?s = "drop (nat (tok_start (tokens ! i))) json"
  have i: "i < length tokens" "?k \<in> set tokens" using Cons.prems(1) by auto
  note T = parsed_tok [OF P i(2)]
  have IH: "filter_tag_wf u \<Longrightarrow> \<exists>t'. tag_loop json tokens xs u = Some t' \<and> filter_tag_wf t'" for u
    using Cons.prems(1) by (intro Cons.IH) auto
  have lv: "length (ft_values t) = 8192" using Cons.prems(2) by (simp add: filter_tag_wf_def)
  show ?case
  proof (cases "?c < 256 \<and> json_wrapper_is_string ?k \<and> ?l \<noteq> 0 \<and> \<not> ?l > 64")
    case False
    then show ?thesis using IH [OF Cons.prems(2)] Cons.prems(2) i(1) by (auto simp: Let_def)
  next
    case True
    note push = filter_tag_wf_push [OF Cons.prems(2) conjunct1 [OF True]]
    show ?thesis
    proof (cases "ft_name t = 101 \<or> ft_name t = 112")
      case ep: True
      have "is_valid_hex ?s ?l \<noteq> None" using T(2) unfolding is_valid_hex_def peek_def by auto
      then obtain w where "is_valid_hex ?s ?l = Some w" by blast
      then have "(if ?l = 64 then is_valid_hex ?s ?l else Some False) = Some (?l = 64 \<and> w)" by (cases "?l = 64") auto
      then obtain v where v: "(if ?l = 64 then is_valid_hex ?s ?l else Some False) = Some v" by blast
      show ?thesis
      proof (cases v)
        case False
        then show ?thesis using True ep v IH [OF Cons.prems(2)] i(1) T(1) by (auto simp: Let_def)
      next
        case hv: True
        have pk: "peek (ft_values t) (?c * 32) 32 = Some (slice (ft_values t) (?c * 32) 32)" using True lv by simp
        have "?c * 32 + 32 \<le> 8192" using True by simp
        then have "length (slice (ft_values t) (?c * 32) 32) = 32" using lv by simp
        then obtain n out where h: "hex_to_bytes ?s ?l (slice (ft_values t) (?c * 32) 32) 32 = Some (n, out)" "length out = 32"
          using hex_to_bytes_ok [OF T(2)] by blast
        show ?thesis
          using True ep v hv i(1) T(1) pk h push [of out] IH [OF push(1) [of out]] by (auto simp: Let_def)
      qed
    next
      case False
      define m where "m = (if ?l < 32 then ?l else 32)"
      have m: "m \<le> length ?s" "m \<le> 32" using T(2) by (auto simp: m_def)
      have pk: "peek ?s 0 m = Some (take m ?s)" using m by (simp add: slice_def)
      have lm: "length (take m ?s) \<le> 32" using m by simp
      show ?thesis
        using True False i(1) T(1) pk push [OF lm] IH [OF push(1) [OF lm]] by (simp add: Let_def m_def [symmetric])
    qed
  qed
qed simp

lemma extract_tag_ok:
  assumes P: "parsed json len tokens" and b: "base < length tokens" and n: "name \<noteq> 0" and old: "ft_values_count old = 0"
  shows "\<exists>r t. extract_nostr_filter_tag json tokens base name old = Some (r, t) \<and> (0 < ft_values_count t \<longrightarrow> filter_tag_wf t)"
proof -
  have t: "tokens_ok len tokens" using P by (simp add: parsed_def)
  define t0 where "t0 = \<lparr>ft_name = name, ft_values = replicate 8192 0, ft_values_count = 0\<rparr>"
  have w: "filter_tag_wf t0" using n by (simp add: filter_tag_wf_def t0_def)
  obtain t' where "tag_loop json tokens [base + 1..<base + 1 + nat (tok_size (tokens ! base))] t0 = Some t'" "filter_tag_wf t'"
    using tag_loop_ok [OF P child_range [OF t b] w] by blast
  then show ?thesis using b old w unfolding extract_nostr_filter_tag_def t0_def [symmetric] by (auto simp: Let_def)
qed

lemma ascii_neq_Nil [simp]: "ascii s = [] \<longleftrightarrow> s = []" by (simp add: ascii_def)

lemma filter_wf_tag:
  assumes f: "filter_wf flt" and n: "f_tags_count flt < 26" and t: "0 < ft_values_count t \<longrightarrow> filter_tag_wf t"
  shows "filter_wf (flt\<lparr>f_tags := (f_tags flt)[f_tags_count flt := t],
      f_tags_count := (if ft_values_count t > 0 then f_tags_count flt + 1 else f_tags_count flt)\<rparr>)"
proof -
  let ?n = "f_tags_count flt"
  define n' where "n' = (if ft_values_count t > 0 then ?n + 1 else ?n)"
  have old: "length (f_tags flt) = 26" "\<And>i. i < 26 \<Longrightarrow> i < ?n \<Longrightarrow> filter_tag_wf (f_tags flt ! i)"
    "\<And>i. i < 26 \<Longrightarrow> \<not> i < ?n \<Longrightarrow> ft_values_count (f_tags flt ! i) = 0"
    using f by (auto simp: filter_wf_def)
  have "if i < n' then filter_tag_wf ((f_tags flt)[?n := t] ! i) else ft_values_count ((f_tags flt)[?n := t] ! i) = 0"
    if i: "i < 26" for i
  proof (cases "i = ?n")
    case True
    then show ?thesis using old(1) n t by (auto simp: n'_def)
  next
    case False
    then have "i < n' \<longleftrightarrow> i < ?n" by (auto simp: n'_def)
    then show ?thesis using False old(2,3) [OF i] by simp
  qed
  moreover have "n' \<le> 26" using n by (simp add: n'_def)
  ultimately show ?thesis using f unfolding n'_def [symmetric] by (simp add: filter_wf_def)
qed

lemma filter_tag_field_ok:
  assumes P: "parsed json len tokens" and b: "base < length tokens" and k: "key \<in> set tokens" and f: "filter_wf flt"
  shows "\<exists>flt'. filter_tag_field json tokens key base flt = Some flt' \<and> filter_wf flt'"
proof (cases "json_wrapper_get_token_length key = 2")
  case True
  define s where "s = drop (nat (tok_start key)) json"
  note T = parsed_tok [OF P k, folded s_def]
  have c0: "char_at s 0 = Some (s ! 0)" "char_at s 1 = Some (s ! 1)"
    using T(2) unfolding True by (auto simp: char_at_def)
  have lt: "length (f_tags flt) = 26" using f by (simp add: filter_wf_def)
  show ?thesis
  proof (cases "s ! 0 = 35 \<and> f_tags_count flt < 26")
    case tg: True
    have "tok_text json key ! 1 = s ! 1" using T(3) True by (metis nth_take one_less_numeral_iff semiring_norm(76))
    then have c: "s ! 1 \<noteq> 0" using T(4,5) True nth_mem [of 1 "tok_text json key"] by auto
    have n: "f_tags_count flt < length (f_tags flt)" using tg lt by simp
    have z: "ft_values_count (f_tags flt ! f_tags_count flt) = 0" using f tg by (auto simp: filter_wf_def)
    obtain r t where t: "extract_nostr_filter_tag json tokens base (s ! 1) (f_tags flt ! f_tags_count flt) = Some (r, t)"
      "0 < ft_values_count t \<longrightarrow> filter_tag_wf t"
      using extract_tag_ok [OF P b c z] by (elim exE conjE) (rule that)
    have "filter_tag_field json tokens key base flt = Some (flt\<lparr>f_tags := (f_tags flt)[f_tags_count flt := t],
        f_tags_count := (if ft_values_count t > 0 then f_tags_count flt + 1 else f_tags_count flt)\<rparr>)"
      unfolding filter_tag_field_def if_P [OF True] T(1) Option.bind.bind_lunit c0 if_P [OF tg] if_P [OF n] t(1) prod.case by (rule refl)
    then show ?thesis using filter_wf_tag [OF f _ t(2)] tg by blast
  next
    case False
    have "filter_tag_field json tokens key base flt = Some flt"
      unfolding filter_tag_field_def if_P [OF True] T(1) Option.bind.bind_lunit c0 if_not_P [OF False] by (rule refl)
    then show ?thesis using f by simp
  qed
next
  case False
  then show ?thesis using f by (simp add: filter_tag_field_def)
qed

lemma filter_field_ok:
  assumes P: "parsed json len tokens" and b: "base < length tokens" and k: "key \<in> set tokens" and f: "filter_wf flt"
  shows "\<exists>flt'. filter_field json tokens key base flt = Some flt' \<and> filter_wf flt'"
proof -
  have F: "length (f_ids flt) = 256" "f_ids_count flt \<le> 256" "\<forall>i \<in> set (f_ids flt). filter_id_ok i"
    "length (f_authors flt) = 256" "f_authors_count flt \<le> 256" "\<forall>i \<in> set (f_authors flt). filter_id_ok i"
    "length (f_kinds flt) = 64" "f_kinds_count flt \<le> 64"
    using f by (simp_all add: filter_wf_def)
  obtain r1 ids n1 where ids: "extract_nostr_filter_ids json tokens base (f_ids flt) (f_ids_count flt) = Some (r1, ids, n1)"
    "length ids = 256" "n1 \<le> 256" "\<forall>i \<in> set ids. filter_id_ok i" using extract_ids_ok [OF P b F(1-3)] by blast
  obtain r2 aus n2 where aus: "extract_nostr_filter_authors json tokens base (f_authors flt) (f_authors_count flt) = Some (r2, aus, n2)"
    "length aus = 256" "n2 \<le> 256" "\<forall>i \<in> set aus. filter_id_ok i" using extract_ids_ok [OF P b F(4-6)] unfolding extract_nostr_filter_authors_def by blast
  obtain r3 ks n3 where ks: "extract_nostr_filter_kinds json tokens base (f_kinds flt) (f_kinds_count flt) = Some (r3, ks, n3)"
    "length ks = 64" "n3 \<le> 64" using extract_kinds_ok [OF P b F(7,8)] by blast
  obtain since where since: "extract_nostr_filter_since json tokens base = Some since"
    using extract_number_ok [OF P b] unfolding extract_nostr_filter_since_def by blast
  obtain until where until: "extract_nostr_filter_until json tokens base = Some until"
    using extract_number_ok [OF P b] unfolding extract_nostr_filter_until_def by blast
  obtain limit where limit: "extract_nostr_filter_limit json tokens base = Some limit"
    using extract_number_ok [OF P b] unfolding extract_nostr_filter_limit_def by blast
  obtain tag where tag: "filter_tag_field json tokens key base flt = Some tag" "filter_wf tag"
    using filter_tag_field_ok [OF P b k f] by blast
  have K: "\<exists>v. key_is json key (ascii name) = Some v" if "name \<noteq> []" for name
    using key_is_eq [OF P k] that by (metis ascii_neq_Nil)
  obtain k1 k2 k3 k4 k5 k6 where K: "key_is json key (ascii ''ids'') = Some k1" "key_is json key (ascii ''authors'') = Some k2"
    "key_is json key (ascii ''kinds'') = Some k3" "key_is json key (ascii ''since'') = Some k4"
    "key_is json key (ascii ''until'') = Some k5" "key_is json key (ascii ''limit'') = Some k6"
    using K [of "''ids''"] K [of "''authors''"] K [of "''kinds''"] K [of "''since''"] K [of "''until''"] K [of "''limit''"] by auto
  have wf_ids: "filter_wf (flt\<lparr>f_ids := ids, f_ids_count := n1\<rparr>)" "filter_wf (flt\<lparr>f_authors := aus, f_authors_count := n2\<rparr>)"
    "filter_wf (flt\<lparr>f_kinds := ks, f_kinds_count := n3\<rparr>)"
    using f ids(2-) aus(2-) ks(2-) by (simp_all add: filter_wf_def)
  have wf_nums: "filter_wf (case r of None \<Rightarrow> flt | Some v \<Rightarrow> flt\<lparr>f_since := v\<rparr>)"
    "filter_wf (case r of None \<Rightarrow> flt | Some v \<Rightarrow> flt\<lparr>f_until := v\<rparr>)"
    "filter_wf (case r of None \<Rightarrow> flt | Some v \<Rightarrow> flt\<lparr>f_limit := nat v, f_has_limit := True\<rparr>)" for r
    using f by (cases r; simp add: filter_wf_def)+
  show ?thesis
    unfolding filter_field_def K ids(1) aus(1) ks(1) since until limit tag(1) Option.bind.bind_lunit prod.case
    using wf_ids wf_nums tag(2) by (cases k1; cases k2; cases k3; cases k4; cases k5; cases k6; simp)
qed

lemma filter_loop_ok:
  assumes P: "parsed json len tokens"
  shows "\<lbrakk> base + n \<le> length tokens; filter_wf flt \<rbrakk> \<Longrightarrow>
    \<exists>r flt'. filter_loop json tokens base n xs idx flt = Some (r, flt') \<and> filter_wf flt'"
proof (induction xs arbitrary: idx flt)
  case (Cons i xs)
  show ?case
  proof (cases "idx < n \<and> json_wrapper_is_string (tokens ! (base + idx)) \<and> \<not> idx + 1 \<ge> n")
    case False
    then show ?thesis using Cons.prems by auto
  next
    case True
    then have b: "base + idx < length tokens" "base + (idx + 1) < length tokens" "base + (idx + 1) + (n - (idx + 1)) \<le> length tokens"
      using Cons.prems by auto
    have key: "tokens ! (base + idx) \<in> set tokens" using b by simp
    obtain flt' where f: "filter_field json tokens (tokens ! (base + idx)) (base + (idx + 1)) flt = Some flt'" "filter_wf flt'"
      using filter_field_ok [OF P b(2) key Cons.prems(2)] by blast
    obtain k where k: "count_tokens_in_value tokens (base + (idx + 1)) (n - (idx + 1)) = Some k"
      using count_tokens_ok(1) [OF b(3)] by blast
    have "filter_loop json tokens base n (i # xs) idx flt = filter_loop json tokens base n xs (idx + 1 + k) flt'"
      using True b f(1) k by (simp del: One_nat_def)
    then show ?thesis using Cons.IH [OF Cons.prems(1) f(2)] by simp
  qed
qed auto

lemma nostr_filter_parse_ok:
  assumes P: "parsed json len tokens" and b: "base + n \<le> length tokens" "base < length tokens" and f: "filter_wf flt"
  shows "\<exists>r flt'. nostr_filter_parse json tokens base n flt = Some (r, flt') \<and> filter_wf flt'"
proof -
  obtain r flt' where "filter_loop json tokens base n [0..<nat (tok_size (tokens ! base))] 1 nostr_filter_init = Some (r, flt')" "filter_wf flt'"
    using filter_loop_ok [OF P b(1) filter_init_wf] by blast
  then show ?thesis using b(2) f filter_init_wf by (auto simp: nostr_filter_parse_def)
qed

section \<open>Well-formed messages\<close>

definition req_wf :: "nostr_req \<Rightarrow> bool" where
  "req_wf r \<longleftrightarrow> id_ok (req_id r) \<and> length (req_filters r) = 16 \<and> req_filters_count r \<le> 16 \<and>
     (\<forall>f \<in> set (req_filters r). filter_wf f)"

lemma req_loop_ok:
  assumes P: "parsed json len tokens"
  shows "\<lbrakk> n \<le> length tokens; req_wf req \<rbrakk> \<Longrightarrow> \<exists>req'. req_loop json tokens n xs idx req = Some req' \<and> req_wf req' \<and> req_id req' = req_id req"
proof (induction xs arbitrary: idx req)
  case (Cons i xs)
  show ?case
  proof (cases "req_filters_count req < 16 \<and> idx < n")
    case False
    then show ?thesis using Cons.prems by auto
  next
    case True
    then have b: "idx < length tokens" "idx + (n - idx) \<le> length tokens" using Cons.prems by auto
    obtain k where k: "count_tokens_in_value tokens idx (n - idx) = Some k" using count_tokens_ok(1) [OF b(2)] by blast
    show ?thesis
    proof (cases "json_wrapper_is_object (tokens ! idx)")
      case False
      then have "req_loop json tokens n (i # xs) idx req = req_loop json tokens n xs (idx + k) req"
        using True b k by simp
      then show ?thesis using Cons.IH [OF Cons.prems] by simp
    next
      case obj: True
      let ?c = "req_filters_count req"
      have c: "?c < length (req_filters req)" using True Cons.prems(2) by (simp add: req_wf_def)
      then have "filter_wf (req_filters req ! ?c)" using Cons.prems(2) by (simp add: req_wf_def)
      then obtain ok flt where f: "nostr_filter_parse json tokens idx (n - idx) (req_filters req ! ?c) = Some (ok, flt)" "filter_wf flt"
        using nostr_filter_parse_ok [OF P b(2,1)] by blast
      let ?req = "req\<lparr>req_filters := (req_filters req)[?c := flt], req_filters_count := (if ok then ?c + 1 else ?c)\<rparr>"
      have "\<forall>f \<in> set ((req_filters req)[?c := flt]). filter_wf f"
        using Cons.prems(2) f(2) set_update_subset_insert [of "req_filters req" ?c flt] by (auto simp: req_wf_def)
      then have w: "req_wf ?req" using Cons.prems(2) True by (simp add: req_wf_def)
      have "req_loop json tokens n (i # xs) idx req = req_loop json tokens n xs (idx + k) ?req"
        using True b k obj c f(1) by simp
      then show ?thesis using Cons.IH [OF Cons.prems(1) w] by simp
    qed
  qed
qed simp

lemma id_ok_text:
  assumes "0 \<notin> set s" "s \<noteq> []" "length s \<le> 64"
  shows "id_ok (s @ replicate (65 - length s) 0)" "cstr (s @ replicate (65 - length s) 0) = s"
proof -
  have e: "replicate (65 - length s) (0 :: byte) = 0 # replicate (64 - length s) 0"
    using assms(3) by (simp add: Suc_diff_le [symmetric] replicate_Suc [symmetric] del: replicate_Suc)
  show "cstr (s @ replicate (65 - length s) 0) = s" unfolding e by (rule cstr_append [OF assms(1)])
  then show "id_ok (s @ replicate (65 - length s) 0)" using assms(2,3) e by (simp add: id_ok_def)
qed

lemma nostr_req_parse_ok:
  assumes P: "parsed json len tokens" and n: "n \<le> length tokens" "0 < n"
  shows "\<exists>ok req. nostr_req_parse json tokens n = Some (ok, req) \<and>
    (ok \<longrightarrow> req_wf req \<and> 0 < req_filters_count req \<and> cstr (req_id req) = tok_text json (tokens ! 2))"
proof -
  have T: "tokens_ok len tokens" using P by (simp add: parsed_def)
  have t0: "token_at tokens 0 = Some (tokens ! 0)" using n by (intro token_at_0) linarith
  show ?thesis
  proof (cases "json_wrapper_is_array (tokens ! 0) \<and> \<not> tok_size (tokens ! 0) < 3")
    case False
    then show ?thesis using t0 by (auto simp: nostr_req_parse_def Let_def)
  next
    case True
    have "0 < length tokens" using n by linarith
    then have l: "3 < length tokens" using tokens_okD(3) [OF T, of 0] True by auto
    have t1: "token_at tokens 1 = Some (tokens ! 1)" "token_at tokens 2 = Some (tokens ! 2)" using l by simp_all
    have m: "tokens ! 1 \<in> set tokens" "tokens ! 2 \<in> set tokens" using l by simp_all
    define v where "v = (tok_type (tokens ! 1) = JSMN_STRING \<and> map lower (tok_text json (tokens ! 1)) = map lower (ascii ''REQ''))"
    have v: "(if json_wrapper_is_string (tokens ! 1) then key_is json (tokens ! 1) (ascii ''REQ'') else Some False) = Some v"
      using key_is_eq [OF P m(1)] by (simp add: v_def json_wrapper_is_string_def)
    let ?s = "tok_text json (tokens ! 2)"
    note E = extract_subscription_id_eq [OF P m(2), of "req_id nostr_req_init"]
    have i0: "req_id nostr_req_init = replicate 65 0" by (simp add: nostr_req_init_def)
    show ?thesis
    proof (cases "v \<and> tok_type (tokens ! 2) = JSMN_STRING \<and> ?s \<noteq> [] \<and> length ?s \<le> 64")
      case False
      then show ?thesis 
        unfolding nostr_req_parse_def Let_def t0 t1 Option.bind.bind_lunit v E [OF i0] using True by auto
    next
      case ok: True
      let ?sid = "?s @ replicate (65 - length ?s) 0"
      have e: "extract_subscription_id json (tokens ! 2) (req_id nostr_req_init) = Some (Some ?sid)" using E i0 ok by simp
      have I: "id_ok ?sid" "cstr ?sid = ?s" using id_ok_text [of ?s] parsed_tok(5) [OF P m(2)] ok by auto
      have w: "req_wf (nostr_req_init\<lparr>req_id := ?sid\<rparr>)"
        using I(1) filter_init_wf by (simp add: req_wf_def nostr_req_init_def)
      obtain req where r: "req_loop json tokens n [2..<nat (tok_size (tokens ! 0))] 3 (nostr_req_init\<lparr>req_id := ?sid\<rparr>) = Some req"
        "req_wf req" "req_id req = ?sid"
        using req_loop_ok [OF P n(1) w, of "[2..<nat (tok_size (tokens ! 0))]" 3] by (elim exE conjE) (rule that, simp_all)
      have "nostr_req_parse json tokens n = Some (req_filters_count req > 0, req)"
        
        unfolding nostr_req_parse_def Let_def t0 t1 Option.bind.bind_lunit v e using True ok r(1) by simp
      then show ?thesis using r I(2) by simp
    qed
  qed
qed

lemma nostr_close_parse_ok:
  assumes P: "parsed json len tokens" and n: "n = length tokens" "0 < n"
  shows "\<exists>ok sid. nostr_close_parse json tokens n = Some (ok, sid) \<and>
    (ok \<longrightarrow> id_ok sid \<and> cstr sid = tok_text json (tokens ! 2))"
proof -
  have t0: "token_at tokens 0 = Some (tokens ! 0)" using n by (intro token_at_0) linarith
  show ?thesis
  proof (cases "json_wrapper_is_array (tokens ! 0) \<and> \<not> tok_size (tokens ! 0) < 2 \<and> \<not> n < 3")
    case False
    then show ?thesis using t0 by (auto simp: nostr_close_parse_def Let_def)
  next
    case True
    then have l: "2 < length tokens" using n by simp
    have t1: "token_at tokens 1 = Some (tokens ! 1)" "token_at tokens 2 = Some (tokens ! 2)" using l by simp_all
    have m: "tokens ! 1 \<in> set tokens" "tokens ! 2 \<in> set tokens" using l by simp_all
    define v where "v = (tok_type (tokens ! 1) = JSMN_STRING \<and> map lower (tok_text json (tokens ! 1)) = map lower (ascii ''CLOSE''))"
    have v: "(if json_wrapper_is_string (tokens ! 1) then key_is json (tokens ! 1) (ascii ''CLOSE'') else Some False) = Some v"
      using key_is_eq [OF P m(1)] by (simp add: v_def json_wrapper_is_string_def)
    let ?s = "tok_text json (tokens ! 2)"
    note E = extract_subscription_id_eq [OF P m(2) refl]
    show ?thesis
    proof (cases "v \<and> tok_type (tokens ! 2) = JSMN_STRING \<and> ?s \<noteq> [] \<and> length ?s \<le> 64")
      case False
      then show ?thesis 
        unfolding nostr_close_parse_def Let_def t0 t1 Option.bind.bind_lunit v E using True by auto
    next
      case ok: True
      have "id_ok (?s @ replicate (65 - length ?s) 0)" "cstr (?s @ replicate (65 - length ?s) 0) = ?s"
        using id_ok_text [of ?s] parsed_tok(5) [OF P m(2)] ok by auto
      then show ?thesis 
        unfolding nostr_close_parse_def Let_def t0 t1 Option.bind.bind_lunit v E using True ok by auto
    qed
  qed
qed

end
