(* ===== verification/NostrEventParse.thy ===== *)
theory NostrEventParse
  imports NostrRequest
begin

text \<open>
  Parsing of EVENT messages: \<open>src/nostr/event/\<close>. A pointer to a token is the token array and an
  index.
\<close>

section \<open>Identifiers and numbers\<close>

text \<open>The value of a field, or \<open>None\<close> inside for the result \<open>false\<close>. Id, public key and signature differ in length.\<close>

definition extract_hex :: "nat \<Rightarrow> byte list \<Rightarrow> jsmntok list \<Rightarrow> nat \<Rightarrow> byte list \<Rightarrow> byte list option option" where
  "extract_hex n json tokens base buffer = do {
     token \<leftarrow> token_at tokens (int base);
     if \<not> json_wrapper_is_string token then Some None
     else if json_wrapper_get_token_length token \<noteq> n then Some None
     else do {
       s \<leftarrow> json_from json (tok_start token);
       hex \<leftarrow> is_lower_hex_str s (json_wrapper_get_token_length token);
       if \<not> hex then Some None
       else do {
         bs \<leftarrow> peek s 0 n;
         buffer \<leftarrow> poke buffer 0 bs;
         buffer \<leftarrow> poke buffer n [0];
         Some (Some buffer)
       }
     }
   }"

definition extract_nostr_event_id :: "byte list \<Rightarrow> jsmntok list \<Rightarrow> nat \<Rightarrow> byte list \<Rightarrow> byte list option option" where
  "extract_nostr_event_id = extract_hex 64"

definition extract_nostr_event_pubkey :: "byte list \<Rightarrow> jsmntok list \<Rightarrow> nat \<Rightarrow> byte list \<Rightarrow> byte list option option" where
  "extract_nostr_event_pubkey = extract_hex 64"

definition extract_nostr_event_sig :: "byte list \<Rightarrow> jsmntok list \<Rightarrow> nat \<Rightarrow> byte list \<Rightarrow> byte list option option" where
  "extract_nostr_event_sig = extract_hex 128"

definition extract_nostr_event_kind :: "byte list \<Rightarrow> jsmntok list \<Rightarrow> nat \<Rightarrow> int option option" where
  "extract_nostr_event_kind = extract_number wrap_uint32 10"

text \<open>
  The loops over digits: the position behind them and the number, reduced by \<open>wrap\<close> after each digit.
  \<open>time_t\<close> is \<open>uint64_t\<close> here; the exponent is an \<open>int32_t\<close>, whose overflow is undefined in C and
  wraps around in the machine.
\<close>

function digits_span :: "(int \<Rightarrow> int) \<Rightarrow> byte list \<Rightarrow> nat \<Rightarrow> nat \<Rightarrow> int \<Rightarrow> (nat \<times> int) option" where
  "digits_span wrap s len pos val =
     (if pos < len then
        (case char_at s pos of
           None \<Rightarrow> None
         | Some c \<Rightarrow>
             if is_digit c then digits_span wrap s len (pos + 1) (wrap (val * 10 + (uint c - 48)))
             else Some (pos, val))
      else Some (pos, val))"
  by pat_completeness auto
termination by (relation "measure (\<lambda>(wrap, s, len, pos, val). len - pos)") auto

declare digits_span.simps [simp del]

definition wrap_uint64 :: "int \<Rightarrow> int" where
  "wrap_uint64 v = v mod 2 ^ 64"

definition wrap_int32 :: "int \<Rightarrow> int" where
  "wrap_int32 v = sint (word_of_int v :: 32 word)"

text \<open>45 is the minus sign, 43 the plus sign, 101 and 69 are the letters e and E.\<close>

definition char_is :: "byte list \<Rightarrow> nat \<Rightarrow> nat \<Rightarrow> byte set \<Rightarrow> bool option" where
  "char_is s len pos cs = (if pos < len then map_option (\<lambda>c. c \<in> cs) (char_at s pos) else Some False)"

definition exponent_part :: "byte list \<Rightarrow> nat \<Rightarrow> nat \<Rightarrow> int \<Rightarrow> int option" where
  "exponent_part s len pos val = do {
     plus \<leftarrow> char_is s len pos {43};
     minus \<leftarrow> char_is s len pos {45};
     (pos, exponent) \<leftarrow> digits_span wrap_int32 s len (if plus \<or> minus then pos + 1 else pos) 0;
     Some (if \<not> plus \<and> minus then ((\<lambda>v. v div 10) ^^ nat exponent) val
           else ((\<lambda>v. wrap_uint64 (v * 10)) ^^ nat exponent) val)
   }"

text \<open>The digits behind a decimal point are passed over and do not change the value.\<close>

definition extract_nostr_event_created_at :: "byte list \<Rightarrow> jsmntok list \<Rightarrow> nat \<Rightarrow> int option option" where
  "extract_nostr_event_created_at json tokens base = do {
     token \<leftarrow> token_at tokens (int base);
     let len = json_wrapper_get_token_length token;
     if \<not> json_wrapper_is_primitive token then Some None
     else if len = 0 then Some None
     else if len > 24 then Some None
     else do {
       s \<leftarrow> json_from json (tok_start token);
       first \<leftarrow> char_at s 0;
       let negative = (first = 45);
       (pos, val) \<leftarrow> digits_span wrap_uint64 s len (if negative then 1 else 0) 0;
       e \<leftarrow> char_is s len pos {101, 69};
       val \<leftarrow> (if e then exponent_part s len (pos + 1) val else Some val);
       Some (Some (if negative then wrap_uint64 (- val) else val))
     }
   }"

section \<open>The content\<close>

text \<open>
  The code point as UTF-8. A sequence of two or three bytes that does not fit in front of the
  terminator is left out.
\<close>

definition utf8_bytes :: "nat \<Rightarrow> byte list" where
  "utf8_bytes codepoint =
     (if codepoint < 0x80 then [word_of_nat codepoint]
      else if codepoint < 0x800 then [word_of_nat (0xC0 + codepoint div 64), word_of_nat (0x80 + codepoint mod 64)]
      else [word_of_nat (0xE0 + codepoint div 4096), word_of_nat (0x80 + codepoint div 64 mod 64),
            word_of_nat (0x80 + codepoint mod 64)])"

definition decode_unicode :: "byte list \<Rightarrow> nat \<Rightarrow> byte list \<Rightarrow> nat \<Rightarrow> nat \<Rightarrow> nat \<Rightarrow> (nat \<times> byte list \<times> nat) option" where
  "decode_unicode src src_len dst dst_capacity src_idx dst_idx =
     (if src_idx + 4 \<le> src_len then do {
        c1 \<leftarrow> char_at src src_idx;
        c2 \<leftarrow> char_at src (src_idx + 1);
        c3 \<leftarrow> char_at src (src_idx + 2);
        c4 \<leftarrow> char_at src (src_idx + 3);
        let h1 = hex_char_value c1;
        let h2 = hex_char_value c2;
        let h3 = hex_char_value c3;
        let h4 = hex_char_value c4;
        if h1 < 0 \<or> h2 < 0 \<or> h3 < 0 \<or> h4 < 0 then do {
          dst \<leftarrow> poke dst dst_idx [92, 117];
          Some (src_idx, dst, dst_idx + 2)
        }
        else do {
          let bs = utf8_bytes (nat (h1 * 4096 + h2 * 256 + h3 * 16 + h4));
          if length bs > 1 \<and> dst_idx + length bs > dst_capacity - 1 then Some (src_idx + 4, dst, dst_idx)
          else do {
            dst \<leftarrow> poke dst dst_idx bs;
            Some (src_idx + 4, dst, dst_idx + length bs)
          }
        }
      }
      else do {
        dst \<leftarrow> poke dst dst_idx [92, 117];
        Some (src_idx, dst, dst_idx + 2)
      })"

text \<open>
  The escape sequence with the character \<open>nxt\<close>, \<open>src_idx\<close> already behind it. The single characters:
  quote, backslash and slash stand for themselves; b, f, n, r and t for 8, 12, 10, 13 and 9.
\<close>

definition simple_escape :: "byte \<Rightarrow> byte option" where
  "simple_escape nxt =
     (if nxt = 34 then Some 34 else if nxt = 92 then Some 92 else if nxt = 47 then Some 47
      else if nxt = 98 then Some 8 else if nxt = 102 then Some 12 else if nxt = 110 then Some 10
      else if nxt = 114 then Some 13 else if nxt = 116 then Some 9 else None)"

definition decode_escape ::
    "byte \<Rightarrow> byte list \<Rightarrow> nat \<Rightarrow> byte list \<Rightarrow> nat \<Rightarrow> nat \<Rightarrow> nat \<Rightarrow> (nat \<times> byte list \<times> nat) option" where
  "decode_escape nxt src src_len dst dst_capacity src_idx dst_idx =
     (case simple_escape nxt of
        Some b \<Rightarrow> do { dst \<leftarrow> poke dst dst_idx [b]; Some (src_idx, dst, dst_idx + 1) }
      | None \<Rightarrow>
          if nxt = 117 then decode_unicode src src_len dst dst_capacity src_idx dst_idx
          else do {
            dst \<leftarrow> poke dst dst_idx [92];
            if dst_idx + 1 < dst_capacity - 1 then do {
              dst \<leftarrow> poke dst (dst_idx + 1) [nxt];
              Some (src_idx, dst, dst_idx + 2)
            }
            else Some (src_idx, dst, dst_idx + 1)
          })"

partial_function (option) decode_loop ::
    "byte list \<Rightarrow> nat \<Rightarrow> byte list \<Rightarrow> nat \<Rightarrow> nat \<Rightarrow> nat \<Rightarrow> (byte list \<times> nat) option" where
  "decode_loop src src_len dst dst_capacity src_idx dst_idx =
     (if src_idx < src_len \<and> dst_idx < dst_capacity - 1 then do {
        c \<leftarrow> char_at src src_idx;
        if c = 92 \<and> src_idx + 1 < src_len then do {
          nxt \<leftarrow> char_at src (src_idx + 1);
          (src_idx, dst, dst_idx) \<leftarrow> decode_escape nxt src src_len dst dst_capacity (src_idx + 2) dst_idx;
          decode_loop src src_len dst dst_capacity src_idx dst_idx
        }
        else do {
          dst \<leftarrow> poke dst dst_idx [c];
          decode_loop src src_len dst dst_capacity (src_idx + 1) (dst_idx + 1)
        }
      }
      else Some (dst, dst_idx))"

declare decode_loop.simps [code]

definition decode_json_string :: "byte list \<Rightarrow> nat \<Rightarrow> byte list \<Rightarrow> nat \<Rightarrow> (int \<times> byte list) option" where
  "decode_json_string src src_len dst dst_capacity =
     (if dst_capacity = 0 then Some (-1, dst)
      else do {
        (dst, dst_idx) \<leftarrow> decode_loop src src_len dst dst_capacity 0 0;
        dst \<leftarrow> poke dst dst_idx [0];
        Some (int dst_idx, dst)
      })"

definition extract_nostr_event_content ::
    "byte list \<Rightarrow> jsmntok list \<Rightarrow> nat \<Rightarrow> byte list \<Rightarrow> nat \<Rightarrow> byte list option option" where
  "extract_nostr_event_content json tokens base content content_capacity = do {
     token \<leftarrow> token_at tokens (int base);
     let content_len = json_wrapper_get_token_length token;
     if \<not> json_wrapper_is_string token then Some None
     else if content_len \<ge> content_capacity then Some None
     else do {
       s \<leftarrow> json_from json (tok_start token);
       (decoded_len, content) \<leftarrow> decode_json_string s content_len content content_capacity;
       Some (if decoded_len < 0 then None else Some content)
     }
   }"

section \<open>Tags\<close>

definition copy_token_string :: "byte list \<Rightarrow> jsmntok \<Rightarrow> byte list \<Rightarrow> nat \<Rightarrow> byte list option" where
  "copy_token_string json token buffer buffer_size = do {
     let len = json_wrapper_get_token_length token;
     let len = (if len \<ge> buffer_size then buffer_size - 1 else len);
     s \<leftarrow> json_from json (tok_start token);
     bs \<leftarrow> peek s 0 len;
     buffer \<leftarrow> poke buffer 0 bs;
     poke buffer len [0]
   }"

definition tag_zero :: nostr_tag where
  "tag_zero = \<lparr>tag_key = replicate 64 0, tag_values = replicate 16 (replicate 512 0), item_count = 0\<rparr>"

text \<open>The values of a tag from the token \<open>token_idx\<close> on; the result is the tag and the next token.\<close>

primrec tag_values_loop ::
    "byte list \<Rightarrow> jsmntok list \<Rightarrow> nat list \<Rightarrow> nat \<Rightarrow> nostr_tag \<Rightarrow> (nostr_tag \<times> nat) option" where
  "tag_values_loop json tokens [] token_idx tag = Some (tag, token_idx)"
| "tag_values_loop json tokens (value_i # is) token_idx tag =
     (if \<not> item_count tag < NOSTR_EVENT_TAG_VALUE_COUNT then Some (tag, token_idx)
      else do {
        value_token \<leftarrow> token_at tokens (int token_idx);
        if json_wrapper_is_string value_token then do {
          old \<leftarrow> (if item_count tag < length (tag_values tag) then Some (tag_values tag ! item_count tag) else None);
          v \<leftarrow> copy_token_string json value_token old NOSTR_EVENT_TAG_VALUE_LENGTH;
          tag_values_loop json tokens is (token_idx + 1)
            (tag\<lparr>tag_values := (tag_values tag)[item_count tag := v], item_count := item_count tag + 1\<rparr>)
        }
        else tag_values_loop json tokens is (token_idx + 1) tag
      })"

text \<open>The loop over the elements of the outer array; \<open>memset\<close> clears the tag before it is filled.\<close>

primrec tags_loop ::
    "byte list \<Rightarrow> jsmntok list \<Rightarrow> nat list \<Rightarrow> nat \<Rightarrow> nostr_tag list \<Rightarrow> nat \<Rightarrow> (nostr_tag list \<times> nat) option" where
  "tags_loop json tokens [] token_idx tags tag_count = Some (tags, tag_count)"
| "tags_loop json tokens (tag_i # is) token_idx tags tag_count =
     (if \<not> tag_count < NOSTR_EVENT_TAG_LENGTH then Some (tags, tag_count)
      else do {
        tag_token \<leftarrow> token_at tokens (int token_idx);
        if \<not> json_wrapper_is_array tag_token then tags_loop json tokens is (token_idx + 1) tags tag_count
        else if tok_size tag_token \<le> 0 then tags_loop json tokens is (token_idx + 1) tags tag_count
        else do {
          tags \<leftarrow> poke tags tag_count [tag_zero];
          key_token \<leftarrow> token_at tokens (int (token_idx + 1));
          if \<not> json_wrapper_is_string key_token
          then tags_loop json tokens is (token_idx + 1 + nat (tok_size tag_token)) tags tag_count
          else do {
            k \<leftarrow> copy_token_string json key_token (tag_key tag_zero) 64;
            (tag, token_idx) \<leftarrow> tag_values_loop json tokens [1..<nat (tok_size tag_token)] (token_idx + 2) (tag_zero\<lparr>tag_key := k\<rparr>);
            tags_loop json tokens is token_idx (tags[tag_count := tag]) (tag_count + 1)
          }
        }
      })"

definition extract_nostr_event_tags ::
    "byte list \<Rightarrow> jsmntok list \<Rightarrow> nat \<Rightarrow> nostr_tag list \<Rightarrow> nat \<Rightarrow> (bool \<times> nostr_tag list \<times> nat) option" where
  "extract_nostr_event_tags json tokens base tags tag_count = do {
     token \<leftarrow> token_at tokens (int base);
     if \<not> json_wrapper_is_array token then Some (False, tags, tag_count)
     else if tok_size token < 0 then Some (False, tags, tag_count)
     else if tok_size token = 0 then Some (True, tags, 0)
     else do {
       (tags, tag_count) \<leftarrow> tags_loop json tokens [0..<nat (tok_size token)] (base + 1) tags 0;
       Some (True, tags, tag_count)
     }
   }"

section \<open>The event\<close>

function count_value_tokens :: "jsmntok list \<Rightarrow> nat \<Rightarrow> nat \<Rightarrow> nat option"
  and count_value_children :: "bool \<Rightarrow> jsmntok list \<Rightarrow> nat \<Rightarrow> nat \<Rightarrow> nat \<Rightarrow> nat option" where
  "count_value_tokens tokens base remaining =
     (if remaining = 0 then Some 0
      else
        (case token_at tokens (int base) of
           None \<Rightarrow> None
         | Some token \<Rightarrow>
             if tok_type token = JSMN_PRIMITIVE \<or> tok_type token = JSMN_STRING then Some 1
             else if tok_type token = JSMN_OBJECT
             then map_option Suc (count_value_children True tokens (base + 1) (remaining - 1) (nat (tok_size token)))
             else if tok_type token = JSMN_ARRAY
             then map_option Suc (count_value_children False tokens (base + 1) (remaining - 1) (nat (tok_size token)))
             else Some 1))"
| "count_value_children object tokens base remaining n =
     (if n = 0 \<or> remaining = 0 then Some 0
      else if object then
        (case count_value_tokens tokens (base + 1) (remaining - 1) of
           None \<Rightarrow> None
         | Some k \<Rightarrow> map_option ((+) (1 + k)) (count_value_children object tokens (base + (1 + k)) (remaining - (1 + k)) (n - 1)))
      else
        (case count_value_tokens tokens base remaining of
           None \<Rightarrow> None
         | Some k \<Rightarrow> map_option ((+) k) (count_value_children object tokens (base + k) (remaining - k) (n - 1))))"
  by pat_completeness auto
termination
  by (relation "measures [\<lambda>x. case x of Inl (t, b, r) \<Rightarrow> r | Inr (p, t, b, r, n) \<Rightarrow> r,
      \<lambda>x. case x of Inl y \<Rightarrow> 0 | Inr (p, t, b, r, n) \<Rightarrow> n + 1]") auto

declare count_value_tokens.simps [simp del] count_value_children.simps [simp del]

record event_found =
  found_id :: bool
  found_pubkey :: bool
  found_kind :: bool
  found_created_at :: bool
  found_sig :: bool
  found_tags :: bool
  found_content :: bool

definition found_none :: event_found where
  "found_none = \<lparr>found_id = False, found_pubkey = False, found_kind = False, found_created_at = False,
     found_sig = False, found_tags = False, found_content = False\<rparr>"

text \<open>
  The chain of comparisons for one field with the value at \<open>base\<close>; \<open>None\<close> inside if the
  extraction fails. Keys are compared with \<open>json_wrapper_strncmp\<close>, which looks at a prefix only.
\<close>

definition event_field ::
    "byte list \<Rightarrow> jsmntok list \<Rightarrow> jsmntok \<Rightarrow> nat \<Rightarrow> nostr_event \<times> event_found \<Rightarrow> (nostr_event \<times> event_found) option option" where
  "event_field json tokens key base = (\<lambda>(event, found). do {
     k_id \<leftarrow> json_wrapper_strncmp json key (ascii ''id'' @ [0]) 2;
     if k_id then do {
       r \<leftarrow> extract_nostr_event_id json tokens base (ev_id event);
       Some (map_option (\<lambda>v. (event\<lparr>ev_id := v\<rparr>, found\<lparr>found_id := True\<rparr>)) r)
     } else do {
     k_pubkey \<leftarrow> json_wrapper_strncmp json key (ascii ''pubkey'' @ [0]) 6;
     if k_pubkey then do {
       r \<leftarrow> extract_nostr_event_pubkey json tokens base (ev_pubkey event);
       Some (map_option (\<lambda>v. (event\<lparr>ev_pubkey := v\<rparr>, found\<lparr>found_pubkey := True\<rparr>)) r)
     } else do {
     k_kind \<leftarrow> json_wrapper_strncmp json key (ascii ''kind'' @ [0]) 4;
     if k_kind then do {
       r \<leftarrow> extract_nostr_event_kind json tokens base;
       Some (map_option (\<lambda>v. (event\<lparr>ev_kind := nat v\<rparr>, found\<lparr>found_kind := True\<rparr>)) r)
     } else do {
     k_created_at \<leftarrow> json_wrapper_strncmp json key (ascii ''created_at'' @ [0]) 10;
     if k_created_at then do {
       r \<leftarrow> extract_nostr_event_created_at json tokens base;
       Some (map_option (\<lambda>v. (event\<lparr>ev_created_at := nat v\<rparr>, found\<lparr>found_created_at := True\<rparr>)) r)
     } else do {
     k_sig \<leftarrow> json_wrapper_strncmp json key (ascii ''sig'' @ [0]) 3;
     if k_sig then do {
       r \<leftarrow> extract_nostr_event_sig json tokens base (ev_sig event);
       Some (map_option (\<lambda>v. (event\<lparr>ev_sig := v\<rparr>, found\<lparr>found_sig := True\<rparr>)) r)
     } else do {
     k_tags \<leftarrow> json_wrapper_strncmp json key (ascii ''tags'' @ [0]) 4;
     if k_tags then do {
       (ok, tags, n) \<leftarrow> extract_nostr_event_tags json tokens base (ev_tags event) (ev_tag_count event);
       Some (if ok then Some (event\<lparr>ev_tags := tags, ev_tag_count := n\<rparr>, found\<lparr>found_tags := True\<rparr>) else None)
     } else do {
     k_content \<leftarrow> json_wrapper_strncmp json key (ascii ''content'' @ [0]) 7;
     if k_content then do {
       r \<leftarrow> extract_nostr_event_content json tokens base (ev_content event) NOSTR_EVENT_CONTENT_LENGTH;
       Some (map_option (\<lambda>v. (event\<lparr>ev_content := v\<rparr>, found\<lparr>found_content := True\<rparr>)) r)
     } else Some (Some (event, found)) }}}}}}
   })"

partial_function (option) event_loop ::
    "byte list \<Rightarrow> jsmntok list \<Rightarrow> nat \<Rightarrow> nat \<Rightarrow> nat \<Rightarrow> nostr_event \<Rightarrow> event_found \<Rightarrow> (nostr_event \<times> event_found) option option" where
  "event_loop json tokens base token_count i event found =
     (if i < token_count \<and> \<not> i + 1 \<ge> token_count then do {
        value_tokens \<leftarrow> count_value_tokens tokens (base + (i + 1)) (token_count - (i + 1));
        key \<leftarrow> token_at tokens (int (base + i));
        if \<not> json_wrapper_is_string key then Some None
        else do {
          r \<leftarrow> event_field json tokens key (base + (i + 1)) (event, found);
          case r of
            None \<Rightarrow> Some None
          | Some ef \<Rightarrow> event_loop json tokens base token_count (i + (1 + value_tokens)) (fst ef) (snd ef)
        }
      }
      else Some (Some (event, found)))"

declare event_loop.simps [code]

definition extract_nostr_event ::
    "byte list \<Rightarrow> jsmntok list \<Rightarrow> nat \<Rightarrow> nat \<Rightarrow> nostr_event \<Rightarrow> nostr_event option option" where
  "extract_nostr_event json tokens base token_count event = do {
     r \<leftarrow> event_loop json tokens base token_count 0 event found_none;
     Some (case r of
         None \<Rightarrow> None
       | Some (event, found) \<Rightarrow>
           if found_id found \<and> found_pubkey found \<and> found_kind found \<and> found_created_at found \<and> found_sig found \<and>
              found_tags found \<and> found_content found
           then Some event else None)
   }"

section \<open>Keys\<close>

lemma compare_prefix:
  assumes s: "0 \<in> set s" and lit: "0 \<notin> set lit"
  shows "k \<le> length lit \<Longrightarrow> k \<le> length (cstr s) \<Longrightarrow> compare_loop chrcmp s (lit @ [0]) [k..<length lit] =
    Some (map lower (take (length lit - k) (drop k (cstr s))) = map lower (drop k lit))"
proof (induction "length lit - k" arbitrary: k)
  case 0
  then show ?case by simp
next
  case (Suc m)
  then have k: "k < length lit" by simp
  have u: "[k..<length lit] = k # [Suc k..<length lit]" using k by (simp add: upt_conv_Cons)
  have cl: "length (cstr s) < length s" by (rule cstr_length [OF s])
  have l: "lit ! k \<noteq> 0" using lit k nth_mem by metis
  have d: "drop k lit = lit ! k # drop (Suc k) lit" using k by (simp add: Cons_nth_drop_Suc)
  show ?case
  proof (cases "k < length (cstr s)")
    case False
    then have e: "k = length (cstr s)" using Suc.prems by simp
    then have "s ! k = 0" "k < length s" using cstr_nth cl by simp_all
    then have "compare_loop chrcmp s (lit @ [0]) [k..<length lit] = Some False"
      unfolding u using k l by (simp add: chrcmp_def nth_append)
    then show ?thesis using e k by (simp add: d)
  next
    case True
    have sk: "s ! k = cstr s ! k" using True cstr_take [of s] by (metis nth_take)
    have c: "drop k (cstr s) = cstr s ! k # drop (Suc k) (cstr s)" using True by (simp add: Cons_nth_drop_Suc)
    have n: "length lit - k = Suc (length lit - Suc k)" using k by simp
    have "compare_loop chrcmp s (lit @ [0]) [Suc k..<length lit] =
        Some (map lower (take (length lit - Suc k) (drop (Suc k) (cstr s))) = map lower (drop (Suc k) lit))"
      using Suc.hyps True k by (intro Suc.hyps(1)) auto
    then show ?thesis using True k cl sk by (simp add: u chrcmp_def nth_append c d n)
  qed
qed

text \<open>A text, terminated by a 0, with its tokens.\<close>

definition parsed0 :: "byte list \<Rightarrow> nat \<Rightarrow> jsmntok list \<Rightarrow> bool" where
  "parsed0 json len tokens \<longleftrightarrow> parsed json len tokens \<and> len < length json \<and> json ! len = 0"

lemma json_wrapper_strncmp_eq:
  assumes P: "parsed0 json len tokens" and t: "t \<in> set tokens" and lit: "0 \<notin> set lit" "lit \<noteq> []" "n = length lit"
  shows "json_wrapper_strncmp json t (lit @ [0]) n =
    Some (tok_type t = JSMN_STRING \<and> map lower (take n (cstr (drop (nat (tok_start t)) json))) = map lower lit)"
proof -
  have p: "parsed json len tokens" using P by (simp add: parsed0_def)
  have tk: "nat (tok_start t) \<le> len" using p t by (auto simp: parsed_def tokens_ok_def tok_ok_def)
  let ?s = "drop (nat (tok_start t)) json"
  have "?s ! (len - nat (tok_start t)) = 0" "len - nat (tok_start t) < length ?s" using P tk by (simp_all add: parsed0_def diff_less_mono)
  then have "0 \<in> set ?s" by (metis nth_mem)
  then have "nostr_strncmp ?s (lit @ [0]) n = Some (map lower (take n (cstr ?s)) = map lower lit)"
    using compare_prefix [OF _ lit(1), of ?s 0] lit by (simp add: nostr_strncmp_def)
  then show ?thesis using parsed_tok(1) [OF p t] lit by (auto simp: json_wrapper_strncmp_def json_wrapper_is_string_def)
qed

lemma ascii_no_0: "0 \<notin> set (ascii ''id'')" "0 \<notin> set (ascii ''pubkey'')" "0 \<notin> set (ascii ''kind'')"
  "0 \<notin> set (ascii ''created_at'')" "0 \<notin> set (ascii ''sig'')" "0 \<notin> set (ascii ''tags'')" "0 \<notin> set (ascii ''content'')"
  "0 \<notin> set (ascii ''EVENT'')" "0 \<notin> set (ascii ''REQ'')" "0 \<notin> set (ascii ''CLOSE'')"
  by (simp_all add: ascii_def)

section \<open>Counting\<close>

lemma count_value_tokens_ok:
  "base + r \<le> length tokens \<Longrightarrow> \<exists>k. count_value_tokens tokens base r = Some k \<and> k \<le> r \<and> (0 < r \<longrightarrow> 0 < k)"
  "base + r \<le> length tokens \<Longrightarrow> \<exists>k. count_value_children object tokens base r n = Some k \<and> k \<le> r"
proof (induction tokens base r and object tokens base r n rule: count_value_tokens_count_value_children.induct)
  case (1 tokens base r)
  show ?case
  proof (cases "r = 0")
    case True
    then show ?thesis by (simp add: count_value_tokens.simps)
  next
    case False
    then have b: "base < length tokens" "base + 1 + (r - 1) \<le> length tokens" using "1.prems" by auto
    have t: "token_at tokens (int base) = Some (tokens ! base)" using b by simp
    let ?z = "nat (tok_size (tokens ! base))"
    show ?thesis
    proof (cases "tok_type (tokens ! base)")
      case JSMN_OBJECT
      then obtain k where "count_value_children True tokens (base + 1) (r - 1) ?z = Some k" "k \<le> r - 1"
        using "1.IH"(1) [OF False t _ JSMN_OBJECT b(2)] by auto
      then show ?thesis using False t JSMN_OBJECT by (simp add: count_value_tokens.simps)
    next
      case JSMN_ARRAY
      then obtain k where "count_value_children False tokens (base + 1) (r - 1) ?z = Some k" "k \<le> r - 1"
        using "1.IH"(2) [OF False t _ _ JSMN_ARRAY b(2)] by auto
      then show ?thesis using False t JSMN_ARRAY by (simp add: count_value_tokens.simps)
    qed (use False t in \<open>simp_all add: count_value_tokens.simps\<close>)
  qed
next
  case (2 object tokens base r n)
  show ?case
  proof (cases "n = 0 \<or> r = 0")
    case True
    then show ?thesis by (auto simp: count_value_children.simps)
  next
    case False
    show ?thesis
    proof (cases object)
      case True
      have "base + 1 + (r - 1) \<le> length tokens" using "2.prems" False by simp
      then obtain k where k: "count_value_tokens tokens (base + 1) (r - 1) = Some k" "k \<le> r - 1"
        using "2.IH"(1) [OF False True] by blast
      have "base + (1 + k) + (r - (1 + k)) \<le> length tokens" using "2.prems" k(2) False by linarith
      then obtain m where "count_value_children object tokens (base + (1 + k)) (r - (1 + k)) (n - 1) = Some m" "m \<le> r - (1 + k)"
        using "2.IH"(2) [OF False True k(1)] by blast
      moreover have "1 + k + m \<le> r" if "m \<le> r - (1 + k)" for m using that k(2) False by linarith
      ultimately show ?thesis using False k True by (subst count_value_children.simps) simp
    next
      case no: False
      obtain k where k: "count_value_tokens tokens base r = Some k" "k \<le> r"
        using "2.IH"(3) [OF False no "2.prems"] by blast
      have "base + k + (r - k) \<le> length tokens" using "2.prems" k by simp
      then obtain m where "count_value_children object tokens (base + k) (r - k) (n - 1) = Some m" "m \<le> r - k"
        using "2.IH"(4) [OF False no k(1)] by blast
      then show ?thesis using False k no by (subst count_value_children.simps) auto
    qed
  qed
qed

section \<open>Single fields\<close>

lemma extract_hex_eq:
  assumes P: "parsed json len tokens" and b: "base < length tokens" and n: "0 < n" "length buffer = n + 1"
  shows "extract_hex n json tokens base buffer = Some
    (if tok_type (tokens ! base) = JSMN_STRING \<and> length (tok_text json (tokens ! base)) = n \<and>
        (\<forall>c \<in> set (tok_text json (tokens ! base)). is_lower_hex c)
     then Some (tok_text json (tokens ! base) @ [0]) else None)"
proof (cases "tok_type (tokens ! base) = JSMN_STRING \<and> json_wrapper_get_token_length (tokens ! base) = n")
  case True
  have m: "tokens ! base \<in> set tokens" using b by simp
  note T = parsed_tok [OF P m]
  let ?s = "drop (nat (tok_start (tokens ! base))) json" and ?t = "tok_text json (tokens ! base)"
  have hex: "is_lower_hex_str ?s n = Some (\<forall>c \<in> set ?t. is_lower_hex c)"
    using is_lower_hex_str_eq [of n ?s] T(2,3) True n(1) by simp
  have pk: "peek ?s 0 n = Some ?t" using T(2,3) True by (simp add: slice_def)
  have l: "length ?t = n" using T(4) True by simp
  then have "blit (blit buffer 0 ?t) n [0] = ?t @ [0]" using n by (simp add: blit_def)
  then show ?thesis using True b T(1) hex pk l n by (simp add: extract_hex_def json_wrapper_is_string_def)
next
  case False
  have m: "tokens ! base \<in> set tokens" using b by simp
  show ?thesis using False b parsed_tok(4) [OF P m] by (auto simp: extract_hex_def json_wrapper_is_string_def)
qed

lemma digits_span_ok:
  "len \<le> length s \<Longrightarrow> \<exists>p v'. digits_span wrap s len pos v = Some (p, v') \<and> pos \<le> p \<and> (v' = v \<or> (\<exists>x. v' = wrap x))"
proof (induction wrap s len pos v rule: digits_span.induct)
  case (1 wrap s len pos v)
  show ?case
  proof (cases "pos < len \<and> is_digit (s ! pos)")
    case True
    then obtain p v' where "digits_span wrap s len (pos + 1) (wrap (v * 10 + (uint (s ! pos) - 48))) = Some (p, v')" "pos + 1 \<le> p"
      "v' = wrap (v * 10 + (uint (s ! pos) - 48)) \<or> (\<exists>x. v' = wrap x)"
      using "1.IH" [of "s ! pos"] "1.prems" by auto
    then show ?thesis using True "1.prems" by (subst digits_span.simps) auto
  next
    case False
    then show ?thesis using "1.prems" by (subst digits_span.simps) auto
  qed
qed

lemma char_is_ok: "len \<le> length s \<Longrightarrow> \<exists>b. char_is s len pos cs = Some b"
  by (cases "pos < len") (auto simp: char_is_def)

lemma wrap_uint64_range: "0 \<le> wrap_uint64 v" "wrap_uint64 v < 2 ^ 64" by (simp_all add: wrap_uint64_def)

lemma exponent_part_ok:
  assumes "len \<le> length s" "0 \<le> v" "v < 2 ^ 64"
  shows "\<exists>v'. exponent_part s len pos v = Some v' \<and> 0 \<le> v' \<and> v' < 2 ^ 64"
proof -
  obtain a b where ab: "char_is s len pos {43} = Some a" "char_is s len pos {45} = Some b" using char_is_ok [OF assms(1)] by blast
  obtain p e where e: "digits_span wrap_int32 s len (if a \<or> b then pos + 1 else pos) 0 = Some (p, e)"
    using digits_span_ok [OF assms(1)] by blast
  have up: "0 \<le> ((\<lambda>v. wrap_uint64 (v * 10)) ^^ n) v \<and> ((\<lambda>v. wrap_uint64 (v * 10)) ^^ n) v < 2 ^ 64" for n
    using assms(2,3) wrap_uint64_range by (cases n) auto
  have down: "0 \<le> ((\<lambda>v. v div 10) ^^ n) v \<and> ((\<lambda>v. v div 10) ^^ n) v \<le> v" for n
  proof (induction n)
    case (Suc n)
    have "x div 10 \<le> x" if "0 \<le> x" for x :: int using that by linarith
    then show ?case using Suc by (auto intro: order.trans)
  qed (use assms(2) in simp)
  show ?thesis using ab e up down [of "nat e"] assms(3) by (auto simp: exponent_part_def)
qed

lemma created_at_ok:
  assumes P: "parsed json len tokens" and b: "base < length tokens"
  shows "\<exists>r. extract_nostr_event_created_at json tokens base = Some r \<and> (\<forall>v. r = Some v \<longrightarrow> 0 \<le> v \<and> v < 2 ^ 64)"
proof -
  let ?t = "tokens ! base" and ?n = "json_wrapper_get_token_length (tokens ! base)"
  define s where "s = drop (nat (tok_start ?t)) json"
  have m: "?t \<in> set tokens" using b by simp
  note T = parsed_tok [OF P m, folded s_def]
  show ?thesis
  proof (cases "json_wrapper_is_primitive ?t \<and> ?n \<noteq> 0 \<and> \<not> ?n > 24")
    case False
    then show ?thesis using b by (auto simp: extract_nostr_event_created_at_def Let_def)
  next
    case True
    have c: "char_at s 0 = Some (s ! 0)" using T(2) True by (intro char_at_Some) linarith
    define neg where "neg = (s ! 0 = 45)"
    obtain p v where d: "digits_span wrap_uint64 s ?n (if neg then 1 else 0) 0 = Some (p, v)" "v = 0 \<or> (\<exists>x. v = wrap_uint64 x)"
      using digits_span_ok [OF T(2)] by blast
    then have v: "0 \<le> v" "v < 2 ^ 64" using wrap_uint64_range by auto
    obtain e where e: "char_is s ?n p {101, 69} = Some e" using char_is_ok [OF T(2)] by blast
    obtain v1 where v1: "exponent_part s ?n (p + 1) v = Some v1" "0 \<le> v1" "v1 < 2 ^ 64"
      using exponent_part_ok [OF T(2) v] by blast
    define v2 where "v2 = (if e then v1 else v)"
    have v2: "(if e then exponent_part s ?n (p + 1) v else Some v) = Some v2" "0 \<le> v2" "v2 < 2 ^ 64"
      using v v1 by (simp_all add: v2_def)
    have "extract_nostr_event_created_at json tokens base = Some (Some (if neg then wrap_uint64 (- v2) else v2))"
      unfolding extract_nostr_event_created_at_def token_at_Some [OF b] Option.bind.bind_lunit Let_def T(1) c neg_def [symmetric] d(1) prod.case e v2(1)
      using True by auto
    then show ?thesis using v2 wrap_uint64_range by simp
  qed
qed

section \<open>The content\<close>

text \<open>The decoding of a string without capacities and indices.\<close>

definition has_code :: "byte list \<Rightarrow> bool" where
  "has_code r \<longleftrightarrow> 4 \<le> length r \<and> (\<forall>x \<in> set (take 4 r). hex_char_value x \<ge> 0)"

definition code_bytes :: "byte list \<Rightarrow> byte list" where
  "code_bytes r = utf8_bytes (nat (hex_char_value (r ! 0) * 4096 + hex_char_value (r ! 1) * 256 +
     hex_char_value (r ! 2) * 16 + hex_char_value (r ! 3)))"

function unescape :: "byte list \<Rightarrow> byte list" where
  "unescape [] = []"
| "unescape [c] = [c]"
| "unescape (c # d # r) =
     (if c \<noteq> 92 then c # unescape (d # r)
      else (case simple_escape d of
          Some b \<Rightarrow> b # unescape r
        | None \<Rightarrow>
            if d \<noteq> 117 then 92 # d # unescape r
            else if has_code r then code_bytes r @ unescape (drop 4 r)
            else 92 # 117 # unescape r))"
  by pat_completeness auto
termination by (relation "measure length") auto

lemma code_bytes_length: "length (code_bytes n) \<le> 3" "0 < length (code_bytes n)"
  by (simp_all add: code_bytes_def utf8_bytes_def)

lemma unescape_length: "length (unescape s) \<le> length s"
proof (induction s rule: unescape.induct)
  case (3 c d r)
  have "has_code r \<Longrightarrow> 4 \<le> length r" by (simp add: has_code_def)
  moreover have "length (code_bytes r) + n \<le> Suc (Suc m)" if "n \<le> m - 4" "4 \<le> m" for n m
    using that code_bytes_length(1) [of r] by linarith
  ultimately show ?case using 3 by (auto split: option.split)
qed auto

lemma has_code_eq:
  "has_code r \<longleftrightarrow> 4 \<le> length r \<and> \<not> (hex_char_value (r ! 0) < 0 \<or> hex_char_value (r ! 1) < 0 \<or>
     hex_char_value (r ! 2) < 0 \<or> hex_char_value (r ! 3) < 0)"
proof -
  have "take 4 r = [r ! 0, r ! 1, r ! 2, r ! 3]" if "4 \<le> length r"
    using that by (auto simp: list_eq_iff_nth_eq less_Suc_eq numeral_eq_Suc nth_Cons')
  then show ?thesis by (auto simp: has_code_def not_less)
qed

text \<open>
  As long as the source is shorter than the capacity, the writing position stays behind the
  reading position and nothing is cut off.
\<close>

lemma decode_unicode_ok:
  assumes n: "n \<le> length src" "n < cap" "cap \<le> length dst" and ij: "j + 2 \<le> i" "i \<le> n"
  shows "decode_unicode src n dst cap i j =
    (let r = slice src i (n - i)
     in if has_code r then Some (i + 4, blit dst j (code_bytes r), j + length (code_bytes r))
        else Some (i, blit dst j [92, 117], j + 2))"
proof -
  let ?r = "slice src i (n - i)"
  have lr: "length ?r = n - i" using n ij by simp
  have p2: "poke dst j [92, 117] = Some (blit dst j [92, 117])" using n ij by simp
  show ?thesis
  proof (cases "i + 4 \<le> n")
    case False
    then show ?thesis using p2 lr by (simp add: decode_unicode_def has_code_def Let_def)
  next
    case True
    have nth: "src ! i = ?r ! 0" "src ! (i + 1) = ?r ! 1" "src ! (i + 2) = ?r ! 2" "src ! (i + 3) = ?r ! 3"
      using True n by (simp_all add: nth_slice)
    have c: "char_at src i = Some (?r ! 0)" "char_at src (i + 1) = Some (?r ! 1)" "char_at src (i + 2) = Some (?r ! 2)"
      "char_at src (i + 3) = Some (?r ! 3)"
      using True n unfolding nth [symmetric] by (simp_all del: One_nat_def)
    have fit: "\<not> j + length (code_bytes ?r) > cap - 1" using True n ij code_bytes_length(1) [of ?r] by linarith
    have po: "poke dst j (code_bytes ?r) = Some (blit dst j (code_bytes ?r))"
      using fit n ij True code_bytes_length(1) [of ?r] by (intro poke_Some) linarith
    have l4: "4 \<le> length ?r" using True lr by simp
    show ?thesis
      unfolding decode_unicode_def if_P [OF True] c Option.bind.bind_lunit Let_def code_bytes_def [symmetric] has_code_eq
      using l4 fit po p2 by (simp add: slice_def)
  qed
qed

lemma unescape_plain: "c \<noteq> 92 \<or> r = [] \<Longrightarrow> unescape (c # r) = c # unescape r"
  by (cases r) auto

lemma slice_step: "i < n \<Longrightarrow> n \<le> length src \<Longrightarrow> slice src i (n - i) = src ! i # slice src (i + 1) (n - (i + 1))"
  by (simp add: slice_def Cons_nth_drop_Suc [symmetric] take_Cons' Suc_diff_Suc [symmetric])

lemma blit_append: "k = j + length xs \<Longrightarrow> j + length xs + length ys \<le> length p \<Longrightarrow> blit (blit p j xs) k ys = blit p j (xs @ ys)"
  using blit_blit_next by blast

lemma decode_loop_eq:
  assumes n: "n \<le> length src" "n < cap"
  shows "cap \<le> length dst \<Longrightarrow> j \<le> i \<Longrightarrow> i \<le> n \<Longrightarrow> decode_loop src n dst cap i j =
    Some (blit dst j (unescape (slice src i (n - i))), j + length (unescape (slice src i (n - i))))"
proof (induction "n - i" arbitrary: i j dst rule: less_induct)
  case less
  note ij = less.prems
  have go: "decode_loop src n (blit dst j xs) cap i' j' =
      Some (blit dst j (xs @ unescape (slice src i' (n - i'))), j + length (xs @ unescape (slice src i' (n - i'))))"
    if "i < i'" "i' \<le> n" "j' = j + length xs" "j' \<le> i'" for i' j' xs
  proof -
    have l: "length (blit dst j xs) = length dst" using that ij n by (intro length_blit) linarith
    have f: "j' + length (unescape (slice src i' (n - i'))) \<le> n"
      using unescape_length [of "slice src i' (n - i')"] that by simp linarith
    have "decode_loop src n (blit dst j xs) cap i' j' =
        Some (blit (blit dst j xs) j' (unescape (slice src i' (n - i'))), j' + length (unescape (slice src i' (n - i'))))"
      using that ij l by (intro less.hyps) auto
    moreover have "blit (blit dst j xs) j' (unescape (slice src i' (n - i'))) = blit dst j (xs @ unescape (slice src i' (n - i')))"
      using that f ij n by (intro blit_append) auto
    ultimately show ?thesis using that by simp
  qed
  show ?case
  proof (cases "i < n")
    case False
    then show ?thesis using ij n by (subst decode_loop.simps) simp
  next
    case True
    let ?c = "src ! i"
    have lt: "i < n \<and> j < cap - 1" using True ij n by linarith
    have ci: "char_at src i = Some ?c" using True n by simp
    show ?thesis
    proof (cases "?c = 92 \<and> i + 1 < n")
      case False
      have po: "poke dst j [?c] = Some (blit dst j [?c])" using True ij n by simp
      have e: "decode_loop src n dst cap i j = decode_loop src n (blit dst j [?c]) cap (i + 1) (j + 1)"
        using lt ci False po by (subst decode_loop.simps) auto
      have "slice src (i + 1) (n - (i + 1)) = [] \<or> ?c \<noteq> 92" using False by auto
      then have "unescape (slice src i (n - i)) = [?c] @ unescape (slice src (i + 1) (n - (i + 1)))"
        unfolding slice_step [OF True n(1)] by (subst unescape_plain) auto
      then show ?thesis unfolding e using go [of "i + 1" "j + 1" "[?c]"] True ij by simp
    next
      case esc: True
      let ?d = "src ! (i + 1)" and ?r = "slice src (i + 2) (n - (i + 2))"
      have cd: "char_at src (i + 1) = Some ?d" using esc n by (intro char_at_Some) linarith
      have sl: "slice src i (n - i) = 92 # ?d # ?r"
        using slice_step [OF True n(1)] slice_step [of "i + 1" n src] esc n(1) by simp
      have e: "decode_loop src n dst cap i j = do {
          (i', dst, j') \<leftarrow> decode_escape ?d src n dst cap (i + 2) j;
          decode_loop src n dst cap i' j' }"
        using lt ci esc cd by (subst decode_loop.simps) (simp del: One_nat_def)
      have i2: "i + 2 \<le> n" "j + 2 \<le> i + 2" using esc ij by linarith+
      show ?thesis
      proof (cases "simple_escape ?d")
        case (Some b)
        have "poke dst j [b] = Some (blit dst j [b])" using True ij n by simp
        then have "decode_loop src n dst cap i j = decode_loop src n (blit dst j [b]) cap (i + 2) (j + 1)"
          unfolding e decode_escape_def Some by simp
        then show ?thesis using go [of "i + 2" "j + 1" "[b]"] i2 sl Some by simp
      next
        case None
        show ?thesis
        proof (cases "?d = 117")
          case False
          have "poke dst j [92] = Some (blit dst j [92])" "poke (blit dst j [92]) (j + 1) [?d] = Some (blit dst j [92, ?d])"
            using esc ij n blit_append [of "j + 1" j "[92]" "[?d]" dst] by simp_all
          moreover have "j + 1 < cap - 1" using esc ij n(2) by linarith
          ultimately have "decode_loop src n dst cap i j = decode_loop src n (blit dst j [92, ?d]) cap (i + 2) (j + 2)"
            unfolding e decode_escape_def None using False by (simp del: One_nat_def)
          then show ?thesis using go [of "i + 2" "j + 2" "[92, ?d]"] i2 sl None False by simp
        next
          case u: True
          have N: "simple_escape 117 = None" by (simp add: simple_escape_def)
          note U = decode_unicode_ok [OF n less.prems(1) i2(2,1)]
          show ?thesis
          proof (cases "has_code ?r")
            case False
            then have "decode_loop src n dst cap i j = decode_loop src n (blit dst j [92, 117]) cap (i + 2) (j + 2)"
              unfolding e decode_escape_def u N U by (simp add: Let_def)
            then show ?thesis using go [of "i + 2" "j + 2" "[92, 117]"] i2 sl None False u by simp
          next
            case True
            then have "4 \<le> length ?r" by (simp add: has_code_def)
            then have i6: "i + 6 \<le> n" using n i2 by simp
            have dr: "drop 4 ?r = slice src (i + 6) (n - (i + 6))"
              using i6 by (simp add: slice_def drop_take add.commute)
            have "decode_loop src n dst cap i j = decode_loop src n (blit dst j (code_bytes ?r)) cap (i + 6) (j + length (code_bytes ?r))"
              unfolding e decode_escape_def u N U using True by (simp add: Let_def add.commute)
            then show ?thesis
              using go [of "i + 6" "j + length (code_bytes ?r)" "code_bytes ?r"] i6 ij code_bytes_length(1) [of ?r] sl None True u dr by simp
          qed
        qed
      qed
    qed
  qed
qed

lemma decode_json_string_eq:
  assumes "n \<le> length src" "n < cap" "cap \<le> length dst"
  shows "decode_json_string src n dst cap = Some (int (length (unescape (take n src))), blit dst 0 (unescape (take n src) @ [0]))"
proof -
  have s: "slice src 0 n = take n src" by (simp add: slice_def)
  have l: "length (unescape (take n src)) \<le> n" using unescape_length [of "take n src"] by simp
  have "blit (blit dst 0 (unescape (take n src))) (length (unescape (take n src))) [0] = blit dst 0 (unescape (take n src) @ [0])"
    using l assms by (intro blit_append) auto
  then show ?thesis
    using decode_loop_eq [OF assms(1,2,3), of 0 0] assms l s by (simp add: decode_json_string_def)
qed

lemma extract_content_eq:
  assumes P: "parsed json len tokens" and b: "base < length tokens" and c: "cap = length content"
  shows "extract_nostr_event_content json tokens base content cap = Some
    (if tok_type (tokens ! base) = JSMN_STRING \<and> length (tok_text json (tokens ! base)) < cap
     then Some (blit content 0 (unescape (tok_text json (tokens ! base)) @ [0])) else None)"
proof -
  have m: "tokens ! base \<in> set tokens" using b by simp
  note T = parsed_tok [OF P m]
  show ?thesis
    using b T(1,4) decode_json_string_eq [OF T(2), of cap content] T(3) c
    by (auto simp: extract_nostr_event_content_def Let_def json_wrapper_is_string_def)
qed

section \<open>Tags\<close>

lemma copy_token_string_eq:
  assumes P: "parsed json len tokens" and t: "t \<in> set tokens" and n: "length buffer = n" "0 < n"
  shows "copy_token_string json t buffer n = Some (blit buffer 0 (take (n - 1) (tok_text json t) @ [0]))"
proof -
  note T = parsed_tok [OF P t]
  let ?l = "json_wrapper_get_token_length t"
  define k where "k = (if ?l \<ge> n then n - 1 else ?l)"
  have k: "k \<le> ?l" "k < n" "k = min (n - 1) ?l" using n(2) by (auto simp: k_def)
  have pk: "peek (drop (nat (tok_start t)) json) 0 k = Some (take (n - 1) (tok_text json t))"
    using T(2) k(1) unfolding T(3) [symmetric] peek_def by (simp add: slice_def k(3) min.commute)
  have l: "length (take (n - 1) (tok_text json t)) = k" using T(4) k(3) by simp
  have "blit (blit buffer 0 (take (n - 1) (tok_text json t))) k [0] = blit buffer 0 (take (n - 1) (tok_text json t) @ [0])"
    using l k n by (intro blit_append) auto
  then show ?thesis
    unfolding copy_token_string_def Let_def k_def [symmetric] T(1) Option.bind.bind_lunit pk using l k(2) n(1) by simp
qed

lemma tag_zero_ok: "tag_ok tag_zero" by (simp add: tag_ok_def tag_shape_def tag_zero_def)

lemma tag_values_loop_ok:
  assumes P: "parsed json len tokens"
  shows "\<lbrakk> \<forall>v \<in> set vs. v < n; idx + length vs \<le> length tokens; tag_ok tag \<rbrakk> \<Longrightarrow>
    \<exists>tag' idx'. tag_values_loop json tokens vs idx tag = Some (tag', idx') \<and> tag_ok tag' \<and> idx \<le> idx' \<and> idx' \<le> idx + length vs"
proof (induction vs arbitrary: idx tag)
  case (Cons v vs)
  show ?case
  proof (cases "item_count tag < 16")
    case False
    then show ?thesis using Cons.prems by simp
  next
    case True
    have i: "idx < length tokens" "tokens ! idx \<in> set tokens" using Cons.prems by simp_all
    show ?thesis
    proof (cases "json_wrapper_is_string (tokens ! idx)")
      case False
      then have e: "tag_values_loop json tokens (v # vs) idx tag = tag_values_loop json tokens vs (idx + 1) tag" using True i by simp
      have "\<exists>tag' idx'. tag_values_loop json tokens vs (idx + 1) tag = Some (tag', idx') \<and> tag_ok tag' \<and> idx + 1 \<le> idx' \<and> idx' \<le> idx + 1 + length vs"
        using Cons.prems by (intro Cons.IH) auto
      then show ?thesis unfolding e by auto
    next
      case str: True
      let ?c = "item_count tag"
      have sh: "length (tag_values tag) = 16" "\<forall>v \<in> set (tag_values tag). length v = 512"
        using Cons.prems(3) by (simp_all add: tag_ok_def tag_shape_def)
      have l: "length (tag_values tag ! ?c) = 512" using sh True by simp
      define w where "w = blit (tag_values tag ! ?c) 0 (take 511 (tok_text json (tokens ! idx)) @ [0])"
      have cp: "copy_token_string json (tokens ! idx) (tag_values tag ! ?c) 512 = Some w"
        using copy_token_string_eq [OF P i(2) l] by (simp add: w_def)
      have w: "length w = 512" "0 \<in> set w" using l by (simp_all add: w_def) (simp add: blit_def)
      let ?tag = "tag\<lparr>tag_values := (tag_values tag)[?c := w], item_count := ?c + 1\<rparr>"
      have e: "tag_values_loop json tokens (v # vs) idx tag = tag_values_loop json tokens vs (idx + 1) ?tag"
        using True str i sh(1) cp by simp
      have "\<forall>u \<in> set ((tag_values tag)[?c := w]). length u = 512"
        using sh(2) w(1) set_update_subset_insert [of "tag_values tag" ?c w] by auto
      moreover have "\<forall>u \<in> set (take (?c + 1) ((tag_values tag)[?c := w])). 0 \<in> set u"
        using Cons.prems(3) w(2) True sh(1) by (auto simp: tag_ok_def take_Suc_conv_app_nth)
      ultimately have "tag_ok ?tag" using Cons.prems(3) True by (simp add: tag_ok_def tag_shape_def)
      then have "\<exists>tag' idx'. tag_values_loop json tokens vs (idx + 1) ?tag = Some (tag', idx') \<and> tag_ok tag' \<and> idx + 1 \<le> idx' \<and> idx' \<le> idx + 1 + length vs"
        using Cons.prems by (intro Cons.IH) auto
      then show ?thesis unfolding e by auto
    qed
  qed
qed simp

text \<open>The sum of the sizes of the tokens from \<open>base\<close> on and before \<open>idx\<close>.\<close>

definition size_sum :: "jsmntok list \<Rightarrow> nat \<Rightarrow> nat \<Rightarrow> int" where
  "size_sum tokens base idx = sum_list (map tok_size (slice tokens base (idx - base)))"

lemma size_sum_Suc:
  "base \<le> idx \<Longrightarrow> idx < length tokens \<Longrightarrow> size_sum tokens base (Suc idx) = size_sum tokens base idx + tok_size (tokens ! idx)"
  by (simp add: size_sum_def slice_def Suc_diff_le take_Suc_conv_app_nth)

lemma size_sum_mono:
  assumes T: "tokens_ok len tokens" and i: "base \<le> i" "i \<le> j" "j \<le> length tokens"
  shows "size_sum tokens base i \<le> size_sum tokens base j"
  using i(2,3)
proof (induction rule: dec_induct)
  case (step n)
  then show ?case using i size_sum_Suc [of base n tokens] tokens_okD(2) [OF T, of n] by simp
qed simp

lemma size_sum_bound:
  assumes T: "tokens_ok len tokens" and b: "base \<le> i" "i \<le> length tokens" "base < length tokens"
  shows "size_sum tokens base i < int (length tokens) - int base"
proof -
  have "size_sum tokens base i \<le> size_sum tokens base (length tokens)" using size_sum_mono [OF T b(1,2)] by simp
  also have "\<dots> = sum_list (drop base (map tok_size tokens))" by (simp add: size_sum_def slice_def drop_map)
  also have "\<dots> < int (length tokens) - int base" using T b(3) by (simp add: tokens_ok_def sizes_ok_def)
  finally show ?thesis .
qed

text \<open>
  The index of the next token stays inside the token array whatever the nesting of the tags: at each
  point \<open>idx\<close> plus the number of rounds left is at most one more than \<open>base\<close> plus the sizes of the tokens passed.
\<close>

lemma tags_loop_ok:
  assumes P: "parsed json len tokens" and b: "base < length tokens"
  shows "\<lbrakk> base < idx; int (idx + length xs) \<le> int base + 1 + size_sum tokens base idx; idx \<le> length tokens;
      length tags = 2048; n \<le> 2048; \<forall>t \<in> set tags. tag_shape t; \<forall>t \<in> set (take n tags). tag_ok t \<rbrakk> \<Longrightarrow>
    \<exists>tags' n'. tags_loop json tokens xs idx tags n = Some (tags', n') \<and> length tags' = 2048 \<and> n' \<le> 2048 \<and>
      (\<forall>t \<in> set tags'. tag_shape t) \<and> (\<forall>t \<in> set (take n' tags'). tag_ok t)"
proof (induction xs arbitrary: idx tags n)
  case (Cons x xs)
  have T: "tokens_ok len tokens" using P by (simp add: parsed_def)
  note pre = Cons.prems
  have inv: "int idx + int (length xs) \<le> int base + size_sum tokens base idx" using pre(2) by simp
  show ?case
  proof (cases "n < 2048")
    case False
    then show ?thesis using pre by simp
  next
    case True
    have i: "idx < length tokens"
      using inv size_sum_bound [OF T, of base idx] pre b by linarith
    have next1: "size_sum tokens base (Suc idx) = size_sum tokens base idx + tok_size (tokens ! idx)"
      using size_sum_Suc pre(1) i by simp
    have nn: "0 \<le> tok_size (tokens ! idx)" by (rule tokens_okD(2) [OF T i])
    have skip: "\<exists>tags' n'. tags_loop json tokens xs (idx + 1) tags n = Some (tags', n') \<and> length tags' = 2048 \<and> n' \<le> 2048 \<and>
      (\<forall>t \<in> set tags'. tag_shape t) \<and> (\<forall>t \<in> set (take n' tags'). tag_ok t)"
      using pre inv next1 nn i by (intro Cons.IH) auto
    show ?thesis
    proof (cases "json_wrapper_is_array (tokens ! idx) \<and> \<not> tok_size (tokens ! idx) \<le> 0")
      case False
      then show ?thesis using skip True i by auto
    next
      case arr: True
      let ?z = "nat (tok_size (tokens ! idx))"
      have z: "0 < ?z" "int ?z = tok_size (tokens ! idx)" using arr by auto
      have last: "idx + ?z < length tokens"
        using inv size_sum_bound [OF T, of base "Suc idx"] pre(1) b i next1 z by linarith
      have k: "idx + 1 < length tokens" "tokens ! (idx + 1) \<in> set tokens" using last z by simp_all
      have kt: "token_at tokens (int (idx + 1)) = Some (tokens ! (idx + 1))" using k(1) by (rule token_at_Some)
      have po: "poke tags n [tag_zero] = Some (tags[n := tag_zero])"
        using True pre(4) by (simp add: blit_def upd_conv_take_nth_drop)
      have later: "int (idx' + length xs) \<le> int base + 1 + size_sum tokens base idx'" if "Suc idx \<le> idx'" "idx' \<le> Suc idx + ?z" "idx' \<le> length tokens" for idx'
        using size_sum_mono [OF T, of base "Suc idx" idx'] pre(1) that inv next1 z by linarith
      have shape: "\<forall>t \<in> set (tags[n := u]). tag_shape t" if "tag_shape u" for u
        using pre(6) that set_update_subset_insert [of tags n u] by auto
      have zs: "tag_shape tag_zero" using tag_zero_ok by (simp add: tag_ok_def)
      show ?thesis
      proof (cases "json_wrapper_is_string (tokens ! (idx + 1))")
        case False
        have e: "tags_loop json tokens (x # xs) idx tags n = tags_loop json tokens xs (idx + 1 + ?z) (tags[n := tag_zero]) n"
          using True i arr po kt False by simp
        have "take n (tags[n := tag_zero]) = take n tags" by simp
        then show ?thesis unfolding e
          using pre later [of "idx + 1 + ?z"] last shape [OF zs] by (intro Cons.IH) auto
      next
        case str: True
        define kk where "kk = blit (tag_key tag_zero) 0 (take 63 (tok_text json (tokens ! (idx + 1))) @ [0])"
        have lz: "length (tag_key tag_zero) = 64" by (simp add: tag_zero_def)
        have cp: "copy_token_string json (tokens ! (idx + 1)) (tag_key tag_zero) 64 = Some kk"
          using copy_token_string_eq [OF P k(2) lz] by (simp add: kk_def)
        have "length kk = 64" "0 \<in> set kk" using lz by (simp_all add: kk_def) (simp add: blit_def)
        then have tk: "tag_ok (tag_zero\<lparr>tag_key := kk\<rparr>)" using tag_zero_ok by (simp add: tag_ok_def tag_shape_def)
        have lv: "idx + 2 + length [1..<?z] \<le> length tokens" using last z by simp
        obtain tag idx' where t: "tag_values_loop json tokens [1..<?z] (idx + 2) (tag_zero\<lparr>tag_key := kk\<rparr>) = Some (tag, idx')"
          "tag_ok tag" "idx + 2 \<le> idx'" "idx' \<le> idx + 2 + length [1..<?z]"
          using tag_values_loop_ok [OF P _ lv tk, of ?z] by auto
        have e: "tags_loop json tokens (x # xs) idx tags n = tags_loop json tokens xs idx' ((tags[n := tag_zero])[n := tag]) (n + 1)"
          using True i arr po kt str cp t(1) by simp
        have u: "(tags[n := tag_zero])[n := tag] = tags[n := tag]" by simp
        have "\<forall>t \<in> set (take (n + 1) (tags[n := tag])). tag_ok t"
          using pre(4,7) True t(2) by (auto simp: take_Suc_conv_app_nth)
        moreover have "tag_shape tag" using t(2) by (simp add: tag_ok_def)
        ultimately show ?thesis unfolding e u
          using pre True t(3,4) lv later [of idx'] shape [of tag] z(1) by (intro Cons.IH) auto
      qed
    qed
  qed
qed simp

lemma extract_tags_ok:
  assumes P: "parsed json len tokens" and b: "base < length tokens"
    and t: "length tags = 2048" "n \<le> 2048" "\<forall>t \<in> set tags. tag_shape t" "\<forall>t \<in> set (take n tags). tag_ok t"
  shows "\<exists>r tags' n'. extract_nostr_event_tags json tokens base tags n = Some (r, tags', n') \<and> length tags' = 2048 \<and> n' \<le> 2048 \<and>
    (\<forall>t \<in> set tags'. tag_shape t) \<and> (\<forall>t \<in> set (take n' tags'). tag_ok t)"
proof (cases "json_wrapper_is_array (tokens ! base) \<and> 0 < tok_size (tokens ! base)")
  case True
  have s: "size_sum tokens base (base + 1) = tok_size (tokens ! base)"
    using size_sum_Suc [of base base tokens] b by (simp add: size_sum_def)
  have "\<exists>tags' n'. tags_loop json tokens [0..<nat (tok_size (tokens ! base))] (base + 1) tags 0 = Some (tags', n') \<and>
      length tags' = 2048 \<and> n' \<le> 2048 \<and> (\<forall>t \<in> set tags'. tag_shape t) \<and> (\<forall>t \<in> set (take n' tags'). tag_ok t)"
    using True b s t by (intro tags_loop_ok [OF P b]) auto
  then show ?thesis using True b by (auto simp: extract_nostr_event_tags_def)
next
  case False
  then show ?thesis using b t by (auto simp: extract_nostr_event_tags_def not_less)
qed

section \<open>The event\<close>

text \<open>The hexadecimal strings are terminated.\<close>

definition event_terminated :: "nostr_event \<Rightarrow> bool" where
  "event_terminated e \<longleftrightarrow> 0 \<in> set (ev_id e) \<and> 0 \<in> set (ev_pubkey e) \<and> 0 \<in> set (ev_sig e)"

definition ev_inv :: "nostr_event \<Rightarrow> event_found \<Rightarrow> bool" where
  "ev_inv e f \<longleftrightarrow> event_shape e \<and> (found_id f \<longrightarrow> (\<forall>i < 64. is_hex (ev_id e ! i)) \<and> 0 \<in> set (ev_id e)) \<and>
     (found_pubkey f \<longrightarrow> (\<forall>i < 64. is_hex (ev_pubkey e ! i)) \<and> 0 \<in> set (ev_pubkey e)) \<and>
     (found_sig f \<longrightarrow> (\<forall>i < 128. is_hex (ev_sig e ! i)) \<and> 0 \<in> set (ev_sig e)) \<and>
     0 \<in> set (ev_content e) \<and> ev_tag_count e \<le> 2048 \<and> (\<forall>t \<in> set (take (ev_tag_count e) (ev_tags e)). tag_ok t) \<and>
     ev_created_at e < 2 ^ 64 \<and> ev_kind e < 2 ^ 32"

lemma lower_hex_is_hex: "is_lower_hex c \<Longrightarrow> is_hex c"
proof -
  have le: "e \<le> d \<longleftrightarrow> uint e \<le> uint d" for e d :: byte by (rule word_le_def)
  show "is_lower_hex c \<Longrightarrow> is_hex c" by (auto simp: is_lower_hex_def is_hex_def hex_char_to_val_def is_lower_def is_digit_def le)
qed

lemma extract_hex_ok:
  assumes P: "parsed json len tokens" and b: "base < length tokens" and n: "0 < n" "length buffer = n + 1"
  shows "\<exists>r. extract_hex n json tokens base buffer = Some r \<and> (\<forall>v. r = Some v \<longrightarrow> length v = n + 1 \<and> (\<forall>i < n. is_hex (v ! i)) \<and> 0 \<in> set v)"
  using extract_hex_eq [OF P b n] lower_hex_is_hex by (auto simp: nth_append)

lemma digits_loop_range:
  assumes "0 \<le> v" "v < m" and w: "\<And>x. 0 \<le> wrap x \<and> wrap x < m"
  shows "digits_loop wrap s xs v = Some (Some r) \<Longrightarrow> 0 \<le> r \<and> r < m"
  using assms(1,2)
proof (induction xs arbitrary: v)
  case (Cons x xs)
  then show ?case using w by (auto simp: Option.bind_eq_Some_conv split: if_splits)
qed simp

lemma extract_kind_ok:
  assumes P: "parsed json len tokens" and b: "base < length tokens"
  shows "\<exists>r. extract_nostr_event_kind json tokens base = Some r \<and> (\<forall>v. r = Some v \<longrightarrow> 0 \<le> v \<and> v < 2 ^ 32)"
proof -
  obtain r where r: "extract_nostr_event_kind json tokens base = Some r"
    using extract_number_ok [OF P b] unfolding extract_nostr_event_kind_def by blast
  have "0 \<le> v \<and> v < 2 ^ 32" if "r = Some v" for v
  proof -
    have "\<exists>s n. digits_loop wrap_uint32 s [0..<n] 0 = Some (Some v)"
      using r that by (auto simp: extract_nostr_event_kind_def extract_number_def Let_def Option.bind_eq_Some_conv split: if_splits)
    then show ?thesis using digits_loop_range [of 0 "2 ^ 32" wrap_uint32] by (auto simp: wrap_uint32_def)
  qed
  then show ?thesis using r by blast
qed

lemma ev_invD:
  assumes "ev_inv e f"
  shows "length (ev_id e) = 64 + 1" "length (ev_pubkey e) = 64 + 1" "length (ev_sig e) = 128 + 1" "NOSTR_EVENT_CONTENT_LENGTH = length (ev_content e)"
    "length (ev_tags e) = 2048" "ev_tag_count e \<le> 2048" "\<forall>t \<in> set (ev_tags e). tag_shape t"
    "\<forall>t \<in> set (take (ev_tag_count e) (ev_tags e)). tag_ok t"
  using assms by (simp_all add: ev_inv_def event_shape_def)

lemma ev_inv_update:
  assumes "ev_inv e f"
  shows "length v = 65 \<Longrightarrow> \<forall>i < 64. is_hex (v ! i) \<Longrightarrow> 0 \<in> set v \<Longrightarrow> ev_inv (e\<lparr>ev_id := v\<rparr>) (f\<lparr>found_id := True\<rparr>)"
    "length v = 65 \<Longrightarrow> \<forall>i < 64. is_hex (v ! i) \<Longrightarrow> 0 \<in> set v \<Longrightarrow> ev_inv (e\<lparr>ev_pubkey := v\<rparr>) (f\<lparr>found_pubkey := True\<rparr>)"
    "length v = 129 \<Longrightarrow> \<forall>i < 128. is_hex (v ! i) \<Longrightarrow> 0 \<in> set v \<Longrightarrow> ev_inv (e\<lparr>ev_sig := v\<rparr>) (f\<lparr>found_sig := True\<rparr>)"
    "0 \<le> n \<Longrightarrow> n < 2 ^ 32 \<Longrightarrow> ev_inv (e\<lparr>ev_kind := nat n\<rparr>) (f\<lparr>found_kind := True\<rparr>)"
    "0 \<le> n \<Longrightarrow> n < 2 ^ 64 \<Longrightarrow> ev_inv (e\<lparr>ev_created_at := nat n\<rparr>) (f\<lparr>found_created_at := True\<rparr>)"
    "length c = length (ev_content e) \<Longrightarrow> 0 \<in> set c \<Longrightarrow> ev_inv (e\<lparr>ev_content := c\<rparr>) (f\<lparr>found_content := True\<rparr>)"
    "length ts = 2048 \<Longrightarrow> k \<le> 2048 \<Longrightarrow> \<forall>t \<in> set ts. tag_shape t \<Longrightarrow> \<forall>t \<in> set (take k ts). tag_ok t \<Longrightarrow>
      ev_inv (e\<lparr>ev_tags := ts, ev_tag_count := k\<rparr>) (f\<lparr>found_tags := True\<rparr>)"
  using assms by (simp_all add: ev_inv_def event_shape_def nat_less_iff)

definition field_post :: "(nostr_event \<times> event_found) option option \<Rightarrow> bool" where
  "field_post r \<longleftrightarrow> (\<exists>x. r = Some x \<and> (\<forall>e f. x = Some (e, f) \<longrightarrow> ev_inv e f))"

lemma field_postI: "r = Some x \<Longrightarrow> (\<And>e f. x = Some (e, f) \<Longrightarrow> ev_inv e f) \<Longrightarrow> field_post r"
  by (simp add: field_post_def)

lemma field_post_if: "field_post a \<Longrightarrow> field_post b \<Longrightarrow> field_post (if c then a else b)"
  by simp

lemma event_field_ok:
  assumes P0: "parsed0 json len tokens" and b: "base < length tokens" and k: "key \<in> set tokens" and e: "ev_inv e f"
  shows "field_post (event_field json tokens key base (e, f))"
proof -
  have P: "parsed json len tokens" using P0 by (simp add: parsed0_def)
  note E = ev_invD [OF e] and U = ev_inv_update [OF e]
  have K: "\<exists>v. json_wrapper_strncmp json key (ascii name @ [0]) n = Some v" if "0 \<notin> set (ascii name)" "name \<noteq> []" "n = length name" for name n
    using json_wrapper_strncmp_eq [OF P0 k, of "ascii name" n] that by (simp add: ascii_def)
  obtain k1 where k1: "json_wrapper_strncmp json key (ascii ''id'' @ [0]) 2 = Some k1" using K [of "''id''" 2] ascii_no_0 by auto
  obtain k2 where k2: "json_wrapper_strncmp json key (ascii ''pubkey'' @ [0]) 6 = Some k2" using K [of "''pubkey''" 6] ascii_no_0 by auto
  obtain k3 where k3: "json_wrapper_strncmp json key (ascii ''kind'' @ [0]) 4 = Some k3" using K [of "''kind''" 4] ascii_no_0 by auto
  obtain k4 where k4: "json_wrapper_strncmp json key (ascii ''created_at'' @ [0]) 10 = Some k4" using K [of "''created_at''" 10] ascii_no_0 by auto
  obtain k5 where k5: "json_wrapper_strncmp json key (ascii ''sig'' @ [0]) 3 = Some k5" using K [of "''sig''" 3] ascii_no_0 by auto
  obtain k6 where k6: "json_wrapper_strncmp json key (ascii ''tags'' @ [0]) 4 = Some k6" using K [of "''tags''" 4] ascii_no_0 by auto
  obtain k7 where k7: "json_wrapper_strncmp json key (ascii ''content'' @ [0]) 7 = Some k7" using K [of "''content''" 7] ascii_no_0 by auto
  have hex: "0 < (64 :: nat)" "0 < (128 :: nat)" by simp_all
  obtain r1 where r1: "extract_nostr_event_id json tokens base (ev_id e) = Some r1" "\<forall>v. r1 = Some v \<longrightarrow> length v = 64 + 1 \<and> (\<forall>i < 64. is_hex (v ! i)) \<and> 0 \<in> set v"
    using extract_hex_ok [OF P b hex(1) E(1)] unfolding extract_nostr_event_id_def by blast
  obtain r2 where r2: "extract_nostr_event_pubkey json tokens base (ev_pubkey e) = Some r2" "\<forall>v. r2 = Some v \<longrightarrow> length v = 64 + 1 \<and> (\<forall>i < 64. is_hex (v ! i)) \<and> 0 \<in> set v"
    using extract_hex_ok [OF P b hex(1) E(2)] unfolding extract_nostr_event_pubkey_def by blast
  obtain r5 where r5: "extract_nostr_event_sig json tokens base (ev_sig e) = Some r5" "\<forall>v. r5 = Some v \<longrightarrow> length v = 128 + 1 \<and> (\<forall>i < 128. is_hex (v ! i)) \<and> 0 \<in> set v"
    using extract_hex_ok [OF P b hex(2) E(3)] unfolding extract_nostr_event_sig_def by blast
  obtain r3 where r3: "extract_nostr_event_kind json tokens base = Some r3" "\<forall>v. r3 = Some v \<longrightarrow> 0 \<le> v \<and> v < 2 ^ 32"
    using extract_kind_ok [OF P b] by blast
  obtain r4 where r4: "extract_nostr_event_created_at json tokens base = Some r4" "\<forall>v. r4 = Some v \<longrightarrow> 0 \<le> v \<and> v < 2 ^ 64"
    using created_at_ok [OF P b] by blast
  obtain ok ts n where r6: "extract_nostr_event_tags json tokens base (ev_tags e) (ev_tag_count e) = Some (ok, ts, n)" "length ts = 2048" "n \<le> 2048"
    "\<forall>t \<in> set ts. tag_shape t" "\<forall>t \<in> set (take n ts). tag_ok t"
    using extract_tags_ok [OF P b E(5-8)] by (elim exE conjE) (rule that)
  obtain r7 where r7: "extract_nostr_event_content json tokens base (ev_content e) NOSTR_EVENT_CONTENT_LENGTH = Some r7"
    "\<forall>v. r7 = Some v \<longrightarrow> length v = length (ev_content e) \<and> 0 \<in> set v"
  proof -
    let ?u = "unescape (tok_text json (tokens ! base))"
    have "length (blit (ev_content e) 0 (?u @ [0])) = length (ev_content e) \<and> 0 \<in> set (blit (ev_content e) 0 (?u @ [0]))"
      if "length (tok_text json (tokens ! base)) < NOSTR_EVENT_CONTENT_LENGTH"
      using that unescape_length [of "tok_text json (tokens ! base)"] E(4) by (subst length_blit) (auto simp: blit_def)
    then show ?thesis using that extract_content_eq [OF P b E(4)] by auto
  qed
  have B: "field_post (Some (map_option (\<lambda>v. (e\<lparr>ev_id := v\<rparr>, f\<lparr>found_id := True\<rparr>)) r1))"
    "field_post (Some (map_option (\<lambda>v. (e\<lparr>ev_pubkey := v\<rparr>, f\<lparr>found_pubkey := True\<rparr>)) r2))"
    "field_post (Some (map_option (\<lambda>v. (e\<lparr>ev_kind := nat v\<rparr>, f\<lparr>found_kind := True\<rparr>)) r3))"
    "field_post (Some (map_option (\<lambda>v. (e\<lparr>ev_created_at := nat v\<rparr>, f\<lparr>found_created_at := True\<rparr>)) r4))"
    "field_post (Some (map_option (\<lambda>v. (e\<lparr>ev_sig := v\<rparr>, f\<lparr>found_sig := True\<rparr>)) r5))"
    "field_post (Some (map_option (\<lambda>v. (e\<lparr>ev_content := v\<rparr>, f\<lparr>found_content := True\<rparr>)) r7))"
    using r1(2) r2(2) r3(2) r4(2) r5(2) r7(2) by (auto simp: field_post_def intro!: U)
  have B6: "field_post (Some (if ok then Some (e\<lparr>ev_tags := ts, ev_tag_count := n\<rparr>, f\<lparr>found_tags := True\<rparr>) else None))"
    using U(7) [OF r6(2-5)] by (simp add: field_post_def)
  have B8: "field_post (Some (Some (e, f)))" using e by (simp add: field_post_def)
  show ?thesis
    unfolding event_field_def prod.case k1 k2 k3 k4 k5 k6 k7 r1(1) r2(1) r3(1) r4(1) r5(1) r6(1) r7(1) Option.bind.bind_lunit
    by (intro field_post_if B B6 B8)
qed

lemma event_loop_ok:
  assumes P0: "parsed0 json len tokens" and b: "base + n \<le> length tokens"
  shows "ev_inv e f \<Longrightarrow> \<exists>x. event_loop json tokens base n i e f = Some x \<and> (\<forall>e' f'. x = Some (e', f') \<longrightarrow> ev_inv e' f')"
proof (induction "n - i" arbitrary: i e f rule: less_induct)
  case less
  show ?case
  proof (cases "i < n \<and> \<not> i + 1 \<ge> n \<and> json_wrapper_is_string (tokens ! (base + i))")
    case False
    show ?thesis
    proof (cases "i < n \<and> \<not> i + 1 \<ge> n")
      case True
      have "base + (i + 1) + (n - (i + 1)) \<le> length tokens" using b True by simp
      then obtain k where "count_value_tokens tokens (base + (i + 1)) (n - (i + 1)) = Some k"
        using count_value_tokens_ok(1) by blast
      then show ?thesis using False True b by (subst event_loop.simps) (simp del: One_nat_def)
    next
      case no: False
      then show ?thesis using less.prems by (subst event_loop.simps) auto
    qed
  next
    case True
    have r: "base + (i + 1) + (n - (i + 1)) \<le> length tokens" using b True by simp
    obtain k where k: "count_value_tokens tokens (base + (i + 1)) (n - (i + 1)) = Some k"
      using count_value_tokens_ok(1) [OF r] by blast
    have l: "base + (i + 1) < length tokens" "base + i < length tokens" using b True by simp_all
    have kt: "token_at tokens (int (base + i)) = Some (tokens ! (base + i))" by (rule token_at_Some [OF l(2)])
    have "field_post (event_field json tokens (tokens ! (base + i)) (base + (i + 1)) (e, f))"
      using event_field_ok [OF P0 l(1) _ less.prems] l(2) by simp
    then obtain x where x: "event_field json tokens (tokens ! (base + i)) (base + (i + 1)) (e, f) = Some x"
      "\<forall>e f. x = Some (e, f) \<longrightarrow> ev_inv e f" by (auto simp: field_post_def)
    have step: "event_loop json tokens base n i e f =
        (case x of None \<Rightarrow> Some None | Some ef \<Rightarrow> event_loop json tokens base n (i + (1 + k)) (fst ef) (snd ef))"
      using True k kt x(1) by (subst event_loop.simps) (simp del: One_nat_def of_nat_add)
    show ?thesis
    proof (cases x)
      case None
      then show ?thesis using step by simp
    next
      case (Some ef)
      then have inv: "ev_inv (fst ef) (snd ef)" using x(2) by (cases ef) auto
      have "n - (i + (1 + k)) < n - i" using True by linarith
      then show ?thesis using less.hyps [OF _ inv, of "i + (1 + k)"] step Some by simp
    qed
  qed
qed

lemma extract_nostr_event_ok:
  assumes P0: "parsed0 json len tokens" and b: "base + n \<le> length tokens" and e: "ev_inv e found_none"
  shows "\<exists>r. extract_nostr_event json tokens base n e = Some r \<and> (\<forall>e'. r = Some e' \<longrightarrow> event_ok e' \<and> event_terminated e')"
proof -
  obtain x where x: "event_loop json tokens base n 0 e found_none = Some x" "\<forall>e' f'. x = Some (e', f') \<longrightarrow> ev_inv e' f'"
    using event_loop_ok [OF P0 b e] by blast
  then show ?thesis by (auto simp: extract_nostr_event_def ev_inv_def event_ok_def event_terminated_def split: option.splits if_splits)
qed

end
