(* ===== verification/NostrMessage.thy ===== *)
theory NostrMessage
  imports NostrEventParse
begin

text \<open>
  The dispatch of a message from a client: \<open>nostr_event_handler\<close> in \<open>src/nostr/nostr_func.c\<close>. The
  callbacks are parameters; they may change a state of any type. The token array of
  4096 entries lies on the stack with any content; behind the tokens that the tokenizer reports it is
  not initialised and the model cuts it off, so that no handler can read there.
\<close>

record 's nostr_funcs =
  on_event :: "nostr_event \<Rightarrow> 's \<Rightarrow> bool \<times> 's"
  on_req :: "(nostr_req \<Rightarrow> 's \<Rightarrow> bool \<times> 's) option"
  on_close :: "(byte list \<Rightarrow> 's \<Rightarrow> bool \<times> 's) option"

text \<open>The events and requests are mapped memory, all zero; \<open>mapped\<close> says if \<open>mmap\<close> succeeds.\<close>

definition event_zero :: nostr_event where
  "event_zero = \<lparr>ev_id = replicate 65 0, ev_pubkey = replicate 65 0, ev_kind = 0, ev_tag_count = 0, ev_created_at = 0,
     ev_tags = replicate NOSTR_EVENT_TAG_LENGTH tag_zero, ev_content = replicate NOSTR_EVENT_CONTENT_LENGTH 0,
     ev_sig = replicate 129 0\<rparr>"

definition nostr_event_handler ::
    "bool \<Rightarrow> jsmntok list \<Rightarrow> 's nostr_funcs \<Rightarrow> byte list \<Rightarrow> 's \<Rightarrow> (bool \<times> 's) option" where
  "nostr_event_handler mapped token nostr_funcs json s = do {
     json_len \<leftarrow> nostr_strlen json;
     (token_count, parser, token) \<leftarrow> json_wrapper_parse jsmn_init json json_len token JSON_TOKEN_CAPACITY;
     if token_count < 3 then Some (False, s)
     else do {
       let token = take (nat token_count) token;
       token0 \<leftarrow> token_at token 0;
       token1 \<leftarrow> token_at token 1;
       if \<not> json_wrapper_is_array token0 then Some (False, s)
       else if \<not> json_wrapper_is_string token1 then Some (False, s)
       else do {
         is_event \<leftarrow> json_wrapper_strncmp json token1 (ascii ''EVENT'' @ [0]) 5;
         if is_event then do {
           token2 \<leftarrow> token_at token 2;
           if \<not> json_wrapper_is_object token2 then Some (False, s)
           else if \<not> mapped then Some (False, s)
           else do {
             r \<leftarrow> extract_nostr_event json token 3 (nat token_count - 3) event_zero;
             case r of
               None \<Rightarrow> Some (False, s)
             | Some event \<Rightarrow> Some (on_event nostr_funcs event s)
           }
         }
         else do {
           is_req \<leftarrow> json_wrapper_strncmp json token1 (ascii ''REQ'' @ [0]) 3;
           if is_req then
             (if \<not> mapped then Some (False, s)
              else do {
                (ok, req) \<leftarrow> nostr_req_parse json token (nat token_count);
                if \<not> ok then Some (False, s)
                else (case on_req nostr_funcs of None \<Rightarrow> Some (True, s) | Some f \<Rightarrow> Some (f req s))
              })
           else do {
             is_close \<leftarrow> json_wrapper_strncmp json token1 (ascii ''CLOSE'' @ [0]) 5;
             if is_close then do {
               (ok, close_msg) \<leftarrow> nostr_close_parse json token (nat token_count);
               if \<not> ok then Some (False, s)
               else (case on_close nostr_funcs of None \<Rightarrow> Some (True, s) | Some f \<Rightarrow> Some (f close_msg s))
             }
             else Some (False, s)
           }
         }
       }
     }
   }"

section \<open>Messages\<close>

text \<open>What a text asks for, and what the callbacks make of it.\<close>

datatype message = Msg_event nostr_event | Msg_req nostr_req | Msg_close "byte list" | Msg_none

primrec deliver :: "'s nostr_funcs \<Rightarrow> message \<Rightarrow> 's \<Rightarrow> bool \<times> 's" where
  "deliver funcs (Msg_event e) s = on_event funcs e s"
| "deliver funcs (Msg_req r) s = (case on_req funcs of None \<Rightarrow> (True, s) | Some f \<Rightarrow> f r s)"
| "deliver funcs (Msg_close c) s = (case on_close funcs of None \<Rightarrow> (True, s) | Some f \<Rightarrow> f c s)"
| "deliver funcs Msg_none s = (False, s)"

primrec message_ok :: "message \<Rightarrow> bool" where
  "message_ok (Msg_event e) \<longleftrightarrow> event_ok e \<and> event_terminated e"
| "message_ok (Msg_req r) \<longleftrightarrow> req_wf r \<and> 0 < req_filters_count r"
| "message_ok (Msg_close c) \<longleftrightarrow> id_ok c"
| "message_ok Msg_none \<longleftrightarrow> True"

lemma event_zero_inv: "ev_inv event_zero found_none"
proof -
  have s: "tag_shape tag_zero" using tag_zero_ok by (simp add: tag_ok_def)
  show ?thesis using s by (simp add: ev_inv_def event_zero_def found_none_def event_shape_def)
qed

lemma handler_text:
  assumes "0 \<in> set json" "length (cstr json) < 2 ^ 31" "tokens_ok (length (cstr json)) tokens"
  shows "parsed0 json (length (cstr json)) tokens"
  using assms cstr_length [OF assms(1)] cstr_nth [of json] cstr_before [of _ json] by (auto simp: parsed0_def parsed_def)

lemma nostr_event_handler_ok:
  assumes json: "0 \<in> set json" "length (cstr json) < 2 ^ 31" and token: "length token = JSON_TOKEN_CAPACITY"
  shows "\<exists>m. message_ok m \<and> (\<forall>funcs s. nostr_event_handler mapped token funcs json s = Some (deliver funcs m s))"
proof -
  let ?n = "length (cstr json)"
  have l: "?n \<le> length json" using cstr_length [OF json(1)] by simp
  have sl: "nostr_strlen json = Some ?n" using json(1) by (simp add: nostr_strlen_eq)
  have tl: "JSON_TOKEN_CAPACITY \<le> length token" using token by simp
  obtain c p ts where j: "json_wrapper_parse jsmn_init json ?n token JSON_TOKEN_CAPACITY = Some (c, p, ts)" "length ts = length token"
    "c \<le> int JSON_TOKEN_CAPACITY" "0 \<le> c \<longrightarrow> tokens_ok ?n (take (nat c) ts)"
    using json_wrapper_parse_ok [OF l tl] by (elim exE conjE) (rule that)
  show ?thesis
  proof (cases "c < 3")
    case True
    then have "nostr_event_handler mapped token funcs json s = Some (deliver funcs Msg_none s)" for funcs :: "'a nostr_funcs" and s
      by (simp add: nostr_event_handler_def sl j(1))
    then show ?thesis by (intro exI [of _ Msg_none]) simp
  next
    case False
    define tk where "tk = take (nat c) ts"
    have lt: "length tk = nat c" using j(2,3) token by (simp add: tk_def)
    have P0: "parsed0 json ?n tk" using handler_text [OF json] j(4) False by (simp add: tk_def)
    then have P: "parsed json ?n tk" by (simp add: parsed0_def)
    have l3: "3 \<le> length tk" using lt False by simp
    have t: "token_at tk 0 = Some (tk ! 0)" "token_at tk 1 = Some (tk ! 1)" "token_at tk 2 = Some (tk ! 2)"
      using l3 by (auto intro!: token_at_0 token_at_1 token_at_numeral simp del: length_greater_0_conv)
    have m: "tk ! 1 \<in> set tk" using l3 by simp
    obtain b1 where b1: "json_wrapper_strncmp json (tk ! 1) (ascii ''EVENT'' @ [0]) 5 = Some b1"
      using json_wrapper_strncmp_eq [OF P0 m ascii_no_0(8), of 5] by (simp add: ascii_def)
    obtain b2 where b2: "json_wrapper_strncmp json (tk ! 1) (ascii ''REQ'' @ [0]) 3 = Some b2"
      using json_wrapper_strncmp_eq [OF P0 m ascii_no_0(9), of 3] by (simp add: ascii_def)
    obtain b3 where b3: "json_wrapper_strncmp json (tk ! 1) (ascii ''CLOSE'' @ [0]) 5 = Some b3"
      using json_wrapper_strncmp_eq [OF P0 m ascii_no_0(10), of 5] by (simp add: ascii_def)
    have le: "3 + (nat c - 3) \<le> length tk" using lt False by simp
    obtain re where re: "extract_nostr_event json tk 3 (nat c - 3) event_zero = Some re" "\<forall>e. re = Some e \<longrightarrow> event_ok e \<and> event_terminated e"
      using extract_nostr_event_ok [OF P0 le event_zero_inv] by blast
    have n0: "nat c \<le> length tk" "0 < nat c" "nat c = length tk" using lt False by simp_all
    obtain ok req where rr: "nostr_req_parse json tk (nat c) = Some (ok, req)" "ok \<longrightarrow> req_wf req \<and> 0 < req_filters_count req"
      using nostr_req_parse_ok [OF P n0(1,2)] by blast
    obtain ok2 sid where rc: "nostr_close_parse json tk (nat c) = Some (ok2, sid)" "ok2 \<longrightarrow> id_ok sid"
      using nostr_close_parse_ok [OF P n0(3,2)] by blast
    define msg where "msg =
      (if \<not> json_wrapper_is_array (tk ! 0) \<or> \<not> json_wrapper_is_string (tk ! 1) then Msg_none
       else if b1 then (if \<not> json_wrapper_is_object (tk ! 2) \<or> \<not> mapped then Msg_none
                        else case re of None \<Rightarrow> Msg_none | Some e \<Rightarrow> Msg_event e)
       else if b2 then (if \<not> mapped \<or> \<not> ok then Msg_none else Msg_req req)
       else if b3 \<and> ok2 then Msg_close sid else Msg_none)"
    have "message_ok msg" using re(2) rr(2) rc(2) by (simp add: msg_def split: option.split)
    moreover have "nostr_event_handler mapped token funcs json s = Some (deliver funcs msg s)" for funcs :: "'a nostr_funcs" and s
      unfolding nostr_event_handler_def sl j(1) Option.bind.bind_lunit prod.case if_not_P [OF False] Let_def tk_def [symmetric] t b1 b2 b3
        re(1) rr(1) rc(1) msg_def
      by (cases re; cases "on_req funcs"; cases "on_close funcs"; simp)
    ultimately show ?thesis by blast
  qed
qed

section \<open>Properties\<close>

text \<open>
  C23: Whatever text a client sends, tokenizing and parsing it ends without leaving the text, the
  token array or the structures filled, and the callbacks are handed only well-formed
  events, requests and subscription ids.
\<close>

theorem nostr_event_handler_safe:
  assumes "0 \<in> set json" "length (cstr json) < 2 ^ 31" "length token = JSON_TOKEN_CAPACITY"
  shows "\<exists>m. message_ok m \<and> (\<forall>funcs s. nostr_event_handler mapped token funcs json s = Some (deliver funcs m s))"
  by (rule nostr_event_handler_ok [OF assms])

theorem nostr_event_handler_safe_witness:
  "\<exists>m. message_ok m \<and> (\<forall>funcs s. nostr_event_handler True
      (replicate 4096 \<lparr>tok_type = JSMN_UNDEFINED, tok_start = 7, tok_end = 0, tok_size = 9\<rparr>) funcs
      (ascii ''[\"CLOSE\",\"a\"'' @ [0, 1, 2]) s = Some (deliver funcs m (s :: nat)))"
  by (rule nostr_event_handler_safe) (simp_all add: ascii_def cstr_def)

end
