(* ===== verification/NostrResponse.thy ===== *)
theory NostrResponse
  imports NostrEventParse
begin

text \<open>
  The messages to the clients: \<open>src/nostr/response/nostr_response.c\<close>. The buffer is a region of
  exactly the capacity; a write behind it is \<open>None\<close>. A pair of a position and the buffer is
  threaded through the calls; the position may run past the capacity. Sums of lengths of
  strings in memory do not reach \<open>2 ^ 64\<close>.
\<close>

section \<open>Copying\<close>

text \<open>The loop that measures a string is the one of \<open>strlen\<close>.\<close>

function copy_loop :: "byte list \<Rightarrow> nat \<Rightarrow> nat \<Rightarrow> byte list \<Rightarrow> nat \<Rightarrow> byte list option" where
  "copy_loop dest dest_capacity offset src i =
     (case char_at src i of
        None \<Rightarrow> None
      | Some c \<Rightarrow>
          if c \<noteq> 0 \<and> offset + i < dest_capacity - 1 then
            (case poke dest (offset + i) [c] of
               None \<Rightarrow> None
             | Some dest \<Rightarrow> copy_loop dest dest_capacity offset src (i + 1))
          else Some dest)"
  by pat_completeness auto
termination by (relation "measure (\<lambda>(dest, cap, offset, src, i). cap - 1 - (offset + i))") auto

declare copy_loop.simps [simp del]

definition safe_copy :: "byte list \<Rightarrow> nat \<Rightarrow> nat \<Rightarrow> byte list \<Rightarrow> (nat \<times> byte list) option" where
  "safe_copy dest dest_capacity offset src = do {
     src_len \<leftarrow> strlen_loop src 0;
     if offset \<ge> dest_capacity then Some (src_len, dest)
     else do {
       dest \<leftarrow> copy_loop dest dest_capacity offset src 0;
       Some (src_len, dest)
     }
   }"

text \<open>Quote, backslash, backspace, form feed, line feed, carriage return and tab have short escapes.\<close>

definition escape_char_len :: "byte \<Rightarrow> nat" where
  "escape_char_len c =
     (if c \<in> {34, 92, 8, 12, 10, 13, 9} then 2
      else if c < 0x20 then 6
      else 1)"

text \<open>\<open>HEX_CHARS\<close> is the table of the lower-case hexadecimal digits.\<close>

definition HEX_CHARS :: "byte list" where
  "HEX_CHARS = ascii ''0123456789abcdef''"

definition escape_bytes :: "byte \<Rightarrow> byte list" where
  "escape_bytes c =
     (if c = 34 \<or> c = 92 then [92, c]
      else if c = 8 then [92, 98]
      else if c = 12 then [92, 102]
      else if c = 10 then [92, 110]
      else if c = 13 then [92, 114]
      else if c = 9 then [92, 116]
      else if c < 0x20 then [92, 117, 48, 48, HEX_CHARS ! (unat c div 16), HEX_CHARS ! (unat c mod 16)]
      else [c])"

function needed_loop :: "byte list \<Rightarrow> nat \<Rightarrow> nat \<Rightarrow> nat option" where
  "needed_loop src i total_needed =
     (case char_at src i of
        None \<Rightarrow> None
      | Some c \<Rightarrow> if c \<noteq> 0 then needed_loop src (i + 1) (total_needed + escape_char_len c) else Some total_needed)"
  by pat_completeness auto
termination
  by (relation "measure (\<lambda>(src, i, n). length src - i)") (auto simp: char_at_def split: if_splits)

declare needed_loop.simps [simp del]

function escape_loop :: "byte list \<Rightarrow> nat \<Rightarrow> nat \<Rightarrow> byte list \<Rightarrow> nat \<Rightarrow> nat \<Rightarrow> byte list option" where
  "escape_loop dest dest_capacity offset src i written =
     (case char_at src i of
        None \<Rightarrow> None
      | Some c \<Rightarrow>
          if c \<noteq> 0 \<and> offset + written < dest_capacity - 1 then
            (if offset + written + escape_char_len c - 1 \<ge> dest_capacity - 1 then Some dest
             else
               (case poke dest (offset + written) (escape_bytes c) of
                  None \<Rightarrow> None
                | Some dest \<Rightarrow> escape_loop dest dest_capacity offset src (i + 1) (written + length (escape_bytes c))))
          else Some dest)"
  by pat_completeness auto
termination
  by (relation "measure (\<lambda>(dest, cap, offset, src, i, n). length src - i)") (auto simp: char_at_def split: if_splits)

declare escape_loop.simps [simp del]

definition safe_copy_json_escaped :: "byte list \<Rightarrow> nat \<Rightarrow> nat \<Rightarrow> byte list \<Rightarrow> (nat \<times> byte list) option" where
  "safe_copy_json_escaped dest dest_capacity offset src = do {
     total_needed \<leftarrow> needed_loop src 0 0;
     if offset \<ge> dest_capacity then Some (total_needed, dest)
     else do {
       dest \<leftarrow> escape_loop dest dest_capacity offset src 0 0;
       Some (total_needed, dest)
     }
   }"

section \<open>Numbers\<close>

text \<open>The digits are collected backwards in \<open>temp\<close>, of which the model keeps the part written.\<close>

function temp_digits :: "nat \<Rightarrow> nat \<Rightarrow> byte list \<Rightarrow> byte list" where
  "temp_digits limit v temp =
     (if v > 0 \<and> length temp < limit then temp_digits limit (v div 10) (temp @ [word_of_nat (48 + v mod 10)])
      else temp)"
  by pat_completeness auto
termination by (relation "measure (\<lambda>(limit, v, temp). v)") auto

declare temp_digits.simps [simp del]

primrec swap_loop :: "byte list \<Rightarrow> nat list \<Rightarrow> byte list" where
  "swap_loop temp [] = temp"
| "swap_loop temp (i # is) =
     swap_loop (temp[i := temp ! (length temp - 1 - i), length temp - 1 - i := temp ! i]) is"

definition temp_number :: "nat \<Rightarrow> nat \<Rightarrow> byte list" where
  "temp_number limit v =
     (if v = 0 then [48]
      else (let temp = temp_digits limit v [] in swap_loop temp [0..<length temp div 2]))"

definition write_uint32 :: "byte list \<Rightarrow> nat \<Rightarrow> nat \<Rightarrow> nat \<Rightarrow> (nat \<times> byte list) option" where
  "write_uint32 dest dest_capacity offset v =
     (if offset \<ge> dest_capacity then Some (0, dest)
      else safe_copy dest dest_capacity offset (temp_number 15 v @ [0]))"

text \<open>The negation of the smallest number is undefined in C; in the machine it is that number again.\<close>

definition write_int64 :: "byte list \<Rightarrow> nat \<Rightarrow> nat \<Rightarrow> int \<Rightarrow> (nat \<times> byte list) option" where
  "write_int64 dest dest_capacity offset v =
     (if offset \<ge> dest_capacity then Some (0, dest)
      else
        (let is_negative = v < 0;
             v = (if is_negative then wrap_int64 (- v) else v);
             temp = (if v < 0 then [] else temp_number 22 (nat v));
             temp = (if is_negative then 45 # temp else temp)
         in safe_copy dest dest_capacity offset (temp @ [0])))"

section \<open>Messages\<close>

text \<open>One \<open>pos +=\<close> of the code.\<close>

definition put :: "(byte list \<Rightarrow> nat \<Rightarrow> nat \<Rightarrow> 'a \<Rightarrow> (nat \<times> byte list) option) \<Rightarrow> nat \<Rightarrow> 'a \<Rightarrow> nat \<times> byte list \<Rightarrow> (nat \<times> byte list) option" where
  "put copy capacity x = (\<lambda>(pos, buffer). do {
     (n, buffer) \<leftarrow> copy buffer capacity pos x;
     Some (pos + n, buffer)
   })"

abbreviation "put_lit capacity s \<equiv> put safe_copy capacity (ascii s @ [0])"
abbreviation "put_raw \<equiv> put safe_copy"
abbreviation "put_esc \<equiv> put safe_copy_json_escaped"

definition finish_response :: "nat \<Rightarrow> nat \<times> byte list \<Rightarrow> (bool \<times> byte list) option" where
  "finish_response capacity = (\<lambda>(pos, buffer).
     if pos < capacity then do { buffer \<leftarrow> poke buffer pos [0]; Some (True, buffer) }
     else do { buffer \<leftarrow> poke buffer (capacity - 1) [0]; Some (False, buffer) })"

definition nostr_response_eose :: "byte list \<Rightarrow> byte list \<Rightarrow> nat \<Rightarrow> (bool \<times> byte list) option" where
  "nostr_response_eose subscription_id buffer capacity =
     (if \<not> capacity > 0 then Some (False, buffer)
      else do {
        st \<leftarrow> put_lit capacity ''[\"EOSE\",\"'' (0, buffer);
        st \<leftarrow> put_esc capacity subscription_id st;
        st \<leftarrow> put_lit capacity ''\"]'' st;
        finish_response capacity st
      })"

text \<open>\<open>None\<close> stands for the null pointer of the message.\<close>

definition nostr_response_ok :: "byte list \<Rightarrow> bool \<Rightarrow> byte list option \<Rightarrow> byte list \<Rightarrow> nat \<Rightarrow> (bool \<times> byte list) option" where
  "nostr_response_ok event_id success message buffer capacity =
     (if \<not> capacity > 0 then Some (False, buffer)
      else do {
        st \<leftarrow> put_lit capacity ''[\"OK\",\"'' (0, buffer);
        st \<leftarrow> put_esc capacity event_id st;
        st \<leftarrow> put_lit capacity ''\",'' st;
        st \<leftarrow> put_lit capacity (if success then ''true'' else ''false'') st;
        st \<leftarrow> put_lit capacity '',\"'' st;
        st \<leftarrow> (case message of None \<Rightarrow> Some st | Some m \<Rightarrow> put_esc capacity m st);
        st \<leftarrow> put_lit capacity ''\"]'' st;
        finish_response capacity st
      })"

definition nostr_response_notice :: "byte list \<Rightarrow> byte list \<Rightarrow> nat \<Rightarrow> (bool \<times> byte list) option" where
  "nostr_response_notice message buffer capacity =
     (if \<not> capacity > 0 then Some (False, buffer)
      else do {
        st \<leftarrow> put_lit capacity ''[\"NOTICE\",\"'' (0, buffer);
        st \<leftarrow> put_esc capacity message st;
        st \<leftarrow> put_lit capacity ''\"]'' st;
        finish_response capacity st
      })"

definition nostr_response_closed :: "byte list \<Rightarrow> byte list option \<Rightarrow> byte list \<Rightarrow> nat \<Rightarrow> (bool \<times> byte list) option" where
  "nostr_response_closed subscription_id message buffer capacity =
     (if \<not> capacity > 0 then Some (False, buffer)
      else do {
        st \<leftarrow> put_lit capacity ''[\"CLOSED\",\"'' (0, buffer);
        st \<leftarrow> put_esc capacity subscription_id st;
        st \<leftarrow> put_lit capacity ''\",\"'' st;
        st \<leftarrow> (case message of None \<Rightarrow> Some st | Some m \<Rightarrow> put_esc capacity m st);
        st \<leftarrow> put_lit capacity ''\"]'' st;
        finish_response capacity st
      })"

primrec values_json_loop :: "nat \<Rightarrow> nostr_tag \<Rightarrow> nat list \<Rightarrow> nat \<times> byte list \<Rightarrow> (nat \<times> byte list) option" where
  "values_json_loop capacity tag [] st = Some st"
| "values_json_loop capacity tag (j # js) st = do {
     v \<leftarrow> (if j < length (tag_values tag) then Some (tag_values tag ! j) else None);
     st \<leftarrow> put_lit capacity '',\"'' st;
     st \<leftarrow> put_esc capacity v st;
     st \<leftarrow> put_lit capacity ''\"'' st;
     values_json_loop capacity tag js st
   }"

primrec tags_json_loop :: "nat \<Rightarrow> nostr_tag list \<Rightarrow> nat list \<Rightarrow> nat \<times> byte list \<Rightarrow> (nat \<times> byte list) option" where
  "tags_json_loop capacity tags [] st = Some st"
| "tags_json_loop capacity tags (i # is) st = do {
     tag \<leftarrow> (if i < length tags then Some (tags ! i) else None);
     st \<leftarrow> (if i > 0 then put_lit capacity '','' st else Some st);
     st \<leftarrow> put_lit capacity ''[\"'' st;
     st \<leftarrow> put_esc capacity (tag_key tag) st;
     st \<leftarrow> put_lit capacity ''\"'' st;
     st \<leftarrow> values_json_loop capacity tag [0..<item_count tag] st;
     st \<leftarrow> put_lit capacity '']'' st;
     tags_json_loop capacity tags is st
   }"

definition serialize_tags :: "nat \<Rightarrow> nostr_tag list \<Rightarrow> nat \<Rightarrow> nat \<times> byte list \<Rightarrow> (nat \<times> byte list) option" where
  "serialize_tags capacity tags tag_count st = do {
     st \<leftarrow> put_lit capacity ''['' st;
     st \<leftarrow> tags_json_loop capacity tags [0..<tag_count] st;
     put_lit capacity '']'' st
   }"

definition nostr_response_event :: "byte list \<Rightarrow> nostr_event \<Rightarrow> byte list \<Rightarrow> nat \<Rightarrow> (bool \<times> byte list) option" where
  "nostr_response_event subscription_id event buffer capacity =
     (if \<not> capacity > 0 then Some (False, buffer)
      else do {
        st \<leftarrow> put_lit capacity ''[\"EVENT\",\"'' (0, buffer);
        st \<leftarrow> put_esc capacity subscription_id st;
        st \<leftarrow> put_lit capacity ''\",{'' st;
        st \<leftarrow> put_lit capacity ''\"id\":\"'' st;
        st \<leftarrow> put_raw capacity (ev_id event) st;
        st \<leftarrow> put_lit capacity ''\",'' st;
        st \<leftarrow> put_lit capacity ''\"pubkey\":\"'' st;
        st \<leftarrow> put_raw capacity (ev_pubkey event) st;
        st \<leftarrow> put_lit capacity ''\",'' st;
        st \<leftarrow> put_lit capacity ''\"created_at\":'' st;
        st \<leftarrow> put write_int64 capacity (to_int64 (ev_created_at event)) st;
        st \<leftarrow> put_lit capacity '','' st;
        st \<leftarrow> put_lit capacity ''\"kind\":'' st;
        st \<leftarrow> put write_uint32 capacity (ev_kind event) st;
        st \<leftarrow> put_lit capacity '','' st;
        st \<leftarrow> put_lit capacity ''\"tags\":'' st;
        st \<leftarrow> serialize_tags capacity (ev_tags event) (ev_tag_count event) st;
        st \<leftarrow> put_lit capacity '','' st;
        st \<leftarrow> put_lit capacity ''\"content\":\"'' st;
        st \<leftarrow> put_esc capacity (ev_content event) st;
        st \<leftarrow> put_lit capacity ''\",'' st;
        st \<leftarrow> put_lit capacity ''\"sig\":\"'' st;
        st \<leftarrow> put_raw capacity (ev_sig event) st;
        st \<leftarrow> put_lit capacity ''\"'' st;
        st \<leftarrow> put_lit capacity ''}]'' st;
        finish_response capacity st
      })"

section \<open>Copies that fit and copies that do not\<close>

definition esc :: "byte list \<Rightarrow> byte list" where
  "esc s = concat (map escape_bytes s)"

lemma esc_simps [simp]: "esc [] = []" "esc (c # s) = escape_bytes c @ esc s" "esc (s @ t) = esc s @ esc t"
  by (simp_all add: esc_def)

lemma escape_char_len_eq: "escape_char_len c = length (escape_bytes c)"
  by (auto simp: escape_char_len_def escape_bytes_def)

lemma escape_bytes_pos: "0 < length (escape_bytes c)"
  by (simp add: escape_bytes_def)

lemma copy_loop_ok:
  assumes src: "0 \<in> set src"
  shows "i \<le> length (cstr src) \<Longrightarrow> length dest = cap \<Longrightarrow> 0 < cap \<Longrightarrow>
    \<exists>d. copy_loop dest cap off src i = Some d \<and> length d = cap \<and>
      (off + length (cstr src) < cap \<longrightarrow> d = blit dest (off + i) (drop i (cstr src)))"
proof (induction "cap - (off + i)" arbitrary: i dest rule: less_induct)
  case less
  have l: "length (cstr src) < length src" by (rule cstr_length [OF src])
  show ?case
  proof (cases "i < length (cstr src) \<and> off + i < cap - 1")
    case False
    have "copy_loop dest cap off src i = Some dest"
      using False l less.prems cstr_nth [of src] by (subst copy_loop.simps) auto
    moreover have "off + length (cstr src) < cap \<Longrightarrow> i = length (cstr src)" using False less.prems by linarith
    ultimately show ?thesis using less.prems by auto
  next
    case True
    then have c: "char_at src i = Some (src ! i)" "src ! i \<noteq> 0" "src ! i = cstr src ! i"
      using l cstr_before [of i src] cstr_take [of src] by (simp, simp, metis nth_take)
    have off: "off + i < cap" using True by linarith
    then have po: "poke dest (off + i) [src ! i] = Some (blit dest (off + i) [src ! i])" using less.prems by simp
    have e: "copy_loop dest cap off src i = copy_loop (blit dest (off + i) [src ! i]) cap off src (i + 1)"
      using True c(1,2) po by (subst copy_loop.simps) simp
    have lb: "length (blit dest (off + i) [src ! i]) = cap" using less.prems off by simp
    have m: "cap - (off + (i + 1)) < cap - (off + i)" using off by linarith
    have i1: "i + 1 \<le> length (cstr src)" using True by simp
    obtain d where d: "copy_loop (blit dest (off + i) [src ! i]) cap off src (i + 1) = Some d" "length d = cap"
      "off + length (cstr src) < cap \<longrightarrow> d = blit (blit dest (off + i) [src ! i]) (off + (i + 1)) (drop (i + 1) (cstr src))"
      using less.hyps [OF m i1 lb less.prems(3)] by (elim exE conjE) (rule that)
    have "blit (blit dest (off + i) [src ! i]) (off + (i + 1)) (drop (i + 1) (cstr src)) = blit dest (off + i) (drop i (cstr src))"
      if "off + length (cstr src) < cap"
    proof -
      have "src ! i # drop (i + 1) (cstr src) = drop i (cstr src)" using True c(3) by (simp add: Cons_nth_drop_Suc)
      then show ?thesis
        using blit_append [of "off + (i + 1)" "off + i" "[src ! i]" "drop (i + 1) (cstr src)" dest] that True less.prems by simp
    qed
    then show ?thesis using e d by auto
  qed
qed

lemma safe_copy_ok:
  assumes src: "0 \<in> set src" and dest: "length dest = cap" "0 < cap"
  shows "\<exists>d. safe_copy dest cap off src = Some (length (cstr src), d) \<and> length d = cap \<and>
    (off + length (cstr src) < cap \<longrightarrow> d = blit dest off (cstr src))"
proof -
  have sl: "strlen_loop src 0 = Some (length (cstr src))" using strlen_loop_eq [of 0 src] src by simp
  show ?thesis
  proof (cases "off < cap")
    case True
    obtain d where "copy_loop dest cap off src 0 = Some d" "length d = cap" "off + length (cstr src) < cap \<longrightarrow> d = blit dest off (cstr src)"
      using copy_loop_ok [OF src _ dest, of 0 off] by auto
    then show ?thesis using True sl by (simp add: safe_copy_def)
  next
    case False
    then show ?thesis using sl dest by (simp add: safe_copy_def)
  qed
qed

lemma needed_loop_eq:
  "0 \<in> set src \<Longrightarrow> i \<le> length (cstr src) \<Longrightarrow> needed_loop src i n = Some (n + length (esc (drop i (cstr src))))"
proof (induction src i n rule: needed_loop.induct)
  case (1 src i n)
  have src: "0 \<in> set src" by (rule "1.prems")
  have l: "length (cstr src) \<le> length src" using length_takeWhile_le [of "\<lambda>c. c \<noteq> 0" src] by (simp add: cstr_def)
  show ?case
  proof (cases "i < length (cstr src)")
    case True
    then have c: "char_at src i = Some (src ! i)" "src ! i \<noteq> 0" "src ! i = cstr src ! i"
      using l cstr_before [of i src] cstr_take [of src] by (simp, simp, metis nth_take)
    have d: "drop i (cstr src) = src ! i # drop (i + 1) (cstr src)" using True c(3) by (simp add: Cons_nth_drop_Suc)
    have "needed_loop src (i + 1) (n + escape_char_len (src ! i)) = Some (n + escape_char_len (src ! i) + length (esc (drop (i + 1) (cstr src))))"
      using True src by (intro "1.IH" [OF c(1,2)]) simp_all
    then show ?thesis using c(1,2) by (subst needed_loop.simps) (simp add: d escape_char_len_eq)
  next
    case False
    then have i: "i = length (cstr src)" using "1.prems" by simp
    show ?thesis
    proof (cases "i < length src")
      case True
      then show ?thesis using i cstr_length [OF src] cstr_nth [OF cstr_length [OF src]] by (subst needed_loop.simps) (simp add: char_at_def)
    next
      case False
      then show ?thesis using i cstr_length [OF src] by simp
    qed
  qed
qed

lemma escape_loop_ok:
  assumes src: "0 \<in> set src"
  shows "i \<le> length (cstr src) \<Longrightarrow> length dest = cap \<Longrightarrow> 0 < cap \<Longrightarrow>
    \<exists>d. escape_loop dest cap off src i w = Some d \<and> length d = cap \<and>
      (off + w + length (esc (drop i (cstr src))) < cap \<longrightarrow> d = blit dest (off + w) (esc (drop i (cstr src))))"
proof (induction "length src - i" arbitrary: i dest w rule: less_induct)
  case less
  have l: "length (cstr src) < length src" by (rule cstr_length [OF src])
  define fits where "fits \<longleftrightarrow> off + w + length (esc (drop i (cstr src))) < cap"
  show ?case
  proof (cases "i < length (cstr src)")
    case False
    then have i: "i = length (cstr src)" using less.prems by simp
    have "escape_loop dest cap off src i w = Some dest"
      using i l cstr_nth [OF l] by (subst escape_loop.simps) (simp add: char_at_def)
    then show ?thesis using less.prems i by (auto simp: fits_def)
  next
    case True
    then have c: "char_at src i = Some (src ! i)" "src ! i \<noteq> 0" "src ! i = cstr src ! i"
      using l cstr_before [of i src] cstr_take [of src] by (simp, simp, metis nth_take)
    have d: "drop i (cstr src) = src ! i # drop (i + 1) (cstr src)" using True c(3) by (simp add: Cons_nth_drop_Suc)
    define e where "e = escape_bytes (src ! i)"
    have e: "escape_char_len (src ! i) = length e" "0 < length e" using escape_bytes_pos by (simp_all add: e_def escape_char_len_eq)
    show ?thesis
    proof (cases "off + w + length e < cap")
      case False
      have "\<not> fits" using False by (simp add: fits_def d e_def)
      moreover have "escape_loop dest cap off src i w = Some dest"
        using False c(1,2) e less.prems by (subst escape_loop.simps) simp
      ultimately show ?thesis using less.prems by (simp add: fits_def)
    next
      case True2: True
      have po: "poke dest (off + w) e = Some (blit dest (off + w) e)" using True2 less.prems by simp
      have b: "off + w < cap - 1" "\<not> off + w + length e - 1 \<ge> cap - 1" using True2 e(2) by linarith+
      have st: "escape_loop dest cap off src i w = escape_loop (blit dest (off + w) e) cap off src (i + 1) (w + length e)"
        using b c(1,2) e(1) po by (subst escape_loop.simps) (simp del: One_nat_def add: e_def [symmetric])
      have m: "length src - (i + 1) < length src - i" using True l by linarith
      have i1: "i + 1 \<le> length (cstr src)" using True by simp
      have lb: "length (blit dest (off + w) e) = cap" using True2 less.prems by simp
      obtain d' where d': "escape_loop (blit dest (off + w) e) cap off src (i + 1) (w + length e) = Some d'" "length d' = cap"
        "off + (w + length e) + length (esc (drop (i + 1) (cstr src))) < cap \<longrightarrow>
          d' = blit (blit dest (off + w) e) (off + (w + length e)) (esc (drop (i + 1) (cstr src)))"
        using less.hyps [OF m i1 lb less.prems(3), of "w + length e"] by (elim exE conjE) (rule that)
      have "d' = blit dest (off + w) (e @ esc (drop (i + 1) (cstr src)))" if fits
      proof -
        have f: "off + w + length e + length (esc (drop (i + 1) (cstr src))) < cap" using that by (simp add: fits_def d e_def)
        have g: "off + (w + length e) + length (esc (drop (i + 1) (cstr src))) < cap" using f by linarith
        have h: "off + w + length e + length (esc (drop (i + 1) (cstr src))) \<le> length dest" using f less.prems(2) by linarith
        have "off + (w + length e) = off + w + length e" by linarith
        then have "blit (blit dest (off + w) e) (off + (w + length e)) (esc (drop (i + 1) (cstr src))) =
          blit dest (off + w) (e @ esc (drop (i + 1) (cstr src)))" using blit_append [OF _ h] by blast
        then show ?thesis using d'(3) g by simp
      qed
      then have "fits \<longrightarrow> d' = blit dest (off + w) (esc (drop i (cstr src)))" by (simp add: d e_def)
      then show ?thesis using st d' unfolding fits_def by simp
    qed
  qed
qed

lemma safe_copy_json_escaped_ok:
  assumes src: "0 \<in> set src" and dest: "length dest = cap" "0 < cap"
  shows "\<exists>d. safe_copy_json_escaped dest cap off src = Some (length (esc (cstr src)), d) \<and> length d = cap \<and>
    (off + length (esc (cstr src)) < cap \<longrightarrow> d = blit dest off (esc (cstr src)))"
proof -
  have n: "needed_loop src 0 0 = Some (length (esc (cstr src)))" using needed_loop_eq [OF src, of 0 0] by simp
  show ?thesis
  proof (cases "off < cap")
    case True
    obtain d where "escape_loop dest cap off src 0 0 = Some d" "length d = cap"
      "off + length (esc (cstr src)) < cap \<longrightarrow> d = blit dest off (esc (cstr src))"
      using escape_loop_ok [OF src _ dest, of 0 off 0] by auto
    then show ?thesis using True n by (simp add: safe_copy_json_escaped_def)
  next
    case False
    then show ?thesis using n dest by (simp add: safe_copy_json_escaped_def)
  qed
qed

section \<open>The digits\<close>

lemma temp_digits_eq:
  "0 < v \<Longrightarrow> length temp + length (dec v) \<le> limit \<Longrightarrow> temp_digits limit v temp = temp @ rev (dec v)"
proof (induction v arbitrary: temp rule: less_induct)
  case (less v)
  have p: "0 < length (dec v)" by (rule dec_pos)
  show ?case
  proof (cases "v < 10")
    case True
    then show ?thesis using less.prems by (subst temp_digits.simps) (simp add: dec.simps [of v] temp_digits.simps [of _ 0])
  next
    case False
    have d: "dec v = dec (v div 10) @ [word_of_nat (48 + v mod 10)]" using False by (subst dec.simps) simp
    have "temp_digits limit (v div 10) (temp @ [word_of_nat (48 + v mod 10)]) =
      (temp @ [word_of_nat (48 + v mod 10)]) @ rev (dec (v div 10))"
      using False less.prems d by (intro less.IH) simp_all
    then show ?thesis using less.prems p d by (subst temp_digits.simps) simp
  qed
qed

lemma swap_loop_eq:
  assumes "k \<le> n div 2" "length temp = n"
  shows "length (swap_loop temp [k..<n div 2]) = n \<and> (\<forall>j < n. swap_loop temp [k..<n div 2] ! j =
    (if k \<le> j \<and> j < n - k then temp ! (n - 1 - j) else temp ! j))"
  using assms
proof (induction "n div 2 - k" arbitrary: k temp)
  case 0
  then have k: "k = n div 2" by simp
  have "temp ! (n - 1 - j) = temp ! j" if "k \<le> j" "j < n - k" for j
  proof -
    have "n - 1 - j = j" using that k mult_div_mod_eq [of 2 n] mod_less_divisor [of 2 n] by linarith
    then show ?thesis by simp
  qed
  then show ?case using k 0 by simp
next
  case (Suc m)
  then have k: "k < n div 2" by linarith
  define t where "t = temp[k := temp ! (n - 1 - k), n - 1 - k := temp ! k]"
  have t: "length t = n" using Suc.prems by (simp add: t_def)
  have step: "swap_loop temp [k..<n div 2] = swap_loop t [k + 1..<n div 2]"
    using k Suc.prems by (simp add: upt_conv_Cons t_def)
  have m: "m = n div 2 - (k + 1)" and k1: "k + 1 \<le> n div 2" using Suc.hyps(2) k by linarith+
  have IH: "length (swap_loop t [k + 1..<n div 2]) = n"
    "\<forall>j < n. swap_loop t [k + 1..<n div 2] ! j = (if k + 1 \<le> j \<and> j < n - (k + 1) then t ! (n - 1 - j) else t ! j)"
    using Suc.hyps(1) [OF m k1 t] by simp_all
  have kn: "k < n - 1 - k" "n - 1 - k < n" using k by linarith+
  have "(if k + 1 \<le> j \<and> j < n - (k + 1) then t ! (n - 1 - j) else t ! j) =
    (if k \<le> j \<and> j < n - k then temp ! (n - 1 - j) else temp ! j)" if j: "j < n" for j
  proof -
    consider "j = k" | "j = n - 1 - k" | "j \<noteq> k" "j \<noteq> n - 1 - k" by blast
    then show ?thesis
    proof cases
      case 1
      moreover have "k < n - k" using kn by linarith
      ultimately show ?thesis using kn Suc.prems by (simp add: t_def)
    next
      case 2
      then have "n - 1 - j = k" "\<not> j < n - (k + 1)" "k \<le> j" "j < n - k" using kn j by linarith+
      then show ?thesis using kn Suc.prems 2 by (simp add: t_def)
    next
      case 3
      then have "(k + 1 \<le> j \<and> j < n - (k + 1)) = (k \<le> j \<and> j < n - k)" "n - 1 - j \<noteq> k" "n - 1 - j \<noteq> n - 1 - k"
        using kn j by linarith+
      then show ?thesis using 3 kn Suc.prems by (simp add: t_def)
    qed
  qed
  then show ?case using IH step by simp
qed

lemma swap_loop_rev: "swap_loop temp [0..<length temp div 2] = rev temp"
  using swap_loop_eq [of 0 "length temp" temp] by (intro nth_equalityI) (simp_all add: rev_nth)

lemma temp_number_eq: "length (dec v) \<le> limit \<Longrightarrow> temp_number limit v = dec v"
proof (cases "v = 0")
  case True
  then show ?thesis by (simp add: temp_number_def dec.simps [of 0])
next
  case False
  assume "length (dec v) \<le> limit"
  then have "temp_digits limit v [] = rev (dec v)" using False temp_digits_eq [of v "[]" limit] by simp
  then show ?thesis using False swap_loop_rev [of "rev (dec v)"] by (simp add: temp_number_def Let_def)
qed

lemma dec_no_0: "0 \<notin> set (dec n)"
proof (induction n rule: less_induct)
  case (less n)
  have z: "(word_of_nat (48 + m mod 10) :: byte) \<noteq> 0" for m
  proof
    assume "(word_of_nat (48 + m mod 10) :: byte) = 0"
    then have "unat (word_of_nat (48 + m mod 10) :: byte) = 0" by simp
    moreover have "48 + m mod 10 < (256 :: nat)" using mod_less_divisor [of 10 m] by linarith
    ultimately show False by (simp only: unat_byte_of_nat) simp
  qed
  show ?case
  proof (cases "n < 10")
    case True
    then show ?thesis using z [of n] by (subst dec.simps) auto
  next
    case False
    then show ?thesis using z [of n] less.IH [of "n div 10"] by (subst dec.simps) auto
  qed
qed

text \<open>The smallest number loses its digits.\<close>

definition sdec :: "int \<Rightarrow> byte list" where
  "sdec v = (if v < 0 then 45 # (if v = - (2 ^ 63) then [] else dec (nat (- v))) else dec (nat v))"

section \<open>Texts in the buffer\<close>

definition copies :: "(byte list \<Rightarrow> nat \<Rightarrow> nat \<Rightarrow> 'a \<Rightarrow> (nat \<times> byte list) option) \<Rightarrow> 'a \<Rightarrow> byte list \<Rightarrow> bool" where
  "copies copy x s \<longleftrightarrow> (\<forall>dest off. dest \<noteq> [] \<longrightarrow> (\<exists>n d. copy dest (length dest) off x = Some (n, d) \<and> length d = length dest \<and>
     (off < length dest \<longrightarrow> n = length s) \<and> (off + length s < length dest \<longrightarrow> d = blit dest off s)))"

lemma cstr_0 [simp]: "0 \<notin> set s \<Longrightarrow> cstr (s @ 0 # t) = s"
  by (induction s) (auto simp: cstr_def)

lemma copies_raw: "0 \<in> set s \<Longrightarrow> copies safe_copy s (cstr s)"
  unfolding copies_def using safe_copy_ok [of s _ "length d" for d] by fastforce

lemma copies_esc: "0 \<in> set s \<Longrightarrow> copies safe_copy_json_escaped s (esc (cstr s))"
  unfolding copies_def using safe_copy_json_escaped_ok [of s _ "length d" for d] by fastforce

lemma copies_lit: "0 \<notin> set s \<Longrightarrow> copies safe_copy (s @ [0]) s"
  using copies_raw [of "s @ [0]"] by simp

lemma copies_guarded:
  assumes "copies safe_copy (s @ [0]) s" "\<And>dest off. copy dest (length dest) off x =
    (if off \<ge> length dest then Some (0, dest) else safe_copy dest (length dest) off (s @ [0]))"
  shows "copies copy x s"
  unfolding copies_def
proof (intro allI impI)
  fix dest :: "byte list" and off assume d: "dest \<noteq> []"
  show "\<exists>n d. copy dest (length dest) off x = Some (n, d) \<and> length d = length dest \<and>
    (off < length dest \<longrightarrow> n = length s) \<and> (off + length s < length dest \<longrightarrow> d = blit dest off s)"
  proof (cases "off \<ge> length dest")
    case True
    then show ?thesis using assms(2) by simp
  next
    case False
    then have "copy dest (length dest) off x = safe_copy dest (length dest) off (s @ [0])" using assms(2) by simp
    then show ?thesis using assms(1) [unfolded copies_def, rule_format, OF d, of off] by (simp only: simp_thms)
  qed
qed

lemma copies_uint32: "v < 2 ^ 32 \<Longrightarrow> copies write_uint32 v (dec v)"
proof -
  assume "v < 2 ^ 32"
  then have "temp_number 15 v = dec v" using dec_length [of 15 v] by (intro temp_number_eq) simp
  then show ?thesis by (intro copies_guarded [OF copies_lit [OF dec_no_0]]) (simp add: write_uint32_def)
qed

lemma copies_int64: "- (2 ^ 63) \<le> v \<Longrightarrow> v < 2 ^ 63 \<Longrightarrow> copies write_int64 v (sdec v)"
proof -
  assume v: "- (2 ^ 63) \<le> v" "v < 2 ^ 63"
  have n: "temp_number 22 n = dec n" if "n < 2 ^ 63" for n using that dec_length [of 22 n] by (intro temp_number_eq) simp
  define w where "w = (if v < 0 then wrap_int64 (- v) else v)"
  have neg: "wrap_int64 (- v) = (if v = - (2 ^ 63) then v else - v)" if "v < 0"
  proof -
    have "sint (word_of_int (- v) :: 64 word) = signed_take_bit 63 (- v)" using sint_sbintrunc' [where 'a = 64, of "- v"] by simp
    moreover have "signed_take_bit 63 (- v) = - v" if "v \<noteq> - (2 ^ 63)" using v \<open>v < 0\<close> that by (intro signed_take_bit_int_eq_self) simp_all
    moreover have "signed_take_bit 63 (2 ^ 63 :: int) = - (2 ^ 63)" by simp
    ultimately show ?thesis unfolding wrap_int64_def by (cases "v = - (2 ^ 63)") simp_all
  qed
  have w: "(if w < 0 then [] else temp_number 22 (nat w)) = (if v < 0 then if v = - (2 ^ 63) then [] else dec (nat (- v)) else dec (nat v))"
    using v n [of "nat v"] n [of "nat (- v)"] neg by (auto simp: w_def)
  have "write_int64 dest (length dest) off v = (if off \<ge> length dest then Some (0, dest)
    else safe_copy dest (length dest) off (sdec v @ [0]))" for dest off
    using w unfolding write_int64_def sdec_def w_def Let_def by (simp split: if_splits)
  moreover have "0 \<notin> set (sdec v)" using dec_no_0 by (simp add: sdec_def)
  ultimately show ?thesis by (intro copies_guarded [OF copies_lit])
qed

definition written :: "nat \<Rightarrow> byte list \<Rightarrow> nat \<times> byte list \<Rightarrow> bool" where
  "written cap tx = (\<lambda>(pos, buf). length buf = cap \<and>
     (if length tx < cap then pos = length tx \<and> take pos buf = tx else cap \<le> pos))"

definition writes :: "nat \<Rightarrow> (nat \<times> byte list \<Rightarrow> (nat \<times> byte list) option) \<Rightarrow> byte list \<Rightarrow> bool" where
  "writes cap f s \<longleftrightarrow> (\<forall>tx st. written cap tx st \<longrightarrow> (\<exists>st'. f st = Some st' \<and> written cap (tx @ s) st'))"

definition responds :: "nat \<Rightarrow> byte list \<Rightarrow> (bool \<times> byte list) option \<Rightarrow> bool" where
  "responds cap tx r \<longleftrightarrow> (\<exists>buf. r = Some (length tx < cap, buf) \<and> length buf = cap \<and>
     (length tx < cap \<longrightarrow> take (length tx + 1) buf = tx @ [0]))"

lemma written_blit:
  assumes "written cap tx (pos, buf)" "length (tx @ s) < cap"
  shows "pos = length tx" "take (pos + length s) (blit buf pos s) = tx @ s"
  using assms by (auto simp: written_def blit_def)


lemma writes_put:
  assumes c: "copies copy x s" and cap: "0 < cap"
  shows "writes cap (put copy cap x) s"
  unfolding writes_def
proof (intro allI impI)
  fix tx and st :: "nat \<times> byte list" assume w: "written cap tx st"
  obtain pos buf where st: "st = (pos, buf)" by (cases st)
  have len: "length buf = cap" and b: "buf \<noteq> []" using w cap by (auto simp: st written_def split: if_splits)
  obtain n d where c: "copy buf cap pos x = Some (n, d)" "length d = cap" "pos < cap \<longrightarrow> n = length s"
    "pos + length s < cap \<longrightarrow> d = blit buf pos s"
    using c [unfolded copies_def, rule_format, OF b, of pos] unfolding len by (elim exE conjE) (rule that)
  have "written cap (tx @ s) (pos + n, d)"
  proof (cases "length (tx @ s) < cap")
    case True
    note wb = written_blit [OF w [unfolded st] True]
    have "pos < cap" "pos + length s < cap" using True wb(1) by simp_all
    then show ?thesis using True wb c by (simp add: written_def)
  next
    case False
    then have "cap \<le> pos + n" using w c(3) by (auto simp: st written_def split: if_splits)
    then show ?thesis using False c(2) by (simp add: written_def)
  qed
  then show "\<exists>st'. put copy cap x st = Some st' \<and> written cap (tx @ s) st'" by (simp add: st put_def c(1))
qed

lemma writes_skip: "writes cap Some []"
  by (simp add: writes_def)

lemma writes_bind: "writes cap f s \<Longrightarrow> writes cap g t \<Longrightarrow> writes cap (\<lambda>st. Option.bind (f st) g) (s @ t)"
  unfolding writes_def by (metis Option.bind.bind_lunit append.assoc)

lemma writes_lit: "0 < cap \<Longrightarrow> 0 \<notin> set (ascii s) \<Longrightarrow> writes cap (put_lit cap s) (ascii s)"
  by (intro writes_put copies_lit)

lemma writes_esc: "0 < cap \<Longrightarrow> 0 \<in> set s \<Longrightarrow> writes cap (put_esc cap s) (esc (cstr s))"
  by (intro writes_put copies_esc)

lemma writes_raw: "0 < cap \<Longrightarrow> 0 \<in> set s \<Longrightarrow> writes cap (put_raw cap s) (cstr s)"
  by (intro writes_put copies_raw)

lemma responds_start: "length buf = cap \<Longrightarrow> 0 < cap \<Longrightarrow> written cap [] (0, buf)"
  by (simp add: written_def)

lemma responds_step:
  "written cap tx st \<Longrightarrow> writes cap f s \<Longrightarrow> (\<And>st'. written cap (tx @ s) st' \<Longrightarrow> responds cap full (g st')) \<Longrightarrow>
   responds cap full (Option.bind (f st) g)"
  unfolding writes_def by (metis Option.bind.bind_lunit)

lemma responds_finish: "written cap full st \<Longrightarrow> 0 < cap \<Longrightarrow> responds cap full (finish_response cap st)"
proof -
  assume w: "written cap full st" and cap: "0 < cap"
  obtain pos buf where st: "st = (pos, buf)" by (cases st)
  show ?thesis
  proof (cases "length full < cap")
    case True
    then have p: "pos = length full" "take pos buf = full" "length buf = cap" using w by (auto simp: st written_def)
    then show ?thesis using True by (simp add: st finish_response_def responds_def) (simp add: blit_def)
  next
    case False
    then have p: "cap \<le> pos" "length buf = cap" using w by (simp_all add: st written_def)
    then show ?thesis using False cap by (simp add: st finish_response_def responds_def)
  qed
qed

section \<open>JSON texts\<close>

definition json_string :: "byte list \<Rightarrow> byte list" where
  "json_string s = 34 # esc s @ [34]"

primrec joined :: "byte list list \<Rightarrow> byte list" where
  "joined [] = []"
| "joined (x # xs) = x @ concat (map (\<lambda>y. 44 # y) xs)"

definition json_array :: "byte list list \<Rightarrow> byte list" where
  "json_array xs = 91 # joined xs @ [93]"

definition json_object :: "(string \<times> byte list) list \<Rightarrow> byte list" where
  "json_object ms = 123 # joined (map (\<lambda>(k, v). json_string (ascii k) @ 58 # v) ms) @ [125]"

definition tag_text :: "nostr_tag \<Rightarrow> byte list" where
  "tag_text t = json_array (map (\<lambda>s. json_string (cstr s)) (tag_key t # take (item_count t) (tag_values t)))"

definition event_text :: "nostr_event \<Rightarrow> byte list" where
  "event_text e = json_object
     [(''id'', json_string (cstr (ev_id e))),
      (''pubkey'', json_string (cstr (ev_pubkey e))),
      (''created_at'', sdec (to_int64 (ev_created_at e))),
      (''kind'', dec (ev_kind e)),
      (''tags'', json_array (map tag_text (take (ev_tag_count e) (ev_tags e)))),
      (''content'', json_string (cstr (ev_content e))),
      (''sig'', json_string (cstr (ev_sig e)))]"

definition event_message :: "byte list \<Rightarrow> nostr_event \<Rightarrow> byte list" where
  "event_message sid e = json_array [json_string (ascii ''EVENT''), json_string sid, event_text e]"

definition ok_message :: "byte list \<Rightarrow> bool \<Rightarrow> byte list \<Rightarrow> byte list" where
  "ok_message eid success msg = json_array [json_string (ascii ''OK''), json_string eid,
     ascii (if success then ''true'' else ''false''), json_string msg]"

lemma is_hex_plain: "is_hex c \<Longrightarrow> escape_bytes c = [c]"
proof -
  have le: "e \<le> d \<longleftrightarrow> uint e \<le> uint d" "e < d \<longleftrightarrow> uint e < uint d" for e d :: byte by (rule word_le_def, rule word_less_def)
  assume "is_hex c"
  then have "48 \<le> uint c" "uint c \<noteq> 92"
    by (auto simp: is_hex_def hex_char_to_val_def is_lower_def is_upper_def is_digit_def le split: if_splits)
  then show ?thesis by (auto simp: escape_bytes_def le)
qed

lemma esc_plain: "(\<And>c. c \<in> set s \<Longrightarrow> escape_bytes c = [c]) \<Longrightarrow> esc s = s"
  by (induction s) simp_all

lemma esc_hex:
  assumes "\<forall>i < n. is_hex (s ! i)" "length s = n + 1" "0 \<in> set s"
  shows "esc (cstr s) = cstr s"
proof (rule esc_plain)
  fix c assume "c \<in> set (cstr s)"
  then obtain i where i: "i < length (cstr s)" "c = cstr s ! i" by (auto simp: in_set_conv_nth)
  have "i < n" using i(1) cstr_length [OF assms(3)] assms(2) by linarith
  moreover have "cstr s ! i = s ! i" using i(1) cstr_take [of s] by (metis nth_take)
  ultimately show "escape_bytes c = [c]" using assms(1) i(2) is_hex_plain by simp
qed

lemma responds_first: "writes (length buf) f s \<Longrightarrow> 0 < length buf \<Longrightarrow>
   (\<And>st. written (length buf) s st \<Longrightarrow> responds (length buf) full (g st)) \<Longrightarrow>
   responds (length buf) full (Option.bind (f (0, buf)) g)"
  using responds_step [OF responds_start] by force

lemma responds_end: "written cap tx st \<Longrightarrow> 0 < cap \<Longrightarrow> full = tx \<Longrightarrow> responds cap full (finish_response cap st)"
  using responds_finish by simp

lemma responds_empty: "responds 0 tx (Some (False, []))"
  by (simp add: responds_def)

lemmas text_simps = json_array_def json_object_def json_string_def ascii_def escape_bytes_def

lemma nostr_response_ok_text:
  assumes "0 \<in> set eid" "\<forall>m. msg = Some m \<longrightarrow> 0 \<in> set m"
  shows "responds (length buf) (ok_message (cstr eid) success (case msg of None \<Rightarrow> [] | Some m \<Rightarrow> cstr m))
    (nostr_response_ok eid success msg buf (length buf))"
proof (cases "0 < length buf")
  case cap: True
  have m: "writes (length buf) (\<lambda>st. case msg of None \<Rightarrow> Some st | Some m \<Rightarrow> put_esc (length buf) m st)
    (esc (case msg of None \<Rightarrow> [] | Some m \<Rightarrow> cstr m))"
    using writes_skip writes_esc [OF cap] assms(2) by (cases msg) auto
  note lit = writes_lit [OF cap] and sid = writes_esc [OF cap assms(1)]
  show ?thesis unfolding nostr_response_ok_def if_not_P [OF not_not [THEN iffD2, OF cap]]
    by (rule responds_first [OF lit cap], simp add: ascii_def)
      ((rule responds_step, assumption, rule m | rule responds_step, assumption, rule sid |
        rule responds_step, assumption, rule lit, simp add: ascii_def)+,
       rule responds_end [OF _ cap], assumption, simp add: ok_message_def text_simps)
qed (simp add: nostr_response_ok_def responds_empty)

lemma nostr_response_eose_text:
  assumes "0 \<in> set sid"
  shows "responds (length buf) (json_array [json_string (ascii ''EOSE''), json_string (cstr sid)])
    (nostr_response_eose sid buf (length buf))"
proof (cases "0 < length buf")
  case cap: True
  note lit = writes_lit [OF cap] and sid = writes_esc [OF cap assms(1)]
  show ?thesis unfolding nostr_response_eose_def if_not_P [OF not_not [THEN iffD2, OF cap]]
    by (rule responds_first [OF lit cap], simp add: ascii_def)
      ((rule responds_step, assumption, rule sid | rule responds_step, assumption, rule lit, simp add: ascii_def)+,
       rule responds_end [OF _ cap], assumption, simp add: text_simps)
qed (simp add: nostr_response_eose_def responds_empty)

lemma nostr_response_notice_text:
  assumes "0 \<in> set msg"
  shows "responds (length buf) (json_array [json_string (ascii ''NOTICE''), json_string (cstr msg)])
    (nostr_response_notice msg buf (length buf))"
proof (cases "0 < length buf")
  case cap: True
  note lit = writes_lit [OF cap] and msg = writes_esc [OF cap assms(1)]
  show ?thesis unfolding nostr_response_notice_def if_not_P [OF not_not [THEN iffD2, OF cap]]
    by (rule responds_first [OF lit cap], simp add: ascii_def)
      ((rule responds_step, assumption, rule msg | rule responds_step, assumption, rule lit, simp add: ascii_def)+,
       rule responds_end [OF _ cap], assumption, simp add: text_simps)
qed (simp add: nostr_response_notice_def responds_empty)

lemma nostr_response_closed_text:
  assumes "0 \<in> set sid" "\<forall>m. msg = Some m \<longrightarrow> 0 \<in> set m"
  shows "responds (length buf) (json_array [json_string (ascii ''CLOSED''), json_string (cstr sid),
      json_string (case msg of None \<Rightarrow> [] | Some m \<Rightarrow> cstr m)])
    (nostr_response_closed sid msg buf (length buf))"
proof (cases "0 < length buf")
  case cap: True
  have m: "writes (length buf) (\<lambda>st. case msg of None \<Rightarrow> Some st | Some m \<Rightarrow> put_esc (length buf) m st)
    (esc (case msg of None \<Rightarrow> [] | Some m \<Rightarrow> cstr m))"
    using writes_skip writes_esc [OF cap] assms(2) by (cases msg) auto
  note lit = writes_lit [OF cap] and sid = writes_esc [OF cap assms(1)]
  show ?thesis unfolding nostr_response_closed_def if_not_P [OF not_not [THEN iffD2, OF cap]]
    by (rule responds_first [OF lit cap], simp add: ascii_def)
      ((rule responds_step, assumption, rule m | rule responds_step, assumption, rule sid |
        rule responds_step, assumption, rule lit, simp add: ascii_def)+,
       rule responds_end [OF _ cap], assumption, simp add: text_simps)
qed (simp add: nostr_response_closed_def responds_empty)

section \<open>The text of an event\<close>

lemma values_json_loop_writes:
  assumes cap: "0 < cap"
  shows "\<forall>j \<in> set js. j < length (tag_values t) \<and> 0 \<in> set (tag_values t ! j) \<Longrightarrow>
    writes cap (values_json_loop cap t js) (concat (map (\<lambda>j. 44 # json_string (cstr (tag_values t ! j))) js))"
proof (induction js)
  case Nil
  then show ?case using writes_skip [of cap] by (simp add: writes_def)
next
  case (Cons j js)
  define v where "v = tag_values t ! j"
  have v: "0 \<in> set v" "(if j < length (tag_values t) then Some (tag_values t ! j) else None) = Some v"
    using Cons.prems by (simp_all add: v_def)
  have IH: "writes cap (values_json_loop cap t js) (concat (map (\<lambda>j. 44 # json_string (cstr (tag_values t ! j))) js))"
    using Cons by simp
  have "writes cap (\<lambda>st. values_json_loop cap t (j # js) st)
    (ascii '',\"'' @ esc (cstr v) @ ascii ''\"'' @ concat (map (\<lambda>j. 44 # json_string (cstr (tag_values t ! j))) js))"
    unfolding values_json_loop.simps v(2) Option.bind.bind_lunit
    by (intro writes_bind writes_lit [OF cap] writes_esc [OF cap v(1)] IH) (simp_all add: ascii_def)
  then show ?case by (simp add: json_string_def ascii_def v_def)
qed

lemma map_nth_upt: "n \<le> length xs \<Longrightarrow> map (\<lambda>i. f (xs ! i)) [0..<n] = map f (take n xs)"
  by (intro nth_equalityI) simp_all

lemma values_text:
  assumes cap: "0 < cap" and t: "tag_ok t"
  shows "writes cap (values_json_loop cap t [0..<item_count t])
    (concat (map (\<lambda>v. 44 # json_string (cstr v)) (take (item_count t) (tag_values t))))"
proof -
  have n: "item_count t \<le> length (tag_values t)" "\<And>v. v \<in> set (take (item_count t) (tag_values t)) \<Longrightarrow> 0 \<in> set v"
    using t by (simp_all add: tag_ok_def tag_shape_def)
  have "\<forall>j \<in> set [0..<item_count t]. j < length (tag_values t) \<and> 0 \<in> set (tag_values t ! j)"
    using n by (metis atLeastLessThan_iff in_set_conv_nth length_take less_le_trans min.absorb2 nth_take set_upt)
  note w = values_json_loop_writes [OF cap this]
  have "map (\<lambda>j. 44 # json_string (cstr (tag_values t ! j))) [0..<item_count t] =
      map (\<lambda>v. 44 # json_string (cstr v)) (take (item_count t) (tag_values t))"
    using map_nth_upt [OF n(1), of "\<lambda>v. 44 # json_string (cstr v)"] by simp
  then show ?thesis using w by simp
qed

lemma tags_json_loop_writes:
  assumes cap: "0 < cap"
  shows "\<forall>i \<in> set js. i < length ts \<and> tag_ok (ts ! i) \<Longrightarrow>
    writes cap (tags_json_loop cap ts js) (concat (map (\<lambda>i. (if i > 0 then [44] else []) @ tag_text (ts ! i)) js))"
proof (induction js)
  case Nil
  then show ?case using writes_skip [of cap] by (simp add: writes_def)
next
  case (Cons i js)
  define t where "t = ts ! i"
  have t: "tag_ok t" "(if i < length ts then Some (ts ! i) else None) = Some t" "0 \<in> set (tag_key t)"
    using Cons.prems by (simp_all add: t_def tag_ok_def)
  have IH: "writes cap (tags_json_loop cap ts js) (concat (map (\<lambda>i. (if i > 0 then [44] else []) @ tag_text (ts ! i)) js))"
    using Cons by simp
  have comma: "writes cap (\<lambda>st. if i > 0 then put_lit cap '','' st else Some st) (if i > 0 then [44] else [])"
    using writes_lit [OF cap, of "'',''"] writes_skip by (auto simp: ascii_def)
  have "writes cap (\<lambda>st. tags_json_loop cap ts (i # js) st)
    ((if i > 0 then [44] else []) @ ascii ''[\"'' @ esc (cstr (tag_key t)) @ ascii ''\"'' @
     concat (map (\<lambda>v. 44 # json_string (cstr v)) (take (item_count t) (tag_values t))) @ ascii '']'' @
     concat (map (\<lambda>i. (if i > 0 then [44] else []) @ tag_text (ts ! i)) js))"
    unfolding tags_json_loop.simps t(2) Option.bind.bind_lunit
    by (intro writes_bind comma writes_lit [OF cap] writes_esc [OF cap t(3)] values_text [OF cap t(1)] IH) (simp_all add: ascii_def)
  moreover have "tag_text t = ascii ''[\"'' @ esc (cstr (tag_key t)) @ ascii ''\"'' @
     concat (map (\<lambda>v. 44 # json_string (cstr v)) (take (item_count t) (tag_values t))) @ ascii '']''"
    by (simp add: tag_text_def text_simps comp_def)
  ultimately show ?case by (simp add: t_def)
qed

lemma concat_commas: "concat (map (\<lambda>i. (if i > 0 then [44] else []) @ g i) [0..<n]) = joined (map g [0..<n])"
proof (cases n)
  case (Suc m)
  have "concat (map (\<lambda>i. (if i > 0 then [44] else []) @ g i) [Suc 0..<Suc m]) = concat (map ((\<lambda>y. 44 # y) \<circ> g) [Suc 0..<Suc m])"
    by (intro arg_cong [where f = concat] map_cong) auto
  then show ?thesis unfolding Suc by (simp add: upt_conv_Cons del: upt_Suc)
qed simp

lemma serialize_tags_writes:
  assumes cap: "0 < cap" and n: "n \<le> length ts" "\<forall>t \<in> set (take n ts). tag_ok t"
  shows "writes cap (serialize_tags cap ts n) (json_array (map tag_text (take n ts)))"
proof -
  have "\<forall>i \<in> set [0..<n]. i < length ts \<and> tag_ok (ts ! i)"
    using n by (metis atLeastLessThan_iff in_set_conv_nth length_take less_le_trans min.absorb2 nth_take set_upt)
  note w = tags_json_loop_writes [OF cap this, unfolded concat_commas map_nth_upt [OF n(1)]]
  have "writes cap (\<lambda>st. serialize_tags cap ts n st) (ascii ''['' @ joined (map tag_text (take n ts)) @ ascii '']'')"
    unfolding serialize_tags_def by (intro writes_bind writes_lit [OF cap] w) (simp_all add: ascii_def)
  then show ?thesis by (simp add: json_array_def ascii_def)
qed

section \<open>Escaping and unescaping\<close>

lemma hex_chars_value: "d < 16 \<Longrightarrow> hex_char_value (HEX_CHARS ! d) = int d"
proof -
  assume "d < 16"
  moreover have "list_all (\<lambda>d. hex_char_value (HEX_CHARS ! d) = int d) [0..<16]" by code_simp
  ultimately show ?thesis by (simp add: list_all_iff)
qed

lemma code_bytes_control:
  assumes "c < 0x20"
  shows "has_code (48 # 48 # HEX_CHARS ! (unat c div 16) # HEX_CHARS ! (unat c mod 16) # r)"
    "code_bytes (48 # 48 # HEX_CHARS ! (unat c div 16) # HEX_CHARS ! (unat c mod 16) # r) = [c]"
proof -
  have c: "unat c < 32" using assms by (simp add: word_less_nat_alt)
  have z: "hex_char_value 48 = 0" by (simp add: hex_char_value_def is_digit_def)
  have h: "hex_char_value (HEX_CHARS ! (unat c div 16)) = int (unat c div 16)" "hex_char_value (HEX_CHARS ! (unat c mod 16)) = int (unat c mod 16)"
    using c hex_chars_value [of "unat c div 16"] hex_chars_value [of "unat c mod 16"] by simp_all
  have "nat (int (unat c div 16) * 16 + int (unat c mod 16)) = unat c div 16 * 16 + unat c mod 16" by (metis nat_int of_nat_add of_nat_mult of_nat_numeral)
  then have n: "nat (int (unat c div 16) * 16 + int (unat c mod 16)) = unat c" by (simp only: div_mult_mod_eq)
  show "has_code (48 # 48 # HEX_CHARS ! (unat c div 16) # HEX_CHARS ! (unat c mod 16) # r)"
    by (simp add: has_code_def z h del: unat_div unat_mod)
  show "code_bytes (48 # 48 # HEX_CHARS ! (unat c div 16) # HEX_CHARS ! (unat c mod 16) # r) = [c]"
    using c n by (simp add: code_bytes_def z h utf8_bytes_def del: unat_div unat_mod)
qed

lemma unescape_escape_byte: "unescape (escape_bytes c @ r) = c # unescape r"
proof (cases "c < 0x20 \<and> c \<notin> {8, 12, 10, 13, 9}")
  case True
  then have "escape_bytes c = [92, 117, 48, 48, HEX_CHARS ! (unat c div 16), HEX_CHARS ! (unat c mod 16)]"
    by (auto simp: escape_bytes_def)
  then show ?thesis using code_bytes_control [of c r] True by (simp add: simple_escape_def)
next
  case False
  then consider "escape_bytes c = [c]" "c \<noteq> 92" | "c = 34" | "c = 92" | "c = 8" | "c = 12" | "c = 10" | "c = 13" | "c = 9"
    by (cases "c \<in> {34, 92, 8, 12, 10, 13, 9}") (auto simp: escape_bytes_def)
  then show ?thesis by cases (simp_all add: escape_bytes_def simple_escape_def unescape_plain)
qed

lemma unescape_esc: "unescape (esc s) = s"
  by (induction s) (simp_all add: unescape_escape_byte)

lemma hex_chars_no_0: "d < 16 \<Longrightarrow> HEX_CHARS ! d \<noteq> 0"
proof -
  assume "d < 16"
  moreover have "list_all (\<lambda>d. HEX_CHARS ! d \<noteq> 0) [0..<16]" by code_simp
  ultimately show ?thesis by (simp add: list_all_iff)
qed

lemma esc_no_0 [simp]: "0 \<notin> set (esc s)"
proof -
  have "0 \<notin> set (escape_bytes c)" for c
  proof -
    have "unat c div 16 < 16" "unat c mod 16 < 16" using unat_byte_less [of c] by linarith+
    then show ?thesis using hex_chars_no_0 by (auto simp: escape_bytes_def)
  qed
  then show ?thesis by (induction s) auto
qed

lemma joined_no_0: "0 \<in> set (joined xs) \<longleftrightarrow> (\<exists>x \<in> set xs. 0 \<in> set x)"
  by (cases xs) auto

lemma json_no_0 [simp]:
  "0 \<notin> set (json_string s)" "0 \<in> set (json_array xs) \<longleftrightarrow> (\<exists>x \<in> set xs. 0 \<in> set x)"
  "0 \<in> set (json_object ms) \<longleftrightarrow> (\<exists>m \<in> set ms. 0 \<in> set (snd m))"
proof -
  show "0 \<notin> set (json_string s)" for s by (simp add: json_string_def)
  then show "0 \<in> set (json_object ms) \<longleftrightarrow> (\<exists>m \<in> set ms. 0 \<in> set (snd m))"
    by (simp add: json_object_def joined_no_0 split_beta)
qed (simp add: json_array_def joined_no_0)

lemma cstr_taken: "take (Suc (length t)) buf = t @ [0] \<Longrightarrow> 0 \<notin> set t \<Longrightarrow> cstr buf = t"
  using append_take_drop_id [of "Suc (length t)" buf] cstr_0 [of t "drop (Suc (length t)) buf"] by simp

lemma event_message_no_0: "0 \<notin> set (event_message sid e)"
  using dec_no_0 by (auto simp: event_message_def event_text_def tag_text_def sdec_def)

section \<open>Properties\<close>



text \<open>
  C29: The content of an event survives the way through a message: behind its escaping, the
  parser reads from the string token the same content again, every control character, quote and
  backslash included.
\<close>

theorem nostr_event_content_roundtrip:
  assumes json: "json = pre @ json_string s @ post" and s: "0 \<notin> set s" "length (esc s) < cap" "length content = cap" "cap < 2 ^ 64"
    and tok: "base < length tokens" "tokens ! base = \<lparr>tok_type = JSMN_STRING, tok_start = int (length pre + 1),
      tok_end = int (length pre + 1 + length (esc s)), tok_size = n\<rparr>"
  shows "\<exists>content'. extract_nostr_event_content json tokens base content cap = Some (Some content') \<and> cstr content' = s"
proof -
  have f: "json_from json (int (length pre + 1)) = Some (esc s @ 34 # post)"
    unfolding json_from_def nat_int by (simp add: json json_string_def)
  have d: "decode_json_string (esc s @ 34 # post) (length (esc s)) content cap = Some (int (length s), blit content 0 (s @ [0]))"
    using decode_json_string_eq [of "length (esc s)" "esc s @ 34 # post" cap content] s by (simp add: unescape_esc)
  define t where "t = tokens ! base"
  have t: "tokens ! base = t" "tok_type t = JSMN_STRING" "tok_start t = int (length pre + 1)" using tok by (simp_all add: t_def)
  have l: "json_wrapper_get_token_length t = length (esc s)"
    using s(2,4) by (simp add: t_def tok json_wrapper_get_token_length_def)
  have "length s \<le> length (esc s)" using unescape_length [of "esc s"] by (simp add: unescape_esc)
  then have "cstr (blit content 0 (s @ [0])) = s" using s by (simp add: blit_def)
  moreover have "extract_nostr_event_content json tokens base content cap = Some (Some (blit content 0 (s @ [0])))"
    using t s(2) d f tok(1) unfolding extract_nostr_event_content_def
    by (simp add: json_wrapper_is_string_def token_at_def Let_def l)
  ultimately show ?thesis by blast
qed

theorem nostr_event_content_roundtrip_witness:
  "\<exists>content'. extract_nostr_event_content (ascii ''{'' @ json_string [34, 1, 10, 255] @ [125, 0])
     [\<lparr>tok_type = JSMN_STRING, tok_start = 2, tok_end = 13, tok_size = 0\<rparr>] 0 (replicate 100 9) 100 = Some (Some content') \<and>
     cstr content' = [34, 1, 10, 255]"
proof -
  have l: "length (esc [34, 1, 10, 255]) = 11" by (simp add: escape_bytes_def)
  show ?thesis
    by (rule nostr_event_content_roundtrip [where pre = "ascii ''{''" and post = "[125, 0]" and n = 0])
      (simp_all add: ascii_def l del: esc_simps)
qed

end
