(* ===== verification/RelayInfo.thy ===== *)
theory RelayInfo
  imports NostrResponse
begin

text \<open>
  The relay information document of NIP-11: the second half of \<open>src/nostr/nostr_func.c\<close>. A null
  pointer is \<open>None\<close>; the array of NIP numbers is the list of the memory behind its pointer. Unlike
  the messages, the document drops a piece that does not fit and goes on with the next one, and
  its strings are not escaped.
\<close>

section \<open>Pieces\<close>

definition append_string :: "byte list \<Rightarrow> nat \<Rightarrow> nat \<Rightarrow> byte list \<Rightarrow> (byte list \<times> nat) option" where
  "append_string buffer pos capacity str = do {
     len \<leftarrow> strlen_loop str 0;
     if pos + len \<ge> capacity then Some (buffer, pos)
     else do {
       bs \<leftarrow> peek str 0 len;
       buffer \<leftarrow> poke buffer pos bs;
       Some (buffer, pos + len)
     }
   }"

abbreviation append_lit :: "byte list \<Rightarrow> nat \<Rightarrow> nat \<Rightarrow> string \<Rightarrow> (byte list \<times> nat) option" where
  "append_lit buffer pos capacity s \<equiv> append_string buffer pos capacity (ascii s @ [0])"

definition append_json_string_field ::
    "byte list \<Rightarrow> nat \<Rightarrow> nat \<Rightarrow> byte list \<Rightarrow> byte list option \<Rightarrow> bool \<Rightarrow> (byte list \<times> nat) option" where
  "append_json_string_field buffer pos capacity key value add_comma =
     (case value of
        None \<Rightarrow> Some (buffer, pos)
      | Some text \<Rightarrow> do {
          (buffer, pos) \<leftarrow> (if add_comma then append_lit buffer pos capacity '','' else Some (buffer, pos));
          (buffer, pos) \<leftarrow> append_lit buffer pos capacity ''\"'';
          (buffer, pos) \<leftarrow> append_string buffer pos capacity key;
          (buffer, pos) \<leftarrow> append_lit buffer pos capacity ''\":\"'';
          (buffer, pos) \<leftarrow> append_string buffer pos capacity text;
          append_lit buffer pos capacity ''\"''
        })"

text \<open>The bytes \<open>num_buf\<close> are those of the array on the stack, which nothing initialises.\<close>

function nips_loop :: "byte list \<Rightarrow> byte list \<Rightarrow> nat \<Rightarrow> nat \<Rightarrow> int list \<Rightarrow> nat \<Rightarrow> bool \<Rightarrow> (byte list \<times> nat) option" where
  "nips_loop num_buf buffer pos capacity nips i first =
     (if i < length nips then
        (if nips ! i \<ge> 0 then
           (case (if \<not> first then append_lit buffer pos capacity '','' else Some (buffer, pos)) of
              None \<Rightarrow> None
            | Some (buffer, pos) \<Rightarrow>
                (case itoa (nips ! i) num_buf 16 of
                   None \<Rightarrow> None
                 | Some (_, num_buf) \<Rightarrow>
                     (case append_string buffer pos capacity num_buf of
                        None \<Rightarrow> None
                      | Some (buffer, pos) \<Rightarrow> nips_loop num_buf buffer pos capacity nips (i + 1) False)))
         else Some (buffer, pos))
      else None)"
  by pat_completeness auto
termination by (relation "measure (\<lambda>(num_buf, buffer, pos, capacity, nips, i, first). length nips - i)") auto

declare nips_loop.simps [simp del]

definition append_json_nips_array ::
    "byte list \<Rightarrow> byte list \<Rightarrow> nat \<Rightarrow> nat \<Rightarrow> int list option \<Rightarrow> bool \<Rightarrow> (byte list \<times> nat) option" where
  "append_json_nips_array num_buf buffer pos capacity nips add_comma =
     (case nips of
        None \<Rightarrow> Some (buffer, pos)
      | Some nips \<Rightarrow> do {
          (buffer, pos) \<leftarrow> (if add_comma then append_lit buffer pos capacity '','' else Some (buffer, pos));
          (buffer, pos) \<leftarrow> append_lit buffer pos capacity ''\"supported_nips\":['';
          (buffer, pos) \<leftarrow> nips_loop num_buf buffer pos capacity nips 0 True;
          append_lit buffer pos capacity '']''
        })"

section \<open>The document\<close>

record nostr_relay_info =
  ri_name :: "byte list option"
  ri_description :: "byte list option"
  ri_pubkey :: "byte list option"
  ri_contact :: "byte list option"
  ri_software :: "byte list option"
  ri_version :: "byte list option"
  ri_supported_nips :: "int list option"

text \<open>One of the blocks of the function that add a string.\<close>

definition nip11_field ::
    "nat \<Rightarrow> string \<Rightarrow> byte list option \<Rightarrow> byte list \<times> nat \<times> bool \<Rightarrow> (byte list \<times> nat \<times> bool) option" where
  "nip11_field capacity key value = (\<lambda>(buffer, pos, has_fields).
     if value \<noteq> None then do {
       (buffer, pos) \<leftarrow> append_json_string_field buffer pos capacity (ascii key @ [0]) value has_fields;
       Some (buffer, pos, True)
     }
     else Some (buffer, pos, has_fields))"

definition nostr_nip11_response :: "byte list \<Rightarrow> nostr_relay_info \<Rightarrow> nat \<Rightarrow> byte list \<Rightarrow> (bool \<times> byte list) option" where
  "nostr_nip11_response num_buf info buffer_capacity buffer =
     (if buffer_capacity \<le> 0 then Some (False, buffer)
      else do {
        buffer \<leftarrow> poke buffer 0 (replicate buffer_capacity 0);
        (buffer, pos) \<leftarrow> append_lit buffer 0 buffer_capacity ''{'';
        st \<leftarrow> nip11_field buffer_capacity ''name'' (ri_name info) (buffer, pos, False);
        st \<leftarrow> nip11_field buffer_capacity ''description'' (ri_description info) st;
        st \<leftarrow> nip11_field buffer_capacity ''pubkey'' (ri_pubkey info) st;
        (buffer, pos, has_fields) \<leftarrow> nip11_field buffer_capacity ''contact'' (ri_contact info) st;
        (buffer, pos) \<leftarrow> append_json_nips_array num_buf buffer pos buffer_capacity (ri_supported_nips info) has_fields;
        st \<leftarrow> nip11_field buffer_capacity ''software'' (ri_software info)
          (buffer, pos, has_fields \<or> ri_supported_nips info \<noteq> None);
        (buffer, pos, _) \<leftarrow> nip11_field buffer_capacity ''version'' (ri_version info) st;
        (buffer, pos) \<leftarrow> append_lit buffer pos buffer_capacity ''}'';
        buffer \<leftarrow> poke buffer pos [0];
        Some (pos > 2, buffer)
      })"

section \<open>What the document is\<close>

definition text_member :: "string \<Rightarrow> byte list option \<Rightarrow> byte list list" where
  "text_member key v = (case v of None \<Rightarrow> [] | Some s \<Rightarrow> [34 # ascii key @ ascii ''\":\"'' @ cstr s @ [34]])"

definition nips_member :: "int list option \<Rightarrow> byte list list" where
  "nips_member v = (case v of None \<Rightarrow> []
     | Some ns \<Rightarrow> [ascii ''\"supported_nips\":'' @ json_array (map (\<lambda>n. dec (nat n)) (takeWhile (\<lambda>n. n \<ge> 0) ns))])"

definition nip11_document :: "nostr_relay_info \<Rightarrow> byte list" where
  "nip11_document info = 123 # joined (text_member ''name'' (ri_name info) @ text_member ''description'' (ri_description info) @
     text_member ''pubkey'' (ri_pubkey info) @ text_member ''contact'' (ri_contact info) @ nips_member (ri_supported_nips info) @
     text_member ''software'' (ri_software info) @ text_member ''version'' (ri_version info)) @ [125]"

definition relay_info_ok :: "nostr_relay_info \<Rightarrow> bool" where
  "relay_info_ok info \<longleftrightarrow> (\<forall>s \<in> {ri_name info, ri_description info, ri_pubkey info, ri_contact info, ri_software info, ri_version info}.
       \<forall>t. s = Some t \<longrightarrow> 0 \<in> set t) \<and>
     (\<forall>ns. ri_supported_nips info = Some ns \<longrightarrow> (\<exists>n \<in> set ns. n < 0) \<and> (\<forall>n \<in> set ns. n < 10 ^ 8))"

section \<open>Appending\<close>

definition fits :: "nat \<Rightarrow> nat \<Rightarrow> byte list \<Rightarrow> byte list \<times> nat \<Rightarrow> bool" where
  "fits cap n tx = (\<lambda>(buf, pos). length buf = n \<and> cap \<le> n \<and> pos < cap \<and>
     (length tx < cap \<longrightarrow> pos = length tx \<and> take pos buf = tx))"

definition appends :: "nat \<Rightarrow> nat \<Rightarrow> (byte list \<Rightarrow> nat \<Rightarrow> (byte list \<times> nat) option) \<Rightarrow> byte list \<Rightarrow> bool" where
  "appends cap n f s \<longleftrightarrow> (\<forall>tx buf pos. fits cap n tx (buf, pos) \<longrightarrow>
     (\<exists>buf' pos'. f buf pos = Some (buf', pos') \<and> fits cap n (tx @ s) (buf', pos')))"

lemma appends_string: "0 \<in> set str \<Longrightarrow> appends cap n (\<lambda>buf pos. append_string buf pos cap str) (cstr str)"
  unfolding appends_def
proof (intro allI impI)
  fix tx buf pos assume str: "0 \<in> set str" and f: "fits cap n tx (buf, pos)"
  have sl: "strlen_loop str 0 = Some (length (cstr str))" using strlen_loop_eq [of 0 str] str by simp
  show "\<exists>buf' pos'. append_string buf pos cap str = Some (buf', pos') \<and> fits cap n (tx @ cstr str) (buf', pos')"
  proof (cases "pos + length (cstr str) \<ge> cap")
    case True
    have "\<not> length (tx @ cstr str) < cap" using True f by (auto simp: fits_def)
    then show ?thesis using True f sl by (simp add: append_string_def fits_def)
  next
    case False
    then have b: "poke buf pos (cstr str) = Some (blit buf pos (cstr str))" using f by (simp add: fits_def)
    have "fits cap n (tx @ cstr str) (blit buf pos (cstr str), pos + length (cstr str))"
      using False f by (auto simp: fits_def blit_def)
    then show ?thesis using False sl b cstr_peek [of str] by (simp add: append_string_def)
  qed
qed

lemma appends_lit: "0 \<notin> set (ascii s) \<Longrightarrow> appends cap n (\<lambda>buf pos. append_lit buf pos cap s) (ascii s)"
  using appends_string [of "ascii s @ [0]"] by simp

lemma appends_bind: "appends cap n f s \<Longrightarrow> appends cap n g t \<Longrightarrow>
  appends cap n (\<lambda>buf pos. Option.bind (f buf pos) (\<lambda>(buf, pos). g buf pos)) (s @ t)"
  unfolding appends_def by (fastforce simp: append.assoc)

lemma appends_comma: "appends cap n (\<lambda>buf pos. if c then append_lit buf pos cap '','' else Some (buf, pos)) (if c then [44] else [])"
  using appends_lit [of "'',''" cap n] by (auto simp: appends_def ascii_def)

lemma appends_field:
  assumes "0 \<in> set key" "0 \<in> set v"
  shows "appends cap n (\<lambda>buf pos. append_json_string_field buf pos cap key (Some v) c)
    ((if c then [44] else []) @ ascii ''\"'' @ cstr key @ ascii ''\":\"'' @ cstr v @ ascii ''\"'')"
  unfolding append_json_string_field_def option.case
  by (intro appends_bind appends_comma appends_lit appends_string assms) (simp_all add: ascii_def)

lemma itoa_small:
  assumes "n < 10 ^ 8" "length buf = 16"
  shows "itoa (int n) buf 16 = Some (length (dec n), blit buf 0 (dec n @ [0]))"
proof -
  have l: "length (dec n) < 16" using dec_length [of 15 n] dec_length [of 8 n] assms(1) by simp
  have "blit (blit buf (length (dec n)) [0]) 0 (dec n) = blit buf 0 (dec n @ [0])" using l assms(2) by (simp add: blit_def)
  then show ?thesis
    using itoa_at [of n "length (dec n)" buf 16] calc_digit_small [OF assms(1)] assms l by simp
qed

lemma cstr_blit_0: "0 \<notin> set s \<Longrightarrow> cstr (blit buf 0 (s @ [0])) = s"
  by (simp add: blit_def)

lemma nips_loop_appends:
  assumes small: "\<forall>n \<in> set ns. n < 10 ^ 8"
  shows "\<exists>n \<in> set (drop i ns). n < 0 \<Longrightarrow> length nb = 16 \<Longrightarrow>
    appends cap m (\<lambda>buf pos. nips_loop nb buf pos cap ns i first)
      ((if first then joined else concat \<circ> map (\<lambda>y. 44 # y)) (map (\<lambda>n. dec (nat n)) (takeWhile (\<lambda>n. n \<ge> 0) (drop i ns))))"
proof (induction "length ns - i" arbitrary: i nb first)
  case 0
  then show ?case by simp
next
  case (Suc k)
  then have i: "i < length ns" "k = length ns - (i + 1)" by linarith+
  define v where "v = ns ! i"
  have d: "drop i ns = v # drop (i + 1) ns" using i by (simp add: v_def Cons_nth_drop_Suc)
  show ?case
  proof (cases "v < 0")
    case True
    then show ?thesis using i by (simp add: appends_def nips_loop.simps v_def [symmetric] d)
  next
    case False
    have vs: "nat v < 10 ^ 8" using small [rule_format, OF nth_mem [OF i(1)]] False by (simp add: v_def [symmetric] nat_less_iff)
    define nb' where "nb' = blit nb 0 (dec (nat v) @ [0])"
    have it: "itoa v nb 16 = Some (length (dec (nat v)), nb')" using itoa_small [OF vs Suc.prems(2)] False by (simp add: nb'_def)
    have "length (dec (nat v)) \<le> 8" using dec_length [of 8 "nat v"] vs by simp
    then have nb': "length nb' = 16" "0 \<in> set nb'" "cstr nb' = dec (nat v)"
      using Suc.prems(2) dec_no_0 [of "nat v"] unfolding nb'_def by (simp_all add: cstr_blit_0, simp add: blit_def)
    have neg: "\<exists>n \<in> set (drop (i + 1) ns). n < 0" using Suc.prems(1) False by (simp add: d)
    note IH = Suc.hyps(1) [OF i(2) neg nb'(1), of False]
    have "appends cap m (\<lambda>buf pos. nips_loop nb buf pos cap ns i first)
      ((if \<not> first then [44] else []) @ dec (nat v) @
       (concat \<circ> map (\<lambda>y. 44 # y)) (map (\<lambda>n. dec (nat n)) (takeWhile (\<lambda>n. n \<ge> 0) (drop (i + 1) ns))))"
    proof -
      have e: "nips_loop nb buf pos cap ns i first =
         Option.bind (if \<not> first then append_lit buf pos cap '','' else Some (buf, pos)) (\<lambda>(buf, pos).
         Option.bind (append_string buf pos cap nb') (\<lambda>(buf, pos). nips_loop nb' buf pos cap ns (i + 1) False))" for buf pos
        using i it False by (subst nips_loop.simps) (simp add: v_def [symmetric] split: option.split prod.split)
      show ?thesis unfolding e
        using appends_bind [OF appends_comma appends_bind [OF appends_string [OF nb'(2)] IH [unfolded if_False]], of "\<not> first"]
        by (simp add: nb'(3))
    qed
    then show ?thesis using False by (cases first) (simp_all add: d)
  qed
qed

lemma appends_nips:
  assumes "\<exists>n \<in> set ns. n < 0" "\<forall>n \<in> set ns. n < 10 ^ 8" "length nb = 16"
  shows "appends cap m (\<lambda>buf pos. append_json_nips_array nb buf pos cap (Some ns) c)
    ((if c then [44] else []) @ ascii ''\"supported_nips\":['' @ joined (map (\<lambda>n. dec (nat n)) (takeWhile (\<lambda>n. n \<ge> 0) ns)) @ ascii '']'')"
  unfolding append_json_nips_array_def option.case
  using nips_loop_appends [OF assms(2), of 0 nb cap m True] assms(1,3)
  by (intro appends_bind appends_comma appends_lit) (simp_all add: ascii_def)

section \<open>The members\<close>

definition doc_at :: "nat \<Rightarrow> nat \<Rightarrow> byte list list \<Rightarrow> byte list \<times> nat \<times> bool \<Rightarrow> bool" where
  "doc_at cap n ms = (\<lambda>(buf, pos, h). fits cap n (123 # joined ms) (buf, pos) \<and> h = (ms \<noteq> []))"

lemma joined_snoc: "joined (ms @ [m]) = joined ms @ (if ms \<noteq> [] then [44] else []) @ m"
  by (cases ms) auto

lemma nip11_field_ok:
  assumes d: "doc_at cap n ms st" and v: "\<forall>s. v = Some s \<longrightarrow> 0 \<in> set s" and key: "0 \<notin> set (ascii key)"
  shows "\<exists>st'. nip11_field cap key v st = Some st' \<and> doc_at cap n (ms @ text_member key v) st'"
proof (cases v)
  case None
  then show ?thesis using d by (simp add: nip11_field_def text_member_def split: prod.split)
next
  case (Some s)
  obtain buf pos h where st: "st = (buf, pos, h)" by (cases st)
  have f: "fits cap n (123 # joined ms) (buf, pos)" "h = (ms \<noteq> [])" using d by (simp_all add: st doc_at_def)
  obtain buf' pos' where r: "append_json_string_field buf pos cap (ascii key @ [0]) (Some s) h = Some (buf', pos')"
    "fits cap n ((123 # joined ms) @ (if h then [44] else []) @ ascii ''\"'' @ cstr (ascii key @ [0]) @ ascii ''\":\"'' @ cstr s @ ascii ''\"'') (buf', pos')"
    using appends_field [of "ascii key @ [0]" s cap n h, unfolded appends_def] f(1) v Some by (metis in_set_conv_decomp)
  have "fits cap n (123 # joined (ms @ text_member key v)) (buf', pos')"
    using r(2) f(2) key Some by (simp add: text_member_def joined_snoc ascii_def)
  then show ?thesis using Some r(1) by (simp add: st nip11_field_def doc_at_def text_member_def)
qed

lemma nip11_nips_ok:
  assumes d: "doc_at cap n ms (buf, pos, h)" and nb: "length nb = 16"
    and v: "\<forall>ns. v = Some ns \<longrightarrow> (\<exists>n \<in> set ns. n < 0) \<and> (\<forall>n \<in> set ns. n < 10 ^ 8)"
  shows "\<exists>buf' pos'. append_json_nips_array nb buf pos cap v h = Some (buf', pos') \<and>
    doc_at cap n (ms @ nips_member v) (buf', pos', h \<or> v \<noteq> None)"
proof (cases v)
  case None
  then show ?thesis using d by (simp add: append_json_nips_array_def nips_member_def)
next
  case (Some ns)
  have f: "fits cap n (123 # joined ms) (buf, pos)" "h = (ms \<noteq> [])" using d by (simp_all add: doc_at_def)
  obtain buf' pos' where r: "append_json_nips_array nb buf pos cap (Some ns) h = Some (buf', pos')"
    "fits cap n ((123 # joined ms) @ (if h then [44] else []) @ ascii ''\"supported_nips\":['' @
       joined (map (\<lambda>n. dec (nat n)) (takeWhile (\<lambda>n. n \<ge> 0) ns)) @ ascii '']'') (buf', pos')"
    using appends_nips [of ns nb cap n h, unfolded appends_def] f(1) v Some nb by blast
  have "fits cap n (123 # joined (ms @ nips_member v)) (buf', pos')"
    using r(2) f(2) Some by (simp add: nips_member_def joined_snoc json_array_def ascii_def)
  then show ?thesis using Some r(1) by (simp add: doc_at_def nips_member_def)
qed

lemma nip11_keys: "0 \<notin> set (ascii ''name'')" "0 \<notin> set (ascii ''description'')" "0 \<notin> set (ascii ''pubkey'')"
    "0 \<notin> set (ascii ''contact'')" "0 \<notin> set (ascii ''software'')" "0 \<notin> set (ascii ''version'')"
  by (simp_all add: ascii_def)

lemma text_member_no_0: "0 \<notin> set (ascii key) \<Longrightarrow> m \<in> set (text_member key v) \<Longrightarrow> 0 \<notin> set m"
  using cstr_no_0 by (auto simp: text_member_def ascii_def split: option.splits)

lemma nip11_no_0: "0 \<notin> set (nip11_document info)"
proof -
  have "0 \<notin> set m" if "m \<in> set (nips_member v)" for m v
    using that dec_no_0 by (auto simp: nips_member_def ascii_def split: option.splits)
  then show ?thesis
    using text_member_no_0 [OF nip11_keys(1)] text_member_no_0 [OF nip11_keys(2)] text_member_no_0 [OF nip11_keys(3)]
      text_member_no_0 [OF nip11_keys(4)] text_member_no_0 [OF nip11_keys(5)] text_member_no_0 [OF nip11_keys(6)]
    by (auto simp: nip11_document_def joined_no_0)
qed

lemma nostr_nip11_response_ok:
  assumes i: "relay_info_ok info" and nb: "length nb = 16" and cap: "0 < cap" "cap \<le> length buf"
  shows "\<exists>ok buf'. nostr_nip11_response nb info cap buf = Some (ok, buf') \<and> length buf' = length buf \<and>
    (length (nip11_document info) < cap \<longrightarrow> cstr buf' = nip11_document info \<and> ok = (2 < length (nip11_document info)))"
proof -
  define n where "n = length buf"
  define b0 where "b0 = blit buf 0 (replicate cap 0)"
  have b0: "poke buf 0 (replicate cap 0) = Some b0" "fits cap n [] (b0, 0)" using cap by (simp_all add: b0_def n_def fits_def)
  have lit: "0 \<notin> set (ascii ''{'')" "0 \<notin> set (ascii ''}'')" by (simp_all add: ascii_def)
  obtain b1 p1 where r1: "append_lit b0 0 cap ''{'' = Some (b1, p1)" "fits cap n ([] @ ascii ''{'') (b1, p1)"
    using appends_lit [OF lit(1), of cap n, unfolded appends_def, rule_format, OF b0(2)] by (elim exE conjE) (rule that)
  have d1: "doc_at cap n [] (b1, p1, False)" using r1(2) by (simp add: doc_at_def ascii_def)
  have v: "\<forall>s. ri_name info = Some s \<longrightarrow> 0 \<in> set s" "\<forall>s. ri_description info = Some s \<longrightarrow> 0 \<in> set s"
    "\<forall>s. ri_pubkey info = Some s \<longrightarrow> 0 \<in> set s" "\<forall>s. ri_contact info = Some s \<longrightarrow> 0 \<in> set s"
    "\<forall>s. ri_software info = Some s \<longrightarrow> 0 \<in> set s" "\<forall>s. ri_version info = Some s \<longrightarrow> 0 \<in> set s"
    "\<forall>ns. ri_supported_nips info = Some ns \<longrightarrow> (\<exists>n \<in> set ns. n < 0) \<and> (\<forall>n \<in> set ns. n < 10 ^ 8)"
    using i by (auto simp: relay_info_ok_def)
  note key = nip11_keys
  obtain s2 where r2: "nip11_field cap ''name'' (ri_name info) (b1, p1, False) = Some s2"
    and d2: "doc_at cap n ([] @ text_member ''name'' (ri_name info)) s2"
    using nip11_field_ok [OF d1 v(1) key(1)] by (elim exE conjE) (rule that)
  obtain s3 where r3: "nip11_field cap ''description'' (ri_description info) s2 = Some s3"
    and d3: "doc_at cap n (([] @ text_member ''name'' (ri_name info)) @ text_member ''description'' (ri_description info)) s3"
    using nip11_field_ok [OF d2 v(2) key(2)] by (elim exE conjE) (rule that)
  obtain b4 p4 h4 where r4: "nip11_field cap ''pubkey'' (ri_pubkey info) s3 = Some (b4, p4, h4)"
    and d4: "doc_at cap n ((([] @ text_member ''name'' (ri_name info)) @ text_member ''description'' (ri_description info)) @
      text_member ''pubkey'' (ri_pubkey info)) (b4, p4, h4)"
    using nip11_field_ok [OF d3 v(3) key(3)] by (metis prod_cases3)
  define ms where "ms = text_member ''name'' (ri_name info) @ text_member ''description'' (ri_description info) @ text_member ''pubkey'' (ri_pubkey info)"
  have d4: "doc_at cap n ms (b4, p4, h4)" using d4 by (simp add: ms_def)
  obtain b5 p5 h5 where r5: "nip11_field cap ''contact'' (ri_contact info) (b4, p4, h4) = Some (b5, p5, h5)"
    and d5: "doc_at cap n (ms @ text_member ''contact'' (ri_contact info)) (b5, p5, h5)"
    using nip11_field_ok [OF d4 v(4) key(4)] by (metis prod_cases3)
  obtain b6 p6 where r6: "append_json_nips_array nb b5 p5 cap (ri_supported_nips info) h5 = Some (b6, p6)"
    and d6: "doc_at cap n ((ms @ text_member ''contact'' (ri_contact info)) @ nips_member (ri_supported_nips info)) (b6, p6, h5 \<or> ri_supported_nips info \<noteq> None)"
    using nip11_nips_ok [OF d5 nb v(7)] by (elim exE conjE) (rule that)
  define ms6 where "ms6 = (ms @ text_member ''contact'' (ri_contact info)) @ nips_member (ri_supported_nips info)"
  obtain s7 where r7: "nip11_field cap ''software'' (ri_software info) (b6, p6, h5 \<or> ri_supported_nips info \<noteq> None) = Some s7"
    and d7: "doc_at cap n (ms6 @ text_member ''software'' (ri_software info)) s7"
    using nip11_field_ok [OF d6 v(5) key(5), folded ms6_def] by (elim exE conjE) (rule that)
  obtain b8 p8 h8 where r8: "nip11_field cap ''version'' (ri_version info) s7 = Some (b8, p8, h8)"
    and d8: "doc_at cap n ((ms6 @ text_member ''software'' (ri_software info)) @ text_member ''version'' (ri_version info)) (b8, p8, h8)"
    using nip11_field_ok [OF d7 v(6) key(6)] by (metis prod_cases3)
  define ms8 where "ms8 = (ms6 @ text_member ''software'' (ri_software info)) @ text_member ''version'' (ri_version info)"
  have f8: "fits cap n (123 # joined ms8) (b8, p8)" using d8 by (simp add: doc_at_def ms8_def)
  obtain b9 p9 where r9: "append_lit b8 p8 cap ''}'' = Some (b9, p9)" and f9: "fits cap n ((123 # joined ms8) @ ascii ''}'') (b9, p9)"
    using appends_lit [OF lit(2), of cap n, unfolded appends_def, rule_format, OF f8] by (elim exE conjE) (rule that)
  have doc: "nip11_document info = (123 # joined ms8) @ ascii ''}''"
    by (simp add: nip11_document_def ms8_def ms6_def ms_def ascii_def)
  have p9: "p9 < length b9" "length b9 = n" using f9 by (auto simp: fits_def)
  have "nostr_nip11_response nb info cap buf = Some (p9 > 2, blit b9 p9 [0])"
    using cap(1) b0(1) r1(1) r2 r3 r4 r5 r6 r7 r8 r9 p9 unfolding nostr_nip11_response_def by simp
  moreover have "cstr (blit b9 p9 [0]) = nip11_document info \<and> p9 = length (nip11_document info)" if l: "length (nip11_document info) < cap"
  proof -
    have t: "p9 = length (nip11_document info)" "take p9 b9 = nip11_document info" using f9 l unfolding doc by (auto simp: fits_def)
    then have "take (Suc (length (nip11_document info))) (blit b9 p9 [0]) = nip11_document info @ [0]" using p9 by (simp add: blit_def)
    then show ?thesis using cstr_taken nip11_no_0 t(1) by blast
  qed
  ultimately show ?thesis using p9 n_def by auto
qed

section \<open>Property\<close>

text \<open>
  The relay information document is the JSON object of the fields that are present, in their
  order and separated by commas, terminated and reported as a success, whenever it fits in
  the buffer; and whatever the sizes, nothing outside the buffer is written.
\<close>

theorem nostr_nip11_response_document:
  assumes i: "relay_info_ok info" and nb: "length nb = 16" and cap: "0 < cap" "cap \<le> length buf"
  shows "\<exists>ok buf'. nostr_nip11_response nb info cap buf = Some (ok, buf') \<and> length buf' = length buf \<and>
    (length (nip11_document info) < cap \<longrightarrow> cstr buf' = nip11_document info \<and> ok = (2 < length (nip11_document info)))"
  by (rule nostr_nip11_response_ok [OF assms])

theorem nostr_nip11_response_document_witness:
  "\<exists>buf'. nostr_nip11_response (replicate 16 7) \<lparr>ri_name = Some [120, 0], ri_description = None, ri_pubkey = None, ri_contact = None,
       ri_software = None, ri_version = None, ri_supported_nips = Some [1, 11, -1]\<rparr> 100 (replicate 100 9) = Some (True, buf') \<and>
     cstr buf' = ascii ''{\"name\":\"x\",\"supported_nips\":[1,11]}''"
proof -
  let ?i = "\<lparr>ri_name = Some [120, 0], ri_description = None, ri_pubkey = None, ri_contact = None,
       ri_software = None, ri_version = None, ri_supported_nips = Some [1, 11, -1]\<rparr>"
  have "nip11_document ?i = ascii ''{\"name\":\"x\",\"supported_nips\":[1,11]}''"
    by (simp add: nip11_document_def text_member_def nips_member_def json_array_def ascii_def cstr_def dec.simps)
  moreover have "length (ascii ''{\"name\":\"x\",\"supported_nips\":[1,11]}'') = 36" by (simp add: ascii_def)
  moreover have "relay_info_ok ?i" by (simp add: relay_info_ok_def)
  ultimately show ?thesis
    using nostr_nip11_response_document [of ?i "replicate 16 7" 100 "replicate 100 9"] by auto
qed

end
