(* ===== verification/Sha1.thy ===== *)
theory Sha1
  imports Prelude
begin

text \<open>
  SHA-1: \<open>src/crypto/sha1.c\<close> and \<open>src/crypto/sha1_def.h\<close>. The unrolled rounds on five variables are
  rounds on a list of five registers, the role of a register given by the number of the round; the
  schedule of 16 words is updated in place. The reference is the definition of FIPS 180: a
  schedule of 80 words, the round that shifts five working variables, the padded
  message in blocks of 64 bytes.
\<close>

unbundle bit_operations_syntax

type_synonym word32 = "32 word"

definition rol :: "word32 \<Rightarrow> nat \<Rightarrow> word32" where
  "rol v bits = push_bit bits v OR drop_bit (32 - bits) v"

section \<open>The rounds\<close>

text \<open>\<open>BYTE_ORDER\<close> and \<open>LITTLE_ENDIAN\<close> are both undefined, so the first branch is compiled.\<close>

definition blk0 :: "word32 list \<Rightarrow> nat \<Rightarrow> word32 list" where
  "blk0 block i = block[i := (rol (block ! i) 24 AND 0xFF00FF00) OR (rol (block ! i) 8 AND 0x00FF00FF)]"

definition blk :: "word32 list \<Rightarrow> nat \<Rightarrow> word32 list" where
  "blk block i = block[i mod 16 :=
     rol (block ! ((i + 13) mod 16) XOR block ! ((i + 8) mod 16) XOR block ! ((i + 2) mod 16) XOR block ! (i mod 16)) 1]"

definition round_f :: "nat \<Rightarrow> word32 \<Rightarrow> word32 \<Rightarrow> word32 \<Rightarrow> word32" where
  "round_f i w x y =
     (if i < 20 then (w AND (x XOR y)) XOR y
      else if i < 40 then w XOR x XOR y
      else if i < 60 then ((w OR x) AND y) OR (w AND x)
      else w XOR x XOR y)"

definition round_k :: "nat \<Rightarrow> word32" where
  "round_k i = (if i < 20 then 0x5A827999 else if i < 40 then 0x6ED9EBA1 else if i < 60 then 0x8F1BBCDC else 0xCA62C1D6)"

text \<open>
  The round \<open>i\<close> is called with the variables from the one numbered \<open>- i\<close> on: round 0 with a, b, c, d, e,
  round 1 with e, a, b, c, d.
\<close>

definition reg :: "nat \<Rightarrow> nat \<Rightarrow> nat" where
  "reg i j = (j + 4 * i) mod 5"

definition sha1_round :: "word32 list \<times> word32 list \<Rightarrow> nat \<Rightarrow> word32 list \<times> word32 list" where
  "sha1_round = (\<lambda>(r, block) i.
     (let v = reg i 0; w = reg i 1; x = reg i 2; y = reg i 3; z = reg i 4;
          block = (if i < 16 then blk0 block i else blk block i);
          r = r[z := r ! z + (round_f i (r ! w) (r ! x) (r ! y) + block ! (i mod 16) + round_k i + rol (r ! v) 5)];
          r = r[w := rol (r ! w) 30]
      in (r, block)))"

definition sha1_transform :: "word32 list \<Rightarrow> byte list \<Rightarrow> word32 list option" where
  "sha1_transform state buffer = do {
     bs \<leftarrow> peek buffer 0 64;
     let block = map (\<lambda>i. word_of_nat (get_le 4 (4 * i) bs)) [0..<16];
     let (r, _) = foldl sha1_round (state, block) [0..<80];
     Some (map2 (+) state r)
   }"

section \<open>The context\<close>

record sha1_ctx =
  sc_state :: "word32 list"
  sc_count0 :: word32
  sc_count1 :: word32
  sc_buffer :: "byte list"

definition sha1_init :: "sha1_ctx \<Rightarrow> sha1_ctx" where
  "sha1_init context = context\<lparr>sc_state := [0x67452301, 0xEFCDAB89, 0x98BADCFE, 0x10325476, 0xC3D2E1F0],
     sc_count0 := 0, sc_count1 := 0\<rparr>"

function sha1_blocks :: "word32 list \<Rightarrow> byte list \<Rightarrow> nat \<Rightarrow> nat \<Rightarrow> (word32 list \<times> nat) option" where
  "sha1_blocks state data len i =
     (if i + 63 < len then
        (case sha1_transform state (drop i data) of
           None \<Rightarrow> None
         | Some state \<Rightarrow> sha1_blocks state data len (i + 64))
      else Some (state, i))"
  by pat_completeness auto
termination by (relation "measure (\<lambda>(state, data, len, i). len - i)") auto

declare sha1_blocks.simps [simp del]

definition sha1_update :: "sha1_ctx \<Rightarrow> byte list \<Rightarrow> nat \<Rightarrow> sha1_ctx option" where
  "sha1_update context data len = do {
     let j = sc_count0 context;
     let context = context\<lparr>sc_count0 := j + word_of_nat (len * 8)\<rparr>;
     let context = (if sc_count0 context < j then context\<lparr>sc_count1 := sc_count1 context + 1\<rparr> else context);
     let context = context\<lparr>sc_count1 := sc_count1 context + word_of_nat (len div 2 ^ 29)\<rparr>;
     let j = unat j div 8 mod 64;
     if j + len > 63 then do {
       let i = 64 - j;
       bs \<leftarrow> peek data 0 i;
       buffer \<leftarrow> poke (sc_buffer context) j bs;
       state \<leftarrow> sha1_transform (sc_state context) buffer;
       (state, i) \<leftarrow> sha1_blocks state data len i;
       bs \<leftarrow> peek data i (len - i);
       buffer \<leftarrow> poke buffer 0 bs;
       Some (context\<lparr>sc_state := state, sc_buffer := buffer\<rparr>)
     }
     else do {
       bs \<leftarrow> peek data 0 len;
       buffer \<leftarrow> poke (sc_buffer context) j bs;
       Some (context\<lparr>sc_buffer := buffer\<rparr>)
     }
   }"

text \<open>The byte \<open>i\<close> of the big-endian word.\<close>

definition be_byte :: "word32 \<Rightarrow> nat \<Rightarrow> byte" where
  "be_byte w i = word_of_nat (unat (drop_bit ((3 - i mod 4) * 8) w) mod 256)"

text \<open>The loop pads until 56 bytes of a block are used; each round adds one byte.\<close>

partial_function (option) pad_loop :: "sha1_ctx \<Rightarrow> sha1_ctx option" where
  "pad_loop context =
     (if sc_count0 context AND 504 \<noteq> 448 then do {
        context \<leftarrow> sha1_update context [0] 1;
        pad_loop context
      }
      else Some context)"

declare pad_loop.simps [code]

definition sha1_final :: "byte list \<Rightarrow> sha1_ctx \<Rightarrow> byte list option" where
  "sha1_final digest context = do {
     let finalcount = map (\<lambda>i. be_byte (if i \<ge> 4 then sc_count0 context else sc_count1 context) i) [0..<8];
     context \<leftarrow> sha1_update context [0x80] 1;
     context \<leftarrow> pad_loop context;
     context \<leftarrow> sha1_update context finalcount 8;
     poke digest 0 (map (\<lambda>i. be_byte (sc_state context ! (i div 4)) i) [0..<20])
   }"

primrec sha1_input :: "byte list \<Rightarrow> nat list \<Rightarrow> sha1_ctx \<Rightarrow> sha1_ctx option" where
  "sha1_input input [] context = Some context"
| "sha1_input input (ii # is) context = do {
     context \<leftarrow> sha1_update context (drop ii input) 1;
     sha1_input input is context
   }"

text \<open>\<open>ctx0\<close> is what the stack holds where the context lies.\<close>

definition sha1 :: "sha1_ctx \<Rightarrow> byte list \<Rightarrow> nat \<Rightarrow> byte list \<Rightarrow> byte list option" where
  "sha1 ctx0 input input_len output = do {
     context \<leftarrow> sha1_input input [0..<input_len] (sha1_init ctx0);
     sha1_final output context
   }"

section \<open>The reference\<close>

definition be_word :: "byte list \<Rightarrow> word32" where
  "be_word bs = word_of_nat (le_val (rev bs))"

definition schedule :: "byte list \<Rightarrow> word32 list" where
  "schedule bs = foldl (\<lambda>w t. w @ [rol (w ! (t - 3) XOR w ! (t - 8) XOR w ! (t - 14) XOR w ! (t - 16)) 1])
     (map (\<lambda>t. be_word (slice bs (4 * t) 4)) [0..<16]) [16..<80]"

definition ref_f :: "nat \<Rightarrow> word32 \<Rightarrow> word32 \<Rightarrow> word32 \<Rightarrow> word32" where
  "ref_f t b c d =
     (if t < 20 then (b AND c) OR (NOT b AND d)
      else if t < 40 then b XOR c XOR d
      else if t < 60 then (b AND c) OR (b AND d) OR (c AND d)
      else b XOR c XOR d)"

definition ref_step :: "word32 list \<Rightarrow> nat \<Rightarrow> word32 list \<Rightarrow> word32 list" where
  "ref_step w t h =
     [rol (h ! 0) 5 + ref_f t (h ! 1) (h ! 2) (h ! 3) + h ! 4 + w ! t + round_k t, h ! 0, rol (h ! 1) 30, h ! 2, h ! 3]"

definition ref_compress :: "word32 list \<Rightarrow> byte list \<Rightarrow> word32 list" where
  "ref_compress h bs = (let w = schedule bs in map2 (+) h (foldl (\<lambda>r t. ref_step w t r) h [0..<80]))"

definition sha1_pad :: "byte list \<Rightarrow> byte list" where
  "sha1_pad m = m @ 0x80 # replicate ((119 - length m mod 64) mod 64) 0 @ rev (le_bytes 8 (8 * length m))"

function blocks :: "byte list \<Rightarrow> byte list list" where
  "blocks m = (if 64 \<le> length m then take 64 m # blocks (drop 64 m) else [])"
  by pat_completeness auto
termination by (relation "measure length") auto

declare blocks.simps [simp del]

definition sha1_ref :: "byte list \<Rightarrow> byte list" where
  "sha1_ref m = concat (map (\<lambda>w. rev (le_bytes 4 (unat w)))
     (foldl ref_compress [0x67452301, 0xEFCDAB89, 0x98BADCFE, 0x10325476, 0xC3D2E1F0] (blocks (sha1_pad m))))"


section \<open>Bits\<close>

lemma bit_byte_plus: "bit (unat (b :: byte) + 256 * x) n \<longleftrightarrow> (if n < 8 then bit b n else bit x (n - 8))"
proof -
  have b: "bit (unat b) m \<Longrightarrow> m < 8" for m by (auto simp: bit_unsigned_iff dest: bit_imp_le_length)
  have x: "256 * x = push_bit 8 x" by (simp add: push_bit_eq_mult mult.commute)
  have "bit (unat b + push_bit 8 x) n \<longleftrightarrow> bit (unat b) n \<or> bit (push_bit 8 x) n"
    using b by (intro bit_disjunctive_add_iff) (force simp: bit_push_bit_iff)
  then show ?thesis using b [of n] by (auto simp: x bit_push_bit_iff bit_unsigned_iff)
qed

lemma bit_le_val: "bit (le_val bs) n \<longleftrightarrow> n div 8 < length bs \<and> bit (bs ! (n div 8)) (n mod 8)"
proof (induction bs arbitrary: n)
  case Nil
  then show ?case by simp
next
  case (Cons b bs)
  show ?case
  proof (cases "n < 8")
    case True
    then show ?thesis by (simp add: bit_byte_plus)
  next
    case False
    then obtain m where m: "n = 8 + m" using le_Suc_ex not_less by blast
    have d: "(8 + m) div 8 = Suc (m div 8)" by simp
    show ?thesis using Cons unfolding m by (simp only: bit_byte_plus le_val.simps d) simp
  qed
qed

lemma bit_rol: "0 < k \<Longrightarrow> k < 32 \<Longrightarrow> n < 32 \<Longrightarrow> bit (rol v k) n \<longleftrightarrow> (if k \<le> n then bit v (n - k) else bit v (n + 32 - k))"
  by (auto simp: rol_def bit_or_iff bit_push_bit_iff bit_drop_bit_eq add.commute dest: bit_imp_le_length)

lemma byte_swap:
  assumes "length bs = 4"
  defines "w \<equiv> word_of_nat (le_val bs) :: word32"
  shows "(rol w 24 AND 0xFF00FF00) OR (rol w 8 AND 0x00FF00FF) = be_word bs"
proof (rule bit_word_eqI)
  fix n assume n: "n < LENGTH(32)"
  have bw: "bit w m \<longleftrightarrow> m < 32 \<and> bit (bs ! (m div 8)) (m mod 8)" for m
    using assms(1) by (auto simp: w_def bit_of_nat_iff possible_bit_word bit_le_val)
  have r: "rev bs ! 0 = bs ! 3" "rev bs ! Suc 0 = bs ! 2" "rev bs ! 2 = bs ! 1" "rev bs ! 3 = bs ! 0"
    using assms(1) by (simp_all add: rev_nth)
  have bb: "bit (be_word bs) m \<longleftrightarrow> m < 32 \<and> bit (rev bs ! (m div 8)) (m mod 8)" for m
    using assms(1) by (auto simp: be_word_def bit_of_nat_iff possible_bit_word bit_le_val)
  define P where "P n \<longleftrightarrow> bit ((rol w 24 AND 0xFF00FF00) OR (rol w 8 AND 0x00FF00FF)) n = bit (be_word bs) n" for n
  have "list_all P (0 # 1 # [2..<32])" by (simp add: P_def bit_or_iff bit_and_iff bit_rol bw bb r)
  moreover have "n \<in> set (0 # 1 # [2..<32])" using n by (simp del: upt_rec_numeral) linarith
  ultimately have "P n" unfolding list_all_iff by blast
  then show "bit ((rol w 24 AND 0xFF00FF00) OR (rol w 8 AND 0x00FF00FF)) n \<longleftrightarrow> bit (be_word bs) n" unfolding P_def .
qed

lemma ref_f_eq: "round_f t b c d = ref_f t b c d"
proof -
  have "(b AND (c XOR d)) XOR d = (b AND c) OR (NOT b AND d)" for b c d :: word32
    by (rule bit_word_eqI) (auto simp: bit_and_iff bit_or_iff bit_xor_iff bit_not_iff)
  moreover have "((b OR c) AND d) OR (b AND c) = (b AND c) OR (b AND d) OR (c AND d)" for b c d :: word32
    by (rule bit_word_eqI) (auto simp: bit_and_iff bit_or_iff)
  ultimately show ?thesis by (simp add: round_f_def ref_f_def)
qed

section \<open>The rounds are those of the reference\<close>

lemma reg_less [simp]: "reg i j < 5" by (simp add: reg_def)

lemma reg_inj: "j < 5 \<Longrightarrow> k < 5 \<Longrightarrow> reg i j = reg i k \<Longrightarrow> j = k"
proof -
  assume jk: "j < 5" "k < 5" "reg i j = reg i k"
  then have "int (j + 4 * i) mod 5 = int (k + 4 * i) mod 5" unfolding reg_def by (metis zmod_int of_nat_numeral)
  then have "(5 :: int) dvd int j - int k" unfolding mod_eq_dvd_iff by simp
  then show ?thesis using jk(1,2) by presburger
qed

lemma reg_Suc: "reg (Suc i) (Suc j) = reg i j" "reg (Suc i) 0 = reg i 4"
proof -
  have "Suc j + 4 * Suc i = (j + 4 * i) + 5" by simp
  then show "reg (Suc i) (Suc j) = reg i j" unfolding reg_def by (metis mod_add_self2)
qed (simp add: reg_def)

lemma reg_80: "j < 5 \<Longrightarrow> reg 80 j = j"
  unfolding reg_def by presburger

lemma length_schedule: "length (schedule bs) = 80"
proof -
  have "length (foldl (\<lambda>w t. w @ [f w t]) ws ts) = length ws + length ts" for f and ws :: "word32 list" and ts :: "nat list"
    by (induction ts arbitrary: ws) simp_all
  then show ?thesis unfolding schedule_def by (simp only: length_map length_upt)
qed

lemma foldl_snoc_nth:
  "i < length ws + length ts \<Longrightarrow>
   foldl (\<lambda>w t. w @ [f w t]) ws ts ! i = (if i < length ws then ws ! i
     else f (take i (foldl (\<lambda>w t. w @ [f w t]) ws ts)) (ts ! (i - length ws))) \<and>
   take (length ws) (foldl (\<lambda>w t. w @ [f w t]) ws ts) = ws"
proof (induction ts arbitrary: i rule: rev_induct)
  case Nil
  then show ?case by simp
next
  case (snoc t ts)
  define W where "W = foldl (\<lambda>w t. w @ [f w t]) ws ts"
  have l: "length W = length ws + length ts" unfolding W_def by (induction ts arbitrary: ws) simp_all
  show ?case
  proof (cases "i < length ws + length ts")
    case True
    have e: "(ts @ [t]) ! (i - length ws) = ts ! (i - length ws)" if "\<not> i < length ws" 
    proof -
      have "i - length ws < length ts" using True that by linarith
      then show ?thesis by (simp add: nth_append)
    qed
    show ?thesis using True snoc.IH [OF True] l e by (simp add: W_def [symmetric] nth_append)
  next
    case False
    then have i: "i = length ws + length ts" using snoc.prems by simp
    have "take (length ws) W = ws"
      using snoc.IH [of 0] by (cases "ws = [] \<and> ts = []") (auto simp: W_def)
    then show ?thesis using l i by (simp add: W_def [symmetric] nth_append)
  qed
qed

lemma schedule_nth:
  "t < 16 \<Longrightarrow> schedule bs ! t = be_word (slice bs (4 * t) 4)"
  "16 \<le> t \<Longrightarrow> t < 80 \<Longrightarrow> schedule bs ! t = rol (schedule bs ! (t - 3) XOR schedule bs ! (t - 8) XOR schedule bs ! (t - 14) XOR schedule bs ! (t - 16)) 1"
proof -
  define f where "f = (\<lambda>(w :: word32 list) t. rol (w ! (t - 3) XOR w ! (t - 8) XOR w ! (t - 14) XOR w ! (t - 16)) 1)"
  define ws where "ws = map (\<lambda>t. be_word (slice bs (4 * t) 4)) [0..<16]"
  define ts :: "nat list" where "ts = [16..<80]"
  have s: "schedule bs = foldl (\<lambda>w t. w @ [f w t]) ws ts" unfolding schedule_def f_def ws_def ts_def ..
  have l: "length ws = 16" "length ts = 64" unfolding ws_def ts_def by (simp_all only: length_map length_upt)
  have nws: "ws ! t = be_word (slice bs (4 * t) 4)" if "t < 16" unfolding ws_def using that by (simp del: upt_rec_numeral)
  have nts: "ts ! (t - 16) = t" if "16 \<le> t" "t < 80" unfolding ts_def using that by (simp del: upt_rec_numeral)
  have n: "t < 80 \<Longrightarrow> schedule bs ! t = (if t < 16 then ws ! t else f (take t (schedule bs)) (ts ! (t - 16)))"
    using foldl_snoc_nth [of t ws ts f] unfolding s [symmetric] l by simp
  show "t < 16 \<Longrightarrow> schedule bs ! t = be_word (slice bs (4 * t) 4)" using n nws by simp
  show "16 \<le> t \<Longrightarrow> t < 80 \<Longrightarrow> schedule bs ! t = rol (schedule bs ! (t - 3) XOR schedule bs ! (t - 8) XOR schedule bs ! (t - 14) XOR schedule bs ! (t - 16)) 1"
    using n nts length_schedule [of bs] by (simp add: f_def)
qed

lemma mod16: "k \<le> t \<Longrightarrow> k \<le> 16 \<Longrightarrow> (t + (16 - k)) mod 16 = (t - k) mod 16" for t :: nat
proof -
  assume "k \<le> t" "k \<le> 16"
  then have "t + (16 - k) = (t - k) + 16" by linarith
  then show ?thesis by simp
qed

definition sched_ok :: "byte list \<Rightarrow> nat \<Rightarrow> word32 list \<Rightarrow> bool" where
  "sched_ok bs t block \<longleftrightarrow> length block = 16 \<and> (\<forall>k < t. t \<le> k + 16 \<longrightarrow> block ! (k mod 16) = schedule bs ! k) \<and>
     (\<forall>k < 16. t \<le> k \<longrightarrow> block ! k = word_of_nat (le_val (slice bs (4 * k) 4)))"

lemma sched_ok_step:
  assumes s: "sched_ok bs t block" and t: "t < 80" and bs: "length bs = 64"
  defines "b \<equiv> (if t < 16 then blk0 block t else blk block t)"
  shows "sched_ok bs (Suc t) b" "b ! (t mod 16) = schedule bs ! t"
proof -
  have l: "length block = 16" and old: "\<And>k. k < t \<Longrightarrow> t \<le> k + 16 \<Longrightarrow> block ! (k mod 16) = schedule bs ! k"
    and raw: "\<And>k. k < 16 \<Longrightarrow> t \<le> k \<Longrightarrow> block ! k = word_of_nat (le_val (slice bs (4 * k) 4))"
    using s by (simp_all add: sched_ok_def)
  have b: "b = block[t mod 16 := schedule bs ! t]"
  proof (cases "t < 16")
    case True
    have "length (slice bs (4 * t) 4) = 4" using True bs by simp
    then show ?thesis using True byte_swap [of "slice bs (4 * t) 4"] raw [OF True] schedule_nth(1) [OF True]
      by (simp add: b_def blk0_def)
  next
    case False
    have m: "(t + 13) mod 16 = (t - 3) mod 16" "(t + 8) mod 16 = (t - 8) mod 16" "(t + 2) mod 16 = (t - 14) mod 16" "t mod 16 = (t - 16) mod 16"
      using False mod16 [of 3 t] mod16 [of 8 t] mod16 [of 14 t] mod16 [of 16 t] by simp_all
    have "block ! ((t - 3) mod 16) = schedule bs ! (t - 3)" "block ! ((t - 8) mod 16) = schedule bs ! (t - 8)"
      "block ! ((t - 14) mod 16) = schedule bs ! (t - 14)" "block ! ((t - 16) mod 16) = schedule bs ! (t - 16)"
      using False by (intro old; simp)+
    then have "blk block t = block[t mod 16 := schedule bs ! t]"
      using False t schedule_nth(2) [of t bs] unfolding blk_def m(1,2,3) by (simp add: m(4) [symmetric])
    then show ?thesis using False by (simp add: b_def)
  qed
  show "b ! (t mod 16) = schedule bs ! t" using l by (simp add: b)
  have "b ! (k mod 16) = schedule bs ! k" if "k < Suc t" "Suc t \<le> k + 16" for k
  proof (cases "k = t")
    case True
    then show ?thesis using l by (simp add: b)
  next
    case False
    then have k: "k < t" using that by simp
    then have "t mod 16 \<noteq> k mod 16" using that mod_eq_dvd_iff_nat [of k t 16] nat_dvd_not_less [of "t - k" 16] by auto
    with k show ?thesis using that old [of k] by (simp add: b)
  qed
  moreover have "b ! k = word_of_nat (le_val (slice bs (4 * k) 4))" if "k < 16" "Suc t \<le> k" for k
    using that raw [of k] by (simp add: b)
  ultimately show "sched_ok bs (Suc t) b" using l by (simp add: sched_ok_def b)
qed



definition round_inv :: "byte list \<Rightarrow> nat \<Rightarrow> word32 list \<times> word32 list \<Rightarrow> word32 list \<Rightarrow> bool" where
  "round_inv bs t = (\<lambda>(r, block) h. length r = 5 \<and> length h = 5 \<and> sched_ok bs t block \<and> (\<forall>j < 5. h ! j = r ! reg t j))"

lemma less_5: "(j :: nat) < 5 \<longleftrightarrow> j = 0 \<or> j = 1 \<or> j = 2 \<or> j = 3 \<or> j = 4"
  by linarith

lemma sha1_round_ok:
  assumes i: "round_inv bs t (r, block) h" and t: "t < 80" and bs: "length bs = 64"
  shows "round_inv bs (Suc t) (sha1_round (r, block) t) (ref_step (schedule bs) t h)"
proof -
  have l: "length r = 5" "length h = 5" "sched_ok bs t block" and h: "\<And>j. j < 5 \<Longrightarrow> h ! j = r ! reg t j"
    using i by (simp_all add: round_inv_def)
  define b where "b = (if t < 16 then blk0 block t else blk block t)"
  note b = sched_ok_step [OF l(3) t bs, folded b_def]
  have ne: "reg t j \<noteq> reg t k" if "j < 5" "k < 5" "j \<noteq> k" for j k using reg_inj [of j k t] that by blast
  define r1 where "r1 = r[reg t 4 := r ! reg t 4 + (round_f t (r ! reg t 1) (r ! reg t 2) (r ! reg t 3) + b ! (t mod 16) + round_k t + rol (r ! reg t 0) 5)]"
  define r2 where "r2 = r1[reg t 1 := rol (r1 ! reg t 1) 30]"
  have e: "sha1_round (r, block) t = (r2, b)"
    unfolding sha1_round_def prod.case Let_def b_def [symmetric] r1_def [symmetric] r2_def [symmetric] ..
  have n: "r2 ! reg t 4 = rol (h ! 0) 5 + ref_f t (h ! 1) (h ! 2) (h ! 3) + h ! 4 + schedule bs ! t + round_k t"
    "r2 ! reg t 0 = h ! 0" "r2 ! reg t 1 = rol (h ! 1) 30" "r2 ! reg t 2 = h ! 2" "r2 ! reg t 3 = h ! 3"
    using ne [of 4 1] ne [of 0 1] ne [of 0 4] ne [of 2 1] ne [of 2 4] ne [of 3 1] ne [of 3 4] l(1) b(2)
    by (simp_all add: r2_def r1_def h ref_f_eq add_ac)
  have "ref_step (schedule bs) t h ! j = r2 ! reg (Suc t) j" if "j < 5" for j
    using that n unfolding less_5 by (elim disjE) (simp_all add: ref_step_def reg_Suc numeral_eq_Suc)
  then show ?thesis using l b(1) by (simp add: e round_inv_def ref_step_def r2_def r1_def)
qed

lemma sha1_rounds_ok:
  assumes i: "round_inv bs 0 (r, block) h" and bs: "length bs = 64"
  shows "t \<le> 80 \<Longrightarrow> round_inv bs t (foldl sha1_round (r, block) [0..<t]) (foldl (\<lambda>h t. ref_step (schedule bs) t h) h [0..<t])"
proof (induction t)
  case 0
  then show ?case using i by simp
next
  case (Suc t)
  then show ?case using sha1_round_ok [of bs t "fst (foldl sha1_round (r, block) [0..<t])" "snd (foldl sha1_round (r, block) [0..<t])"] bs by simp
qed

lemma sha1_transform_eq:
  assumes "64 \<le> length buffer" "length state = 5"
  shows "sha1_transform state buffer = Some (ref_compress state (take 64 buffer))"
proof -
  define bs where "bs = take 64 buffer"
  have bs: "length bs = 64" "peek buffer 0 64 = Some bs" using assms(1) by (simp_all add: bs_def slice_def)
  define block :: "word32 list" where "block = map (\<lambda>i. word_of_nat (get_le 4 (4 * i) bs)) [0..<16]"
  have "length block = 16" "\<And>k. k < 16 \<Longrightarrow> block ! k = word_of_nat (le_val (slice bs (4 * k) 4))"
    unfolding block_def by (simp_all add: get_le_def del: upt_rec_numeral)
  then have "round_inv bs 0 (state, block) state" using assms(2) by (simp add: round_inv_def sched_ok_def reg_def)
  then have R: "round_inv bs 80 (foldl sha1_round (state, block) [0..<80]) (foldl (\<lambda>h t. ref_step (schedule bs) t h) state [0..<80])"
    by (rule sha1_rounds_ok [OF _ bs(1)]) simp
  obtain r b where rb: "foldl sha1_round (state, block) [0..<80] = (r, b)" by fastforce
  define h where "h = foldl (\<lambda>h t. ref_step (schedule bs) t h) state [0..<80]"
  have "length r = 5" "length h = 5" "\<And>j. j < 5 \<Longrightarrow> h ! j = r ! j"
    using R unfolding rb h_def [symmetric] by (simp_all add: round_inv_def reg_80)
  then have "h = r" by (intro nth_equalityI) simp_all
  then show ?thesis
    unfolding sha1_transform_def bs(2) Option.bind.bind_lunit Let_def block_def [symmetric] rb prod.case ref_compress_def bs_def [symmetric] h_def [symmetric]
    by simp
qed

lemma length_ref_compress: "length h = 5 \<Longrightarrow> length (ref_compress h bs) = 5"
proof -
  assume h: "length h = 5"
  have "length (foldl (\<lambda>r t. ref_step w t r) h ts) = 5" for w ts using h by (induction ts rule: rev_induct) (simp_all add: ref_step_def)
  then show ?thesis using h by (simp add: ref_compress_def Let_def)
qed

section \<open>The context holds the message so far\<close>

abbreviation (input) H0 :: "word32 list" where
  "H0 \<equiv> [0x67452301, 0xEFCDAB89, 0x98BADCFE, 0x10325476, 0xC3D2E1F0]"

definition ctx_holds :: "byte list \<Rightarrow> sha1_ctx \<Rightarrow> bool" where
  "ctx_holds m c \<longleftrightarrow> length (sc_buffer c) = 64 \<and> sc_state c = foldl ref_compress H0 (blocks m) \<and>
     unat (sc_count0 c) = 8 * length m mod 2 ^ 32 \<and> unat (sc_count1 c) = 8 * length m div 2 ^ 32 \<and>
     take (length m mod 64) (sc_buffer c) = drop (length m - length m mod 64) m"

lemma blocks_append: "length m mod 64 = 0 \<Longrightarrow> blocks (m @ x) = blocks m @ blocks x"
proof (induction m rule: blocks.induct)
  case (1 m)
  show ?case
  proof (cases "64 \<le> length m")
    case True
    then have "length (drop 64 m) mod 64 = 0" using "1.prems" by (simp add: le_mod_geq)
    then show ?thesis using 1 True by (simp add: blocks.simps [of "m @ x"] blocks.simps [of m])
  next
    case False
    then have "m = []" using "1.prems" by simp
    then show ?thesis by (simp add: blocks.simps [of "[]"])
  qed
qed

lemma blocks_short: "length m < 64 \<Longrightarrow> blocks m = []" by (simp add: blocks.simps)

lemma length_state: "length (foldl ref_compress H0 bss) = 5"
  by (induction bss rule: rev_induct) (simp_all add: length_ref_compress)

lemma blocks_split: "blocks m = blocks (take (length m - length m mod 64) m)"
proof -
  define q where "q = length m - length m mod 64"
  have "length (take q m) mod 64 = 0" by (simp add: q_def)
  moreover have "length (drop q m) < 64" by (simp add: q_def)
  ultimately have "blocks (take q m @ drop q m) = blocks (take q m)" by (simp only: blocks_append blocks_short append_Nil2)
  then show ?thesis by (simp add: q_def)
qed



lemma count_ok:
  assumes "unat (c0 :: word32) = 8 * L mod 2 ^ 32" "unat (c1 :: word32) = 8 * L div 2 ^ 32" "n \<le> 64" "8 * (L + n) < 2 ^ 64"
  defines "d0 \<equiv> c0 + word_of_nat (n * 8)"
  shows "unat d0 = 8 * (L + n) mod 2 ^ 32"
    "unat ((if d0 < c0 then c1 + 1 else c1) + word_of_nat (n div 2 ^ 29)) = 8 * (L + n) div 2 ^ 32"
    "unat c0 div 8 mod 64 = L mod 64"
proof -
  define M :: nat where "M = 2 ^ 32"
  have M: "M = 4294967296" by (simp add: M_def)
  have s: "unat (word_of_nat (n * 8) :: word32) = 8 * n" unfolding unat_of_nat using assms(3) by simp
  have d0: "unat d0 = (8 * L mod M + 8 * n) mod M" unfolding d0_def unat_word_ariths s assms(1) by (simp add: M_def)
  then show d: "unat d0 = 8 * (L + n) mod 2 ^ 32" by (simp add: M_def mod_add_left_eq distrib_left)
  have carry: "d0 < c0 \<longleftrightarrow> M \<le> 8 * L mod M + 8 * n"
  proof (cases "M \<le> 8 * L mod M + 8 * n")
    case True
    have "8 * L mod M < M" by (simp add: M)
    then have "unat d0 = 8 * L mod M + 8 * n - M" using d0 True assms(3) M by (simp add: le_mod_geq)
    then show ?thesis using True assms(1,3) M by (simp add: word_less_nat_alt M_def)
  next
    case False
    then have "unat d0 = 8 * L mod M + 8 * n" using d0 by simp
    then show ?thesis using False assms(1) by (simp add: word_less_nat_alt M_def)
  qed
  have q: "8 * (L + n) div M = 8 * L div M + (if M \<le> 8 * L mod M + 8 * n then 1 else 0)"
  proof -
    have "8 * (L + n) = M * (8 * L div M) + (8 * L mod M + 8 * n)" by simp
    then have "8 * (L + n) div M = 8 * L div M + (8 * L mod M + 8 * n) div M" using M by (metis div_mult_self4 zero_neq_numeral)
    moreover have "(8 * L mod M + 8 * n) div M = (if M \<le> 8 * L mod M + 8 * n then 1 else 0)"
    proof -
      have "8 * L mod M < M" by (simp add: M)
      then show ?thesis using assms(3) M by (auto simp: div_nat_eqI)
    qed
    ultimately show ?thesis by simp
  qed
  have "8 * (L + n) div M < M" using assms(4) by (simp add: M_def div_less_iff_less_mult)
  then have "d0 < c0 \<Longrightarrow> unat (c1 + 1) = unat c1 + 1"
    using q carry assms(2) by (simp add: unat_word_ariths M_def)
  then show "unat ((if d0 < c0 then c1 + 1 else c1) + word_of_nat (n div 2 ^ 29)) = 8 * (L + n) div 2 ^ 32"
    using q carry assms(2,3) by (simp add: M_def)
  have "8 * L mod 2 ^ 32 = 8 * (L mod 2 ^ 29)" using mult_mod_right [of 8 L "2 ^ 29"] by simp
  then show "unat c0 div 8 mod 64 = L mod 64" unfolding assms(1) by (simp add: mod_mod_cancel)
qed

lemma ctx_step:
  assumes L: "length m = L" "j = L mod 64" and n: "length x = n" "0 < n" "n \<le> 64 - j"
  shows "j + n = 64 \<Longrightarrow> blocks (m @ x) = blocks m @ [drop (L - j) m @ x]"
    "j + n = 64 \<Longrightarrow> (L + n) mod 64 = 0"
    "j + n < 64 \<Longrightarrow> blocks (m @ x) = blocks m" "j + n < 64 \<Longrightarrow> (L + n) mod 64 = j + n"
    "drop (L - j) (m @ x) = drop (L - j) m @ x"
proof -
  have j: "j \<le> L" "j < 64" using L by simp_all
  have q: "length (take (L - j) m) mod 64 = 0" using L by simp
  have d: "length (drop (L - j) m) = j" using L j by simp
  have b: "blocks (m @ x) = blocks m @ blocks (drop (L - j) m @ x)"
  proof -
    have "blocks (take (L - j) m @ (drop (L - j) m @ x)) = blocks (take (L - j) m) @ blocks (drop (L - j) m @ x)" by (rule blocks_append [OF q])
    moreover have "take (L - j) m @ (drop (L - j) m @ x) = m @ x" by simp
    ultimately show ?thesis using blocks_split [of m] unfolding L(1) L(2) [symmetric] by simp
  qed
  show "j + n = 64 \<Longrightarrow> blocks (m @ x) = blocks m @ [drop (L - j) m @ x]"
    using b d n by (simp add: blocks.simps [of "drop (L - j) m @ x"] blocks_short)
  show "j + n < 64 \<Longrightarrow> blocks (m @ x) = blocks m" using b d n by (simp add: blocks_short)
  show "j + n = 64 \<Longrightarrow> (L + n) mod 64 = 0" "j + n < 64 \<Longrightarrow> (L + n) mod 64 = j + n"
    using L mod_add_left_eq [of L 64 n] by simp_all
  show "drop (L - j) (m @ x) = drop (L - j) m @ x" using L by simp
qed

lemma sha1_update_ok:
  assumes c: "ctx_holds m c" and n: "n \<le> length data" "0 < n" "n \<le> 64 - length m mod 64" "8 * (length m + n) < 2 ^ 64"
  shows "\<exists>c'. sha1_update c data n = Some c' \<and> ctx_holds (m @ take n data) c'"
proof -
  define L j where "L = length m" and "j = L mod 64"
  have C: "length (sc_buffer c) = 64" "sc_state c = foldl ref_compress H0 (blocks m)" "unat (sc_count0 c) = 8 * L mod 2 ^ 32"
    "unat (sc_count1 c) = 8 * L div 2 ^ 32" "take j (sc_buffer c) = drop (L - j) m"
    using c by (simp_all add: ctx_holds_def L_def j_def)
  have j: "j < 64" by (simp add: j_def)
  have n64: "n \<le> 64" "n \<le> 64 - j" using n(3) by (simp_all add: j_def L_def)
  note K = count_ok [OF C(3,4) n64(1) n(4) [folded L_def]]
  define d0 d1 where "d0 = sc_count0 c + word_of_nat (n * 8)"
    and "d1 = (if d0 < sc_count0 c then sc_count1 c + 1 else sc_count1 c) + word_of_nat (n div 2 ^ 29)"
  have d: "unat d0 = 8 * (L + n) mod 2 ^ 32" "unat d1 = 8 * (L + n) div 2 ^ 32" using K(1,2) unfolding d0_def d1_def by blast+
  define c2 where "c2 = c\<lparr>sc_count0 := d0, sc_count1 := d1\<rparr>"
  have jj: "unat (sc_count0 c) div 8 mod 64 = j" using K(3) by (simp add: j_def)
  define x where "x = take n data"
  have x: "length x = n" "peek data 0 n = Some x" using n(1) by (simp_all add: x_def slice_def)
  define buf where "buf = blit (sc_buffer c) j x"
  have fit: "j + n \<le> 64" using n64(2) j by linarith
  have buf: "poke (sc_buffer c) j x = Some buf" "length buf = 64" "take (j + n) buf = drop (L - j) m @ x"
  proof -
    have "length (drop (L - j) m) = j" by (simp add: L_def j_def)
    then show "take (j + n) buf = drop (L - j) m @ x" unfolding buf_def blit_def C(5) x(1) using x(1) by simp
  qed (use fit C(1) x(1) in \<open>simp_all add: buf_def\<close>)
  note S = ctx_step [OF L_def [symmetric] j_def x(1) n(2) n64(2)]
  have start: "sha1_update c data n = (if j + n > 63 then do {
       let i = 64 - j;
       bs \<leftarrow> peek data 0 i;
       buffer \<leftarrow> poke (sc_buffer c) j bs;
       state \<leftarrow> sha1_transform (sc_state c) buffer;
       (state, i) \<leftarrow> sha1_blocks state data n i;
       bs \<leftarrow> peek data i (n - i);
       buffer \<leftarrow> poke buffer 0 bs;
       Some (c2\<lparr>sc_state := state, sc_buffer := buffer\<rparr>)
     }
     else Some (c2\<lparr>sc_buffer := buf\<rparr>))"
    unfolding sha1_update_def Let_def d0_def [symmetric] by (simp add: jj x(2) buf(1) d1_def c2_def)
  show ?thesis
  proof (cases "j + n > 63")
    case False
    then have "sha1_update c data n = Some (c2\<lparr>sc_buffer := buf\<rparr>)" using start by simp
    moreover have "ctx_holds (m @ x) (c2\<lparr>sc_buffer := buf\<rparr>)"
      using False S(3,4,5) C buf d x(1) by (simp add: ctx_holds_def c2_def L_def)
    ultimately show ?thesis by (simp add: x_def)
  next
    case True
    then have i: "64 - j = n" "j + n = 64" using fit by simp_all
    define st where "st = ref_compress (sc_state c) (drop (L - j) m @ x)"
    have "take 64 buf = drop (L - j) m @ x" using buf(3) i by simp
    then have t: "sha1_transform (sc_state c) buf = Some st"
      using sha1_transform_eq [of buf "sc_state c"] buf(2) C(2) length_state by (simp add: st_def)
    have b: "sha1_blocks st data n n = Some (st, n)" by (simp add: sha1_blocks.simps)
    have "sha1_update c data n = Some (c2\<lparr>sc_state := st, sc_buffer := buf\<rparr>)"
      unfolding start Let_def i(1) using True n(1) buf(2) by (simp add: x(2) buf(1) t b)
    moreover have "ctx_holds (m @ x) (c2\<lparr>sc_state := st, sc_buffer := buf\<rparr>)"
      using i(2) S(1,2) C buf d x(1) by (simp add: ctx_holds_def c2_def L_def st_def)
    ultimately show ?thesis by (simp add: x_def)
  qed
qed



lemma count_504: "(c0 :: word32) AND 504 \<noteq> 448 \<longleftrightarrow> unat c0 div 8 mod 64 \<noteq> 56"
proof -
  have "(504 :: word32) = push_bit 3 (mask 6)" by (simp add: mask_eq_exp_minus_1 push_bit_eq_mult)
  then have b: "bit (504 :: word32) n \<longleftrightarrow> 3 \<le> n \<and> n < 9" if "n < 32" for n
    using that by (simp only: bit_push_bit_iff bit_mask_iff possible_bit_word) auto
  have e: "c0 AND 504 = push_bit 3 (take_bit 6 (drop_bit 3 c0))"
  proof (rule bit_word_eqI)
    fix n assume "n < LENGTH(32)"
    then have n: "n < 32" by simp
    show "bit (c0 AND 504) n \<longleftrightarrow> bit (push_bit 3 (take_bit 6 (drop_bit 3 c0))) n"
      unfolding bit_and_iff b [OF n] using n by (auto simp: bit_push_bit_iff bit_take_bit_iff bit_drop_bit_eq)
  qed
  have "take_bit 6 (drop_bit 3 c0) = word_of_nat (unat c0 div 8 mod 64)"
  proof (rule word_unat_eq_iff [THEN iffD2])
    have "unat (take_bit 6 (drop_bit 3 c0)) = take_bit 6 (unat (drop_bit 3 c0))" by (rule unsigned_take_bit_eq)
    also have "\<dots> = unat c0 div 8 mod 64" unfolding unat_drop_bit_eq by (simp add: drop_bit_eq_div [where 'a = nat] take_bit_eq_mod)
    finally show "unat (take_bit 6 (drop_bit 3 c0)) = unat (word_of_nat (unat c0 div 8 mod 64) :: word32)"
      using mod_less_divisor [of 64 "unat c0 div 8"] by (simp add: unat_of_nat)
  qed
  moreover define k where "k = unat c0 div 8 mod 64"
  have k: "k < 64" by (simp add: k_def)
  ultimately have "c0 AND 504 = word_of_nat (8 * k)" unfolding e k_def [symmetric] by (simp add: push_bit_eq_mult)
  moreover have "unat (word_of_nat (8 * k) :: word32) = 8 * k" unfolding unat_of_nat using k by simp
  ultimately have "unat (c0 AND 504) = 8 * k" by (simp only:)
  then show ?thesis unfolding k_def [symmetric] word_unat_eq_iff using k by simp
qed

lemma pad_loop_ok:
  "ctx_holds m c \<Longrightarrow> (length m + k) mod 64 = 56 \<Longrightarrow> 8 * (length m + k) < 2 ^ 64 \<Longrightarrow> k < 64 \<Longrightarrow>
   \<exists>c'. pad_loop c = Some c' \<and> ctx_holds (m @ replicate k 0) c'"
proof (induction k arbitrary: m c)
  case 0
  then have "unat (sc_count0 c) div 8 mod 64 = 56" using count_ok(3) [of "sc_count0 c" "length m" "sc_count1 c" 0] by (simp add: ctx_holds_def)
  then have "pad_loop c = Some c" using count_504 [of "sc_count0 c"] by (simp add: pad_loop.simps)
  then show ?case using 0 by simp
next
  case (Suc k)
  have "length m mod 64 \<noteq> 56"
  proof
    assume "length m mod 64 = 56"
    then have "(length m + Suc k) mod 64 = (56 + Suc k) mod 64" by (metis mod_add_left_eq)
    then show False using Suc.prems(2,4) by (cases "k < 7") (simp_all add: le_mod_geq)
  qed
  then have go: "sc_count0 c AND 504 \<noteq> 448"
    using count_504 count_ok(3) [of "sc_count0 c" "length m" "sc_count1 c" 0] Suc.prems(1,3) by (simp add: ctx_holds_def)
  obtain c1 where c1: "sha1_update c [0] 1 = Some c1" "ctx_holds (m @ [0]) c1"
  proof -
    have "1 \<le> 64 - length m mod 64" using mod_less_divisor [of 64 "length m"] by linarith
    moreover have "8 * (length m + 1) < 2 ^ 64" using Suc.prems(3) by simp
    ultimately show ?thesis using sha1_update_ok [OF Suc.prems(1), of 1 "[0]"] that by auto
  qed
  obtain c' where "pad_loop c1 = Some c'" "ctx_holds ((m @ [0]) @ replicate k 0) c'"
    using Suc.IH [OF c1(2)] Suc.prems(2-4) by auto
  then show ?case using go c1(1) by (subst pad_loop.simps) (simp add: replicate_app_Cons_same)
qed

lemma le_bytes_4: "le_bytes 4 v = [word_of_nat v, word_of_nat (v div 256), word_of_nat (v div 65536), word_of_nat (v div 16777216)]"
proof -
  have n: "(4 :: nat) = Suc (Suc (Suc (Suc 0)))" by simp
  show ?thesis unfolding n by (simp add: div_mult2_eq [symmetric])
qed

lemma le_bytes_add: "le_bytes (m + n) v = le_bytes m v @ le_bytes n (v div 256 ^ m)"
  by (induction m arbitrary: v) (simp_all add: div_mult2_eq)

lemma be_byte_eq: "i < 4 \<Longrightarrow> be_byte w (4 * q + i) = rev (le_bytes 4 (unat w)) ! i"
proof -
  assume i: "i < 4"
  have b: "be_byte w (4 * q + i) = word_of_nat (unat w div 2 ^ ((3 - i) * 8))"
  proof -
    have "(4 * q + i) mod 4 = i" using i by simp
    moreover have "(word_of_nat (x mod 256) :: byte) = word_of_nat x" for x by (simp add: word_unat_eq_iff)
    moreover have "unat (drop_bit ((3 - i) * 8) w) = unat w div 2 ^ ((3 - i) * 8)" by (subst unat_drop_bit_eq) (rule drop_bit_eq_div)
    ultimately show ?thesis unfolding be_byte_def by presburger
  qed
  have "i = 0 \<or> i = 1 \<or> i = 2 \<or> i = 3" using i by linarith
  then show ?thesis unfolding b le_bytes_4 by (elim disjE) simp_all
qed

lemma be_bytes_words:
  assumes "length h = n"
  shows "map (\<lambda>i. be_byte (h ! (i div 4)) i) [0..<4 * n] = concat (map (\<lambda>w. rev (le_bytes 4 (unat w))) h)"
  using assms
proof (induction n arbitrary: h rule: nat.induct)
  case zero
  then show ?case by simp
next
  case (Suc n)
  obtain h' w where h: "h = h' @ [w]" "length h' = n" using Suc.prems by (metis length_Suc_conv_rev)
  have "map (\<lambda>i. be_byte (h ! (i div 4)) i) [0..<4 * n] = map (\<lambda>i. be_byte (h' ! (i div 4)) i) [0..<4 * n]"
    using h by (intro map_cong) (auto simp: nth_append)
  moreover have "map (\<lambda>i. be_byte (h ! (i div 4)) i) [4 * n..<4 * n + 4] = rev (le_bytes 4 (unat w))"
  proof (rule nth_equalityI)
    fix i assume "i < length (map (\<lambda>i. be_byte (h ! (i div 4)) i) [4 * n..<4 * n + 4])"
    then have i: "i < 4" by simp
    then have "(4 * n + i) div 4 = n" by simp
    then show "map (\<lambda>i. be_byte (h ! (i div 4)) i) [4 * n..<4 * n + 4] ! i = rev (le_bytes 4 (unat w)) ! i"
      using i h be_byte_eq [OF i, of w n] by (simp add: nth_append)
  qed simp
  moreover have "[0..<4 * Suc n] = [0..<4 * n] @ [4 * n..<4 * n + 4]" by (metis upt_add_eq_append add.commute le0 mult_Suc_right)
  ultimately show ?case using Suc.IH [OF h(2)] h by simp
qed

section \<open>The digest\<close>

lemma sha1_input_ok:
  assumes n: "n \<le> length input" "8 * n < 2 ^ 64" and c: "ctx_holds [] c"
  shows "k \<le> n \<Longrightarrow> \<exists>c'. sha1_input input [0..<k] c = Some c' \<and> ctx_holds (take k input) c'"
proof (induction k)
  case 0
  then show ?case using c by simp
next
  case (Suc k)
  have snoc: "sha1_input input (ks @ [k]) c = Option.bind (sha1_input input ks c) (\<lambda>c. sha1_update c (drop k input) 1)" for ks and c :: sha1_ctx
    by (induction ks arbitrary: c) (auto split: Option.bind_split)
  obtain c1 where c1: "sha1_input input [0..<k] c = Some c1" "ctx_holds (take k input) c1" using Suc by auto
  have k: "length (take k input) = k" "1 \<le> length (drop k input)" "1 \<le> 64 - k mod 64" "8 * (k + 1) < 2 ^ 64"
    using Suc.prems n mod_less_divisor [of 64 k] by simp_all
  obtain c2 where c2: "sha1_update c1 (drop k input) 1 = Some c2" "ctx_holds (take k input @ take 1 (drop k input)) c2"
    using sha1_update_ok [OF c1(2) k(2)] k by auto
  have "take k input @ take 1 (drop k input) = take (Suc k) input" using take_add [of k 1 input] by simp
  then show ?case using c1(1) c2 snoc [of "[0..<k]" c] by simp
qed

lemma final_count:
  assumes "unat (c0 :: word32) = N mod 2 ^ 32" "unat (c1 :: word32) = N div 2 ^ 32"
  shows "map (\<lambda>i. be_byte (if i \<ge> 4 then c0 else c1) i) [0..<8] = rev (le_bytes 8 N)"
proof -
  have "map (\<lambda>i. be_byte (if i \<ge> 4 then c0 else c1) i) [0..<8] = map (\<lambda>i. be_byte ([c1, c0] ! (i div 4)) i) [0..<4 * 2]"
    by (simp add: upt_rec)
  also have "\<dots> = rev (le_bytes 4 (unat c1)) @ rev (le_bytes 4 (unat c0))"
    by (subst be_bytes_words) simp_all
  also have "\<dots> = rev (le_bytes 4 N @ le_bytes 4 (N div 2 ^ 32))"
    using le_bytes_mod [of 4 N] assms by simp
  also have "le_bytes 4 N @ le_bytes 4 (N div 2 ^ 32) = le_bytes 8 N"
    using le_bytes_add [of 4 4 N] by simp
  finally show ?thesis .
qed

lemma sha1_eq:
  assumes "length m < 2 ^ 32" "length (sc_buffer ctx0) = 64" "20 \<le> length output" "length m \<le> length input" "m = take (length m) input"
  shows "sha1 ctx0 input (length m) output = Some (blit output 0 (sha1_ref m))"
proof -
  define L where "L = length m"
  have i: "ctx_holds [] (sha1_init ctx0)" using assms(2) by (simp add: ctx_holds_def sha1_init_def blocks_short)
  obtain c1 where c1: "sha1_input input [0..<L] (sha1_init ctx0) = Some c1" "ctx_holds m c1"
    using sha1_input_ok [OF assms(4) _ i order_refl] assms(1,5) by (auto simp: L_def)
  have K: "unat (sc_count0 c1) = 8 * L mod 2 ^ 32" "unat (sc_count1 c1) = 8 * L div 2 ^ 32" using c1(2) by (simp_all add: ctx_holds_def L_def)
  define fc where "fc = map (\<lambda>i. be_byte (if i \<ge> 4 then sc_count0 c1 else sc_count1 c1) i) [0..<8]"
  have fc: "fc = rev (le_bytes 8 (8 * L))" "length fc = 8" unfolding fc_def by (rule final_count [OF K], simp)
  have one: "1 \<le> 64 - L mod 64" using mod_less_divisor [of 64 L] by linarith
  obtain c2 where c2: "sha1_update c1 [0x80] 1 = Some c2" "ctx_holds (m @ [0x80]) c2"
    using sha1_update_ok [OF c1(2), of 1 "[0x80]"] one assms(1) by (auto simp: L_def)
  define k where "k = (119 - L mod 64) mod 64"
  have k: "(length (m @ [0x80]) + k) mod 64 = 56"
  proof -
    have "L mod 64 < 64" by simp
    then have "(L mod 64 + 1 + k) mod 64 = 56" unfolding k_def by (cases "L mod 64 \<le> 55") (simp_all add: le_mod_geq)
    then show ?thesis by (simp add: L_def) (metis mod_Suc_eq mod_add_left_eq add_Suc)
  qed
  obtain c3 where c3: "pad_loop c2 = Some c3" "ctx_holds ((m @ [0x80]) @ replicate k 0) c3"
  proof -
    have "k < 64" by (simp add: k_def)
    moreover from this have "8 * (length (m @ [0x80]) + k) < 2 ^ 64" using assms(1) by simp
    ultimately show ?thesis using pad_loop_ok [OF c2(2) k] that by blast
  qed
  define p where "p = (m @ [0x80]) @ replicate k 0"
  have p: "length p mod 64 = 56" "8 * (length p + 8) < 2 ^ 64" using k assms(1) by (simp_all add: p_def k_def)
  obtain c4 where c4: "sha1_update c3 fc 8 = Some c4" "ctx_holds (p @ fc) c4"
    using sha1_update_ok [OF c3(2), folded p_def, of 8 fc] p fc(2) by auto
  have pad: "p @ fc = sha1_pad m" by (simp add: p_def fc(1) sha1_pad_def k_def L_def)
  have st: "sc_state c4 = foldl ref_compress H0 (blocks (sha1_pad m))" using c4(2) by (simp add: ctx_holds_def pad)
  have dig: "map (\<lambda>i. be_byte (sc_state c4 ! (i div 4)) i) [0..<20] = sha1_ref m"
  proof -
    have n: "(20 :: nat) = 4 * 5" by simp
    show ?thesis unfolding n sha1_ref_def st [symmetric] by (rule be_bytes_words) (simp only: st length_state)
  qed
  have "length (sha1_ref m) = 20" unfolding dig [symmetric] length_map length_upt by simp
  then have "poke output 0 (sha1_ref m) = Some (blit output 0 (sha1_ref m))" using assms(3) by simp
  then show ?thesis
    unfolding sha1_def sha1_final_def L_def [symmetric] c1(1) Option.bind.bind_lunit Let_def fc_def [symmetric] c2(1) c3(1) c4(1) dig .
qed

end
