(* ===== verification/AcceptKey.thy ===== *)
theory AcceptKey
  imports Sha1 CString
begin

text \<open>
  Base64 (\<open>src/crypto/base64.h\<close>) and the accept key of the handshake (\<open>src/websocket/crypto.c\<close>).
  The reference writes three bytes as a number of 24 bits and reads off its four digits to the
  base 64; incomplete groups end in one or two equals signs.
\<close>

section \<open>Base64\<close>

definition base64_chars :: "byte list" where
  "base64_chars = map of_char ''ABCDEFGHIJKLMNOPQRSTUVWXYZabcdefghijklmnopqrstuvwxyz0123456789+/''"

definition is_base64_char :: "byte \<Rightarrow> bool" where
  "is_base64_char c \<longleftrightarrow> is_lower c \<or> is_upper c \<or> is_digit c \<or> c = 43 \<or> c = 47"

definition base64_get_array_value :: "byte list \<Rightarrow> nat \<Rightarrow> nat \<Rightarrow> byte option" where
  "base64_get_array_value array offset capacity = (if offset < capacity then char_at array offset else Some 0)"

definition base64_out_char_index :: "word32 \<Rightarrow> nat \<Rightarrow> nat" where
  "base64_out_char_index marge input_index = unat (drop_bit ((4 - input_index - 1) * 6) marge AND 63)"

function base64_loop :: "byte list \<Rightarrow> nat \<Rightarrow> byte list \<Rightarrow> nat \<Rightarrow> nat \<Rightarrow> nat \<Rightarrow> (byte list \<times> nat) option" where
  "base64_loop input input_length output output_capacity input_offset output_offset =
     (if input_offset < input_length \<and> output_offset < (output_capacity + 2 ^ 64 - 4) mod 2 ^ 64 then
        (case base64_get_array_value input (input_offset + 0) input_length of
           None \<Rightarrow> None
         | Some a \<Rightarrow>
        (case base64_get_array_value input (input_offset + 1) input_length of
           None \<Rightarrow> None
         | Some b \<Rightarrow>
        (case base64_get_array_value input (input_offset + 2) input_length of
           None \<Rightarrow> None
         | Some c \<Rightarrow>
             (let marge = push_bit 16 (ucast a) OR push_bit 8 (ucast b) OR push_bit 0 (ucast c)
              in case poke output output_offset (map (\<lambda>k. base64_chars ! base64_out_char_index marge k) [0, 1, 2, 3]) of
                   None \<Rightarrow> None
                 | Some output \<Rightarrow>
                     base64_loop input input_length output output_capacity (input_offset + 3) (output_offset + 4)))))
      else Some (output, output_offset))"
  by pat_completeness auto
termination by (relation "measure (\<lambda>(input, n, output, cap, i, j). n - i)") auto

declare base64_loop.simps [simp del]

primrec padding_loop :: "nat \<Rightarrow> byte list \<Rightarrow> nat list \<Rightarrow> byte list option" where
  "padding_loop output_offset output [] = Some output"
| "padding_loop output_offset output (i # is) = do {
     output \<leftarrow> (if i \<le> output_offset then poke output (output_offset - i) [61] else None);
     padding_loop output_offset output is
   }"

text \<open>The test of the capacity subtracts unsigned numbers: only a capacity of exactly 4 is refused.\<close>

definition base64_encode :: "byte list \<Rightarrow> nat \<Rightarrow> byte list \<Rightarrow> nat \<Rightarrow> (bool \<times> byte list) option" where
  "base64_encode input input_length output output_capacity =
     (if input_length \<le> 0 then Some (False, output)
      else if (output_capacity + 2 ^ 64 - 4) mod 2 ^ 64 \<le> 0 then Some (False, output)
      else do {
        (output, output_offset) \<leftarrow> base64_loop input input_length output output_capacity 0 0;
        let input_length_mod = input_length mod 3;
        let padding_count = (if input_length_mod \<noteq> 0 then 3 - input_length_mod else 0);
        output \<leftarrow> padding_loop output_offset output [1..<padding_count + 1];
        output \<leftarrow> poke output output_offset [0];
        Some (True, output)
      })"

primrec count_padding :: "byte list \<Rightarrow> nat \<Rightarrow> nat list \<Rightarrow> nat \<Rightarrow> nat option" where
  "count_padding str len [] padding_count = Some padding_count"
| "count_padding str len (i # is) padding_count = do {
     c \<leftarrow> char_at str (len - i);
     count_padding str len is (if c = 61 then padding_count + 1 else padding_count)
   }"

primrec all_chars :: "(byte \<Rightarrow> bool) \<Rightarrow> byte list \<Rightarrow> nat list \<Rightarrow> bool option" where
  "all_chars P str [] = Some True"
| "all_chars P str (i # is) = do {
     c \<leftarrow> char_at str i;
     if \<not> P c then Some False else all_chars P str is
   }"

definition is_base64 :: "byte list \<Rightarrow> bool option" where
  "is_base64 str = do {
     len \<leftarrow> nostr_strlen str;
     if len < 4 \<or> len mod 4 \<noteq> 0 then Some False
     else do {
       padding_count \<leftarrow> count_padding str len [1..<3] 0;
       if padding_count > 2 then Some False
       else do {
         let base64_length = len - padding_count;
         ok \<leftarrow> all_chars is_base64_char str [0..<base64_length];
         if \<not> ok then Some False else all_chars (\<lambda>c. c = 61) str [base64_length..<len]
       }
     }
   }"

section \<open>The accept key\<close>

definition websocket_accept_guid :: "byte list" where
  "websocket_accept_guid = map of_char ''258EAFA5-E914-47DA-95CA-C5AB0DC85B11''"

text \<open>\<open>concatenated\<close> and \<open>ctx0\<close> are what the stack holds; the wiping of the variables is left out.\<close>

definition generate_websocket_acceptkey ::
    "byte list \<Rightarrow> sha1_ctx \<Rightarrow> byte list \<Rightarrow> nat \<Rightarrow> byte list \<Rightarrow> (bool \<times> byte list) option" where
  "generate_websocket_acceptkey concatenated ctx0 client_key accept_key_size accept_key =
     (if (accept_key_size + 2 ^ 64 - 128) mod 2 ^ 64 \<le> 0 then Some (False, accept_key)
      else do {
        client_key_size \<leftarrow> strlen_loop client_key 0;
        guid_size \<leftarrow> strlen_loop (websocket_accept_guid @ [0]) 0;
        bs \<leftarrow> peek client_key 0 client_key_size;
        concatenated \<leftarrow> poke concatenated 0 bs;
        bs \<leftarrow> peek (websocket_accept_guid @ [0]) 0 guid_size;
        concatenated \<leftarrow> poke concatenated client_key_size bs;
        concatenated \<leftarrow> poke concatenated (client_key_size + guid_size) [0];
        n \<leftarrow> nostr_strnlen concatenated 256;
        sha1_result \<leftarrow> sha1 ctx0 concatenated n (replicate 20 0);
        base64_encode sha1_result 20 accept_key accept_key_size
      })"

section \<open>The reference\<close>

definition b64_group :: "nat \<Rightarrow> byte list" where
  "b64_group n = map (\<lambda>d. base64_chars ! d) [n div 262144, n div 4096 mod 64, n div 64 mod 64, n mod 64]"

fun b64 :: "byte list \<Rightarrow> byte list" where
  "b64 [] = []"
| "b64 [a] = take 2 (b64_group (unat a * 65536)) @ [61, 61]"
| "b64 [a, b] = take 3 (b64_group (unat a * 65536 + unat b * 256)) @ [61]"
| "b64 (a # b # c # r) = b64_group (unat a * 65536 + unat b * 256 + unat c) @ b64 r"


section \<open>The groups\<close>

lemma div3_add: "(x + 3) div 3 = Suc (x div 3)" for x :: nat by simp

lemma marge_eq: "push_bit 16 (ucast a) OR push_bit 8 (ucast b) OR push_bit 0 (ucast c) = (word_of_nat (le_val [c, b, a]) :: word32)"
  for a b c :: byte
proof (rule bit_word_eqI)
  fix n assume "n < LENGTH(32)"
  have small: "bit x k \<Longrightarrow> k < 8" for x :: byte and k using bit_imp_le_length [of x k] by simp
  consider "n < 8" | "8 \<le> n" "n < 16" | "16 \<le> n" "n < 24" | "24 \<le> n" by linarith
  then show "bit (push_bit 16 (ucast a) OR push_bit 8 (ucast b) OR push_bit 0 (ucast c) :: word32) n =
      bit (word_of_nat (le_val [c, b, a]) :: word32) n"
  proof cases
    case 2
    then obtain k where "n = 8 + k" "k < 8" using le_Suc_ex [of 8 n] by auto
    then show ?thesis by (auto simp: bit_or_iff bit_push_bit_iff bit_unsigned_iff bit_of_nat_iff bit_le_val simp del: le_val.simps dest: small)
  next
    case 3
    then obtain k where k: "n = 16 + k" "k < 8" using le_Suc_ex [of 16 n] by auto
    then have "(16 + k) div 8 = 2" "(16 + k) mod 8 = k" by presburger+
    with k show ?thesis by (auto simp: bit_or_iff bit_push_bit_iff bit_unsigned_iff bit_of_nat_iff bit_le_val simp del: le_val.simps dest: small)
  qed (auto simp: bit_or_iff bit_push_bit_iff bit_unsigned_iff bit_of_nat_iff bit_le_val simp del: le_val.simps dest: small)
qed

lemma index_eq:
  assumes "unat marge = n" "n < 2 ^ 24"
  shows "map (\<lambda>k. base64_chars ! base64_out_char_index marge k) [0, 1, 2, 3] = b64_group n"
proof -
  have m: "(63 :: word32) = mask 6" by (simp add: mask_eq_exp_minus_1)
  have i: "base64_out_char_index marge k = n div 2 ^ ((4 - k - 1) * 6) mod 64" for k
    unfolding base64_out_char_index_def m take_bit_eq_mask [symmetric] unsigned_take_bit_eq unat_drop_bit_eq assms(1)
    by (simp add: take_bit_eq_mod drop_bit_eq_div [where 'a = nat])
  have "n div 262144 mod 64 = n div 262144" using assms(2) by (simp add: div_less_iff_less_mult)
  then show ?thesis by (simp add: i b64_group_def)
qed

lemma group_eq:
  "map (\<lambda>k. base64_chars ! base64_out_char_index (push_bit 16 (ucast a) OR push_bit 8 (ucast b) OR push_bit 0 (ucast c)) k) [0, 1, 2, 3]
    = b64_group (unat a * 65536 + unat b * 256 + unat c)" for a b c :: byte
proof -
  have "le_val [c, b, a] < 256 ^ 3" using le_val_less [of "[c, b, a]"] by simp
  then have "unat (word_of_nat (le_val [c, b, a]) :: word32) = le_val [c, b, a]" unfolding unat_of_nat by (intro mod_less) simp
  moreover have "le_val [c, b, a] = unat a * 65536 + unat b * 256 + unat c" by simp
  ultimately show ?thesis unfolding marge_eq using \<open>le_val [c, b, a] < 256 ^ 3\<close> by (intro index_eq) (simp_all only:, simp)
qed

text \<open>The output before the padding is put in.\<close>

fun b64_raw :: "byte list \<Rightarrow> byte list" where
  "b64_raw [] = []"
| "b64_raw [a] = b64_group (unat a * 65536)"
| "b64_raw [a, b] = b64_group (unat a * 65536 + unat b * 256)"
| "b64_raw (a # b # c # r) = b64_group (unat a * 65536 + unat b * 256 + unat c) @ b64_raw r"

lemma length_b64_group [simp]: "length (b64_group n) = 4" by (simp add: b64_group_def)

lemma length_b64_raw: "length (b64_raw m) = 4 * ((length m + 2) div 3)"
proof (induction m rule: b64_raw.induct)
  case (4 a b c r)
  have "length (a # b # c # r) + 2 = (length r + 2) + 3" by simp
  then have "(length (a # b # c # r) + 2) div 3 = Suc ((length r + 2) div 3)" by (simp only: div3_add)
  then show ?case using 4 by simp
qed simp_all

abbreviation (input) "b64_pad m \<equiv> (if length m mod 3 \<noteq> 0 then 3 - length m mod 3 else 0)"

lemma replicate_two: "replicate 2 x = [x, x]" by (simp add: numeral_2_eq_2)

lemma b64_eq: "b64 m = take (length (b64_raw m) - b64_pad m) (b64_raw m) @ replicate (b64_pad m) 61"
proof (induction m rule: b64_raw.induct)
  case (4 a b c r)
  have q: "b64_pad (a # b # c # r) = b64_pad r" by simp
  have l: "b64_pad r \<le> length (b64_raw r)" by (cases r rule: b64_raw.cases) auto
  define p where "p = b64_pad r"
  note p = q [folded p_def] l [folded p_def] 4 [folded p_def]
  define raw where "raw = b64_raw r"
  have t: "take (length (g @ raw) - p) (g @ raw) = g @ take (length raw - p) raw" if "length g = 4" for g
    using that p(2) by (simp add: raw_def)
  show ?case unfolding p(1) b64_raw.simps b64.simps p(3) raw_def [symmetric] t [OF length_b64_group] by (rule append.assoc [symmetric])
next
  case (2 a)
  have "b64_pad [a] = 2" by simp
  then show ?case by (simp only: b64.simps b64_raw.simps length_b64_group replicate_two) simp
next
  case (3 a b)
  have "b64_pad [a, b] = 1" by simp
  then show ?case by (simp only: b64.simps b64_raw.simps length_b64_group) simp
qed simp

lemma length_b64: "length (b64 m) = 4 * ((length m + 2) div 3)"
proof -
  have "b64_pad m \<le> length (b64_raw m)" by (cases m rule: b64_raw.cases) auto
  then show ?thesis unfolding b64_eq using length_b64_raw [of m] by simp
qed

section \<open>The loops\<close>

lemma base64_loop_ok:
  assumes n: "n \<le> length input" and cap: "length output = cap" "4 \<le> cap" "cap < 2 ^ 64"
  shows "i \<le> n \<Longrightarrow> length out = cap \<Longrightarrow> j + 4 * ((n - i + 2) div 3) < cap \<Longrightarrow>
    base64_loop input n out cap i j = Some (blit out j (b64_raw (drop i (take n input))), j + 4 * ((n - i + 2) div 3))"
proof (induction "n - i" arbitrary: i j out rule: less_induct)
  case less
  have c: "(cap + 2 ^ 64 - 4) mod 2 ^ 64 = cap - 4" using cap by (simp add: le_mod_geq)
  show ?case
  proof (cases "i < n")
    case False
    then show ?thesis using less.prems by (subst base64_loop.simps) simp
  next
    case True
    define rest where "rest = drop i (take n input)"
    have rest: "length rest = n - i" "\<And>k. k < n - i \<Longrightarrow> rest ! k = input ! (i + k)" using n by (simp_all add: rest_def)
    have v: "base64_get_array_value input (i + k) n = Some (if k < n - i then rest ! k else 0)" for k
      using n rest(2) [of k] by (auto simp: base64_get_array_value_def char_at_def)
    define w where "w k = (if k < n - i then rest ! k else 0)" for k
    have v: "base64_get_array_value input (i + k) n = Some (w k)" for k using v by (simp add: w_def)
    define g where "g = b64_group (unat (w 0) * 65536 + unat (w 1) * 256 + unat (w 2))"
    have g: "length g = 4" by (simp add: g_def)
    have div3: "(n - i + 2) div 3 = Suc ((n - (i + 3) + 2) div 3)"
    proof (cases "3 \<le> n - i")
      case True
      then have "n - i + 2 = (n - (i + 3) + 2) + 3" by linarith
      then show ?thesis by (simp only: div3_add)
    next
      case False
      then have "n - i = 1 \<or> n - i = 2" using \<open>i < n\<close> by linarith
      then show ?thesis by auto
    qed
    have "j + 4 < cap" using less.prems(3) unfolding div3 by simp
    then have fit: "j + 4 \<le> cap" "j < cap - 4" by linarith+
    have po: "poke out j g = Some (blit out j g)" "length (blit out j g) = cap" using fit g less.prems(2) by simp_all
    have step: "base64_loop input n out cap i j = base64_loop input n (blit out j g) cap (i + 3) (j + 4)"
      using True fit(2) po(1) unfolding c base64_loop.simps [of input n out cap i j] v option.case Let_def group_eq g_def [symmetric] by simp
    have raw: "b64_raw rest = g @ b64_raw (drop 3 rest)"
    proof -
      consider a where "rest = [a]" | a b where "rest = [a, b]" | a b c r where "rest = a # b # c # r"
        using rest(1) True by (cases rest rule: b64_raw.cases) auto
      then show ?thesis by cases (simp_all add: g_def w_def rest(1) [symmetric])
    qed
    have dr: "drop 3 rest = drop (i + 3) (take n input)" by (simp add: rest_def add.commute)
    show ?thesis
    proof (cases "i + 3 \<le> n")
      case True2: True
      have "base64_loop input n (blit out j g) cap (i + 3) (j + 4) =
        Some (blit (blit out j g) (j + 4) (b64_raw (drop (i + 3) (take n input))), j + 4 + 4 * ((n - (i + 3) + 2) div 3))"
        using less.prems div3 True2 \<open>i < n\<close> po(2) by (intro less.hyps) simp_all
      moreover have "blit (blit out j g) (j + 4) (b64_raw (drop (i + 3) (take n input))) = blit out j (b64_raw rest)"
        unfolding raw dr using blit_blit_next [of j g "b64_raw (drop (i + 3) (take n input))" out] less.prems div3 n True2
        by (simp add: g length_b64_raw)
      ultimately show ?thesis unfolding step rest_def [symmetric] using div3 by simp
    next
      case False
      then have "drop 3 rest = []" "(n - (i + 3) + 2) div 3 = 0" using rest(1) by simp_all
      moreover have "base64_loop input n (blit out j g) cap (i + 3) (j + 4) = Some (blit out j g, j + 4)"
        using False by (subst base64_loop.simps) simp
      ultimately show ?thesis unfolding step rest_def [symmetric] raw div3 by simp
    qed
  qed
qed



lemma padding_loop_ok:
  "p \<le> k \<Longrightarrow> k \<le> length out \<Longrightarrow> padding_loop k out [1..<p + 1] = Some (blit out (k - p) (replicate p 61))"
proof (induction p)
  case 0
  then show ?case by simp
next
  case (Suc p)
  have snoc: "padding_loop k out (xs @ [i]) = Option.bind (padding_loop k out xs) (\<lambda>out. if i \<le> k then poke out (k - i) [61] else None)" for xs i out
    by (induction xs arbitrary: out) (auto split: Option.bind_split)
  have "blit (blit out (k - p) (replicate p 61)) (k - Suc p) [61] = blit out (k - Suc p) (replicate (Suc p) 61)"
    using Suc.prems by (intro nth_equalityI) (auto simp: nth_blit nth_Cons')
  then show ?case using Suc snoc [of out "[1..<p + 1]" "Suc p"] by simp
qed

lemma b64_pad_le: "b64_pad m \<le> length (b64_raw m)"
  by (cases m rule: b64_raw.cases) auto

lemma base64_encode_ok:
  assumes n: "0 < n" "n \<le> length input" and cap: "length output = cap" "4 * ((n + 2) div 3) < cap" "cap < 2 ^ 64"
  shows "base64_encode input n output cap = Some (True, blit output 0 (b64 (take n input) @ [0]))"
proof -
  define m where "m = take n input"
  have lm: "length m = n" using n by (simp add: m_def)
  define r where "r = b64_raw m"
  define p where "p = b64_pad m"
  have lr: "length r = 4 * ((n + 2) div 3)" using length_b64_raw [of m] lm by (simp add: r_def)
  have p: "p \<le> length r" "p = (if n mod 3 \<noteq> 0 then 3 - n mod 3 else 0)" using b64_pad_le [of m] lm by (simp_all add: p_def r_def)
  have eq: "b64 m = take (length r - p) r @ replicate p 61" using b64_eq [of m] by (simp add: r_def p_def)
  have "1 \<le> (n + 2) div 3" using n(1) by (simp add: Suc_le_eq div_greater_zero_iff)
  then have c4: "4 < cap" using cap(2) by linarith
  then have c: "(cap + 2 ^ 64 - 4) mod 2 ^ 64 = cap - 4" using cap(3) by (simp add: le_mod_geq)
  have loop: "base64_loop input n output cap 0 0 = Some (blit output 0 r, length r)"
    using base64_loop_ok [OF n(2) cap(1) _ cap(3), where i = 0 and j = 0 and out = "output"] c4 cap lr by (simp add: r_def m_def)
  have pl: "padding_loop (length r) (blit output 0 r) [1..<p + 1] = Some (blit (blit output 0 r) (length r - p) (replicate p 61))"
    using p(1) cap lr by (intro padding_loop_ok) simp_all
  have b: "blit (blit output 0 r) (length r - p) (replicate p 61) = blit output 0 (b64 m)"
    unfolding eq using p(1) cap lr by (simp add: blit_def)
  have l: "length (b64 m) = length r" using p(1) by (simp add: eq)
  have fin: "poke (blit output 0 (b64 m)) (length r) [0] = Some (blit output 0 (b64 m @ [0]))"
    using l cap lr by (simp add: blit_def)
  have "base64_encode input n output cap = (do {
      output \<leftarrow> padding_loop (length r) (blit output 0 r) [1..<p + 1];
      output \<leftarrow> poke output (length r) [0];
      Some (True, output) })"
    using n(1) c4 unfolding base64_encode_def c loop Let_def p(2) by simp
  then show ?thesis unfolding pl b Option.bind.bind_lunit fin m_def [symmetric] by simp
qed

section \<open>The test for base64\<close>

lemma chars_ok: "d < 64 \<Longrightarrow> is_base64_char (base64_chars ! d) \<and> base64_chars ! d \<noteq> 61 \<and> base64_chars ! d \<noteq> 0"
proof -
  assume "d < 64"
  moreover have "length base64_chars = 64" by (simp add: base64_chars_def)
  moreover have "\<forall>c \<in> set base64_chars. is_base64_char c \<and> c \<noteq> 61 \<and> c \<noteq> 0"
    by (simp add: base64_chars_def is_base64_char_def is_lower_def is_upper_def is_digit_def)
  ultimately show ?thesis by simp
qed

lemma raw_chars: "c \<in> set (b64_raw m) \<Longrightarrow> \<exists>d < 64. c = base64_chars ! d"
proof (induction m rule: b64_raw.induct)
  have g: "c \<in> set (b64_group n) \<Longrightarrow> n < 16777216 \<Longrightarrow> \<exists>d < 64. c = base64_chars ! d" for n
    by (auto simp: b64_group_def div_less_iff_less_mult intro: exI [of _ "n div 262144"] exI [of _ "n div 4096 mod 64"] exI [of _ "n div 64 mod 64"] exI [of _ "n mod 64"])
  have l: "unat a * 65536 + unat b * 256 + unat d < 16777216" for a b d :: byte
    using unat_byte_less [of a] unat_byte_less [of b] unat_byte_less [of d] by linarith
  {
    case 1
    then show ?case by simp
  next
    case (2 a)
    then show ?case using g [of "unat a * 65536"] l [of a 0 0] by simp
  next
    case (3 a b)
    then show ?case using g [of "unat a * 65536 + unat b * 256"] l [of a b 0] by simp
  next
    case (4 a b d r)
    then show ?case using g [of "unat a * 65536 + unat b * 256 + unat d"] l [of a b d] by auto
  }
qed

lemma all_chars_eq:
  "\<forall>i \<in> set xs. i < length s \<Longrightarrow> all_chars P s xs = Some (\<forall>i \<in> set xs. P (s ! i))"
  by (induction xs) (auto simp: char_at_def)

lemma is_base64_encoded:
  assumes "m \<noteq> []"
  shows "is_base64 (b64 m @ [0]) = Some True"
proof -
  define r where "r = b64_raw m"
  define p where "p = b64_pad m"
  have eq: "b64 m = take (length r - p) r @ replicate p 61" using b64_eq [of m] by (simp add: r_def p_def)
  have p: "p \<le> 2" "p \<le> length r" using b64_pad_le [of m] by (auto simp: p_def r_def)
  define n where "n = length (b64 m)"
  have n: "n = length r" using p by (simp add: n_def eq)
  have "1 \<le> (length m + 2) div 3" using assms by (cases m) (simp_all add: Suc_le_eq div_greater_zero_iff)
  then have n4: "4 \<le> n" "n mod 4 = 0" using length_b64 [of m] by (simp_all add: n_def)
  have ch: "\<exists>d < 64. b64 m ! i = base64_chars ! d" if "i < n - p" for i
    using that raw_chars [of "r ! i" m] n by (auto simp: eq nth_append r_def)
  have pad: "b64 m ! i = 61" if "n - p \<le> i" "i < n" for i
    using that n p by (auto simp: eq nth_append)
  have no0: "0 \<notin> set (b64 m)"
  proof
    assume "0 \<in> set (b64 m)"
    then obtain i where "i < n" "b64 m ! i = 0" by (auto simp: in_set_conv_nth n_def)
    then show False using ch [of i] pad [of i] chars_ok by (cases "i < n - p") force+
  qed
  have len: "nostr_strlen (b64 m @ [0]) = Some n" using strlen_loop_eq [of 0 "b64 m @ [0]"] cstr_append [OF no0, of "[]"] by (simp add: nostr_strlen_def n_def)
  have at: "(b64 m @ [0]) ! i = b64 m ! i" if "i < n" for i using that by (simp add: nth_append n_def)
  have is61: "b64 m ! i = 61 \<longleftrightarrow> n - p \<le> i" if "i < n" for i
    using that ch [of i] pad [of i] chars_ok by (cases "i < n - p") force+
  have "p = 0 \<or> p = 1 \<or> p = 2" using p by linarith
  moreover have "char_at (b64 m @ [0]) (n - 1) = Some (b64 m ! (n - 1))" "char_at (b64 m @ [0]) (n - 2) = Some (b64 m ! (n - 2))"
    using n4(1) at [of "n - 1"] at [of "n - 2"] by (simp_all add: char_at_def n_def [symmetric])
  moreover have "b64 m ! (n - 1) = 61 \<longleftrightarrow> 1 \<le> p" "b64 m ! (n - 2) = 61 \<longleftrightarrow> 2 \<le> p"
    using n4(1) is61 [of "n - 1"] is61 [of "n - 2"] by auto
  moreover have "[1..<3] = [1, 2 :: nat]" by (simp add: upt_rec)
  ultimately have cp: "count_padding (b64 m @ [0]) n [1..<3] 0 = Some p" by auto
  have a1: "all_chars is_base64_char (b64 m @ [0]) [0..<n - p] = Some True"
    using all_chars_eq [of "[0..<n - p]" "b64 m @ [0]" is_base64_char] at ch chars_ok by (force simp: n_def)
  have a2: "all_chars (\<lambda>c. c = 61) (b64 m @ [0]) [n - p..<n] = Some True"
    using all_chars_eq [of "[n - p..<n]" "b64 m @ [0]" "\<lambda>c. c = 61"] at pad by (force simp: n_def)
  show ?thesis using n4 p(1) unfolding is_base64_def len Option.bind.bind_lunit cp Let_def a1 a2 by simp
qed

section \<open>The accept key\<close>

lemma length_guid: "length websocket_accept_guid = 36" by (simp add: websocket_accept_guid_def)

lemma guid_no_0: "0 \<notin> set websocket_accept_guid" by (simp add: websocket_accept_guid_def)

lemma length_sha1_ref: "length (sha1_ref m) = 20"
proof -
  have "length (concat (map (\<lambda>w. rev (le_bytes 4 (unat w))) h)) = 4 * length h" for h :: "word32 list" by (induction h) simp_all
  note c = this
  show ?thesis unfolding sha1_ref_def c length_state by simp
qed

lemma generate_websocket_acceptkey_ok:
  assumes key: "0 \<in> set client_key" "length (cstr client_key) \<le> 219"
    and stack: "length concatenated = 256" "length (sc_buffer ctx0) = 64"
    and out: "length accept_key = cap" "128 < cap" "cap < 2 ^ 64"
  shows "generate_websocket_acceptkey concatenated ctx0 client_key cap accept_key =
    Some (True, blit accept_key 0 (b64 (sha1_ref (cstr client_key @ websocket_accept_guid)) @ [0]))"
proof -
  define k where "k = cstr client_key"
  define m where "m = k @ websocket_accept_guid"
  have c: "(cap + 2 ^ 64 - 128) mod 2 ^ 64 = cap - 128" using out by (simp add: le_mod_geq)
  have k: "strlen_loop client_key 0 = Some (length k)" "peek client_key 0 (length k) = Some k" "length k \<le> 219"
    using key strlen_loop_eq [of 0 client_key] cstr_length [OF key(1)] cstr_take [of client_key]
    by (simp_all add: k_def slice_def)
  have g: "strlen_loop (websocket_accept_guid @ [0]) 0 = Some 36" "peek (websocket_accept_guid @ [0]) 0 36 = Some websocket_accept_guid"
    using strlen_loop_eq [of 0 "websocket_accept_guid @ [0]"] cstr_append [OF guid_no_0, of "[]"] length_guid by (simp_all add: slice_def)
  have lm: "length m = length k + 36" by (simp add: m_def length_guid)
  define c3 where "c3 = blit concatenated 0 (m @ [0])"
  have p1: "poke concatenated 0 k = Some (blit concatenated 0 k)" using k(3) stack by simp
  have p2: "poke (blit concatenated 0 k) (length k) websocket_accept_guid = Some (blit concatenated 0 m)"
    using k(3) stack blit_blit_next [of 0 k websocket_accept_guid concatenated] by (simp add: length_guid m_def)
  have p3: "poke (blit concatenated 0 m) (length k + 36) [0] = Some c3"
    using k(3) stack lm blit_blit_next [of 0 m "[0]" concatenated] by (simp add: c3_def)
  have l3: "length c3 = 256" using k(3) stack lm by (simp add: c3_def)
  have "0 \<notin> set m" using guid_no_0 cstr_no_0 [of client_key] by (simp add: m_def k_def)
  then have c3: "cstr c3 = m" "take (length m) c3 = m"
    using cstr_append [of m "drop (length m + 1) concatenated"] by (simp_all add: c3_def blit_def)
  have n: "nostr_strnlen c3 256 = Some (length m)"
    using nostr_strnlen_eq [of 256 c3] l3 k(3) lm by (simp add: c3(1))
  have s: "sha1 ctx0 c3 (length m) (replicate 20 0) = Some (sha1_ref m)"
    using sha1_eq [of m ctx0 "replicate 20 0" c3] k(3) lm stack(2) l3 c3(2) by (simp add: blit_0_full length_sha1_ref)
  have b: "base64_encode (sha1_ref m) 20 accept_key cap = Some (True, blit accept_key 0 (b64 (sha1_ref m) @ [0]))"
    using base64_encode_ok [of 20 "sha1_ref m" accept_key cap] out by (simp add: length_sha1_ref)
  show ?thesis
    unfolding generate_websocket_acceptkey_def c k(1,2) g Option.bind.bind_lunit p1 p2 p3 n s b
    using out by (simp add: m_def k_def)
qed

lemma generate_websocket_acceptkey_long:
  assumes key: "0 \<in> set client_key" "220 \<le> length (cstr client_key)"
    and stack: "length concatenated = 256" and out: "128 < cap" "cap < 2 ^ 64"
  shows "generate_websocket_acceptkey concatenated ctx0 client_key cap accept_key = None"
proof -
  define k where "k = cstr client_key"
  have c: "(cap + 2 ^ 64 - 128) mod 2 ^ 64 = cap - 128" using out by (simp add: le_mod_geq)
  have k: "strlen_loop client_key 0 = Some (length k)" "peek client_key 0 (length k) = Some k" "220 \<le> length k"
    using key strlen_loop_eq [of 0 client_key] cstr_length [OF key(1)] cstr_take [of client_key]
    by (simp_all add: k_def slice_def)
  have g: "strlen_loop (websocket_accept_guid @ [0]) 0 = Some 36" "peek (websocket_accept_guid @ [0]) 0 36 = Some websocket_accept_guid"
    using strlen_loop_eq [of 0 "websocket_accept_guid @ [0]"] cstr_append [OF guid_no_0, of "[]"] length_guid by (simp_all add: slice_def)
  show ?thesis
    unfolding generate_websocket_acceptkey_def c k(1,2) g Option.bind.bind_lunit
    using out k(3) stack by (auto simp: poke_def length_guid split: Option.bind_split)
qed

section \<open>Properties\<close>

text \<open>
  C9: The digest is that of the definition of SHA-1, for every message of fewer than \<open>2 ^ 32\<close> bytes: the
  schedule updated in place, the rounds on rotating registers and the bytewise buffering
  compute the same as the padded message in blocks.
\<close>

theorem sha1_refines_fips:
  assumes "length m < 2 ^ 32" "length (sc_buffer ctx0) = 64" "20 \<le> length output" "length m \<le> length input" "m = take (length m) input"
  shows "sha1 ctx0 input (length m) output = Some (blit output 0 (sha1_ref m))"
  by (rule sha1_eq [OF assms])

theorem sha1_refines_fips_witness:
  "sha1 \<lparr>sc_state = [], sc_count0 = 7, sc_count1 = 8, sc_buffer = replicate 64 9\<rparr> [97, 98, 99, 0] 3 (replicate 20 0) =
     Some (sha1_ref [97, 98, 99])"
  using sha1_refines_fips [of "[97, 98, 99]" "\<lparr>sc_state = [], sc_count0 = 7, sc_count1 = 8, sc_buffer = replicate 64 9\<rparr>"
    "replicate 20 0" "[97, 98, 99, 0]"]
  by (simp add: blit_0_full length_sha1_ref numeral_3_eq_3)

text \<open>
  C40: A client key of 220 bytes or more is written over the end of the array of 256 bytes on the stack in
  which it is joined with the GUID.
\<close>

theorem generate_websocket_acceptkey_overflows_stack:
  assumes "0 \<in> set client_key" "220 \<le> length (cstr client_key)" "length concatenated = 256" "128 < cap" "cap < 2 ^ 64"
  shows "generate_websocket_acceptkey concatenated ctx0 client_key cap accept_key = None"
  by (rule generate_websocket_acceptkey_long [OF assms])

theorem generate_websocket_acceptkey_overflows_stack_witness:
  "is_base64 (replicate 220 65 @ [0]) = Some True \<and>
   generate_websocket_acceptkey (replicate 256 1) \<lparr>sc_state = [], sc_count0 = 7, sc_count1 = 8, sc_buffer = replicate 64 9\<rparr> (replicate 220 65 @ [0]) 256 (replicate 256 0) = None"
proof -
  have "b64 (replicate (3 * n) 0) = replicate (4 * n) 65" for n
  proof (induction n)
    case (Suc n)
    have "3 * Suc n = Suc (Suc (Suc (3 * n)))" "4 * Suc n = Suc (Suc (Suc (Suc (4 * n))))" by simp_all
    then show ?case using Suc by (simp only: replicate_Suc b64.simps) (simp add: b64_group_def base64_chars_def)
  qed simp
  from this [of 55] have "b64 (replicate 165 0) = replicate 220 65" by simp
  moreover have "cstr (replicate 220 65 @ [0]) = replicate 220 65" using cstr_append [of "replicate 220 65" "[]"] by simp
  ultimately show ?thesis
    using generate_websocket_acceptkey_overflows_stack [of "replicate 220 65 @ [0]" "replicate 256 1" 256] is_base64_encoded [of "replicate 165 0"] by simp
qed

end
