(* ===== verification/Http.thy ===== *)
theory Http
  imports CString
begin

text \<open>
  The HTTP request of the handshake: \<open>src/http/http.c\<close>. The structure \<open>HTTPRequest\<close> is one region of
  9512 bytes, since nothing checks that a keyword fits its array: the method has 16 bytes, the target 256, the
  version 16, each of the 32 headers 32 bytes of key and 256 of value, and \<open>header_size\<close> ends it.
  A pointer to a field is its offset. A keyword that leaves the structure is \<open>None\<close>.
\<close>

section \<open>The structure\<close>

abbreviation (input) "HTTP_METHOD_CAPACITY \<equiv> (16 :: nat)"
abbreviation (input) "HTTP_TARGET_CAPACITY \<equiv> (256 :: nat)"
abbreviation (input) "HTTP_VERSION_CAPACITY \<equiv> (16 :: nat)"
abbreviation (input) "HTTP_HEADER_KEY_CAPACITY \<equiv> (32 :: nat)"
abbreviation (input) "HTTP_HEADER_VALUE_CAPACITY \<equiv> (256 :: nat)"
abbreviation (input) "HTTP_HEADER_CAPACITY \<equiv> (32 :: nat)"

definition off_method :: nat where "off_method = 0"
definition off_target :: nat where "off_target = 16"
definition off_version :: nat where "off_version = 272"
definition off_key :: "nat \<Rightarrow> nat" where "off_key i = 288 + 288 * i"
definition off_value :: "nat \<Rightarrow> nat" where "off_value i = 288 + 288 * i + 32"
definition off_header_size :: nat where "off_header_size = 9504"
definition sizeof_request :: nat where "sizeof_request = 9512"

definition header_size :: "byte list \<Rightarrow> nat" where "header_size request = get_le 8 off_header_size request"

section \<open>Parsing\<close>

definition extract_keyword :: "byte list \<Rightarrow> nat \<Rightarrow> byte \<Rightarrow> byte list \<Rightarrow> nat \<Rightarrow> (int \<times> byte list) option" where
  "extract_keyword buffer buffer_size token request out = do {
     keyword_length \<leftarrow> skip_token buffer buffer_size token;
     if keyword_length = -1 then Some (-1, request)
     else do {
       bs \<leftarrow> peek buffer 0 (nat keyword_length);
       request \<leftarrow> poke request out bs;
       request \<leftarrow> poke request (out + nat keyword_length) [0];
       Some (keyword_length, request)
     }
   }"

definition extract_http_request_line :: "byte list \<Rightarrow> nat \<Rightarrow> byte list \<Rightarrow> (bool \<times> byte list) option" where
  "extract_http_request_line buffer buffer_size request =
     (if buffer_size \<le> 0 then Some (False, request)
      else do {
        (keyword_length, request) \<leftarrow> extract_keyword buffer buffer_size 32 request off_method;
        if keyword_length = -1 then Some (False, request)
        else do {
          let k = nat keyword_length + 1;
          let buffer = drop k buffer;
          let remain_buffer_size = (buffer_size + 2 ^ 64 - k) mod 2 ^ 64;
          (keyword_length, request) \<leftarrow> extract_keyword buffer remain_buffer_size 32 request off_target;
          if keyword_length = -1 then Some (False, request)
          else do {
            let k = nat keyword_length + 1;
            let buffer = drop k buffer;
            let remain_buffer_size = (remain_buffer_size + 2 ^ 64 - k) mod 2 ^ 64;
            (keyword_length, request) \<leftarrow> extract_keyword buffer remain_buffer_size 13 request off_version;
            if keyword_length = -1 then Some (False, request)
            else Some (True, request)
          }
        }
      })"

definition extract_http_request_header_line :: "byte list \<Rightarrow> nat \<Rightarrow> byte list \<Rightarrow> nat \<Rightarrow> (bool \<times> byte list) option" where
  "extract_http_request_header_line buffer buffer_size request i =
     (if buffer_size \<le> 0 then Some (False, request)
      else do {
        (keyword_length, request) \<leftarrow> extract_keyword buffer buffer_size 58 request (off_key i);
        if keyword_length = -1 then Some (False, request)
        else do {
          let k = nat keyword_length + 2;
          let buffer = drop k buffer;
          let remain_buffer_size = (buffer_size + 2 ^ 64 - k) mod 2 ^ 64;
          (keyword_length, request) \<leftarrow> extract_keyword buffer remain_buffer_size 13 request (off_value i);
          if keyword_length = -1 then Some (False, request)
          else Some (True, request)
        }
      })"

text \<open>The result is the outcome, the request and the number of headers.\<close>

function header_loop :: "byte list \<Rightarrow> nat \<Rightarrow> byte list \<Rightarrow> nat \<Rightarrow> nat \<Rightarrow> nat \<Rightarrow> (bool \<times> byte list \<times> nat) option" where
  "header_loop buffer buffer_size request buffer_pos header_pos remain_buffer_size =
     (if buffer_pos < buffer_size \<and> header_pos < HTTP_HEADER_CAPACITY then
        (case extract_http_request_header_line (drop buffer_pos buffer) remain_buffer_size request header_pos of
           None \<Rightarrow> None
         | Some (ok, request) \<Rightarrow>
             if \<not> ok then Some (False, request, header_pos)
             else
               (case skip_next_line (drop buffer_pos buffer) remain_buffer_size of
                  None \<Rightarrow> None
                | Some new_pos \<Rightarrow>
                    (let buffer_pos = buffer_pos + new_pos;
                         remain_buffer_size = (remain_buffer_size + 2 ^ 64 - new_pos) mod 2 ^ 64
                     in case (if buffer_pos + 2 \<le> buffer_size then do {
                                c \<leftarrow> char_at buffer buffer_pos;
                                d \<leftarrow> char_at buffer (buffer_pos + 1);
                                Some (c = 13 \<and> d = 10)
                              } else Some False) of
                          None \<Rightarrow> None
                        | Some True \<Rightarrow> Some (True, request, header_pos + 1)
                        | Some False \<Rightarrow> header_loop buffer buffer_size request buffer_pos (header_pos + 1) remain_buffer_size)))
      else Some (True, request, header_pos))"
  by pat_completeness auto
termination by (relation "measure (\<lambda>(b, n, r, p, h, m). 32 - h)") auto

declare header_loop.simps [simp del]

definition extract_http_request_header :: "byte list \<Rightarrow> nat \<Rightarrow> byte list \<Rightarrow> (bool \<times> byte list) option" where
  "extract_http_request_header buffer buffer_size request =
     (if buffer_size \<le> 0 then Some (False, request)
      else do {
        (ok, request, header_pos) \<leftarrow> header_loop buffer buffer_size request 0 0 buffer_size;
        if \<not> ok then Some (False, request)
        else if header_pos \<le> 0 then Some (False, request)
        else do {
          request \<leftarrow> poke request off_header_size (le_bytes 8 header_pos);
          Some (True, request)
        }
      })"

definition extract_http_request :: "byte list \<Rightarrow> nat \<Rightarrow> byte list \<Rightarrow> (bool \<times> byte list) option" where
  "extract_http_request buffer buffer_size request =
     (if buffer_size \<le> 0 then Some (False, request)
      else do {
        (ok, request) \<leftarrow> extract_http_request_line buffer buffer_size request;
        if \<not> ok then Some (False, request)
        else do {
          new_pos \<leftarrow> skip_next_line buffer buffer_size;
          if new_pos = buffer_size then Some (False, request)
          else extract_http_request_header (drop new_pos buffer) ((buffer_size + 2 ^ 64 - new_pos) mod 2 ^ 64) request
        }
      })"


section \<open>What is parsed\<close>

definition field_is :: "byte list \<Rightarrow> nat \<Rightarrow> byte list \<Rightarrow> bool" where
  "field_is request pos s \<longleftrightarrow> slice request pos (length s + 1) = s @ [0]"

definition header_text :: "byte list \<times> byte list \<Rightarrow> byte list" where
  "header_text = (\<lambda>(k, v). k @ [58, 32] @ v @ [13, 10])"

definition request_text :: "byte list \<Rightarrow> byte list \<Rightarrow> byte list \<Rightarrow> (byte list \<times> byte list) list \<Rightarrow> byte list" where
  "request_text m t v hs = m @ 32 # t @ 32 # v @ [13, 10] @ concat (map header_text hs) @ [13, 10]"

definition header_ok :: "byte list \<times> byte list \<Rightarrow> bool" where
  "header_ok = (\<lambda>(k, v). length k < HTTP_HEADER_KEY_CAPACITY \<and> length v < HTTP_HEADER_VALUE_CAPACITY \<and>
     set k \<inter> {0, 10, 13, 58} = {} \<and> set v \<inter> {0, 10, 13} = {})"

lemma skip_token_found:
  assumes "token \<notin> set s" "length s < n"
  shows "skip_token (s @ token # rest) n token = Some (int (length s))"
proof -
  have *: "skip_token_loop (s @ token # rest) token [k..<n] = Some (int (length s))" if "k \<le> length s" for k
    using that
  proof (induction "length s - k" arbitrary: k)
    case 0
    then have k: "k = length s" "k < n" using assms by simp_all
    then show ?case by (simp add: upt_conv_Cons char_at_def)
  next
    case (Suc j)
    then have k: "k < length s" "k < n" using assms by linarith+
    then have "(s @ token # rest) ! k \<noteq> token" using assms(1) by (auto simp: nth_append)
    moreover have "skip_token_loop (s @ token # rest) token [Suc k..<n] = Some (int (length s))" using Suc k by simp
    ultimately show ?case using k by (simp add: upt_conv_Cons char_at_def)
  qed
  then show ?thesis using assms(2) * [of 0] by (simp add: skip_token_def)
qed

lemma extract_keyword_ok:
  assumes "token \<notin> set s" "length s < n" "out + length s + 1 \<le> length request"
  shows "extract_keyword (s @ token # rest) n token request out = Some (int (length s), blit request out (s @ [0]))"
proof -
  have "blit (blit request out s) (out + length s) [0] = blit request out (s @ [0])"
    using assms(3) by (intro blit_blit_next) simp
  then show ?thesis
    using assms skip_token_found [OF assms(1,2), of rest] by (simp add: extract_keyword_def slice_def)
qed

lemma skip_next_line_ok:
  assumes x: "0 \<notin> set x" "10 \<notin> set x" "13 \<notin> set x" and n: "length x + 2 \<le> n" "n \<noteq> 2" "n < 2 ^ 64"
  shows "skip_next_line (x @ 13 # 10 # rest) n = Some (length x + 2)"
proof -
  have "n \<ge> 2" using n(1) by linarith
  then have lim: "(n + 2 ^ 64 - 1) mod 2 ^ 64 = n - 1" using n(3) by (simp add: le_mod_geq)
  let ?b = "x @ 13 # 10 # rest"
  have *: "skip_next_line_loop ?b (n - 1) k = Some (length x + 2)" if "k \<le> length x" for k
    using that
  proof (induction "length x - k" arbitrary: k)
    case 0
    then show ?case using n(1) by (subst skip_next_line_loop.simps) (simp add: char_at_def nth_append)
  next
    case (Suc j)
    then have k: "k < length x" by linarith
    have c: "?b ! k = x ! k" "x ! k \<in> set x" using k by (simp_all add: nth_append)
    have d: "?b ! (k + 1) \<noteq> 10" 
    proof (cases "k + 1 < length x")
      case True
      then have "x ! (k + 1) \<in> set x" by simp
      then have "x ! (k + 1) \<noteq> 10" using x(2) by metis
      then show ?thesis using True by (simp add: nth_append)
    next
      case False
      then have "k + 1 = length x" using k by linarith
      then show ?thesis by (simp add: nth_append)
    qed
    have "skip_next_line_loop ?b (n - 1) (k + 1) = Some (length x + 2)" using Suc k by simp
    moreover have "x ! k \<noteq> 0" "x ! k \<noteq> 10" using c(2) x by metis+
    ultimately show ?case using k c(1) d n(1) by (subst skip_next_line_loop.simps) (simp add: char_at_def)
  qed
  show ?thesis using * [of 0] n(2) unfolding skip_next_line_def lim by simp
qed

lemma field_is_blit: "pos + length s + 1 \<le> length r \<Longrightarrow> field_is (blit r pos (s @ [0])) pos s"
  by (simp add: field_is_def slice_blit_same)

lemma field_is_other:
  "field_is r pos s \<Longrightarrow> q + length bs \<le> length r \<Longrightarrow> pos + length s + 1 \<le> q \<or> q + length bs \<le> pos \<Longrightarrow> field_is (blit r q bs) pos s"
  by (simp add: field_is_def slice_blit_disjoint)

lemma header_line_ok:
  assumes h: "header_ok (k, v)" and i: "i < 32" and r: "length r = sizeof_request" and n: "length (header_text (k, v)) \<le> n" "n < 2 ^ 64"
  shows "extract_http_request_header_line (header_text (k, v) @ rest) n r i =
    Some (True, blit (blit r (off_key i) (k @ [0])) (off_value i) (v @ [0]))"
proof -
  have H: "length k < 32" "length v < 256" "58 \<notin> set k" "13 \<notin> set v" using h by (auto simp: header_ok_def)
  define lf where "lf = 10 # rest"
  have b: "header_text (k, v) @ rest = k @ 58 # (32 # v @ 13 # lf)" by (simp add: header_text_def lf_def)
  have ln: "length k + length v + 4 \<le> n" using n(1) by (simp add: header_text_def)
  have lr: "off_key i + length k + 1 \<le> length r" "off_value i + length v + 1 \<le> length r"
    using i H(1,2) r by (simp_all add: off_key_def off_value_def sizeof_request_def)
  have kn: "length k < n" using ln by linarith
  have e1: "extract_keyword (k @ 58 # (32 # v @ 13 # lf)) n 58 r (off_key i) = Some (int (length k), blit r (off_key i) (k @ [0]))"
    by (rule extract_keyword_ok [OF H(3) kn lr(1)])
  have m: "(n + 2 ^ 64 - (length k + 2)) mod 2 ^ 64 = n - (length k + 2)" using ln n(2) by (simp add: le_mod_geq)
  have d: "drop (length k + 2) (k @ 58 # (32 # v @ 13 # lf)) = v @ 13 # lf" by simp
  have lr2: "off_value i + length v + 1 \<le> length (blit r (off_key i) (k @ [0]))" using lr by simp
  have vn: "length v < n - (length k + 2)" using ln by linarith
  have e2: "extract_keyword (v @ 13 # lf) (n - (length k + 2)) 13 (blit r (off_key i) (k @ [0])) (off_value i) =
    Some (int (length v), blit (blit r (off_key i) (k @ [0])) (off_value i) (v @ [0]))"
    by (rule extract_keyword_ok [OF H(4) vn lr2])
  have n0: "\<not> n \<le> 0" using kn by simp
  show ?thesis
    unfolding b extract_http_request_header_line_def if_not_P [OF n0] e1 Option.bind.bind_lunit prod.case Let_def nat_int m d e2
    by simp
qed

fun fill_headers :: "byte list \<Rightarrow> nat \<Rightarrow> (byte list \<times> byte list) list \<Rightarrow> byte list" where
  "fill_headers r i [] = r"
| "fill_headers r i ((k, v) # hs) = fill_headers (blit (blit r (off_key i) (k @ [0])) (off_value i) (v @ [0])) (i + 1) hs"

lemma length_fill_one:
  assumes "header_ok (k, v)" "i < 32" "length r = sizeof_request"
  shows "length (blit (blit r (off_key i) (k @ [0])) (off_value i) (v @ [0])) = sizeof_request"
  using assms by (simp add: header_ok_def off_key_def off_value_def sizeof_request_def)

lemma header_loop_ok:
  assumes hs: "hs \<noteq> []" "\<forall>h \<in> set hs. header_ok h" "i + length hs \<le> 32" and r: "length r = sizeof_request"
    and b: "drop pos buffer = concat (map header_text hs) @ [13, 10] @ rest" "pos \<le> length buffer"
    and n: "n = pos + length (concat (map header_text hs)) + 2" "n < 2 ^ 64"
  shows "header_loop buffer n r pos i (n - pos) = Some (True, fill_headers r i hs, i + length hs)"
  using assms
proof (induction hs arbitrary: pos i r)
  case Nil
  then show ?case by simp
next
  case (Cons h hs)
  obtain k v where h: "h = (k, v)" by (cases h)
  have hk: "header_ok (k, v)" and i: "i < 32" using Cons.prems h by simp_all
  define more where "more = concat (map header_text hs) @ [13, 10] @ rest"
  define r1 where "r1 = blit (blit r (off_key i) (k @ [0])) (off_value i) (v @ [0])"
  define x where "x = k @ [58, 32] @ v"
  have lx: "length (header_text (k, v)) = length x + 2" "length x \<ge> 2" by (simp_all add: header_text_def x_def)
  have np: "n - pos = length x + 2 + length (concat (map header_text hs)) + 2" "n - pos < 2 ^ 64" "pos < n"
    using Cons.prems(7,8) lx by (simp_all add: h)
  have dp: "drop pos buffer = header_text (k, v) @ more" using Cons.prems(5) by (simp add: h more_def)
  have dx: "header_text (k, v) @ more = x @ 13 # 10 # more" by (simp add: header_text_def x_def)
  have line: "extract_http_request_header_line (drop pos buffer) (n - pos) r i = Some (True, r1)"
    unfolding dp r1_def using np lx by (intro header_line_ok [OF hk i Cons.prems(4)]) simp_all
  have "0 \<notin> set x" "10 \<notin> set x" "13 \<notin> set x" using hk by (auto simp: x_def header_ok_def)
  then have skip: "skip_next_line (drop pos buffer) (n - pos) = Some (length x + 2)"
    unfolding dp dx using np lx by (intro skip_next_line_ok) simp_all
  define p where "p = pos + (length x + 2)"
  have dm: "drop p buffer = more"
  proof -
    have "drop p buffer = drop (length (header_text (k, v))) (drop pos buffer)" by (simp add: p_def lx(1) add.commute)
    then show ?thesis unfolding dp by simp
  qed
  have pn: "p + 2 \<le> n" "n - p = length (concat (map header_text hs)) + 2" using np by (simp_all add: p_def)
  have pl: "p < length buffer" using dm by (cases "p < length buffer") (simp_all add: more_def)
  have "length more = length buffer - p" using dm by (metis length_drop)
  then have pl2: "p + 1 < length buffer" by (simp add: more_def)
  have at: "buffer ! p = more ! 0" "buffer ! (p + 1) = more ! 1" using nth_drop [of p buffer] pl pl2 by (simp_all add: dm [symmetric])
  have rem: "(n - pos + 2 ^ 64 - (length x + 2)) mod 2 ^ 64 = n - p" using np by (simp add: p_def le_mod_geq)
  have go: "header_loop buffer n r pos i (n - pos) =
    (if more ! 0 = 13 \<and> more ! 1 = 10 then Some (True, r1, i + 1) else header_loop buffer n r1 p (i + 1) (n - p))"
    using np(3) i pn(1) pl pl2 unfolding header_loop.simps [of buffer n r pos i] line option.case prod.case skip Let_def p_def [symmetric] rem
    using at by (auto simp: char_at_def split: bool.split)
  show ?case
  proof (cases hs)
    case Nil
    then have "more ! 0 = 13" "more ! 1 = 10" by (simp_all add: more_def)
    then show ?thesis unfolding go using Nil by (simp add: h r1_def)
  next
    case (Cons h2 hs2)
    obtain k2 v2 where h2: "h2 = (k2, v2)" by (cases h2)
    have "header_ok (k2, v2)" using Cons.prems(2) Cons h2 by simp
    then have "more ! 0 \<noteq> 13"
      by (cases k2) (auto simp: more_def Cons h2 header_text_def header_ok_def)
    moreover have "header_loop buffer n r1 p (i + 1) (n - p) = Some (True, fill_headers r1 (i + 1) hs, i + 1 + length hs)"
      using Cons.prems Cons dm pl pn length_fill_one [OF hk i Cons.prems(4)]
      by (intro Cons.IH) (simp_all add: more_def r1_def)
    ultimately show ?thesis unfolding go by (simp add: h r1_def)
  qed
qed

lemma length_fill: "\<forall>h \<in> set hs. header_ok h \<Longrightarrow> i + length hs \<le> 32 \<Longrightarrow> length r = sizeof_request \<Longrightarrow> length (fill_headers r i hs) = sizeof_request"
  by (induction r i hs rule: fill_headers.induct) (simp_all add: length_fill_one)

lemma fill_other:
  assumes "\<forall>h \<in> set hs. header_ok h" "i + length hs \<le> 32" "length r = sizeof_request" "field_is r pos s" "pos + length s + 1 \<le> off_key i"
  shows "field_is (fill_headers r i hs) pos s"
  using assms
proof (induction r i hs rule: fill_headers.induct)
  case (2 r i k v hs)
  then have hk: "header_ok (k, v)" and i: "i < 32" by simp_all
  have l: "length k < 32" "length v < 256" using hk by (auto simp: header_ok_def)
  have "off_key i + length (k @ [0]) \<le> length r" "off_value i + length (v @ [0]) \<le> length r" "off_key i \<le> off_value i" "off_key i \<le> off_key (i + 1)"
    using i l 2(4) by (simp_all add: off_key_def off_value_def sizeof_request_def)
  then have "field_is (blit (blit r (off_key i) (k @ [0])) (off_value i) (v @ [0])) pos s"
    using 2(5,6) by (intro field_is_other) simp_all
  then show ?case using 2 length_fill_one [OF hk i] \<open>off_key i \<le> off_key (i + 1)\<close> by simp
qed simp

lemma fill_headers_fields:
  assumes "\<forall>h \<in> set hs. header_ok h" "i + length hs \<le> 32" "length r = sizeof_request" "j < length hs"
  shows "field_is (fill_headers r i hs) (off_key (i + j)) (fst (hs ! j)) \<and> field_is (fill_headers r i hs) (off_value (i + j)) (snd (hs ! j))"
  using assms
proof (induction r i hs arbitrary: j rule: fill_headers.induct)
  case (2 r i k v hs)
  then have hk: "header_ok (k, v)" and i: "i < 32" by simp_all
  have l: "length k < 32" "length v < 256" using hk by (auto simp: header_ok_def)
  let ?r = "blit (blit r (off_key i) (k @ [0])) (off_value i) (v @ [0])"
  have f: "off_key i + length (k @ [0]) \<le> length r" "off_value i + length (v @ [0]) \<le> length r"
    using i l 2(4) by (simp_all add: off_key_def off_value_def sizeof_request_def)
  have lr: "length ?r = sizeof_request" by (rule length_fill_one [OF hk i 2(4)])
  show ?case
  proof (cases j)
    case 0
    have "field_is ?r (off_key i) k" "field_is ?r (off_value i) v"
      using f l by (auto intro!: field_is_other field_is_blit simp: off_key_def off_value_def)
    moreover have "off_key i + length k + 1 \<le> off_key (i + 1)" "off_value i + length v + 1 \<le> off_key (i + 1)"
      using l by (simp_all add: off_key_def off_value_def)
    ultimately show ?thesis using 0 2 lr fill_other [of hs "i + 1" ?r] by simp
  next
    case (Suc j')
    then show ?thesis using 2 lr "2.IH" [of j'] by simp
  qed
qed simp

lemma request_line_ok:
  assumes m: "32 \<notin> set m" "length m < HTTP_METHOD_CAPACITY" and t: "32 \<notin> set t" "length t < HTTP_TARGET_CAPACITY"
    and v: "13 \<notin> set v" "length v < HTTP_VERSION_CAPACITY" and r: "length request = sizeof_request"
    and n: "length m + length t + length v + 2 < n" "n < 2 ^ 64"
  defines "r3 \<equiv> blit (blit (blit request off_method (m @ [0])) off_target (t @ [0])) off_version (v @ [0])"
  shows "extract_http_request_line (m @ 32 # (t @ 32 # (v @ 13 # lf))) n request = Some (True, r3)"
    "length r3 = sizeof_request" "field_is r3 off_method m" "field_is r3 off_target t" "field_is r3 off_version v"
proof -
  have off: "off_method + length m + 1 \<le> sizeof_request" "off_target + length t + 1 \<le> sizeof_request" "off_version + length v + 1 \<le> sizeof_request"
    using m t v by (simp_all add: off_method_def off_target_def off_version_def sizeof_request_def)
  define r1 r2 where "r1 = blit request off_method (m @ [0])" and "r2 = blit r1 off_target (t @ [0])"
  have r3: "r3 = blit r2 off_version (v @ [0])" by (simp add: r3_def r2_def r1_def)
  have len: "length r1 = sizeof_request" "length r2 = sizeof_request" using r off by (simp_all add: r1_def r2_def)
  have e1: "extract_keyword (m @ 32 # (t @ 32 # (v @ 13 # lf))) n 32 request off_method = Some (int (length m), r1)"
    unfolding r1_def using m(1) n off r by (intro extract_keyword_ok) simp_all
  have n1: "(n + 2 ^ 64 - (length m + 1)) mod 2 ^ 64 = n - (length m + 1)" using n by (simp add: le_mod_geq)
  have e2: "extract_keyword (t @ 32 # (v @ 13 # lf)) (n - (length m + 1)) 32 r1 off_target = Some (int (length t), r2)"
    unfolding r2_def using t(1) n off len by (intro extract_keyword_ok) simp_all
  have n2: "(n - (length m + 1) + 2 ^ 64 - (length t + 1)) mod 2 ^ 64 = n - (length m + 1) - (length t + 1)" using n by (simp add: le_mod_geq)
  have e3: "extract_keyword (v @ 13 # lf) (n - (length m + 1) - (length t + 1)) 13 r2 off_version = Some (int (length v), r3)"
    unfolding r3 using v n off len by (intro extract_keyword_ok) auto
  have n0: "\<not> n \<le> 0" using n by simp
  have d: "drop (length m + 1) (m @ 32 # (t @ 32 # (v @ 13 # lf))) = t @ 32 # (v @ 13 # lf)" "drop (length t + 1) (t @ 32 # (v @ 13 # lf)) = v @ 13 # lf"
    by simp_all
  show "extract_http_request_line (m @ 32 # (t @ 32 # (v @ 13 # lf))) n request = Some (True, r3)"
    unfolding extract_http_request_line_def if_not_P [OF n0] e1 Option.bind.bind_lunit prod.case Let_def nat_int n1 d e2 n2 e3 by simp
  show "length r3 = sizeof_request" using len off by (simp add: r3)
  show "field_is r3 off_method m" "field_is r3 off_target t" "field_is r3 off_version v"
    using m(2) t(2) v r len by (auto intro!: field_is_other field_is_blit simp: r3 r2_def r1_def off_method_def off_target_def off_version_def sizeof_request_def)
qed

lemma extract_http_request_ok:
  assumes m: "32 \<notin> set m" "length m < HTTP_METHOD_CAPACITY" and t: "32 \<notin> set t" "length t < HTTP_TARGET_CAPACITY"
    and v: "length v < HTTP_VERSION_CAPACITY"
    and line: "set (m @ t @ v) \<inter> {0, 10, 13} = {}"
    and hs: "hs \<noteq> []" "\<forall>h \<in> set hs. header_ok h" "length hs \<le> HTTP_HEADER_CAPACITY"
    and r: "length request = sizeof_request" and n: "n = length (request_text m t v hs)" "n < 2 ^ 64"
  shows "\<exists>req. extract_http_request (request_text m t v hs @ rest) n request = Some (True, req) \<and> length req = sizeof_request \<and>
    field_is req off_method m \<and> field_is req off_target t \<and> field_is req off_version v \<and> header_size req = length hs \<and>
    (\<forall>j < length hs. field_is req (off_key j) (fst (hs ! j)) \<and> field_is req (off_value j) (snd (hs ! j)))"
proof -
  define H where "H = concat (map header_text hs) @ [13, 10] @ rest"
  define lf where "lf = 10 # H"
  define x where "x = m @ 32 # t @ 32 # v"
  have buf: "request_text m t v hs @ rest = m @ 32 # (t @ 32 # (v @ 13 # lf))" by (simp add: request_text_def H_def lf_def)
  have ln: "n = length m + length t + length v + 4 + length (concat (map header_text hs)) + 2" by (simp add: n(1) request_text_def)
  define r3 where "r3 = blit (blit (blit request off_method (m @ [0])) off_target (t @ [0])) off_version (v @ [0])"
  have v13: "13 \<notin> set v" and ln2: "length m + length t + length v + 2 < n" using line ln by auto
  note RL = request_line_ok [OF m t v13 v r ln2 n(2), folded r3_def]
  have rl: "extract_http_request_line (m @ 32 # (t @ 32 # (v @ 13 # lf))) n request = Some (True, r3)" and len: "length r3 = sizeof_request" by (rule RL)+
  have n0: "\<not> n \<le> 0" using ln by simp
  have bx: "m @ 32 # (t @ 32 # (v @ 13 # lf)) = x @ 13 # 10 # H" by (simp add: x_def lf_def)
  have lx: "length x + 2 \<le> n" "n \<noteq> 2" "length x + 2 \<noteq> n" using ln by (simp_all add: x_def)
  have "0 \<notin> set x" "10 \<notin> set x" "13 \<notin> set x" using line by (auto simp: x_def)
  then have skip: "skip_next_line (m @ 32 # (t @ 32 # (v @ 13 # lf))) n = Some (length x + 2)"
    unfolding bx using lx n(2) by (intro skip_next_line_ok)
  define n' where "n' = n - (length x + 2)"
  have n': "(n + 2 ^ 64 - (length x + 2)) mod 2 ^ 64 = n'" "n' = length (concat (map header_text hs)) + 2" "n' < 2 ^ 64" "\<not> n' \<le> 0"
    using ln n(2) by (simp_all add: n'_def x_def le_mod_geq)
  have dH: "drop (length x + 2) (m @ 32 # (t @ 32 # (v @ 13 # lf))) = H" unfolding bx by simp
  have loop: "header_loop H n' r3 0 0 n' = Some (True, fill_headers r3 0 hs, length hs)"
    using header_loop_ok [OF hs(1,2), of 0 r3 0 H rest n'] hs(3) len n' by (simp add: H_def)
  define r4 where "r4 = fill_headers r3 0 hs"
  have l4: "length r4 = sizeof_request" unfolding r4_def using hs len by (intro length_fill) simp_all
  define req where "req = blit r4 off_header_size (le_bytes 8 (length hs))"
  have p: "poke r4 off_header_size (le_bytes 8 (length hs)) = Some req" using l4 by (simp add: req_def off_header_size_def sizeof_request_def)
  have pos: "\<not> length hs \<le> 0" using hs(1) by simp
  have res: "extract_http_request (request_text m t v hs @ rest) n request = Some (True, req)"
    unfolding buf extract_http_request_def if_not_P [OF n0] rl Option.bind.bind_lunit prod.case not_True_eq_False if_False skip
      if_not_P [OF lx(3)] dH n'(1) extract_http_request_header_def if_not_P [OF n'(4)] loop if_not_P [OF pos] p[unfolded r4_def] ..
  note f3 = RL(3-5)
  have f4: "field_is r4 off_method m" "field_is r4 off_target t" "field_is r4 off_version v"
    unfolding r4_def using hs len m(2) t(2) v f3
    by (auto intro!: fill_other simp: off_method_def off_target_def off_version_def off_key_def)
  have keep: "field_is req pos s" if "field_is r4 pos s" "pos + length s + 1 \<le> off_header_size" for pos s
    unfolding req_def using that l4 by (intro field_is_other) (simp_all add: off_header_size_def sizeof_request_def)
  have "header_size req = length hs"
    using hs(3) l4 get_put_le_same [of off_header_size 8 r4 "length hs"]
    by (simp add: req_def header_size_def put_le_def [symmetric] off_header_size_def sizeof_request_def)
  moreover have "field_is req (off_key j) (fst (hs ! j)) \<and> field_is req (off_value j) (snd (hs ! j))" if j: "j < length hs" for j
  proof -
    have "header_ok (hs ! j)" using hs(2) j by simp
    then have "length (fst (hs ! j)) < 32" "length (snd (hs ! j)) < 256" by (auto simp: header_ok_def split: prod.splits)
    then show ?thesis
      using fill_headers_fields [of hs 0 r3 j] hs len j unfolding r4_def [symmetric]
      by (auto intro!: keep simp: off_key_def off_value_def off_header_size_def)
  qed
  moreover have "field_is req off_method m" "field_is req off_target t" "field_is req off_version v"
    using f4 m(2) t(2) v by (auto intro!: keep simp: off_method_def off_target_def off_version_def off_header_size_def)
  ultimately show ?thesis using res l4 by (intro exI [of _ req]) (simp add: req_def off_header_size_def sizeof_request_def)
qed

lemma extract_http_request_overflow:
  assumes m: "32 \<notin> set m" "length m < HTTP_METHOD_CAPACITY" and t: "32 \<notin> set t" "9496 \<le> length t"
    and n: "length m + length t + 1 < n" "n < 2 ^ 64" and r: "length request = sizeof_request"
  shows "extract_http_request (m @ 32 # (t @ 32 # rest)) n request = None"
proof -
  have n0: "\<not> n \<le> 0" using n by simp
  have e1: "extract_keyword (m @ 32 # (t @ 32 # rest)) n 32 request off_method = Some (int (length m), blit request off_method (m @ [0]))"
    using m n r by (intro extract_keyword_ok) (simp_all add: off_method_def sizeof_request_def)
  have n1: "(n + 2 ^ 64 - (length m + 1)) mod 2 ^ 64 = n - (length m + 1)" using n by (simp add: le_mod_geq)
  have d: "drop (length m + 1) (m @ 32 # (t @ 32 # rest)) = t @ 32 # rest" by simp
  have tn: "length t < n - (length m + 1)" using n(1) by linarith
  define r1 where "r1 = blit request off_method (m @ [0])"
  have l1: "length r1 = sizeof_request" using m(2) r by (simp add: r1_def off_method_def sizeof_request_def)
  have e2: "extract_keyword (t @ 32 # rest) (n - (length m + 1)) 32 r1 off_target = None"
    using skip_token_found [OF t(1) tn, of rest] t(2) l1
    by (auto simp: extract_keyword_def slice_def poke_def off_target_def sizeof_request_def split: Option.bind_split)
  show ?thesis
    unfolding extract_http_request_def extract_http_request_line_def if_not_P [OF n0] e1 [folded r1_def] Option.bind.bind_lunit prod.case Let_def nat_int n1 d e2
    by simp
qed

section \<open>Properties\<close>

text \<open>
  C10: A request whose parts fit their arrays is parsed exactly: method, target, version, the number of the
  headers, and key and value of every header stand terminated in their fields.
\<close>

theorem extract_http_request_parses:
  assumes "32 \<notin> set m" "length m < HTTP_METHOD_CAPACITY" "32 \<notin> set t" "length t < HTTP_TARGET_CAPACITY"
    and "length v < HTTP_VERSION_CAPACITY" "set (m @ t @ v) \<inter> {0, 10, 13} = {}"
    and "hs \<noteq> []" "\<forall>h \<in> set hs. header_ok h" "length hs \<le> HTTP_HEADER_CAPACITY"
    and "length request = sizeof_request" "n = length (request_text m t v hs)" "n < 2 ^ 64"
  shows "\<exists>req. extract_http_request (request_text m t v hs @ rest) n request = Some (True, req) \<and> length req = sizeof_request \<and>
    field_is req off_method m \<and> field_is req off_target t \<and> field_is req off_version v \<and> header_size req = length hs \<and>
    (\<forall>j < length hs. field_is req (off_key j) (fst (hs ! j)) \<and> field_is req (off_value j) (snd (hs ! j)))"
  by (rule extract_http_request_ok [OF assms])

theorem extract_http_request_parses_witness:
  "\<exists>req. extract_http_request (request_text [71, 69, 84] [47] [72] [([72], [120, 121]), ([75], [])] @ [0]) 23 (replicate 9512 7) = Some (True, req) \<and>
     field_is req off_target [47] \<and> header_size req = 2 \<and> field_is req (off_value 0) [120, 121]"
proof -
  let ?hs = "[([72], [120, 121]), ([75], [])] :: (byte list \<times> byte list) list"
  have "\<exists>req. extract_http_request (request_text [71, 69, 84] [47] [72] ?hs @ [0]) 23 (replicate 9512 7) = Some (True, req) \<and> length req = sizeof_request \<and>
    field_is req off_method [71, 69, 84] \<and> field_is req off_target [47] \<and> field_is req off_version [72] \<and> header_size req = length ?hs \<and>
    (\<forall>j < length ?hs. field_is req (off_key j) (fst (?hs ! j)) \<and> field_is req (off_value j) (snd (?hs ! j)))"
    by (rule extract_http_request_parses) (simp_all add: request_text_def header_text_def header_ok_def sizeof_request_def)
  then show ?thesis by fastforce
qed



end
