(* ===== verification/Handshake.thy ===== *)
theory Handshake
  imports AcceptKey Http WsReceive
begin

text \<open>
  The handshake: the tests of the request and the response (\<open>src/websocket/server/handshake/\<close>) and the
  acceptance of a connection (\<open>src/websocket/server/accept/\<close>). The callbacks and the system calls are
  parameters on a state of their own.
\<close>

definition text_of :: "string \<Rightarrow> byte list" where "text_of s = map of_char s"

section \<open>Is the request valid?\<close>

text \<open>The size of a literal includes its terminator.\<close>

definition is_valid_key :: "byte list \<Rightarrow> nat \<Rightarrow> string \<Rightarrow> bool option" where
  "is_valid_key request pos expected =
     strncmp_sensitive (drop pos request) (text_of expected @ [0]) HTTP_HEADER_KEY_CAPACITY (length expected + 1) False"

definition is_valid_websocket_key :: "byte list \<Rightarrow> nat \<Rightarrow> bool option" where
  "is_valid_websocket_key request pos = do {
     n \<leftarrow> nostr_strnlen (drop pos request) HTTP_HEADER_VALUE_CAPACITY;
     if n < 16 then Some False
     else do {
       ok \<leftarrow> is_base64 (drop pos request);
       Some ok
     }
   }"

definition is_valid_request_header_line :: "byte list \<Rightarrow> nat \<Rightarrow> bool option" where
  "is_valid_request_header_line request i = do {
     host \<leftarrow> is_valid_key request (off_key i) ''host'';
     if host then Some True
     else do {
       upgrade \<leftarrow> is_valid_key request (off_key i) ''upgrade'';
       if upgrade then is_valid_key request (off_value i) ''websocket''
       else do {
         connection \<leftarrow> is_valid_key request (off_key i) ''connection'';
         if connection then is_valid_key request (off_value i) ''upgrade''
         else do {
           key \<leftarrow> is_valid_key request (off_key i) ''sec-webSocket-key'';
           if key then is_valid_websocket_key request (off_value i)
           else do {
             version \<leftarrow> is_valid_key request (off_key i) ''sec-websocket-version'';
             if version then is_valid_key request (off_value i) ''13'' else Some True
           }
         }
       }
     }
   }"

primrec is_valid_request_header :: "byte list \<Rightarrow> nat list \<Rightarrow> bool option" where
  "is_valid_request_header request [] = Some True"
| "is_valid_request_header request (i # is) = do {
     ok \<leftarrow> is_valid_request_header_line request i;
     if \<not> ok then Some False else is_valid_request_header request is
   }"

primrec is_nip11_request :: "byte list \<Rightarrow> nat list \<Rightarrow> bool option" where
  "is_nip11_request request [] = Some False"
| "is_nip11_request request (i # is) = do {
     accept \<leftarrow> is_valid_key request (off_key i) ''accept'';
     if accept then do {
       json \<leftarrow> strncmp_sensitive (drop (off_value i) request) (text_of ''application/nostr+json'' @ [0])
         HTTP_HEADER_VALUE_CAPACITY 22 False;
       if json then Some True else is_nip11_request request is
     }
     else is_nip11_request request is
   }"

definition is_valid_method :: "byte list \<Rightarrow> bool option" where
  "is_valid_method request =
     strncmp_sensitive (drop off_method request) (text_of ''get'' @ [0]) HTTP_METHOD_CAPACITY 4 False"

definition is_valid_target :: "byte list \<Rightarrow> bool option" where
  "is_valid_target request = do {
     n \<leftarrow> nostr_strnlen (drop off_target request) HTTP_TARGET_CAPACITY;
     Some (\<not> n \<le> 0)
   }"

definition is_valid_http_version :: "byte list \<Rightarrow> bool option" where
  "is_valid_http_version request = do {
     a \<leftarrow> strncmp_sensitive (drop off_version request) (text_of ''http/1.1'' @ [0]) HTTP_VERSION_CAPACITY 9 False;
     if a then Some True
     else do {
       b \<leftarrow> strncmp_sensitive (drop off_version request) (text_of ''http/2.0'' @ [0]) HTTP_VERSION_CAPACITY 9 False;
       if b then Some True
       else strncmp_sensitive (drop off_version request) (text_of ''http/3.0'' @ [0]) HTTP_VERSION_CAPACITY 9 False
     }
   }"

definition is_valid_request_line :: "byte list \<Rightarrow> bool option" where
  "is_valid_request_line request = do {
     a \<leftarrow> is_valid_method request;
     if \<not> a then Some False
     else do {
       b \<leftarrow> is_valid_target request;
       if \<not> b then Some False
       else do {
         c \<leftarrow> is_valid_http_version request;
         if \<not> c then Some False else Some True
       }
     }
   }"

definition is_valid_request :: "byte list \<Rightarrow> bool option" where
  "is_valid_request request = do {
     a \<leftarrow> is_valid_request_line request;
     if \<not> a then Some False
     else do {
       b \<leftarrow> is_valid_request_header request [0..<header_size request];
       if \<not> b then Some False else Some True
     }
   }"

section \<open>The response\<close>

text \<open>The result is the offset of the value in the request; an inner \<open>None\<close> is the null pointer.\<close>

primrec select_websocket_client_key :: "byte list \<Rightarrow> nat list \<Rightarrow> nat option option" where
  "select_websocket_client_key request [] = Some None"
| "select_websocket_client_key request (i # is) = do {
     eq \<leftarrow> strncmp_sensitive (drop (off_key i) request) (text_of ''Sec-WebSocket-Key'' @ [0]) HTTP_HEADER_KEY_CAPACITY 17 False;
     if eq then Some (Some (off_value i)) else select_websocket_client_key request is
   }"

definition OK_MESSAGE :: "byte list" where
  "OK_MESSAGE = text_of ''HTTP/1.1 101 Switching Protocols'' @ [13, 10] @ text_of ''Upgrade: websocket'' @ [13, 10] @
     text_of ''Connection: Upgrade'' @ [13, 10] @ text_of ''Sec-WebSocket-Accept: ''"

definition build_handshake_packet :: "byte list \<Rightarrow> nat \<Rightarrow> byte list \<Rightarrow> nat \<Rightarrow> (bool \<times> byte list) option" where
  "build_handshake_packet accept_key accept_key_capacity buffer capacity = do {
     ACCEPT_KEY_LEN \<leftarrow> nostr_strnlen accept_key accept_key_capacity;
     if capacity \<le> length OK_MESSAGE + ACCEPT_KEY_LEN + 5 then Some (False, buffer)
     else do {
       buffer \<leftarrow> poke buffer 0 OK_MESSAGE;
       bs \<leftarrow> peek accept_key 0 ACCEPT_KEY_LEN;
       buffer \<leftarrow> poke buffer (length OK_MESSAGE) bs;
       buffer \<leftarrow> poke buffer (length OK_MESSAGE + ACCEPT_KEY_LEN) [13, 10, 13, 10];
       buffer \<leftarrow> poke buffer (length OK_MESSAGE + ACCEPT_KEY_LEN + 4) [0];
       Some (True, buffer)
     }
   }"

definition NIP11_HEADER :: "byte list" where
  "NIP11_HEADER = text_of ''HTTP/1.1 200 OK'' @ [13, 10] @ text_of ''Content-Type: application/nostr+json'' @ [13, 10] @
     text_of ''Access-Control-Allow-Origin: *'' @ [13, 10] @ text_of ''Access-Control-Allow-Headers: *'' @ [13, 10] @
     text_of ''Access-Control-Allow-Methods: GET, OPTIONS'' @ [13, 10, 13, 10]"

text \<open>Body and response lie in one region; the response starts at \<open>pos\<close>.\<close>

definition build_nip11_response :: "nat \<Rightarrow> byte list \<Rightarrow> nat \<Rightarrow> nat \<Rightarrow> (bool \<times> byte list) option" where
  "build_nip11_response body_len buffer pos capacity =
     (if capacity \<le> length NIP11_HEADER + body_len + 1 then Some (False, buffer)
      else do {
        body \<leftarrow> peek buffer 0 body_len;
        buffer \<leftarrow> poke buffer pos NIP11_HEADER;
        buffer \<leftarrow> poke buffer (pos + length NIP11_HEADER) body;
        buffer \<leftarrow> poke buffer (pos + length NIP11_HEADER + body_len) [0];
        Some (True, buffer)
      })"

abbreviation (input) "HANDSHAKE_RESULT_WEBSOCKET \<equiv> (1 :: int)"
abbreviation (input) "HANDSHAKE_RESULT_NIP11 \<equiv> (0 :: int)"
abbreviation (input) "HANDSHAKE_RESULT_ERROR \<equiv> (-1 :: int)"

text \<open>
  The callbacks of the application and the calls of the kernel around the connection. The handshake
  callback gets the request, the capacity and the buffer of the body.
\<close>

record 's accept_env = "'s ws_env" +
  handshake_callback :: "(byte list \<Rightarrow> nat \<Rightarrow> byte list \<Rightarrow> 's \<Rightarrow> bool \<times> byte list \<times> 's) option"
  connect_callback :: "(int \<Rightarrow> 's \<Rightarrow> 's) option"
  accept_client :: "int \<Rightarrow> 's \<Rightarrow> int \<times> 's"
  epoll_add :: "int \<Rightarrow> int \<Rightarrow> 's \<Rightarrow> bool \<times> 's"
  epoll_del :: "int \<Rightarrow> int \<Rightarrow> 's \<Rightarrow> 's"
  close_fd :: "int \<Rightarrow> 's \<Rightarrow> 's"

definition handle_nip11_request ::
    "('s, 'm) accept_env_scheme \<Rightarrow> int \<Rightarrow> byte list \<Rightarrow> nat \<Rightarrow> byte list \<Rightarrow> 's \<Rightarrow> (bool \<times> byte list \<times> 's) option" where
  "handle_nip11_request env client_sock request capacity response s =
     (case handshake_callback env of
        None \<Rightarrow> Some (False, response, s)
      | Some callback \<Rightarrow> do {
          nip11 \<leftarrow> is_nip11_request request [0..<header_size request];
          if \<not> nip11 then Some (False, response, s)
          else do {
            let body_capacity = capacity div 2;
            let response_capacity = capacity - body_capacity;
            response \<leftarrow> poke response 0 (replicate body_capacity 0);
            response \<leftarrow> poke response body_capacity (replicate response_capacity 0);
            let (ok, response, s) = callback request body_capacity response s;
            if \<not> ok then Some (False, response, s)
            else do {
              body_len \<leftarrow> nostr_strnlen response body_capacity;
              if body_len = 0 then Some (False, response, s)
              else do {
                (ok, response) \<leftarrow> build_nip11_response body_len response body_capacity response_capacity;
                if \<not> ok then Some (False, response, s)
                else do {
                  response_len \<leftarrow> nostr_strnlen (drop body_capacity response) response_capacity;
                  (ret, s) \<leftarrow> websocket_send (ws_env.truncate env) client_sock response_len (drop body_capacity response) s;
                  if ret \<noteq> WEBSOCKET_ERRORCODE_NONE then Some (False, response, s) else Some (True, response, s)
                }
              }
            }
          }
        })"

text \<open>\<open>stack\<close> is what the arrays on the stack hold: the accept key, the joined key and the context of SHA-1.\<close>

definition client_handshake ::
    "('s, 'm) accept_env_scheme \<Rightarrow> byte list \<times> byte list \<times> sha1_ctx \<Rightarrow> int \<Rightarrow> byte list \<Rightarrow> nat \<Rightarrow> byte list \<Rightarrow> 's \<Rightarrow>
     (int \<times> byte list \<times> 's) option" where
  "client_handshake env stack client_sock request capacity response s = do {
     (nip11, response, s) \<leftarrow> handle_nip11_request env client_sock request capacity response s;
     if nip11 then Some (HANDSHAKE_RESULT_NIP11, response, s)
     else do {
       valid \<leftarrow> is_valid_request request;
       if \<not> valid then Some (HANDSHAKE_RESULT_ERROR, response, s)
       else do {
         client_key \<leftarrow> select_websocket_client_key request [0..<header_size request];
         case client_key of
           None \<Rightarrow> Some (HANDSHAKE_RESULT_ERROR, response, s)
         | Some pos \<Rightarrow> do {
             let (accept_key, concatenated, ctx0) = stack;
             (ok, accept_key) \<leftarrow> generate_websocket_acceptkey concatenated ctx0 (drop pos request) HTTP_HEADER_VALUE_CAPACITY accept_key;
             if \<not> ok then Some (HANDSHAKE_RESULT_ERROR, response, s)
             else do {
               (ok, response) \<leftarrow> build_handshake_packet accept_key HTTP_HEADER_VALUE_CAPACITY response capacity;
               if \<not> ok then Some (HANDSHAKE_RESULT_ERROR, response, s)
               else do {
                 response_len \<leftarrow> nostr_strnlen response capacity;
                 if response_len = 0 then Some (HANDSHAKE_RESULT_ERROR, response, s)
                 else do {
                   (ret, s) \<leftarrow> websocket_send (ws_env.truncate env) client_sock response_len response s;
                   if ret \<noteq> WEBSOCKET_ERRORCODE_NONE then Some (HANDSHAKE_RESULT_ERROR, response, s)
                   else Some (HANDSHAKE_RESULT_WEBSOCKET, response, s)
                 }
               }
             }
           }
       }
     }
   }"

section \<open>A new connection\<close>

text \<open>The loop reads again until a read does not ask for that: it need not end.\<close>

partial_function (option) accept_read ::
    "'s ws_env \<Rightarrow> int \<Rightarrow> nat \<Rightarrow> byte list \<Rightarrow> 's \<Rightarrow> (int \<times> byte list \<times> 's) option" where
  "accept_read env client_sock capacity buffer s = do {
     (bytes_read, buffer, s) \<leftarrow> websocket_recv env client_sock capacity buffer s;
     if bytes_read < 0 \<and> bytes_read = WEBSOCKET_ERRORCODE_CONTINUABLE_ERROR
     then accept_read env client_sock capacity buffer s
     else Some (bytes_read, buffer, s)
   }"

declare accept_read.simps [code]

text \<open>\<open>finalize\<close> is the code behind the label \<open>FINALIZE\<close>.\<close>

definition finalize :: "('s, 'm) accept_env_scheme \<Rightarrow> bool \<Rightarrow> int \<Rightarrow> 's \<Rightarrow> bool \<times> 's" where
  "finalize env err client_sock s =
     (if err then (False, if client_sock \<ge> 0 then close_fd env client_sock s else s)
      else (True, case connect_callback env of None \<Rightarrow> s | Some f \<Rightarrow> f client_sock s))"

definition accept_handle ::
    "('s, 'm) accept_env_scheme \<Rightarrow> byte list \<times> byte list \<times> sha1_ctx \<Rightarrow> byte list \<Rightarrow> int \<Rightarrow> int \<Rightarrow> nat \<Rightarrow> byte list \<Rightarrow> byte list \<Rightarrow> 's \<Rightarrow>
     (bool \<times> byte list \<times> byte list \<times> 's) option" where
  "accept_handle env stack request0 epoll_fd server_sock capacity buffer response s =
     (if epoll_fd \<le> 0 \<or> server_sock \<le> 0 \<or> capacity \<le> 0 then Some (False, buffer, response, s)
      else
        (let (client_sock, s) = accept_client env server_sock s
         in if client_sock < 0 then
              (let (r, s) = finalize env (client_sock = WEBSOCKET_ERRORCODE_FATAL_ERROR) client_sock s
               in Some (r, buffer, response, s))
            else
              (let (added, s) = epoll_add env epoll_fd client_sock s
               in if \<not> added then (let (r, s) = finalize env True client_sock s in Some (r, buffer, response, s))
                  else do {
                    (bytes_read, buffer, s) \<leftarrow> accept_read (ws_env.truncate env) client_sock capacity buffer s;
                    if bytes_read < 0 then
                      (let s = epoll_del env epoll_fd client_sock s;
                           (r, s) = finalize env True client_sock s
                       in Some (r, buffer, response, s))
                    else do {
                      (ok, request) \<leftarrow> extract_http_request buffer (nat bytes_read) request0;
                      if \<not> ok then (let (r, s) = finalize env True client_sock s in Some (r, buffer, response, s))
                      else do {
                        (result, response, s) \<leftarrow> client_handshake env stack client_sock request capacity response s;
                        if result = HANDSHAKE_RESULT_ERROR then
                          (let s = epoll_del env epoll_fd client_sock s;
                               (r, s) = finalize env True client_sock s
                           in Some (r, buffer, response, s))
                        else if result = HANDSHAKE_RESULT_NIP11 then
                          Some (True, buffer, response, close_fd env client_sock (epoll_del env epoll_fd client_sock s))
                        else (let (r, s) = finalize env False client_sock s in Some (r, buffer, response, s))
                      }
                    }
                  })))"

definition epoll_accept ::
    "('s, 'm) accept_env_scheme \<Rightarrow> byte list \<times> byte list \<times> sha1_ctx \<Rightarrow> byte list \<Rightarrow> int \<Rightarrow> epoll_event \<Rightarrow> int \<Rightarrow> nat \<Rightarrow> byte list \<Rightarrow> byte list \<Rightarrow> 's \<Rightarrow>
     (int \<times> byte list \<times> byte list \<times> 's) option" where
  "epoll_accept env stack request0 epoll_fd event server_sock capacity buffer response s =
     (if epoll_fd \<le> 0 \<or> capacity \<le> 0 then Some (WEBSOCKET_ERRORCODE_FATAL_ERROR, buffer, response, s)
      else if websocket_epoll_rise_error event \<noteq> WEBSOCKET_ERRORCODE_NONE
      then Some (websocket_epoll_rise_error event, buffer, response, s)
      else if websocket_epoll_rise_input event \<noteq> WEBSOCKET_ERRORCODE_NONE
      then Some (websocket_epoll_rise_input event, buffer, response, s)
      else do {
        (ok, buffer, response, s) \<leftarrow> accept_handle env stack request0 epoll_fd server_sock capacity buffer response s;
        Some (if \<not> ok then WEBSOCKET_ERRORCODE_CONTINUABLE_ERROR else WEBSOCKET_ERRORCODE_NONE, buffer, response, s)
      })"

section \<open>Comparisons of fields\<close>

definition ci :: "byte list \<Rightarrow> string \<Rightarrow> bool" where
  "ci s expected \<longleftrightarrow> map lower s = map lower (text_of expected)"

lemma length_text_of [simp]: "length (text_of s) = length s" by (simp add: text_of_def)

lemma field_isD:
  assumes "field_is r pos s"
  shows "take (length s + 1) (drop pos r) = s @ [0]" "pos + length s < length r"
proof -
  show t: "take (length s + 1) (drop pos r) = s @ [0]" using assms by (simp add: field_is_def slice_def)
  have "length (take (length s + 1) (drop pos r)) = length s + 1" unfolding t by simp
  then show "pos + length s < length r" by simp
qed

lemma field_cstr:
  assumes "field_is r pos s" "0 \<notin> set s"
  shows "cstr (drop pos r) = s" "0 \<in> set (drop pos r)"
proof -
  have "drop pos r = s @ 0 # drop (length s + 1) (drop pos r)"
    using append_take_drop_id [of "length s + 1" "drop pos r"] field_isD(1) [OF assms(1)] by simp
  then show "cstr (drop pos r) = s" "0 \<in> set (drop pos r)" using cstr_append [OF assms(2)] by (metis, metis in_set_conv_decomp)
qed

text \<open>Two terminated strings agree in the bytes of one of them, its terminator included, only if they are equal.\<close>

lemma prefix_eq:
  assumes "0 \<notin> set s" "0 \<notin> set e"
  shows "map lower (take (length e + 1) (s @ 0 # rest)) = map lower (e @ [0]) \<longleftrightarrow> map lower s = map lower e"
  using assms
proof (induction e arbitrary: s)
  case Nil
  then show ?case by (cases s) auto
next
  case (Cons c e)
  then show ?case by (cases s) auto
qed

lemma strncmp_field:
  assumes f: "field_is r pos s" "0 \<notin> set s" and e: "0 \<notin> set (text_of expected)" "length expected + 1 \<le> cap" "pos + length expected + 1 \<le> length r"
  shows "strncmp_sensitive (drop pos r) (text_of expected @ [0]) cap (length expected + 1) False = Some (ci s expected)"
proof -
  define rest where "rest = drop (length s + 1) (drop pos r)"
  have d: "drop pos r = s @ 0 # rest"
    using append_take_drop_id [of "length s + 1" "drop pos r"] field_isD(1) [OF f(1)] by (simp add: rest_def)
  have m: "min cap (length expected + 1) = length expected + 1" using e(2) by simp
  have "strncmp_sensitive (drop pos r) (text_of expected @ [0]) cap (length expected + 1) False =
     Some (map (fold_char False) (take (length expected + 1) (drop pos r)) = map (fold_char False) (take (length expected + 1) (text_of expected @ [0])))"
    using strncmp_sensitive_eq [of cap "length expected + 1" "drop pos r" "text_of expected @ [0]" False] e(2,3) unfolding m by simp
  also have "\<dots> = Some (ci s expected)"
    using prefix_eq [OF f(2) e(1), of rest] unfolding d ci_def by simp
  finally show ?thesis .
qed

lemma prefix_take:
  "0 \<notin> set e \<Longrightarrow> map lower (take (length e) (s @ 0 # rest)) = map lower e \<longleftrightarrow> map lower (take (length e) s) = map lower e"
proof (induction e arbitrary: s)
  case (Cons c e)
  then show ?case by (cases s) auto
qed simp

definition ci_prefix :: "byte list \<Rightarrow> string \<Rightarrow> bool" where
  "ci_prefix s expected \<longleftrightarrow> map lower (take (length expected) s) = map lower (text_of expected)"

lemma strncmp_prefix:
  assumes f: "field_is r pos s" and e: "0 \<notin> set (text_of expected)" "0 < length expected" "length expected \<le> cap" "pos + length expected \<le> length r"
  shows "strncmp_sensitive (drop pos r) (text_of expected @ [0]) cap (length expected) False = Some (ci_prefix s expected)"
proof -
  define rest where "rest = drop (length s + 1) (drop pos r)"
  have d: "drop pos r = s @ 0 # rest"
    using append_take_drop_id [of "length s + 1" "drop pos r"] field_isD(1) [OF f(1)] by (simp add: rest_def)
  have m: "min cap (length expected) = length expected" using e by simp
  have "strncmp_sensitive (drop pos r) (text_of expected @ [0]) cap (length expected) False =
     Some (map lower (take (length expected) (drop pos r)) = map lower (take (length expected) (text_of expected @ [0])))"
    using strncmp_sensitive_eq [of cap "length expected" "drop pos r" "text_of expected @ [0]" False] e(2-4) unfolding m by simp
  then show ?thesis using prefix_take [OF e(1), of s rest] unfolding d ci_prefix_def by simp
qed

lemma count_padding_cong: "\<forall>i \<in> set xs. char_at s (n - i) = char_at t (n - i) \<Longrightarrow> count_padding s n xs c = count_padding t n xs c"
proof (induction xs arbitrary: c)
  case (Cons i xs)
  have "char_at s (n - i) = char_at t (n - i)" and "count_padding s n xs c = count_padding t n xs c" for c
    using Cons.prems Cons.IH by simp_all
  then show ?case unfolding count_padding.simps by presburger
qed simp

lemma all_chars_cong: "\<forall>i \<in> set xs. char_at s i = char_at t i \<Longrightarrow> all_chars P s xs = all_chars P t xs"
proof (induction xs)
  case (Cons i xs)
  have "char_at s i = char_at t i" and "all_chars P s xs = all_chars P t xs"
    using Cons.prems Cons.IH by simp_all
  then show ?case unfolding all_chars.simps by presburger
qed simp

lemma count_padding_total: "\<forall>i \<in> set xs. n - i < length s \<Longrightarrow> \<exists>d. count_padding s n xs c = Some d"
  by (induction xs arbitrary: c) (simp_all add: char_at_def)

lemma is_base64_total:
  assumes "0 \<notin> set x"
  shows "\<exists>c. is_base64 (x @ [0]) = Some c"
proof -
  have l: "nostr_strlen (x @ [0]) = Some (length x)" using nostr_strlen_eq cstr_append [OF assms, of "[]"] by simp
  show ?thesis
  proof (cases "length x < 4")
    case True
    then show ?thesis by (auto simp: is_base64_def l)
  next
    case False
    have "\<exists>d. count_padding (x @ [0]) (length x) [1..<3] 0 = Some d" by (rule count_padding_total) auto
    then obtain d where d: "count_padding (x @ [0]) (length x) [1..<3] 0 = Some d" by (elim exE)
    have a: "\<exists>b. all_chars P (x @ [0]) [i..<j] = Some b" if "j \<le> length x" for P i j
      using that all_chars_eq [of "[i..<j]" "x @ [0]" P] by auto
    obtain b where b: "all_chars is_base64_char (x @ [0]) [0..<length x - d] = Some b" using a [of "length x - d"] by auto
    obtain b' where b': "all_chars (\<lambda>c. c = 61) (x @ [0]) [length x - d..<length x] = Some b'" using a [of "length x"] by auto
    show ?thesis unfolding is_base64_def l Option.bind.bind_lunit d Let_def b b' by auto
  qed
qed

lemma is_base64_terminated:
  assumes "0 \<notin> set v"
  shows "is_base64 (v @ 0 # rest) = is_base64 (v @ [0])"
proof -
  have len: "nostr_strlen (v @ 0 # rest) = Some (length v)" "nostr_strlen (v @ [0]) = Some (length v)"
    using nostr_strlen_eq cstr_append [OF assms, of rest] cstr_append [OF assms, of "[]"] by simp_all
  have at: "char_at (v @ 0 # rest) i = char_at (v @ [0]) i" if "i < length v" for i
    using that by (simp add: char_at_def nth_append)
  show ?thesis
  proof (cases "length v < 4")
    case True
    then show ?thesis by (simp add: is_base64_def len)
  next
    case False
    have c: "count_padding (v @ 0 # rest) (length v) [1..<3] 0 = count_padding (v @ [0]) (length v) [1..<3] 0"
      by (intro count_padding_cong ballI at) (use False in auto)
    have a: "all_chars P (v @ 0 # rest) [i..<j] = all_chars P (v @ [0]) [i..<j]" if "j \<le> length v" for P i j
      by (intro all_chars_cong ballI at) (use that in auto)
    show ?thesis unfolding is_base64_def len Option.bind.bind_lunit c
      by (simp only: Let_def a [OF diff_le_self] a [OF order_refl])
  qed
qed

section \<open>What a valid request is\<close>

definition header_valid :: "byte list \<times> byte list \<Rightarrow> bool" where
  "header_valid = (\<lambda>(k, v).
     if ci k ''host'' then True
     else if ci k ''upgrade'' then ci v ''websocket''
     else if ci k ''connection'' then ci v ''upgrade''
     else if ci k ''sec-webSocket-key'' then 16 \<le> length v \<and> is_base64 (v @ [0]) = Some True
     else if ci k ''sec-websocket-version'' then ci v ''13''
     else True)"

definition asks_nip11 :: "byte list \<times> byte list \<Rightarrow> bool" where
  "asks_nip11 = (\<lambda>(k, v). ci k ''accept'' \<and> ci_prefix v ''application/nostr+json'')"

definition holds_request :: "byte list \<Rightarrow> byte list \<Rightarrow> byte list \<Rightarrow> byte list \<Rightarrow> (byte list \<times> byte list) list \<Rightarrow> bool" where
  "holds_request req m t v hs \<longleftrightarrow> length req = sizeof_request \<and> field_is req off_method m \<and> field_is req off_target t \<and>
     field_is req off_version v \<and> header_size req = length hs \<and> 0 \<notin> set (m @ t @ v) \<and> length hs \<le> 32 \<and> (\<forall>h \<in> set hs. header_ok h) \<and>
     length t < 256 \<and> (\<forall>j < length hs. field_is req (off_key j) (fst (hs ! j)) \<and> field_is req (off_value j) (snd (hs ! j)))"

lemma holds_header:
  assumes H: "holds_request req m t v hs" and j: "j < length hs"
  shows "field_is req (off_key j) (fst (hs ! j))" "field_is req (off_value j) (snd (hs ! j))" "0 \<notin> set (fst (hs ! j))" "0 \<notin> set (snd (hs ! j))"
    "length (snd (hs ! j)) < 256" "off_key j + 256 \<le> length req" "off_value j + 256 \<le> length req"
proof -
  have "header_ok (hs ! j)" using H j by (simp add: holds_request_def)
  then show "0 \<notin> set (fst (hs ! j))" "0 \<notin> set (snd (hs ! j))" "length (snd (hs ! j)) < 256" by (auto simp: header_ok_def split: prod.splits)
  show "off_key j + 256 \<le> length req" "off_value j + 256 \<le> length req"
    using H j by (simp_all add: holds_request_def off_key_def off_value_def sizeof_request_def)
qed (use H j in \<open>simp_all add: holds_request_def\<close>)

lemma literals_no_0:
  "0 \<notin> set (text_of ''host'')" "0 \<notin> set (text_of ''upgrade'')" "0 \<notin> set (text_of ''websocket'')" "0 \<notin> set (text_of ''connection'')"
  "0 \<notin> set (text_of ''sec-webSocket-key'')" "0 \<notin> set (text_of ''sec-websocket-version'')" "0 \<notin> set (text_of ''13'')" "0 \<notin> set (text_of ''accept'')"
  "0 \<notin> set (text_of ''application/nostr+json'')" "0 \<notin> set (text_of ''Sec-WebSocket-Key'')" "0 \<notin> set (text_of ''get'')"
  "0 \<notin> set (text_of ''http/1.1'')" "0 \<notin> set (text_of ''http/2.0'')" "0 \<notin> set (text_of ''http/3.0'')"
  by (simp_all add: text_of_def)

lemma is_valid_key_eq:
  assumes H: "holds_request req m t v hs" "j < length hs" and e: "0 \<notin> set (text_of expected)" "length expected < 32"
  shows "is_valid_key req (off_key j) expected = Some (ci (fst (hs ! j)) expected)"
    "is_valid_key req (off_value j) expected = Some (ci (snd (hs ! j)) expected)"
proof -
  note F = holds_header [OF H]
  have c: "length expected + 1 \<le> HTTP_HEADER_KEY_CAPACITY" "off_key j + length expected + 1 \<le> length req" "off_value j + length expected + 1 \<le> length req"
    using e(2) F(6,7) by simp_all
  show "is_valid_key req (off_key j) expected = Some (ci (fst (hs ! j)) expected)"
    unfolding is_valid_key_def by (rule strncmp_field [OF F(1,3) e(1) c(1,2)])
  show "is_valid_key req (off_value j) expected = Some (ci (snd (hs ! j)) expected)"
    unfolding is_valid_key_def by (rule strncmp_field [OF F(2,4) e(1) c(1,3)])
qed

lemma header_line_valid:
  assumes H: "holds_request req m t v hs" "j < length hs"
  shows "is_valid_request_header_line req j = Some (header_valid (hs ! j))"
proof -
  obtain k x where h: "hs ! j = (k, x)" by (cases "hs ! j")
  note F = holds_header [OF H, unfolded h fst_conv snd_conv]
  note K = is_valid_key_eq [OF H, unfolded h fst_conv snd_conv]
  have d: "drop (off_value j) req = x @ 0 # drop (length x + 1) (drop (off_value j) req)"
    using append_take_drop_id [of "length x + 1" "drop (off_value j) req"] field_isD(1) [OF F(2)] by simp
  have b: "is_base64 (drop (off_value j) req) = is_base64 (x @ [0])" by (subst d) (rule is_base64_terminated [OF F(4)])
  have "nostr_strnlen (drop (off_value j) req) 256 = Some (length x)"
    using nostr_strnlen_eq [of 256 "drop (off_value j) req"] field_cstr [OF F(2,4)] F(5) by simp
  moreover have "\<exists>c. is_base64 (x @ [0]) = Some c" by (rule is_base64_total [OF F(4)])
  ultimately have key: "is_valid_websocket_key req (off_value j) = Some (16 \<le> length x \<and> is_base64 (x @ [0]) = Some True)"
    unfolding is_valid_websocket_key_def b by auto
  show ?thesis
    using K(1) [OF literals_no_0(1)] K(1) [OF literals_no_0(2)] K(2) [OF literals_no_0(3)] K(1) [OF literals_no_0(4)] K(2) [OF literals_no_0(2)]
      K(1) [OF literals_no_0(5)] K(1) [OF literals_no_0(6)] K(2) [OF literals_no_0(7)] key
    unfolding is_valid_request_header_line_def header_valid_def h by simp
qed

lemma holds_parts:
  assumes "holds_request req m t v hs"
  shows "length req = sizeof_request" "field_is req off_method m" "field_is req off_target t" "field_is req off_version v" "header_size req = length hs"
    "0 \<notin> set m" "0 \<notin> set t" "0 \<notin> set v" "length t < 256"
  using assms by (simp_all add: holds_request_def)

lemma is_valid_method_eq:
  assumes "holds_request req m t v hs"
  shows "is_valid_method req = Some (ci m ''get'')"
proof -
  note P = holds_parts [OF assms]
  have c: "off_method + 4 \<le> length req" using P(1) by (simp add: off_method_def sizeof_request_def)
  have "strncmp_sensitive (drop off_method req) (text_of e @ [0]) 16 4 False = Some (ci m e)"
    if "0 \<notin> set (text_of e)" "length e = 3" for e
    using strncmp_field [OF P(2,6) that(1), of 16] that(2) c by simp
  from this [OF literals_no_0(11)] show ?thesis by (simp add: is_valid_method_def)
qed

lemma is_valid_target_eq:
  assumes "holds_request req m t v hs"
  shows "is_valid_target req = Some (t \<noteq> [])"
proof -
  note P = holds_parts [OF assms]
  have "nostr_strnlen (drop off_target req) 256 = Some (length t)"
    using nostr_strnlen_eq [of 256 "drop off_target req"] field_cstr [OF P(3,7)] P(9) by simp
  then show ?thesis by (simp add: is_valid_target_def)
qed

definition http_version_known :: "byte list \<Rightarrow> bool" where
  "http_version_known v \<longleftrightarrow> ci v ''http/1.1'' \<or> ci v ''http/2.0'' \<or> ci v ''http/3.0''"

lemma is_valid_http_version_eq:
  assumes "holds_request req m t v hs"
  shows "is_valid_http_version req = Some (http_version_known v)"
proof -
  note P = holds_parts [OF assms]
  have c: "off_version + 9 \<le> length req" using P(1) by (simp add: off_version_def sizeof_request_def)
  have "strncmp_sensitive (drop off_version req) (text_of e @ [0]) 16 9 False = Some (ci v e)"
    if "0 \<notin> set (text_of e)" "length e = 8" for e
    using strncmp_field [OF P(4,8) that(1), of 16] that(2) c by simp
  from this [OF literals_no_0(12)] this [OF literals_no_0(13)] this [OF literals_no_0(14)] show ?thesis
    by (simp add: is_valid_http_version_def http_version_known_def)
qed

lemma is_valid_request_header_eq:
  "holds_request req m t v hs \<Longrightarrow> \<forall>i \<in> set is. i < length hs \<Longrightarrow>
   is_valid_request_header req is = Some (\<forall>i \<in> set is. header_valid (hs ! i))"
  by (induction "is") (simp_all add: header_line_valid)

lemma all_nth: "(\<forall>i \<in> set [0..<length xs]. P (xs ! i)) = (\<forall>x \<in> set xs. P x)"
  by (auto simp add: all_set_conv_all_nth)

text \<open>The tests of the handler together: the request the parser has filled is a valid one.\<close>

definition request_valid :: "byte list \<Rightarrow> byte list \<Rightarrow> byte list \<Rightarrow> (byte list \<times> byte list) list \<Rightarrow> bool" where
  "request_valid m t v hs \<longleftrightarrow> ci m ''get'' \<and> t \<noteq> [] \<and> http_version_known v \<and> (\<forall>h \<in> set hs. header_valid h)"

lemma is_valid_request_eq:
  assumes H: "holds_request req m t v hs"
  shows "is_valid_request req = Some (request_valid m t v hs)"
  using is_valid_request_header_eq [OF H, of "[0..<length hs]"] all_nth [of hs header_valid]
  by (simp add: is_valid_request_def is_valid_request_line_def is_valid_method_eq [OF H] is_valid_target_eq [OF H]
      is_valid_http_version_eq [OF H] holds_parts(5) [OF H] request_valid_def)

lemma is_nip11_request_eq:
  assumes H: "holds_request req m t v hs"
  shows "\<forall>i \<in> set is. i < length hs \<Longrightarrow> is_nip11_request req is = Some (\<exists>i \<in> set is. asks_nip11 (hs ! i))"
proof (induction "is")
  case (Cons i "is")
  then have i: "i < length hs" by simp
  obtain k x where h: "hs ! i = (k, x)" by (cases "hs ! i")
  have "strncmp_sensitive (drop (off_value i) req) (text_of e @ [0]) 256 22 False = Some (ci_prefix x e)"
    if "0 \<notin> set (text_of e)" "length e = 22" for e
    using strncmp_prefix [OF holds_header(2) [OF H i] that(1), of 256] that(2) holds_header(7) [OF H i] by (simp add: h)
  from this [OF literals_no_0(9)]
  have "strncmp_sensitive (drop (off_value i) req) (text_of ''application/nostr+json'' @ [0]) 256 22 False = Some (ci_prefix x ''application/nostr+json'')"
    by simp
  moreover have "is_valid_key req (off_key i) ''accept'' = Some (ci k ''accept'')"
    using is_valid_key_eq(1) [OF H i literals_no_0(8)] h by simp
  ultimately show ?case using Cons by (simp add: asks_nip11_def h)
qed simp

lemma select_key_eq:
  assumes H: "holds_request req m t v hs"
  shows "\<forall>i \<in> set is. i < length hs \<Longrightarrow> select_websocket_client_key req is =
    Some (map_option off_value (List.find (\<lambda>i. ci_prefix (fst (hs ! i)) ''Sec-WebSocket-Key'') is))"
proof (induction "is")
  case (Cons i "is")
  then have i: "i < length hs" by simp
  have "strncmp_sensitive (drop (off_key i) req) (text_of e @ [0]) 32 17 False = Some (ci_prefix (fst (hs ! i)) e)"
    if "0 \<notin> set (text_of e)" "length e = 17" for e
    using strncmp_prefix [OF holds_header(1) [OF H i] that(1), of 32] that(2) holds_header(6) [OF H i] by simp
  from this [OF literals_no_0(10)]
  have "strncmp_sensitive (drop (off_key i) req) (text_of ''Sec-WebSocket-Key'' @ [0]) 32 17 False = Some (ci_prefix (fst (hs ! i)) ''Sec-WebSocket-Key'')"
    by simp
  then show ?case using Cons by simp
qed simp

lemma find_index:
  assumes "List.find P xs = Some x"
  shows "\<exists>i < length xs. List.find (\<lambda>i. P (xs ! i)) [0..<length xs] = Some i \<and> xs ! i = x"
proof -
  obtain i where i: "i < length xs" "P (xs ! i)" "x = xs ! i" "\<forall>j < i. \<not> P (xs ! j)"
    using assms by (auto simp: find_Some_iff)
  then have "List.find (\<lambda>i. P (xs ! i)) [0..<length xs] = Some i" by (auto simp: find_Some_iff intro!: exI [of _ i])
  then show ?thesis using i by blast
qed

lemma length_OK_MESSAGE: "length OK_MESSAGE = 97" by (simp add: OK_MESSAGE_def text_of_def)

lemma OK_MESSAGE_no_0: "0 \<notin> set OK_MESSAGE" by (simp add: OK_MESSAGE_def text_of_def)

definition switching_protocols :: "byte list \<Rightarrow> byte list" where
  "switching_protocols key = OK_MESSAGE @ b64 (sha1_ref (key @ websocket_accept_guid)) @ [13, 10, 13, 10]"

lemma build_handshake_packet_ok:
  assumes k: "0 \<notin> set k" "length k < 256" and cap: "length k + 102 < capacity" "capacity = length response"
  shows "build_handshake_packet (blit a 0 (k @ [0])) 256 response capacity = Some (True, blit response 0 ((OK_MESSAGE @ k @ [13, 10, 13, 10]) @ [0]))"
proof -
  have "cstr (blit a 0 (k @ [0])) = k" "0 \<in> set (blit a 0 (k @ [0]))"
    using cstr_append [OF k(1)] by (simp_all add: blit_def)
  then have n: "nostr_strnlen (blit a 0 (k @ [0])) 256 = Some (length k)" using nostr_strnlen_eq [of 256 "blit a 0 (k @ [0])"] k(2) by simp
  have pk: "peek (blit a 0 (k @ [0])) 0 (length k) = Some k" by (simp add: blit_def slice_def)
  have p1: "poke response 0 OK_MESSAGE = Some (blit response 0 OK_MESSAGE)" using cap by (simp add: length_OK_MESSAGE)
  have p2: "poke (blit response 0 OK_MESSAGE) 97 k = Some (blit response 0 (OK_MESSAGE @ k))"
    using cap blit_blit_next [of 0 OK_MESSAGE k response] by (simp add: length_OK_MESSAGE)
  have p3: "poke (blit response 0 (OK_MESSAGE @ k)) (97 + length k) [13, 10, 13, 10] = Some (blit response 0 (OK_MESSAGE @ k @ [13, 10, 13, 10]))"
    using cap blit_blit_next [of 0 "OK_MESSAGE @ k" "[13, 10, 13, 10]" response] by (simp add: length_OK_MESSAGE)
  have p4: "poke (blit response 0 (OK_MESSAGE @ k @ [13, 10, 13, 10])) (97 + length k + 4) [0] = Some (blit response 0 ((OK_MESSAGE @ k @ [13, 10, 13, 10]) @ [0]))"
    using cap blit_blit_next [of 0 "OK_MESSAGE @ k @ [13, 10, 13, 10]" "[0]" response] by (simp add: length_OK_MESSAGE add.assoc)
  have c: "\<not> capacity \<le> 97 + length k + 5" using cap by simp
  show ?thesis
    unfolding build_handshake_packet_def n Option.bind.bind_lunit length_OK_MESSAGE if_not_P [OF c] p1 pk p2 p3 p4 by simp
qed

lemma b64_no_0: "0 \<notin> set (b64 x)"
proof -
  have "0 \<notin> set (b64_raw x)" using raw_chars chars_ok by metis
  then have "0 \<notin> set (take (length (b64_raw x) - b64_pad x) (b64_raw x))" using in_set_takeD by metis
  then show ?thesis unfolding b64_eq by simp
qed

lemma no_nip11:
  assumes H: "holds_request req m t v hs" and n: "handshake_callback env = None \<or> \<not> (\<exists>h \<in> set hs. asks_nip11 h)"
  shows "handle_nip11_request env client_sock req capacity response s = Some (False, response, s)"
proof (cases "handshake_callback env")
  case (Some f)
  then have "\<not> (\<exists>i \<in> set [0..<length hs]. asks_nip11 (hs ! i))" using n all_nth [of hs "\<lambda>h. \<not> asks_nip11 h"] by auto
  then show ?thesis using is_nip11_request_eq [OF H, of "[0..<length hs]"] Some
    by (simp add: handle_nip11_request_def holds_parts(5) [OF H])
qed (simp add: handle_nip11_request_def)

lemma client_handshake_invalid:
  assumes H: "holds_request req m t v hs" and n: "handshake_callback env = None \<or> \<not> (\<exists>h \<in> set hs. asks_nip11 h)"
    and bad: "\<not> request_valid m t v hs \<or> \<not> (\<exists>h \<in> set hs. ci_prefix (fst h) ''Sec-WebSocket-Key'')"
  shows "client_handshake env stack client_sock req capacity response s = Some (HANDSHAKE_RESULT_ERROR, response, s)"
proof (cases "request_valid m t v hs")
  case True
  then have "\<forall>h \<in> set hs. \<not> ci_prefix (fst h) ''Sec-WebSocket-Key''" using bad by blast
  then have "List.find (\<lambda>i. ci_prefix (fst (hs ! i)) ''Sec-WebSocket-Key'') [0..<length hs] = None"
    by (simp add: find_None_iff)
  then show ?thesis
    using select_key_eq [OF H, of "[0..<length hs]"] True
    by (simp add: client_handshake_def no_nip11 [OF H n] is_valid_request_eq [OF H] holds_parts(5) [OF H])
qed (simp add: client_handshake_def no_nip11 [OF H n] is_valid_request_eq [OF H])

lemma client_handshake_ok:
  assumes H: "holds_request req m t v hs" and n: "handshake_callback env = None \<or> \<not> (\<exists>h \<in> set hs. asks_nip11 h)"
    and good: "request_valid m t v hs" and key: "List.find (\<lambda>h. ci_prefix (fst h) ''Sec-WebSocket-Key'') hs = Some (k, key)" "length key \<le> 219"
    and stack: "length accept_key = 256" "length concatenated = 256" "length (sc_buffer ctx0) = 64"
    and cap: "130 < capacity" "capacity = length response"
  shows "client_handshake env (accept_key, concatenated, ctx0) client_sock req capacity response s =
    (let (r, s') = sendto env client_sock (switching_protocols key) s;
         e = get_send_err (ws_env.truncate env) r s'
     in Some (if e = WEBSOCKET_ERRORCODE_NONE then HANDSHAKE_RESULT_WEBSOCKET else HANDSHAKE_RESULT_ERROR,
              blit response 0 (switching_protocols key @ [0]), s'))"
proof -
  obtain i where i: "i < length hs" "hs ! i = (k, key)" and
    f: "List.find (\<lambda>i. ci_prefix (fst (hs ! i)) ''Sec-WebSocket-Key'') [0..<length hs] = Some i"
    using find_index [OF key(1)] by blast
  have sel: "select_websocket_client_key req [0..<length hs] = Some (Some (off_value i))"
    using select_key_eq [OF H, of "[0..<length hs]"] f by simp
  note F = holds_header [OF H i(1), unfolded i(2) snd_conv]
  define a where "a = b64 (sha1_ref (key @ websocket_accept_guid))"
  have la: "length a = 28" by (simp add: a_def length_b64 length_sha1_ref)
  have gen: "generate_websocket_acceptkey concatenated ctx0 (drop (off_value i) req) 256 accept_key = Some (True, blit accept_key 0 (a @ [0]))"
    using generate_websocket_acceptkey_ok [of "drop (off_value i) req" concatenated ctx0 accept_key 256] field_cstr [OF F(2,4)] key(2) stack
    by (simp add: a_def)
  have sp: "switching_protocols key = OK_MESSAGE @ a @ [13, 10, 13, 10]" by (simp add: switching_protocols_def a_def)
  have build: "build_handshake_packet (blit accept_key 0 (a @ [0])) 256 response capacity = Some (True, blit response 0 (switching_protocols key @ [0]))"
    using build_handshake_packet_ok [of a capacity response accept_key] cap la b64_no_0 [of "sha1_ref (key @ websocket_accept_guid)"]
    by (simp add: sp a_def)
  have ls: "length (switching_protocols key) = 129" by (simp add: sp la length_OK_MESSAGE)
  have "0 \<notin> set (switching_protocols key)" using OK_MESSAGE_no_0 b64_no_0 by (simp add: switching_protocols_def)
  then have c: "cstr (blit response 0 (switching_protocols key @ [0])) = switching_protocols key" using cstr_append by (simp add: blit_def)
  have "response \<noteq> []" using cap by auto
  then have len: "nostr_strnlen (blit response 0 (switching_protocols key @ [0])) capacity = Some 129"
    using nostr_strnlen_eq [of capacity "blit response 0 (switching_protocols key @ [0])"] cap ls by (simp add: c)
  have pk: "peek (blit response 0 (switching_protocols key @ [0])) 0 129 = Some (switching_protocols key)"
    using cap ls by (simp add: blit_def slice_def)
  show ?thesis
    unfolding client_handshake_def no_nip11 [OF H n] is_valid_request_eq [OF H] holds_parts(5) [OF H] sel gen build len websocket_send_def pk
      Option.bind.bind_lunit prod.case
    using good gen build len pk by (simp add: websocket_send_def ws_env.defs split: prod.split)
qed

lemma extracted_holds:
  assumes "32 \<notin> set m" "length m < HTTP_METHOD_CAPACITY" "32 \<notin> set t" "length t < HTTP_TARGET_CAPACITY"
    and "length v < HTTP_VERSION_CAPACITY" "set (m @ t @ v) \<inter> {0, 10, 13} = {}"
    and "hs \<noteq> []" "\<forall>h \<in> set hs. header_ok h" "length hs \<le> HTTP_HEADER_CAPACITY"
    and "length request = sizeof_request" "n = length (request_text m t v hs)" "n < 2 ^ 64"
  shows "\<exists>req. extract_http_request (request_text m t v hs @ rest) n request = Some (True, req) \<and> holds_request req m t v hs"
proof -
  have "0 \<notin> set (m @ t @ v)" using assms(6) by blast
  then show ?thesis using extract_http_request_ok [OF assms, of rest] assms(4,8,9) unfolding holds_request_def by blast
qed

section \<open>Properties\<close>

text \<open>
  C7: The opening handshake of RFC 6455, from the bytes of the request to the bytes of the response: a
  well-formed request that passes the tests of the server is parsed, and for the first header that starts like
  \<open>Sec-WebSocket-Key\<close> exactly one response is sent, \<open>101 Switching Protocols\<close> with the base64 text of the SHA-1
  digest of the key and the GUID. The connection becomes a WebSocket exactly when that send succeeds.
\<close>

theorem client_handshake_switches_protocols:
  assumes "32 \<notin> set m" "length m < HTTP_METHOD_CAPACITY" "32 \<notin> set t" "length t < HTTP_TARGET_CAPACITY"
    and "length v < HTTP_VERSION_CAPACITY" "set (m @ t @ v) \<inter> {0, 10, 13} = {}"
    and "hs \<noteq> []" "\<forall>h \<in> set hs. header_ok h" "length hs \<le> HTTP_HEADER_CAPACITY"
    and "length request = sizeof_request" "n = length (request_text m t v hs)" "n < 2 ^ 64"
    and "handshake_callback env = None \<or> \<not> (\<exists>h \<in> set hs. asks_nip11 h)" "request_valid m t v hs"
    and "List.find (\<lambda>h. ci_prefix (fst h) ''Sec-WebSocket-Key'') hs = Some (k, key)" "length key \<le> 219"
    and "length accept_key = 256" "length concatenated = 256" "length (sc_buffer ctx0) = 64"
    and "130 < capacity" "capacity = length response"
  shows "\<exists>req. extract_http_request (request_text m t v hs @ rest) n request = Some (True, req) \<and>
    client_handshake env (accept_key, concatenated, ctx0) client_sock req capacity response s =
      (let (r, s') = sendto env client_sock (switching_protocols key) s;
           e = get_send_err (ws_env.truncate env) r s'
       in Some (if e = WEBSOCKET_ERRORCODE_NONE then HANDSHAKE_RESULT_WEBSOCKET else HANDSHAKE_RESULT_ERROR,
                blit response 0 (switching_protocols key @ [0]), s'))"
proof -
  obtain req where req: "extract_http_request (request_text m t v hs @ rest) n request = Some (True, req)" "holds_request req m t v hs"
    using extracted_holds [OF assms(1-12), of rest] by (elim exE conjE)
  show ?thesis using req(1) client_handshake_ok [OF req(2) assms(13-21), of client_sock s] by (intro exI conjI)
qed

text \<open>
  C8: A well-formed request that fails a test of the server, or that names no \<open>Sec-WebSocket-Key\<close>, is refused:
  the result is the error, and nothing is sent (the state and the response buffer are as before).
\<close>

theorem client_handshake_refuses:
  assumes "32 \<notin> set m" "length m < HTTP_METHOD_CAPACITY" "32 \<notin> set t" "length t < HTTP_TARGET_CAPACITY"
    and "length v < HTTP_VERSION_CAPACITY" "set (m @ t @ v) \<inter> {0, 10, 13} = {}"
    and "hs \<noteq> []" "\<forall>h \<in> set hs. header_ok h" "length hs \<le> HTTP_HEADER_CAPACITY"
    and "length request = sizeof_request" "n = length (request_text m t v hs)" "n < 2 ^ 64"
    and "handshake_callback env = None \<or> \<not> (\<exists>h \<in> set hs. asks_nip11 h)"
    and "\<not> request_valid m t v hs \<or> \<not> (\<exists>h \<in> set hs. ci_prefix (fst h) ''Sec-WebSocket-Key'')"
  shows "\<exists>req. extract_http_request (request_text m t v hs @ rest) n request = Some (True, req) \<and>
    client_handshake env stack client_sock req capacity response s = Some (HANDSHAKE_RESULT_ERROR, response, s)"
proof -
  obtain req where req: "extract_http_request (request_text m t v hs @ rest) n request = Some (True, req)" "holds_request req m t v hs"
    using extracted_holds [OF assms(1-12), of rest] by (elim exE conjE)
  show ?thesis using req(1) client_handshake_invalid [OF req(2) assms(13-14), of stack client_sock capacity response s] by (intro exI conjI)
qed

text \<open>The request and the key of the example of RFC 6455, against a peer that records what it is sent.\<close>

definition example_headers :: "(byte list \<times> byte list) list" where
  "example_headers = map (\<lambda>(k, v). (text_of k, text_of v))
     [(''Host'', ''server.example.com''), (''Upgrade'', ''websocket''), (''Connection'', ''Upgrade''),
      (''Sec-WebSocket-Key'', ''dGhlIHNhbXBsZSBub25jZQ==''), (''Sec-WebSocket-Version'', ''13'')]"

definition example_env :: "byte list list accept_env" where
  "example_env = \<lparr>recvfrom = (\<lambda>_ _ s. (0, [], s)), sendto = (\<lambda>_ bs s. (int (length bs), bs # s)), errno = (\<lambda>_. 0),
     is_rise_signal = (\<lambda>_. False), receive_callback = None, handshake_callback = None, connect_callback = None,
     accept_client = (\<lambda>_ s. (4, s)), epoll_add = (\<lambda>_ _ s. (True, s)), epoll_del = (\<lambda>_ _ s. s), close_fd = (\<lambda>_ s. s)\<rparr>"

lemma example_headers_ok: "\<forall>h \<in> set example_headers. header_ok h" "\<forall>h \<in> set example_headers. header_valid h"
  by code_simp+

lemma length_switching_protocols: "length (switching_protocols key) = 129"
  by (simp add: switching_protocols_def length_OK_MESSAGE length_b64 length_sha1_ref)

lemma example_request:
  "32 \<notin> set (text_of ''GET'')" "length (text_of ''GET'') < 16" "32 \<notin> set (text_of ''/chat'')" "length (text_of ''/chat'') < 256"
  "length (text_of ''HTTP/1.1'') < 16" "set (text_of ''GET'' @ text_of ''/chat'' @ text_of ''HTTP/1.1'') \<inter> {0, 10, 13} = {}"
  "example_headers \<noteq> []" "length example_headers \<le> 32"
  by code_simp+

lemma example_length: "length (request_text (text_of ''GET'') (text_of ''/chat'') (text_of ''HTTP/1.1'') example_headers) < 2 ^ 64"
proof -
  have "length (request_text (text_of ''GET'') (text_of ''/chat'') (text_of ''HTTP/1.1'') example_headers) < 256" by code_simp
  then show ?thesis by (rule less_trans) simp
qed

lemma example_state:
  "length (replicate 9512 (7 :: byte)) = sizeof_request" "handshake_callback example_env = None \<or> Q"
  "sendto example_env c bs s = (int (length bs), bs # s)" "get_send_err (ws_env.truncate example_env) (int (length (switching_protocols key))) s' = 0"
  by (simp_all add: sizeof_request_def example_env_def length_switching_protocols get_send_err_def ws_env.defs)

theorem client_handshake_switches_protocols_witness:
  "\<exists>req. extract_http_request (request_text (text_of ''GET'') (text_of ''/chat'') (text_of ''HTTP/1.1'') example_headers @ [])
       (length (request_text (text_of ''GET'') (text_of ''/chat'') (text_of ''HTTP/1.1'') example_headers)) (replicate 9512 7) = Some (True, req) \<and>
     client_handshake example_env (replicate 256 1, replicate 256 2, \<lparr>sc_state = [], sc_count0 = 7, sc_count1 = 8, sc_buffer = replicate 64 9\<rparr>)
       5 req 200 (replicate 200 3) [] =
     Some (1, blit (replicate 200 3) 0 (switching_protocols (text_of ''dGhlIHNhbXBsZSBub25jZQ=='') @ [0]),
       [switching_protocols (text_of ''dGhlIHNhbXBsZSBub25jZQ=='')])"
proof -
  have f: "List.find (\<lambda>h. ci_prefix (fst h) ''Sec-WebSocket-Key'') example_headers =
    Some (text_of ''Sec-WebSocket-Key'', text_of ''dGhlIHNhbXBsZSBub25jZQ=='')" by code_simp
  have v: "request_valid (text_of ''GET'') (text_of ''/chat'') (text_of ''HTTP/1.1'') example_headers"
    "length (text_of ''dGhlIHNhbXBsZSBub25jZQ=='') \<le> 219" by code_simp+
  have l: "length (replicate 256 (1 :: byte)) = 256" "length (replicate 256 (2 :: byte)) = 256"
    "length (sc_buffer \<lparr>sc_state = [], sc_count0 = 7, sc_count1 = 8, sc_buffer = replicate 64 9\<rparr>) = 64" "(130 :: nat) < 200" "200 = length (replicate 200 (3 :: byte))"
    by simp_all
  show ?thesis
    using client_handshake_switches_protocols [OF example_request(1-7) example_headers_ok(1) example_request(8) example_state(1) refl example_length
      example_state(2) v(1) f v(2) l, where rest = "[]" and client_sock = 5 and s = "[]"]
    unfolding example_state(3) Let_def prod.case example_state(4) by (simp only: simp_thms if_True)
qed

theorem client_handshake_refuses_witness:
  "\<exists>req. extract_http_request (request_text (text_of ''GET'') (text_of ''/chat'') (text_of ''HTTP/1.1'') (tl example_headers @ [(text_of ''Upgrade'', text_of ''h2c'')]) @ [])
       (length (request_text (text_of ''GET'') (text_of ''/chat'') (text_of ''HTTP/1.1'') (tl example_headers @ [(text_of ''Upgrade'', text_of ''h2c'')]))) (replicate 9512 7) = Some (True, req) \<and>
     client_handshake example_env (replicate 256 1, replicate 256 2, \<lparr>sc_state = [], sc_count0 = 7, sc_count1 = 8, sc_buffer = replicate 64 9\<rparr>)
       5 req 200 (replicate 200 3) [] = Some (- 1, replicate 200 3, [])"
proof -
  let ?hs = "tl example_headers @ [(text_of ''Upgrade'', text_of ''h2c'')]"
  have r: "?hs \<noteq> []" "\<forall>h \<in> set ?hs. header_ok h" "length ?hs \<le> 32"
    "\<not> request_valid (text_of ''GET'') (text_of ''/chat'') (text_of ''HTTP/1.1'') ?hs"
    by code_simp+
  have "length (request_text (text_of ''GET'') (text_of ''/chat'') (text_of ''HTTP/1.1'') ?hs) < 256" by code_simp
  then have n: "length (request_text (text_of ''GET'') (text_of ''/chat'') (text_of ''HTTP/1.1'') ?hs) < 2 ^ 64" by (rule less_trans) simp
  show ?thesis
    by (rule client_handshake_refuses [OF example_request(1-6) r(1-3) example_state(1) refl n example_state(2) disjI1 [OF r(4)]])
qed

end
